(* ===== verification/Vmc_Prelude.thy ===== *)
theory Vmc_Prelude
  imports Main "HOL-Library.Word"
begin

unbundle bit_operations_syntax

text \<open>
  Shared ground of the development: the fixed-width types of
  \<^verbatim>\<open>include/vmc/core/types.h\<close>, the byte-array operations behind \<^verbatim>\<open>memcpy\<close> and
  \<^verbatim>\<open>memset\<close>, the two's complement reading of a word, C's truncating division, and the
  generic facts on lists and words that the component theories use.

  A C buffer is a list of bytes whose length is its capacity. \<open>mem_write\<close> overwrites a
  run of it in place and \<open>mem_read\<close> copies a run out of it. Unsigned C integers are
  words of their width, so that addition and subtraction wrap as they do in C.
\<close>

section \<open>Types\<close>

type_synonym u8 = "8 word"
type_synonym u16 = "16 word"
type_synonym u32 = "32 word"
type_synonym u64 = "64 word"
type_synonym sz_t = "64 word"
type_synonym vmc_status = int
type_synonym bytes = "u8 list"

named_theorems status_defs "the status codes of error.h"
named_theorems const_defs "the numeric constants of the headers"

section \<open>Byte buffers\<close>

definition mem_write :: "'a list \<Rightarrow> nat \<Rightarrow> 'a list \<Rightarrow> 'a list" where
  "mem_write buf off src = take off buf @ src @ drop (off + length src) buf"

definition mem_read :: "'a list \<Rightarrow> nat \<Rightarrow> nat \<Rightarrow> 'a list" where
  "mem_read buf off n = take n (drop off buf)"

lemma length_mem_write [simp]:
  "off + length src \<le> length buf \<Longrightarrow> length (mem_write buf off src) = length buf"
  by (simp add: mem_write_def)

lemma nth_mem_write:
  assumes "off + length src \<le> length buf" and "i < length buf"
  shows "mem_write buf off src ! i =
    (if off \<le> i \<and> i < off + length src then src ! (i - off) else buf ! i)"
  using assms by (auto simp: mem_write_def nth_append min_def)

lemma length_mem_read [simp]: "length (mem_read buf off n) = min n (length buf - off)"
  by (simp add: mem_read_def)

lemma nth_mem_read [simp]:
  "off + n \<le> length buf \<Longrightarrow> i < n \<Longrightarrow> mem_read buf off n ! i = buf ! (off + i)"
  by (simp add: mem_read_def)

lemma mem_read_write_same [simp]:
  "off + length src \<le> length buf \<Longrightarrow> n = length src \<Longrightarrow>
    mem_read (mem_write buf off src) off n = src"
  by (simp add: mem_read_def mem_write_def)

lemma mem_write_empty [simp]: "off \<le> length buf \<Longrightarrow> mem_write buf off [] = buf"
  by (simp add: mem_write_def)

lemma take_mem_write_before:
  "n \<le> off \<Longrightarrow> off \<le> length buf \<Longrightarrow> take n (mem_write buf off src) = take n buf"
  by (simp add: mem_write_def)

lemma take_mem_write_end:
  "off \<le> length buf \<Longrightarrow> n = off + length src \<Longrightarrow>
    take n (mem_write buf off src) = take off buf @ src"
  by (simp add: mem_write_def)

section \<open>Circular buffers on natural-number indices\<close>

text \<open>
  A two-part copy into a circular buffer, as every ring of the code does it: up to the end
  of the storage first, the rest at its start.
\<close>

definition ring_store :: "'a list \<Rightarrow> nat \<Rightarrow> 'a list \<Rightarrow> 'a list" where
  "ring_store buf pos src =
     (let n1 = min (length src) (length buf - pos);
          buf1 = mem_write buf pos (take n1 src)
      in if length src > n1 then mem_write buf1 0 (drop n1 src) else buf1)"

definition ring_load :: "'a list \<Rightarrow> nat \<Rightarrow> nat \<Rightarrow> 'a list" where
  "ring_load buf pos n =
     (let n1 = min n (length buf - pos)
      in if n > n1 then mem_read buf pos n1 @ mem_read buf 0 (n - n1) else mem_read buf pos n1)"

lemma length_ring_store [simp]:
  "pos < length buf \<Longrightarrow> length src \<le> length buf \<Longrightarrow> length (ring_store buf pos src) = length buf"
  by (auto simp: ring_store_def Let_def min_def)

lemma ring_index_cases:
  fixes pos j cap :: nat
  assumes "pos < cap" and "j < cap"
  shows "(pos + j) mod cap = (if j < cap - pos then pos + j else pos + j - cap)"
  using assms by (auto simp: mod_if)

lemma ring_store_fits:
  "length src \<le> length buf - pos \<Longrightarrow> ring_store buf pos src = mem_write buf pos src"
  by (simp add: ring_store_def Let_def min_def)

lemma ring_store_wraps:
  assumes "length buf - pos < length src"
  shows "ring_store buf pos src =
    mem_write (mem_write buf pos (take (length buf - pos) src)) 0 (drop (length buf - pos) src)"
  using assms by (simp add: ring_store_def Let_def min_def)

lemma nth_ring_store:
  assumes pos: "pos < length buf" and len: "length src \<le> length buf" and j: "j < length buf"
  shows "ring_store buf pos src ! ((pos + j) mod length buf) =
    (if j < length src then src ! j else buf ! ((pos + j) mod length buf))"
proof -
  let ?cap = "length buf" and ?p = "(pos + j) mod length buf"
  have p: "?p = (if j < ?cap - pos then pos + j else pos + j - ?cap)"
    using pos j by (rule ring_index_cases)
  have p_lt: "?p < ?cap" using p pos j by auto
  show ?thesis
  proof (cases "length src \<le> ?cap - pos")
    case True
    then have "pos + length src \<le> ?cap" using pos by simp
    with True p p_lt pos j show ?thesis
      by (auto simp: ring_store_fits nth_mem_write)
  next
    case False
    let ?b1 = "mem_write buf pos (take (?cap - pos) src)"
    have l1: "length (take (?cap - pos) src) = ?cap - pos" using False by simp
    have b1: "length ?b1 = ?cap" using l1 pos by simp
    have l2: "0 + length (drop (?cap - pos) src) \<le> length ?b1" using len b1 by simp
    have "ring_store buf pos src ! ?p =
        (if ?p < length src - (?cap - pos) then src ! (?cap - pos + ?p) else ?b1 ! ?p)"
      using False p_lt b1 nth_mem_write [OF l2, of ?p]
      by (simp add: ring_store_wraps)
    moreover have "?b1 ! ?p = (if pos \<le> ?p then src ! (?p - pos) else buf ! ?p)"
      using l1 pos p_lt by (simp add: nth_mem_write)
    ultimately show ?thesis
      using p pos len j False by (cases "j < ?cap - pos") auto
  qed
qed

lemma length_ring_load [simp]:
  "pos < length buf \<Longrightarrow> n \<le> length buf \<Longrightarrow> length (ring_load buf pos n) = n"
  by (auto simp: ring_load_def Let_def min_def)

lemma nth_ring_load:
  assumes "pos < length buf" and "n \<le> length buf" and "j < n"
  shows "ring_load buf pos n ! j = buf ! ((pos + j) mod length buf)"
  using assms by (auto simp: ring_load_def Let_def min_def ring_index_cases nth_append add.commute)

text \<open>Head and tail cursors of a ring of \<open>N\<close> records that are reduced at every advance.\<close>

lemma ring_dist:
  assumes "h < N" "t < (N :: nat)"
  shows "(h + N - t) mod N = (if t \<le> h then h - t else h + N - t)"
  using assms by (simp add: mod_if)

lemma ring_back:
  assumes "h < N" "t < (N :: nat)" "j \<le> (h + N - t) mod N"
  shows "(t + j) mod N = h \<longleftrightarrow> j = (h + N - t) mod N"
proof (cases "t \<le> h")
  case True
  then have "(h + N - t) mod N = h - t" using ring_dist [OF assms(1,2)] by simp
  then show ?thesis using assms True by (auto simp: mod_if)
next
  case False
  then have "(h + N - t) mod N = h + N - t" using ring_dist [OF assms(1,2)] by simp
  then show ?thesis using assms False by (auto simp: mod_if)
qed

lemma ring_push:
  assumes "h < N" "t < (N :: nat)" "Suc ((h + N - t) mod N) < N"
  shows "((h + 1) mod N + N - t) mod N = Suc ((h + N - t) mod N)"
proof -
  have "(h + 1) mod N = (if h + 1 = N then 0 else h + 1)" using assms by auto
  then show ?thesis using assms by (auto simp: ring_dist split: if_splits)
qed

lemma ring_pop:
  assumes "h < N" "t < (N :: nat)" "h \<noteq> t"
  shows "Suc ((h + N - (t + 1) mod N) mod N) = (h + N - t) mod N"
proof -
  have "(t + 1) mod N = (if t + 1 = N then 0 else t + 1)" using assms by auto
  then show ?thesis using assms by (auto simp: ring_dist split: if_splits)
qed

section \<open>Linear scans\<close>

text \<open>The loop \<^verbatim>\<open>for (i = 0; i < n; i++) if (P(a[i])) return i;\<close>, \<open>None\<close> when it falls through.\<close>

fun first_index :: "('a \<Rightarrow> bool) \<Rightarrow> 'a list \<Rightarrow> nat option" where
  "first_index P [] = None"
| "first_index P (x # xs) = (if P x then Some 0 else map_option Suc (first_index P xs))"

lemma first_index_None [simp]: "first_index P xs = None \<longleftrightarrow> (\<forall>x \<in> set xs. \<not> P x)"
  by (induction xs) auto

lemma first_index_Some:
  "first_index P xs = Some i \<Longrightarrow> i < length xs \<and> P (xs ! i) \<and> (\<forall>j < i. \<not> P (xs ! j))"
proof (induction xs arbitrary: i)
  case (Cons x xs)
  then show ?case
    by (auto simp: nth_Cons less_Suc_eq_0_disj split: if_splits nat.splits)
qed simp

lemma set_update_split:
  "i < length xs \<Longrightarrow> xs = take i xs @ xs ! i # drop (Suc i) xs"
  "i < length xs \<Longrightarrow> xs[i := y] = take i xs @ y # drop (Suc i) xs"
  by (simp_all add: id_take_nth_drop [symmetric] upd_conv_take_nth_drop)

section \<open>Words\<close>

lemma unat_bound: "unat (w :: 'a::len word) < 2 ^ LENGTH('a)"
  by (rule unsigned_less)

lemma unat_pow_word64:
  assumes "k < 64"
  shows "unat (2 ^ k :: 64 word) = 2 ^ k"
proof -
  have "(2::nat) ^ k < 2 ^ 64" using assms by (rule power_strict_increasing) simp
  then have "unat (of_nat (2 ^ k) :: 64 word) = 2 ^ k" by (subst unat_of_nat) simp
  then show ?thesis by simp
qed

lemma unat_and_mask: "unat (x AND mask n :: 'a::len word) = unat x mod 2 ^ n"
  by (simp flip: take_bit_eq_mask take_bit_eq_mod add: unsigned_take_bit_eq)

lemma unat_ucast_up:
  assumes "LENGTH('a::len) \<le> LENGTH('b::len)"
  shows "unat (ucast (w :: 'a word) :: 'b word) = unat w"
proof -
  have "(2::nat) ^ LENGTH('a) \<le> 2 ^ LENGTH('b)" using assms by (rule power_increasing) simp
  with unat_bound [of w] have "unat w < 2 ^ LENGTH('b)" by (rule less_le_trans)
  then show ?thesis by (simp add: unsigned_ucast_eq take_bit_nat_eq_self)
qed

lemma unat_add_no_wrap:
  fixes a b :: "'a::len word"
  assumes "unat a + unat b < 2 ^ LENGTH('a)"
  shows "unat (a + b) = unat a + unat b"
  using assms unat_add_lem by blast

lemma unat_sub_no_wrap:
  fixes a b :: "'a::len word"
  assumes "b \<le> a"
  shows "unat (a - b) = unat a - unat b"
  using assms by (rule unat_sub)

text \<open>A narrowing cast commutes with addition and subtraction.\<close>

lemma take_bit_of_sum: "n \<le> m \<Longrightarrow> take_bit n (take_bit m a + take_bit m b) = take_bit n (a + b :: int)"
  by (subst (1 2) take_bit_add [symmetric]) (simp add: min_def)

lemma take_bit_of_diff: "n \<le> m \<Longrightarrow> take_bit n (take_bit m a - take_bit m b) = take_bit n (a - b :: int)"
  by (subst (1 2) take_bit_diff [symmetric]) (simp add: min_def)

lemma ucast_down_add:
  assumes "LENGTH('b::len) \<le> LENGTH('a::len)"
  shows "ucast (a + b :: 'a word) = (ucast a + ucast b :: 'b word)"
  using assms by transfer (simp add: min_def take_bit_of_sum)

lemma ucast_down_sub:
  assumes "LENGTH('b::len) \<le> LENGTH('a::len)"
  shows "ucast (a - b :: 'a word) = (ucast a - ucast b :: 'b word)"
  using assms by transfer (simp add: min_def take_bit_of_diff)

section \<open>Signed arithmetic of C\<close>

text \<open>C's integer division truncates towards zero.\<close>

definition c_div :: "int \<Rightarrow> int \<Rightarrow> int" where
  "c_div a b = sgn a * sgn b * (\<bar>a\<bar> div \<bar>b\<bar>)"

lemma c_div_nonneg [simp]: "0 \<le> a \<Longrightarrow> 0 < b \<Longrightarrow> c_div a b = a div b"
  by (cases "a = 0") (simp_all add: c_div_def)

lemma c_div_neg: "a < 0 \<Longrightarrow> 0 < b \<Longrightarrow> c_div a b = - ((- a) div b)"
  by (simp add: c_div_def)

lemma c_div_zero [simp]: "c_div 0 b = 0"
  by (simp add: c_div_def)

lemma abs_c_div_le:
  assumes "0 < b" shows "\<bar>c_div a b\<bar> \<le> \<bar>a\<bar> div b"
  using assms by (cases "a < 0") (auto simp: c_div_neg div_nonpos_pos_le0 pos_imp_zdiv_nonneg_iff)

section \<open>Status codes (\<open>error.h\<close>)\<close>

definition VMC_OK :: vmc_status where [status_defs]: "VMC_OK = 0"
definition VMC_ERR_GENERAL :: vmc_status where [status_defs]: "VMC_ERR_GENERAL = -1"
definition VMC_ERR_INVALID_ARG :: vmc_status where [status_defs]: "VMC_ERR_INVALID_ARG = -2"
definition VMC_ERR_NOMEM :: vmc_status where [status_defs]: "VMC_ERR_NOMEM = -3"
definition VMC_ERR_NOSYS :: vmc_status where [status_defs]: "VMC_ERR_NOSYS = -4"
definition VMC_ERR_TIMEOUT :: vmc_status where [status_defs]: "VMC_ERR_TIMEOUT = -5"
definition VMC_ERR_BUSY :: vmc_status where [status_defs]: "VMC_ERR_BUSY = -6"
definition VMC_ERR_IO :: vmc_status where [status_defs]: "VMC_ERR_IO = -7"
definition VMC_ERR_PROTO :: vmc_status where [status_defs]: "VMC_ERR_PROTO = -8"
definition VMC_ERR_CORRUPT :: vmc_status where [status_defs]: "VMC_ERR_CORRUPT = -9"
definition VMC_ERR_AGAIN :: vmc_status where [status_defs]: "VMC_ERR_AGAIN = -10"
definition VMC_ERR_OVERRUN :: vmc_status where [status_defs]: "VMC_ERR_OVERRUN = -11"
definition VMC_ERR_NOT_FOUND :: vmc_status where [status_defs]: "VMC_ERR_NOT_FOUND = -12"
definition VMC_ERR_INVALID_STATE :: vmc_status where [status_defs]: "VMC_ERR_INVALID_STATE = -13"
definition VMC_ERR_NOT_CONNECTED :: vmc_status where [status_defs]: "VMC_ERR_NOT_CONNECTED = -14"
definition VMC_ERR_OUT_OF_SYNC :: vmc_status where [status_defs]: "VMC_ERR_OUT_OF_SYNC = -15"
definition VMC_ERR_NO_MEDIA :: vmc_status where [status_defs]: "VMC_ERR_NO_MEDIA = -16"

end
