(* ===== verification/Ring_Buffer.thy ===== *)
theory Ring_Buffer
  imports Vmc_Prelude
begin

unbundle bit_operations_syntax

text \<open>
  The fixed-capacity byte ring buffer of \<^verbatim>\<open>src/core/ringbuf.c\<close>: caller-provided
  storage of a power-of-two size, free-running 64-bit head and tail offsets reduced by a
  mask, and an explicit byte count. The development's contract of a bounded byte queue is
  the locale \<open>byte_fifo\<close>; the ring buffer is shown to implement it, and the client facts
  (order of delivery, conservation of bytes) are proved once against the contract.
\<close>

section \<open>State and operations\<close>

record vmc_ringbuf =
  rb_data :: bytes
  rb_cmask :: sz_t
  rb_head :: sz_t
  rb_tail :: sz_t
  rb_count :: sz_t

definition rb_mask :: "vmc_ringbuf \<Rightarrow> sz_t \<Rightarrow> sz_t" where
  "rb_mask rb idx = idx AND rb_cmask rb"

definition is_pow2_or_zero :: "sz_t \<Rightarrow> bool" where
  "is_pow2_or_zero n \<longleftrightarrow> n \<noteq> 0 \<and> n AND (n - 1) = 0"

text \<open>A null \<open>rb\<close> or \<open>storage\<close> pointer is \<open>None\<close>; the ring is written only on success.\<close>

definition vmc_ringbuf_init ::
  "vmc_ringbuf option \<Rightarrow> bytes option \<Rightarrow> sz_t \<Rightarrow> vmc_status \<times> vmc_ringbuf option" where
  "vmc_ringbuf_init rb storage capacity =
     (case (rb, storage) of
        (Some r, Some st) \<Rightarrow>
          if \<not> is_pow2_or_zero capacity then (VMC_ERR_INVALID_ARG, rb)
          else (VMC_OK, Some (r\<lparr>rb_data := st, rb_cmask := capacity - 1,
                                rb_head := 0, rb_tail := 0, rb_count := 0\<rparr>))
      | _ \<Rightarrow> (VMC_ERR_INVALID_ARG, rb))"

definition vmc_ringbuf_reset :: "vmc_ringbuf \<Rightarrow> vmc_ringbuf" where
  "vmc_ringbuf_reset rb = rb\<lparr>rb_head := 0, rb_tail := 0, rb_count := 0\<rparr>"

definition vmc_ringbuf_capacity :: "vmc_ringbuf \<Rightarrow> sz_t" where
  "vmc_ringbuf_capacity rb = rb_cmask rb + 1"

definition vmc_ringbuf_used :: "vmc_ringbuf \<Rightarrow> sz_t" where
  "vmc_ringbuf_used rb = rb_count rb"

definition vmc_ringbuf_free :: "vmc_ringbuf \<Rightarrow> sz_t" where
  "vmc_ringbuf_free rb = vmc_ringbuf_capacity rb - rb_count rb"

definition vmc_ringbuf_empty :: "vmc_ringbuf \<Rightarrow> bool" where
  "vmc_ringbuf_empty rb \<longleftrightarrow> rb_count rb = 0"

definition vmc_ringbuf_full :: "vmc_ringbuf \<Rightarrow> bool" where
  "vmc_ringbuf_full rb \<longleftrightarrow> rb_count rb = vmc_ringbuf_capacity rb"

text \<open>
  \<open>data\<close> is the caller's source buffer, of which the call reads at most \<open>len\<close> bytes.
  The result is the number of bytes accepted and the new ring.
\<close>

definition vmc_ringbuf_write :: "vmc_ringbuf \<Rightarrow> bytes \<Rightarrow> sz_t \<Rightarrow> sz_t \<times> vmc_ringbuf" where
  "vmc_ringbuf_write rb data len0 =
     (if len0 = 0 then (0, rb)
      else let len = (if len0 > vmc_ringbuf_free rb then vmc_ringbuf_free rb else len0);
               cap = vmc_ringbuf_capacity rb;
               first = cap - rb_mask rb (rb_head rb);
               n1 = (if len < first then len else first);
               d1 = mem_write (rb_data rb) (unat (rb_mask rb (rb_head rb)))
                      (take (unat n1) data);
               d2 = (if len > n1
                     then mem_write d1 0 (take (unat (len - n1)) (drop (unat n1) data))
                     else d1)
           in (len, rb\<lparr>rb_data := d2, rb_head := rb_head rb + len,
                       rb_count := rb_count rb + len\<rparr>))"

text \<open>
  The two-part copy out of the ring into the caller's buffer \<open>out\<close>, shared by
  \<open>vmc_ringbuf_read\<close> and \<open>vmc_ringbuf_peek\<close>.
\<close>

definition rb_copy_out :: "vmc_ringbuf \<Rightarrow> bytes \<Rightarrow> sz_t \<Rightarrow> bytes" where
  "rb_copy_out rb out len =
     (let cap = vmc_ringbuf_capacity rb;
          first = cap - rb_mask rb (rb_tail rb);
          n1 = (if len < first then len else first);
          o1 = mem_write out 0 (mem_read (rb_data rb) (unat (rb_mask rb (rb_tail rb))) (unat n1))
      in if len > n1
         then mem_write o1 (unat n1) (mem_read (rb_data rb) 0 (unat (len - n1)))
         else o1)"

text \<open>The destination of a read may be a null pointer, which drops the bytes.\<close>

definition vmc_ringbuf_read ::
  "vmc_ringbuf \<Rightarrow> bytes option \<Rightarrow> sz_t \<Rightarrow> sz_t \<times> bytes option \<times> vmc_ringbuf" where
  "vmc_ringbuf_read rb out len0 =
     (let len = (if len0 > rb_count rb then rb_count rb else len0)
      in if len = 0 then (0, out, rb)
         else (len, map_option (\<lambda>o1. rb_copy_out rb o1 len) out,
               rb\<lparr>rb_tail := rb_tail rb + len, rb_count := rb_count rb - len\<rparr>))"

definition vmc_ringbuf_peek :: "vmc_ringbuf \<Rightarrow> bytes \<Rightarrow> sz_t \<Rightarrow> sz_t \<times> bytes" where
  "vmc_ringbuf_peek rb out len0 =
     (let len = (if len0 > rb_count rb then rb_count rb else len0)
      in if len = 0 then (0, out) else (len, rb_copy_out rb out len))"

definition vmc_ringbuf_discard :: "vmc_ringbuf \<Rightarrow> sz_t \<Rightarrow> sz_t \<times> vmc_ringbuf" where
  "vmc_ringbuf_discard rb len0 =
     (let len = (if len0 > rb_count rb then rb_count rb else len0)
      in (len, rb\<lparr>rb_tail := rb_tail rb + len, rb_count := rb_count rb - len\<rparr>))"

section \<open>Invariant and abstraction\<close>

definition rb_inv :: "vmc_ringbuf \<Rightarrow> bool" where
  "rb_inv rb \<longleftrightarrow>
     (\<exists>k < 64. rb_cmask rb = mask k \<and> length (rb_data rb) = 2 ^ k) \<and>
     unat (rb_count rb) \<le> length (rb_data rb) \<and>
     rb_head rb = rb_tail rb + rb_count rb"

text \<open>The bytes held, oldest first.\<close>

definition rb_list :: "vmc_ringbuf \<Rightarrow> bytes" where
  "rb_list rb = ring_load (rb_data rb) (unat (rb_tail rb) mod length (rb_data rb))
                  (unat (rb_count rb))"

lemma rb_invE:
  assumes "rb_inv rb"
  obtains k where "k < 64" "rb_cmask rb = mask k" "length (rb_data rb) = 2 ^ k"
    "unat (rb_count rb) \<le> 2 ^ k" "rb_head rb = rb_tail rb + rb_count rb"
  using assms unfolding rb_inv_def by force

lemma unat_add_mod_pow:
  fixes a b :: "64 word"
  assumes "k < 64"
  shows "unat (a + b) mod 2 ^ k = (unat a + unat b) mod 2 ^ k"
proof -
  have "(2::nat) ^ k dvd 2 ^ 64" using assms by (intro le_imp_power_dvd) simp
  then show ?thesis by (simp add: unat_word_ariths mod_mod_cancel)
qed

lemma rb_capacity:
  assumes "rb_inv rb"
  shows "unat (vmc_ringbuf_capacity rb) = length (rb_data rb)"
proof -
  from assms obtain k where k: "k < 64" "rb_cmask rb = mask k" "length (rb_data rb) = 2 ^ k"
    by (rule rb_invE)
  have "vmc_ringbuf_capacity rb = 2 ^ k"
    by (simp add: vmc_ringbuf_capacity_def k mask_eq_exp_minus_1)
  with k show ?thesis by (simp add: unat_pow_word64)
qed

lemma rb_data_pos: "rb_inv rb \<Longrightarrow> 0 < length (rb_data rb)"
  by (auto elim: rb_invE)

lemma rb_mask_unat:
  assumes "rb_inv rb"
  shows "unat (rb_mask rb x) = unat x mod length (rb_data rb)"
  using assms by (elim rb_invE) (simp add: rb_mask_def unat_and_mask)

lemma rb_free:
  assumes "rb_inv rb"
  shows "unat (vmc_ringbuf_free rb) = length (rb_data rb) - unat (rb_count rb)"
proof -
  have "rb_count rb \<le> vmc_ringbuf_capacity rb"
    using assms rb_capacity [OF assms] by (simp add: rb_inv_def word_le_nat_alt)
  then show ?thesis
    by (simp add: vmc_ringbuf_free_def unat_sub rb_capacity [OF assms])
qed

lemma rb_first:
  assumes "rb_inv rb"
  shows "unat (vmc_ringbuf_capacity rb - rb_mask rb x) =
    length (rb_data rb) - unat x mod length (rb_data rb)"
proof -
  have "rb_mask rb x \<le> vmc_ringbuf_capacity rb"
    using rb_data_pos [OF assms]
    by (simp add: word_le_nat_alt rb_mask_unat assms rb_capacity less_imp_le)
  then show ?thesis by (simp add: unat_sub rb_capacity rb_mask_unat assms)
qed

lemma length_rb_list [simp]: "rb_inv rb \<Longrightarrow> length (rb_list rb) = unat (rb_count rb)"
  using rb_data_pos by (fastforce simp: rb_list_def rb_inv_def)

lemma rb_list_count0: "rb_count rb = 0 \<Longrightarrow> rb_list rb = []"
  by (simp add: rb_list_def ring_load_def mem_read_def)

lemma nth_rb_list:
  assumes "rb_inv rb" and "i < unat (rb_count rb)"
  shows "rb_list rb ! i = rb_data rb ! ((unat (rb_tail rb) + i) mod length (rb_data rb))"
  using assms rb_data_pos [OF assms(1)]
  by (simp add: rb_list_def nth_ring_load rb_inv_def mod_add_left_eq)

lemma rb_listI:
  assumes "rb_inv rb" and "length xs = unat (rb_count rb)"
    and "\<And>i. i < length xs \<Longrightarrow>
           rb_data rb ! ((unat (rb_tail rb) + i) mod length (rb_data rb)) = xs ! i"
  shows "rb_list rb = xs"
  using assms by (intro nth_equalityI) (simp_all add: nth_rb_list)

section \<open>Initialisation and reset\<close>

lemma bit_top_of_ivl:
  fixes m :: nat
  assumes "2 ^ k \<le> m" and "m < 2 ^ Suc k"
  shows "bit m k"
proof -
  have "m div 2 ^ k = 1"
    using assms by (intro div_nat_eqI) simp_all
  then show ?thesis by (simp add: bit_iff_odd)
qed

lemma mask_of_pow2:
  fixes n :: "64 word"
  assumes "is_pow2_or_zero n"
  shows "\<exists>k < 64. n = 2 ^ k"
proof -
  have nz: "n \<noteq> 0" and az: "n AND (n - 1) = 0" using assms by (simp_all add: is_pow2_or_zero_def)
  obtain k where k: "2 ^ k \<le> unat n" "unat n < 2 ^ (k + 1)"
    using ex_power_ivl1 [of 2 "unat n"] nz by (auto simp: unat_gt_0 Suc_le_eq)
  have k64: "k < 64"
  proof (rule ccontr)
    assume "\<not> k < 64"
    then have "(2::nat) ^ 64 \<le> 2 ^ k" by (intro power_increasing) simp_all
    with k(1) unat_bound [of n] show False by simp
  qed
  have "unat n = 2 ^ k"
  proof (rule ccontr)
    assume "unat n \<noteq> 2 ^ k"
    with k have "2 ^ k \<le> unat n - 1" by simp
    with k have "bit (unat n) k" "bit (unat (n - 1)) k"
      using nz by (auto intro!: bit_top_of_ivl simp: unat_minus_one)
    then have "bit (n AND (n - 1)) k" by (simp add: bit_unsigned_iff bit_and_iff)
    with az show False by simp
  qed
  with k64 have "n = 2 ^ k" by (simp add: word_unat_eq_iff unat_pow_word64)
  with k64 show ?thesis by blast
qed

lemma is_pow2_pow: "k < 64 \<Longrightarrow> is_pow2_or_zero (2 ^ k)"
  by (auto simp: is_pow2_or_zero_def bit_and_iff bit_exp_iff bit_mask_iff
      simp flip: mask_eq_exp_minus_1 intro!: bit_word_eqI)

text \<open>\<open>vmc_ringbuf_init\<close> accepts exactly the powers of two.\<close>

lemma is_pow2_iff: "is_pow2_or_zero n \<longleftrightarrow> (\<exists>k < 64. n = 2 ^ k)"
  using mask_of_pow2 is_pow2_pow by blast

lemma vmc_ringbuf_init_inv:
  assumes "vmc_ringbuf_init (Some rb) (Some st) cap = (VMC_OK, Some rb')"
    and "length st = unat cap"
  shows "rb_inv rb' \<and> rb_list rb' = [] \<and> unat (vmc_ringbuf_capacity rb') = unat cap"
proof -
  from assms have p: "is_pow2_or_zero cap"
    and rb': "rb' = rb\<lparr>rb_data := st, rb_cmask := cap - 1, rb_head := 0, rb_tail := 0, rb_count := 0\<rparr>"
    by (auto simp: vmc_ringbuf_init_def status_defs split: if_splits)
  from p obtain k where k: "k < 64" "cap = 2 ^ k" using is_pow2_iff by blast
  then have inv: "rb_inv rb'"
    using assms(2) by (auto simp: rb_inv_def rb' mask_eq_exp_minus_1 unat_pow_word64)
  moreover have "rb_list rb' = []" by (rule rb_list_count0) (simp add: rb')
  ultimately show ?thesis using rb_capacity [OF inv] assms(2) by (simp add: rb')
qed

lemma vmc_ringbuf_reset_inv:
  "rb_inv rb \<Longrightarrow> rb_inv (vmc_ringbuf_reset rb)"
  "rb_inv rb \<Longrightarrow> rb_list (vmc_ringbuf_reset rb) = []"
  by (auto simp: rb_inv_def vmc_ringbuf_reset_def rb_list_def ring_load_def mem_read_def)

section \<open>Writing\<close>

text \<open>The code's two \<^verbatim>\<open>memcpy\<close> calls are one circular store at the head.\<close>

lemma vmc_ringbuf_write_store:
  assumes inv: "rb_inv rb" and "len \<noteq> 0" and src: "unat len \<le> length data"
  defines "n \<equiv> (if len > vmc_ringbuf_free rb then vmc_ringbuf_free rb else len)"
  shows "vmc_ringbuf_write rb data len =
    (n, rb\<lparr>rb_data := ring_store (rb_data rb) (unat (rb_head rb) mod length (rb_data rb))
                        (take (unat n) data),
           rb_head := rb_head rb + n, rb_count := rb_count rb + n\<rparr>)"
proof -
  let ?first = "vmc_ringbuf_capacity rb - rb_mask rb (rb_head rb)"
  let ?n1 = "if n < ?first then n else ?first"
  have n: "unat n \<le> length data"
    using src by (auto simp: n_def word_less_nat_alt split: if_splits)
  have n1: "unat ?n1 = min (unat n) (length (rb_data rb) - unat (rb_head rb) mod length (rb_data rb))"
    by (auto simp: word_less_nat_alt rb_first [OF inv])
  have le: "?n1 \<le> n" by auto
  have cmp: "(?n1 < n) = (unat ?n1 < unat n)" by (simp only: word_less_nat_alt)
  have diff: "unat (n - ?n1) = unat n - unat ?n1" using le by (rule unat_sub)
  show ?thesis
    using assms(2) n
    by (simp only: vmc_ringbuf_write_def Let_def n_def [symmetric] if_False ring_store_def
        cmp diff n1 rb_mask_unat [OF inv])
      (simp add: take_drop min_def)
qed

lemma vmc_ringbuf_write_zero [simp]: "vmc_ringbuf_write rb data 0 = (0, rb)"
  by (simp add: vmc_ringbuf_write_def)

lemma rb_store_correct:
  assumes inv: "rb_inv rb" and room: "unat (rb_count rb) + unat n \<le> length (rb_data rb)"
    and xs: "length xs = unat n"
  defines "rb' \<equiv> rb\<lparr>rb_data := ring_store (rb_data rb)
                     (unat (rb_head rb) mod length (rb_data rb)) xs,
                   rb_head := rb_head rb + n, rb_count := rb_count rb + n\<rparr>"
  shows "rb_inv rb' \<and> rb_list rb' = rb_list rb @ xs"
proof -
  from inv obtain k where k: "k < 64" "rb_cmask rb = mask k" "length (rb_data rb) = 2 ^ k"
    "unat (rb_count rb) \<le> 2 ^ k" "rb_head rb = rb_tail rb + rb_count rb" by (rule rb_invE)
  let ?d = "rb_data rb" and ?t = "unat (rb_tail rb)" and ?c = "unat (rb_count rb)"
  let ?h = "unat (rb_head rb) mod 2 ^ k"
  have pos: "0 < length ?d" and h_lt: "?h < length ?d" using k by simp_all
  have "(2::nat) ^ k < 2 ^ 64" using k(1) by (rule power_strict_increasing) simp
  then have cnt: "unat (rb_count rb + n) = ?c + unat n"
    using room k(3) by (intro unat_add_no_wrap) simp
  have h: "?h = (?t + ?c) mod 2 ^ k"
    by (simp add: k(5) unat_add_mod_pow [OF k(1)])
  have len': "length (rb_data rb') = 2 ^ k"
    using room xs h_lt k(3) by (simp add: rb'_def)
  have inv': "rb_inv rb'"
    using len' k room cnt by (auto simp: rb_inv_def rb'_def add.assoc)
  have nth: "rb_data rb' ! ((?t + i) mod 2 ^ k) = (rb_list rb @ xs) ! i"
    if i: "i < ?c + unat n" for i
  proof (cases "i < ?c")
    case True
    let ?j = "2 ^ k - ?c + i"
    have "(?h + ?j) mod 2 ^ k = (?t + ?c + ?j) mod 2 ^ k"
      by (simp only: h mod_add_left_eq)
    also have "?t + ?c + ?j = ?t + i + 2 ^ k" using k(4) by simp
    finally have eq: "(?t + i) mod 2 ^ k = (?h + ?j) mod 2 ^ k" by simp
    have "ring_store ?d ?h xs ! ((?h + ?j) mod 2 ^ k) = ?d ! ((?h + ?j) mod 2 ^ k)"
    proof -
      have "\<not> ?j < length xs" "?j < length ?d" "length xs \<le> length ?d"
        using True room xs k(3,4) by linarith+
      from nth_ring_store [OF h_lt this(3,2)] this(1) show ?thesis
        by (simp only: k(3) if_False)
    qed
    then show ?thesis
      by (simp only: eq [symmetric]) (simp add: True rb'_def k(3) nth_append inv nth_rb_list)
  next
    case False
    have "(?h + (i - ?c)) mod 2 ^ k = (?t + ?c + (i - ?c)) mod 2 ^ k"
      by (simp only: h mod_add_left_eq)
    with False have eq: "(?t + i) mod 2 ^ k = (?h + (i - ?c)) mod 2 ^ k" by simp
    have "ring_store ?d ?h xs ! ((?h + (i - ?c)) mod 2 ^ k) = xs ! (i - ?c)"
    proof -
      have "i - ?c < length xs" "i - ?c < length ?d" "length xs \<le> length ?d"
        using False i room xs k(3,4) by linarith+
      from nth_ring_store [OF h_lt this(3,2)] this(1) show ?thesis
        by (simp only: k(3) if_True)
    qed
    then show ?thesis
      by (simp only: eq [symmetric]) (simp add: False rb'_def k(3) nth_append inv)
  qed
  have "rb_list rb' = rb_list rb @ xs"
  proof (rule rb_listI [OF inv'])
    show "length (rb_list rb @ xs) = unat (rb_count rb')"
      using inv cnt xs by (simp add: rb'_def)
    show "rb_data rb' ! ((unat (rb_tail rb') + i) mod length (rb_data rb')) = (rb_list rb @ xs) ! i"
      if "i < length (rb_list rb @ xs)" for i
      using that nth [of i] len' inv xs by (simp add: rb'_def)
  qed
  with inv' show ?thesis ..
qed

lemma vmc_ringbuf_write_correct:
  assumes inv: "rb_inv rb" and src: "unat len \<le> length data"
    and w: "vmc_ringbuf_write rb data len = (n, rb')"
  shows "rb_inv rb'"
    and "rb_list rb' = rb_list rb @ take (unat n) data"
    and "unat n = min (unat len) (length (rb_data rb) - unat (rb_count rb))"
    and "length (rb_data rb') = length (rb_data rb)"
proof -
  define m where "m = (if len > vmc_ringbuf_free rb then vmc_ringbuf_free rb else len)"
  have um: "unat m = min (unat len) (length (rb_data rb) - unat (rb_count rb))"
    by (simp add: m_def rb_free [OF inv, symmetric] word_less_nat_alt min_def)
  have room: "unat (rb_count rb) + unat m \<le> length (rb_data rb)"
    and xs: "length (take (unat m) data) = unat m"
    using inv src unfolding um by (auto simp: rb_inv_def min_def)
  have all: "rb_inv rb' \<and> rb_list rb' = rb_list rb @ take (unat n) data \<and> n = m \<and>
    length (rb_data rb') = length (rb_data rb)"
  proof (cases "len = 0")
    case True
    with w inv show ?thesis by (auto simp: m_def word_less_nat_alt)
  next
    case False
    have h: "unat (rb_head rb) mod length (rb_data rb) < length (rb_data rb)"
      using rb_data_pos [OF inv] by simp
    from w vmc_ringbuf_write_store [OF inv False src, folded m_def]
    have "n = m" and rb': "rb' = rb\<lparr>rb_data := ring_store (rb_data rb)
        (unat (rb_head rb) mod length (rb_data rb)) (take (unat m) data),
        rb_head := rb_head rb + m, rb_count := rb_count rb + m\<rparr>"
      by auto
    moreover have "length (rb_data rb') = length (rb_data rb)"
      using h room xs by (simp add: rb')
    ultimately show ?thesis
      using rb_store_correct [OF inv room xs] by simp
  qed
  then show "rb_inv rb'" and "rb_list rb' = rb_list rb @ take (unat n) data"
    and "length (rb_data rb') = length (rb_data rb)" by simp_all
  from all um show "unat n = min (unat len) (length (rb_data rb) - unat (rb_count rb))" by simp
qed

section \<open>Reading\<close>

lemma rb_copy_out_list:
  assumes inv: "rb_inv rb" and len: "len \<le> rb_count rb" and out: "unat len \<le> length out"
  shows "rb_copy_out rb out len = mem_write out 0 (take (unat len) (rb_list rb))"
proof -
  let ?d = "rb_data rb" and ?pos = "unat (rb_tail rb) mod length (rb_data rb)"
  let ?first = "vmc_ringbuf_capacity rb - rb_mask rb (rb_tail rb)"
  let ?n1 = "if len < ?first then len else ?first"
  have pos: "?pos < length ?d" using rb_data_pos [OF inv] by simp
  have n1: "unat ?n1 = min (unat len) (length ?d - ?pos)"
    by (auto simp: word_less_nat_alt rb_first [OF inv])
  have ld: "unat len \<le> length ?d"
    using inv len by (simp add: rb_inv_def word_le_nat_alt)
  have load: "ring_load ?d ?pos (unat len) = take (unat len) (rb_list rb)"
    using inv len pos ld by (intro nth_equalityI)
      (simp_all add: nth_ring_load nth_rb_list word_le_nat_alt mod_add_left_eq)
  have cmp: "(?n1 < len) = (unat ?n1 < unat len)" by (simp only: word_less_nat_alt)
  have diff: "unat (len - ?n1) = unat len - unat ?n1" by (rule unat_sub) auto
  have "rb_copy_out rb out len = mem_write out 0 (ring_load ?d ?pos (unat len))"
  proof (cases "unat len \<le> length ?d - ?pos")
    case True
    then show ?thesis
      by (simp only: rb_copy_out_def Let_def cmp diff n1 rb_mask_unat [OF inv] ring_load_def)
        (simp add: min_def)
  next
    case False
    have l1: "length (mem_read ?d ?pos (length ?d - ?pos)) = length ?d - ?pos" by simp
    from False show ?thesis
      using ld out pos
      by (simp only: rb_copy_out_def Let_def cmp diff n1 rb_mask_unat [OF inv] ring_load_def)
        (simp add: min_def mem_write_def)
  qed
  then show ?thesis by (simp only: load)
qed

lemma rb_drop_correct:
  assumes inv: "rb_inv rb" and n: "n \<le> rb_count rb"
  defines "rb' \<equiv> rb\<lparr>rb_tail := rb_tail rb + n, rb_count := rb_count rb - n\<rparr>"
  shows "rb_inv rb' \<and> rb_list rb' = drop (unat n) (rb_list rb)"
proof -
  from inv obtain k where k: "k < 64" "length (rb_data rb) = 2 ^ k" by (rule rb_invE)
  have cnt: "unat (rb_count rb - n) = unat (rb_count rb) - unat n"
    using n by (rule unat_sub)
  have inv': "rb_inv rb'"
    using inv n cnt by (auto simp: rb_inv_def rb'_def)
  moreover have "rb_list rb' = drop (unat n) (rb_list rb)"
  proof (rule rb_listI [OF inv'])
    show "length (drop (unat n) (rb_list rb)) = unat (rb_count rb')"
      using inv cnt by (simp add: rb'_def)
    show "rb_data rb' ! ((unat (rb_tail rb') + i) mod length (rb_data rb')) =
        drop (unat n) (rb_list rb) ! i" if i: "i < length (drop (unat n) (rb_list rb))" for i
    proof -
      have "(unat (rb_tail rb + n) + i) mod 2 ^ k = (unat (rb_tail rb) + (unat n + i)) mod 2 ^ k"
        by (metis (no_types) add.assoc k(1) mod_add_left_eq unat_add_mod_pow)
      then show ?thesis
        using i inv by (simp add: rb'_def k(2) nth_rb_list)
    qed
  qed
  ultimately show ?thesis ..
qed

lemma vmc_ringbuf_read_correct:
  assumes inv: "rb_inv rb" and out: "unat len \<le> length out"
    and r: "vmc_ringbuf_read rb (Some out) len = (n, out', rb')"
  shows "rb_inv rb'"
    and "rb_list rb' = drop (unat n) (rb_list rb)"
    and "out' = Some (mem_write out 0 (take (unat n) (rb_list rb)))"
    and "unat n = min (unat len) (unat (rb_count rb))"
    and "rb_data rb' = rb_data rb"
proof -
  define m where "m = (if len > rb_count rb then rb_count rb else len)"
  have um: "unat m = min (unat len) (unat (rb_count rb))"
    by (simp add: m_def word_less_nat_alt min_def)
  have le: "m \<le> rb_count rb" by (auto simp: m_def)
  have o: "unat m \<le> length out" unfolding um using out by simp
  have "rb_inv rb' \<and> rb_list rb' = drop (unat n) (rb_list rb) \<and>
      out' = Some (mem_write out 0 (take (unat n) (rb_list rb))) \<and> n = m \<and> rb_data rb' = rb_data rb"
  proof (cases "m = 0")
    case True
    then show ?thesis using r inv by (simp add: vmc_ringbuf_read_def m_def [symmetric])
  next
    case False
    then have "n = m" "rb' = rb\<lparr>rb_tail := rb_tail rb + m, rb_count := rb_count rb - m\<rparr>"
      "out' = Some (rb_copy_out rb out m)"
      using r by (auto simp: vmc_ringbuf_read_def m_def [symmetric])
    then show ?thesis
      using rb_copy_out_list [OF inv le o] rb_drop_correct [OF inv le] by simp
  qed
  with um show "rb_inv rb'" and "rb_list rb' = drop (unat n) (rb_list rb)"
    and "out' = Some (mem_write out 0 (take (unat n) (rb_list rb)))"
    and "unat n = min (unat len) (unat (rb_count rb))" and "rb_data rb' = rb_data rb"
    by simp_all
qed

lemma vmc_ringbuf_peek_correct:
  assumes inv: "rb_inv rb" and out: "unat len \<le> length out"
  shows "vmc_ringbuf_peek rb out len =
    (if len > rb_count rb then rb_count rb else len,
     mem_write out 0 (take (unat len) (rb_list rb)))"
proof -
  define m where "m = (if len > rb_count rb then rb_count rb else len)"
  have le: "m \<le> rb_count rb" by (auto simp: m_def)
  have o: "unat m \<le> length out" using out by (auto simp: m_def word_less_nat_alt)
  have tk: "take (unat m) (rb_list rb) = take (unat len) (rb_list rb)"
    using inv by (auto simp: m_def word_less_nat_alt)
  show ?thesis
    using rb_copy_out_list [OF inv le o]
    by (auto simp: vmc_ringbuf_peek_def m_def [symmetric] tk simp flip: tk)
qed

lemma vmc_ringbuf_discard_correct:
  assumes inv: "rb_inv rb" and "vmc_ringbuf_discard rb len = (n, rb')"
  shows "rb_inv rb' \<and> rb_list rb' = drop (unat n) (rb_list rb) \<and>
    n = (if len > rb_count rb then rb_count rb else len)"
proof -
  define m where "m = (if len > rb_count rb then rb_count rb else len)"
  have le: "m \<le> rb_count rb" by (auto simp: m_def)
  have "n = m" "rb' = rb\<lparr>rb_tail := rb_tail rb + m, rb_count := rb_count rb - m\<rparr>"
    using assms(2) by (auto simp: vmc_ringbuf_discard_def m_def [symmetric])
  with rb_drop_correct [OF inv le] show ?thesis by (simp add: m_def)
qed

section \<open>The bounded byte queue contract\<close>

text \<open>
  A client trace is a sequence of puts and gets. \<open>fifo_run\<close> returns the bytes the queue
  accepted, the bytes it delivered and the final state.
\<close>

datatype fifo_op = Put bytes | Get nat

fun fifo_run :: "('s \<Rightarrow> bytes \<Rightarrow> nat \<times> 's) \<Rightarrow> ('s \<Rightarrow> nat \<Rightarrow> bytes \<times> 's) \<Rightarrow> fifo_op list \<Rightarrow> 's
    \<Rightarrow> bytes \<times> bytes \<times> 's" where
  "fifo_run put get [] s = ([], [], s)"
| "fifo_run put get (Put xs # ops) s =
     (let (n, s1) = put s xs; (acc, del, s2) = fifo_run put get ops s1
      in (take n xs @ acc, del, s2))"
| "fifo_run put get (Get n # ops) s =
     (let (ys, s1) = get s n; (acc, del, s2) = fifo_run put get ops s1
      in (acc, ys @ del, s2))"

fun op_small :: "fifo_op \<Rightarrow> bool" where
  "op_small (Put xs) = (length xs < 2 ^ 64)"
| "op_small (Get n) = (n < 2 ^ 64)"

locale byte_fifo =
  fixes inv :: "'s \<Rightarrow> bool"
    and contents :: "'s \<Rightarrow> bytes"
    and room :: "'s \<Rightarrow> nat"
    and put :: "'s \<Rightarrow> bytes \<Rightarrow> nat \<times> 's"
    and get :: "'s \<Rightarrow> nat \<Rightarrow> bytes \<times> 's"
  assumes put_law: "inv s \<Longrightarrow> length xs < 2 ^ 64 \<Longrightarrow> put s xs = (n, s') \<Longrightarrow>
      inv s' \<and> n = min (length xs) (room s) \<and> contents s' = contents s @ take n xs \<and>
      room s' = room s - n"
    and get_law: "inv s \<Longrightarrow> n < 2 ^ 64 \<Longrightarrow> get s n = (ys, s') \<Longrightarrow>
      inv s' \<and> contents s = ys @ contents s' \<and> length ys = min n (length (contents s)) \<and>
      room s' = room s + length ys"
begin

lemma run_conserves:
  assumes "inv s" and "list_all op_small ops" and "fifo_run put get ops s = (acc, del, s')"
  shows "inv s' \<and> contents s @ acc = del @ contents s' \<and>
    room s' + length (contents s') = room s + length (contents s)"
  using assms
proof (induction ops arbitrary: s acc del)
  case Nil
  then show ?case by simp
next
  case (Cons op ops)
  show ?case
  proof (cases op)
    case (Put xs)
    obtain n s1 where p: "put s xs = (n, s1)" by fastforce
    obtain acc1 where r: "fifo_run put get ops s1 = (acc1, del, s')" "acc = take n xs @ acc1"
      using Cons.prems(3) by (auto simp: Put p split: prod.splits)
    have law: "inv s1 \<and> n = min (length xs) (room s) \<and> contents s1 = contents s @ take n xs \<and>
        room s1 = room s - n"
      using Cons.prems(2) by (intro put_law [OF Cons.prems(1) _ p]) (simp add: Put)
    moreover have "inv s' \<and> contents s1 @ acc1 = del @ contents s' \<and>
        room s' + length (contents s') = room s1 + length (contents s1)"
      using law Cons.prems(2) r(1) by (intro Cons.IH) simp_all
    ultimately show ?thesis using r(2) by simp
  next
    case (Get n)
    obtain ys s1 where g: "get s n = (ys, s1)" by fastforce
    obtain del1 where r: "fifo_run put get ops s1 = (acc, del1, s')" "del = ys @ del1"
      using Cons.prems(3) by (auto simp: Get g split: prod.splits)
    have law: "inv s1" "contents s = ys @ contents s1" "room s1 = room s + length ys"
    proof -
      have "n < 2 ^ 64" using Cons.prems(2) Get by simp
      from get_law [OF Cons.prems(1) this g] show "inv s1" "contents s = ys @ contents s1"
        "room s1 = room s + length ys" by blast+
    qed
    have "inv s' \<and> contents s1 @ acc = del1 @ contents s' \<and>
        room s' + length (contents s') = room s1 + length (contents s1)"
      using law Cons.prems(2) r(1) by (intro Cons.IH) simp_all
    with law show ?thesis using r(2) by simp
  qed
qed

lemma put_then_get:
  assumes "inv s" and "contents s = []" and "length xs \<le> room s" and "length xs < 2 ^ 64"
    and "put s xs = (n, s1)" and "get s1 (length xs) = (ys, s2)"
  shows "n = length xs \<and> ys = xs \<and> contents s2 = [] \<and> room s2 = room s"
proof -
  have p: "inv s1" "n = length xs" "contents s1 = xs" "room s1 = room s - length xs"
    using put_law [OF assms(1,4,5)] assms(2,3) by auto
  have g: "contents s1 = ys @ contents s2" "length ys = min (length xs) (length (contents s1))"
    "room s2 = room s1 + length ys"
    using get_law [OF p(1) assms(4,6)] by blast+
  from g(1,2) p(3) have "ys = xs" "contents s2 = []"
    by (simp_all add: append_eq_conv_conj)
  with g(3) p assms(3) show ?thesis by simp
qed

end

text \<open>The ring buffer's calls in the shape of the contract.\<close>

definition rb_put :: "vmc_ringbuf \<Rightarrow> bytes \<Rightarrow> nat \<times> vmc_ringbuf" where
  "rb_put rb xs = (let (n, rb') = vmc_ringbuf_write rb xs (of_nat (length xs)) in (unat n, rb'))"

definition rb_get :: "vmc_ringbuf \<Rightarrow> nat \<Rightarrow> bytes \<times> vmc_ringbuf" where
  "rb_get rb n =
     (let (k, out, rb') = vmc_ringbuf_read rb (Some (replicate n 0)) (of_nat n)
      in (take (unat k) (case out of Some o1 \<Rightarrow> o1 | None \<Rightarrow> []), rb'))"

interpretation rb: byte_fifo rb_inv rb_list "\<lambda>rb. unat (vmc_ringbuf_free rb)" rb_put rb_get
proof unfold_locales
  fix rb xs n rb'
  assume inv: "rb_inv rb" and len: "length xs < 2 ^ 64" and p: "rb_put rb xs = (n, rb')"
  have ul: "unat (of_nat (length xs) :: sz_t) = length xs" using len by (simp add: unat_of_nat)
  obtain m where w: "vmc_ringbuf_write rb xs (of_nat (length xs)) = (m, rb')" and n: "n = unat m"
    using p by (auto simp: rb_put_def split: prod.splits)
  note c = vmc_ringbuf_write_correct [OF inv _ w, unfolded ul, OF order_refl]
  have "unat (rb_count rb') = unat (rb_count rb) + unat m"
    using c(1,2,3) ul inv by (metis length_append length_rb_list length_take min.cobounded1 min_absorb2)
  with c n rb_free [OF inv] rb_free [OF c(1)]
  show "rb_inv rb' \<and> n = min (length xs) (unat (vmc_ringbuf_free rb)) \<and>
      rb_list rb' = rb_list rb @ take n xs \<and>
      unat (vmc_ringbuf_free rb') = unat (vmc_ringbuf_free rb) - n"
    by simp
next
  fix rb n ys rb'
  assume inv: "rb_inv rb" and n: "n < 2 ^ 64" and g: "rb_get rb n = (ys, rb')"
  have un: "unat (of_nat n :: sz_t) = n" using n by (simp add: unat_of_nat)
  obtain k out where r: "vmc_ringbuf_read rb (Some (replicate n 0)) (of_nat n) = (k, out, rb')"
    and ys: "ys = take (unat k) (case out of Some o1 \<Rightarrow> o1 | None \<Rightarrow> [])"
    using g by (auto simp: rb_get_def split: prod.splits)
  have len: "unat (of_nat n :: sz_t) \<le> length (replicate n (0::u8))" using un by simp
  note c = vmc_ringbuf_read_correct [OF inv len r, unfolded un]
  have k: "unat k \<le> length (rb_list rb)" using c(4) inv by simp
  then have ys': "ys = take (unat k) (rb_list rb)"
    by (simp add: ys c(3) mem_write_def min_def)
  have "unat (rb_count rb') + unat k = unat (rb_count rb)"
    using c(1,2) k inv by (metis diff_add length_drop length_rb_list)
  then show "rb_inv rb' \<and> rb_list rb = ys @ rb_list rb' \<and> length ys = min n (length (rb_list rb)) \<and>
      unat (vmc_ringbuf_free rb') = unat (vmc_ringbuf_free rb) + length ys"
    using c k ys' inv rb_free [OF inv] rb_free [OF c(1)]
    by (auto simp: rb_inv_def)
qed

section \<open>Properties\<close>

text \<open>
  Initialisation succeeds exactly for non-null arguments and a power-of-two capacity,
  and then yields a well-formed empty ring of that capacity.
\<close>

theorem ringbuf_init_accepts:
  assumes "length st = unat cap"
  shows "(\<exists>rb'. vmc_ringbuf_init (Some rb) (Some st) cap = (VMC_OK, Some rb') \<and>
            rb_inv rb' \<and> rb_list rb' = [] \<and> unat (vmc_ringbuf_capacity rb') = unat cap)
         \<longleftrightarrow> (\<exists>k < 64. unat cap = 2 ^ k)"
proof -
  have "(\<exists>k < 64. unat cap = 2 ^ k) \<longleftrightarrow> is_pow2_or_zero cap"
    by (auto simp: is_pow2_iff word_unat_eq_iff unat_pow_word64 cong: conj_cong)
  moreover have "(\<exists>rb'. vmc_ringbuf_init (Some rb) (Some st) cap = (VMC_OK, Some rb')) \<longleftrightarrow>
      is_pow2_or_zero cap"
    by (auto simp: vmc_ringbuf_init_def status_defs)
  ultimately show ?thesis using vmc_ringbuf_init_inv [OF _ assms] by blast
qed

definition ring4 :: vmc_ringbuf where
  "ring4 = \<lparr>rb_data = [0, 0, 0, 0], rb_cmask = 3, rb_head = - 1, rb_tail = - 1, rb_count = 0\<rparr>"

theorem ringbuf_init_accepts_witness:
  "\<exists>rb'. vmc_ringbuf_init (Some ring4) (Some [0, 0, 0, 0]) 4 = (VMC_OK, Some rb') \<and>
      rb_inv rb' \<and> rb_list rb' = [] \<and> unat (vmc_ringbuf_capacity rb') = unat (4 :: sz_t)"
proof -
  have "(\<exists>k < 64. unat (4 :: sz_t) = 2 ^ k)" by (intro exI [of _ 2]) simp
  then show ?thesis using ringbuf_init_accepts [of "[0, 0, 0, 0]" 4 ring4] by simp
qed

text \<open>
  C0: Over any sequence of writes and reads the ring loses, duplicates and reorders nothing:
  the bytes held at the start followed by the bytes accepted are the bytes delivered followed
  by the bytes still held. The head and tail offsets may wrap around \<open>2 ^ 64\<close> on the way.
\<close>

theorem ringbuf_fifo:
  assumes "rb_inv rb" and "list_all op_small ops"
    and "fifo_run rb_put rb_get ops rb = (acc, del, rb')"
  shows "rb_inv rb' \<and> rb_list rb @ acc = del @ rb_list rb' \<and>
    unat (vmc_ringbuf_free rb') + length (rb_list rb') =
      unat (vmc_ringbuf_free rb) + length (rb_list rb)"
  using assms by (rule rb.run_conserves)

lemma ring4_inv: "rb_inv ring4"
  unfolding rb_inv_def ring4_def
  by (auto intro!: exI [of _ 2] simp: mask_eq_exp_minus_1)

lemma ring4_list: "rb_list ring4 = []"
  by (rule rb_list_count0) (simp add: ring4_def)

theorem ringbuf_fifo_witness:
  "\<exists>acc del rb'. fifo_run rb_put rb_get [Put [1, 2, 3], Get 2, Put [4, 5, 6], Get 9] ring4 =
       (acc, del, rb') \<and> rb_inv rb' \<and> acc = del @ rb_list rb'"
proof -
  obtain acc del rb' where
    r: "fifo_run rb_put rb_get [Put [1, 2, 3], Get 2, Put [4, 5, 6], Get 9] ring4 = (acc, del, rb')"
    by (metis prod_cases3)
  from ringbuf_fifo [OF ring4_inv _ r] show ?thesis
    using r by (intro exI [of _ acc] exI [of _ del] exI [of _ rb']) (simp add: ring4_list)
qed

text \<open>
  Peeking copies out the same bytes a read of the same length would deliver, and leaves
  the ring as it is; discarding moves the ring to the state the read would leave.
\<close>

theorem ringbuf_peek_discard_read:
  assumes "rb_inv rb" and "unat len \<le> length out"
  shows "vmc_ringbuf_read rb (Some out) len =
    (let (n, out') = vmc_ringbuf_peek rb out len; (_, rb') = vmc_ringbuf_discard rb len
     in (n, Some out', rb')) \<and>
    rb_list (snd (vmc_ringbuf_discard rb len)) = drop (unat len) (rb_list rb)"
proof -
  obtain n rb' where d: "vmc_ringbuf_discard rb len = (n, rb')" by fastforce
  have "rb_list rb' = drop (unat len) (rb_list rb)"
    using vmc_ringbuf_discard_correct [OF assms(1) d] assms(1)
    by (auto simp: word_less_nat_alt split: if_splits)
  moreover have "vmc_ringbuf_read rb (Some out) len =
    (let (n, out') = vmc_ringbuf_peek rb out len; (_, rb') = vmc_ringbuf_discard rb len
     in (n, Some out', rb'))"
    by (simp add: vmc_ringbuf_read_def vmc_ringbuf_peek_def vmc_ringbuf_discard_def Let_def)
  ultimately show ?thesis using d by simp
qed

definition ring4_full :: vmc_ringbuf where
  "ring4_full = ring4\<lparr>rb_data := [1, 2, 3, 4], rb_tail := 2, rb_head := 6, rb_count := 4\<rparr>"

lemma ring4_full_inv: "rb_inv ring4_full"
  unfolding rb_inv_def ring4_full_def ring4_def
  by (auto intro!: exI [of _ 2] simp: mask_eq_exp_minus_1)

theorem ringbuf_peek_discard_read_witness:
  "fst (vmc_ringbuf_read ring4_full (Some [0, 0, 0]) 3) = 3 \<and>
   fst (snd (vmc_ringbuf_read ring4_full (Some [0, 0, 0]) 3)) = Some [3, 4, 1]"
  using ringbuf_peek_discard_read [OF ring4_full_inv, of 3 "[0, 0, 0]"]
  by (simp add: vmc_ringbuf_peek_def vmc_ringbuf_discard_def ring4_full_def ring4_def rb_copy_out_def
      vmc_ringbuf_capacity_def rb_mask_def mem_write_def mem_read_def)

end
