(* ===== verification/Little_Endian.thy ===== *)
theory Little_Endian
  imports Vmc_Prelude
begin

unbundle bit_operations_syntax

text \<open>
  Little-endian access to byte buffers: the static helpers of
  \<^verbatim>\<open>src/transport/protocol.c\<close>, with the round trips in both directions. The wire header,
  the fragment header and the input batch are all built on them.
\<close>

section \<open>Accessors\<close>

definition rd16 :: "bytes \<Rightarrow> nat \<Rightarrow> u16" where
  "rd16 p off = ucast (p ! off) OR push_bit 8 (ucast (p ! (off + 1)))"

definition rd32 :: "bytes \<Rightarrow> nat \<Rightarrow> u32" where
  "rd32 p off = ucast (p ! off) OR push_bit 8 (ucast (p ! (off + 1))) OR
     push_bit 16 (ucast (p ! (off + 2))) OR push_bit 24 (ucast (p ! (off + 3)))"

definition le16 :: "u16 \<Rightarrow> bytes" where
  "le16 v = [ucast (v AND 0xff), ucast (drop_bit 8 v AND 0xff)]"

definition le32 :: "u32 \<Rightarrow> bytes" where
  "le32 v = [ucast (v AND 0xff), ucast (drop_bit 8 v AND 0xff),
             ucast (drop_bit 16 v AND 0xff), ucast (drop_bit 24 v AND 0xff)]"

definition wr16 :: "bytes \<Rightarrow> nat \<Rightarrow> u16 \<Rightarrow> bytes" where
  "wr16 p off v = mem_write p off (le16 v)"

definition wr32 :: "bytes \<Rightarrow> nat \<Rightarrow> u32 \<Rightarrow> bytes" where
  "wr32 p off v = mem_write p off (le32 v)"

section \<open>Round trips\<close>

lemma length_le [simp]: "length (le16 v) = 2" "length (le32 w) = 4"
  by (simp_all add: le16_def le32_def)

lemma ucast_and_ff [simp]: "(ucast (x AND 0xff :: 'a::len word) :: u8) = ucast x"
proof -
  have "(0xff :: 'a word) = mask 8" by (simp add: mask_eq_exp_minus_1)
  moreover have "(ucast (x AND mask 8) :: u8) = ucast x"
    by (rule bit_word_eqI) (auto simp: bit_simps dest: bit_imp_le_length)
  ultimately show ?thesis by (simp only:)
qed

lemma le16_join:
  "(ucast (ucast v :: u8) :: u16) OR push_bit 8 (ucast (ucast (drop_bit 8 v) :: u8)) = v"
  by (rule bit_word_eqI) (auto simp: bit_simps not_less)

lemma le32_join:
  "(ucast (ucast v :: u8) :: u32) OR push_bit 8 (ucast (ucast (drop_bit 8 v) :: u8)) OR
   push_bit 16 (ucast (ucast (drop_bit 16 v) :: u8)) OR
   push_bit 24 (ucast (ucast (drop_bit 24 v) :: u8)) = v"
proof (rule bit_word_eqI)
  fix n assume "n < LENGTH(32)"
  then consider "n < 8" | "8 \<le> n" "n < 16" | "16 \<le> n" "n < 24" | "24 \<le> n" "n < 32"
    by fastforce
  then show "bit ((ucast (ucast v :: u8) :: u32) OR push_bit 8 (ucast (ucast (drop_bit 8 v) :: u8)) OR
     push_bit 16 (ucast (ucast (drop_bit 16 v) :: u8)) OR
     push_bit 24 (ucast (ucast (drop_bit 24 v) :: u8))) n = bit v n"
    by cases (auto simp: bit_simps)
qed

lemma rd16_le16:
  assumes "mem_read b off 2 = le16 v" and "off + 2 \<le> length b"
  shows "rd16 b off = v"
proof -
  have "b ! off = le16 v ! 0" "b ! (off + 1) = le16 v ! 1"
    using assms nth_mem_read [OF assms(2), of 0] nth_mem_read [OF assms(2), of 1] by simp_all
  then show ?thesis by (simp add: rd16_def le16_def le16_join)
qed

lemma rd32_le32:
  assumes "mem_read b off 4 = le32 v" and "off + 4 \<le> length b"
  shows "rd32 b off = v"
proof -
  have "b ! off = le32 v ! 0" "b ! (off + 1) = le32 v ! 1" "b ! (off + 2) = le32 v ! 2"
    "b ! (off + 3) = le32 v ! 3"
    using assms nth_mem_read [OF assms(2), of 0] nth_mem_read [OF assms(2), of 1]
      nth_mem_read [OF assms(2), of 2] nth_mem_read [OF assms(2), of 3] by simp_all
  then show ?thesis by (simp add: rd32_def le32_def le32_join)
qed

lemma le16_rd16: "off + 2 \<le> length b \<Longrightarrow> le16 (rd16 b off) = [b ! off, b ! (off + 1)]"
proof -
  have "(ucast ((ucast x :: u16) OR push_bit 8 (ucast y)) :: u8) = x"
    "(ucast (drop_bit 8 ((ucast x :: u16) OR push_bit 8 (ucast y))) :: u8) = y" for x y :: u8
    by (rule bit_word_eqI, auto simp: bit_simps dest: bit_imp_le_length)+
  then show ?thesis by (simp add: le16_def rd16_def)
qed

lemma le32_rd32_aux:
  fixes x y z w :: u8
  defines "v \<equiv> (ucast x :: u32) OR push_bit 8 (ucast y) OR push_bit 16 (ucast z) OR push_bit 24 (ucast w)"
  shows "ucast v = x" "ucast (drop_bit 8 v) = y" "ucast (drop_bit 16 v) = z" "ucast (drop_bit 24 v) = w"
  unfolding v_def by (rule bit_word_eqI, auto simp: bit_simps dest: bit_imp_le_length)+

lemma le32_rd32:
  "le32 (rd32 b off) = [b ! off, b ! (off + 1), b ! (off + 2), b ! (off + 3)]"
  by (simp only: le32_def rd32_def ucast_and_ff le32_rd32_aux)

end
