(* ===== verification/Wire_Protocol.thy ===== *)
theory Wire_Protocol
  imports Little_Endian
begin

unbundle bit_operations_syntax

text \<open>
  The datagram format of \<^verbatim>\<open>src/transport/protocol.c\<close>: a 17-byte little-endian header,
  a CRC-8 over the header prefix and the payload, and the payload. A pointer argument that
  the code tests against null is an \<open>option\<close>; a buffer is its byte list.
\<close>

section \<open>Header and constants\<close>

definition VMC_PROTO_MAGIC :: u16 where [const_defs]: "VMC_PROTO_MAGIC = 0x5643"
definition VMC_PROTO_VERSION :: u8 where [const_defs]: "VMC_PROTO_VERSION = 1"
definition VMC_PROTO_HEADER_SIZE :: sz_t where [const_defs]: "VMC_PROTO_HEADER_SIZE = 17"

definition VMC_PROTO_STREAM_CONTROL :: u8 where [const_defs]: "VMC_PROTO_STREAM_CONTROL = 0"
definition VMC_PROTO_STREAM_VIDEO :: u8 where [const_defs]: "VMC_PROTO_STREAM_VIDEO = 1"
definition VMC_PROTO_STREAM_AUDIO :: u8 where [const_defs]: "VMC_PROTO_STREAM_AUDIO = 2"
definition VMC_PROTO_STREAM_INPUT :: u8 where [const_defs]: "VMC_PROTO_STREAM_INPUT = 3"
definition VMC_PROTO_STREAM_TELEMETRY :: u8 where [const_defs]: "VMC_PROTO_STREAM_TELEMETRY = 4"

definition VMC_PROTO_FLAG_FEC :: u8 where [const_defs]: "VMC_PROTO_FLAG_FEC = 1"
definition VMC_PROTO_FLAG_KEYFRAME :: u8 where [const_defs]: "VMC_PROTO_FLAG_KEYFRAME = 2"
definition VMC_PROTO_FLAG_FRAGMENTED :: u8 where [const_defs]: "VMC_PROTO_FLAG_FRAGMENTED = 4"

record vmc_proto_header =
  ph_magic :: u16
  ph_version :: u8
  ph_flags :: u8
  ph_stream :: u8
  ph_reserved :: u8
  ph_payload_len :: u16
  ph_seq :: u32
  ph_ts_us :: u32
  ph_crc :: u8

definition zero_header :: vmc_proto_header where
  "zero_header = \<lparr>ph_magic = 0, ph_version = 0, ph_flags = 0, ph_stream = 0, ph_reserved = 0,
     ph_payload_len = 0, ph_seq = 0, ph_ts_us = 0, ph_crc = 0\<rparr>"

section \<open>CRC-8\<close>

definition crc8_bit :: "u8 \<Rightarrow> u8" where
  "crc8_bit crc =
     (if crc AND 0x80 \<noteq> 0 then ucast (push_bit 1 (ucast crc :: u32) XOR 0x07)
      else ucast (push_bit 1 (ucast crc :: u32)))"

definition crc8_byte :: "u8 \<Rightarrow> u8 \<Rightarrow> u8" where
  "crc8_byte b crc = (crc8_bit ^^ 8) (crc XOR b)"

definition crc8_update :: "u8 \<Rightarrow> bytes \<Rightarrow> u8" where
  "crc8_update crc data = fold crc8_byte data crc"

definition vmc_proto_crc8 :: "bytes \<Rightarrow> sz_t \<Rightarrow> u8" where
  "vmc_proto_crc8 data len = crc8_update 0 (take (unat len) data)"

definition frame_crc :: "bytes \<Rightarrow> nat \<Rightarrow> bytes option \<Rightarrow> nat \<Rightarrow> u8" where
  "frame_crc prefix prefix_len payload payload_len =
     (let crc = crc8_update 0 (take prefix_len prefix)
      in case payload of
           Some p \<Rightarrow> if payload_len > 0 then crc8_update crc (take payload_len p) else crc
         | None \<Rightarrow> crc)"

section \<open>Encoding and decoding\<close>

definition vmc_proto_header_valid :: "vmc_proto_header option \<Rightarrow> bool" where
  "vmc_proto_header_valid h =
     (case h of
        None \<Rightarrow> False
      | Some h \<Rightarrow>
          if ph_magic h \<noteq> VMC_PROTO_MAGIC then False
          else if ph_version h \<noteq> VMC_PROTO_VERSION then False
          else if ph_reserved h \<noteq> 0 then False
          else True)"

definition encode_header :: "bytes \<Rightarrow> vmc_proto_header \<Rightarrow> bytes" where
  "encode_header buf h =
     (let b0 = wr16 buf 0 (ph_magic h);
          b1 = b0[2 := ph_version h, 3 := ph_flags h, 4 := ph_stream h, 5 := ph_reserved h];
          b2 = wr16 b1 6 (ph_payload_len h);
          b3 = wr32 b2 8 (ph_seq h);
          b4 = wr32 b3 12 (ph_ts_us h)
      in b4[16 := 0])"

text \<open>The result is the status (the packet length on success) and the buffer.\<close>

definition vmc_proto_encode ::
  "bytes option \<Rightarrow> sz_t \<Rightarrow> vmc_proto_header option \<Rightarrow> bytes option \<Rightarrow> vmc_status \<times> bytes option" where
  "vmc_proto_encode buf buf_cap h payload =
     (case (buf, h) of
        (Some b, Some hdr) \<Rightarrow>
          if \<not> vmc_proto_header_valid h then (VMC_ERR_INVALID_ARG, buf)
          else let total = VMC_PROTO_HEADER_SIZE + ucast (ph_payload_len hdr)
               in if buf_cap < total then (VMC_ERR_NOMEM, buf)
                  else let b1 = encode_header b hdr;
                           plen = unat (ph_payload_len hdr);
                           b2 = (case payload of
                                   Some p \<Rightarrow> if plen > 0 then mem_write b1 17 (take plen p) else b1
                                 | None \<Rightarrow> b1);
                           b3 = b2[16 := frame_crc b2 16 payload plen]
                       in (int (unat total), Some b3)
      | _ \<Rightarrow> (VMC_ERR_INVALID_ARG, buf))"

definition read_header :: "bytes \<Rightarrow> vmc_proto_header" where
  "read_header b = \<lparr>ph_magic = rd16 b 0, ph_version = b ! 2, ph_flags = b ! 3, ph_stream = b ! 4,
     ph_reserved = b ! 5, ph_payload_len = rd16 b 6, ph_seq = rd32 b 8, ph_ts_us = rd32 b 12,
     ph_crc = b ! 16\<rparr>"

definition vmc_proto_decode_header ::
  "bytes option \<Rightarrow> sz_t \<Rightarrow> vmc_proto_header option \<Rightarrow> vmc_status \<times> vmc_proto_header option" where
  "vmc_proto_decode_header buf len out_h =
     (case (buf, out_h) of
        (Some b, Some _) \<Rightarrow>
          if len < VMC_PROTO_HEADER_SIZE then (VMC_ERR_INVALID_ARG, out_h)
          else let h = read_header b
               in if \<not> vmc_proto_header_valid (Some h) then (VMC_ERR_PROTO, out_h)
                  else (VMC_OK, Some h)
      | _ \<Rightarrow> (VMC_ERR_INVALID_ARG, out_h))"

text \<open>
  On success the decoder yields the header and the payload pointer, the suffix of the
  buffer from offset 17; on failure it writes neither output.
\<close>

definition vmc_proto_decode ::
  "bytes option \<Rightarrow> sz_t \<Rightarrow> vmc_status \<times> (vmc_proto_header \<times> bytes) option" where
  "vmc_proto_decode buf len =
     (case vmc_proto_decode_header buf len (Some zero_header) of
        (st, h0) \<Rightarrow>
          if st \<noteq> VMC_OK then (st, None)
          else case (buf, h0) of
                 (Some b, Some h) \<Rightarrow>
                   if len < VMC_PROTO_HEADER_SIZE + ucast (ph_payload_len h)
                   then (VMC_ERR_PROTO, None)
                   else if ph_crc h \<noteq> frame_crc b 16 (Some (drop 17 b)) (unat (ph_payload_len h))
                   then (VMC_ERR_CORRUPT, None)
                   else (VMC_OK, Some (h, drop 17 b))
               | _ \<Rightarrow> (st, None))"

lemma vmc_proto_header_valid_Some:
  "vmc_proto_header_valid (Some h) \<longleftrightarrow>
     ph_magic h = VMC_PROTO_MAGIC \<and> ph_version h = VMC_PROTO_VERSION \<and> ph_reserved h = 0"
  by (simp add: vmc_proto_header_valid_def)

section \<open>The wire image of a header\<close>

text \<open>The wire image of a header with its checksum byte set to \<open>c\<close>.\<close>

definition header_prefix :: "vmc_proto_header \<Rightarrow> bytes" where
  "header_prefix h = le16 (ph_magic h) @ [ph_version h, ph_flags h, ph_stream h, ph_reserved h] @
     le16 (ph_payload_len h) @ le32 (ph_seq h) @ le32 (ph_ts_us h)"

definition header_image :: "vmc_proto_header \<Rightarrow> u8 \<Rightarrow> bytes" where
  "header_image h c = header_prefix h @ [c]"

lemma length_header_prefix [simp]: "length (header_prefix h) = 16"
  by (simp add: header_prefix_def)

lemma length_header_image [simp]: "length (header_image h c) = 17"
  by (simp add: header_image_def)

lemmas header_image_defs = header_image_def header_prefix_def le16_def le32_def

lemma split17:
  assumes "17 \<le> length (b :: 'a list)"
  obtains b0 b1 b2 b3 b4 b5 b6 b7 b8 b9 b10 b11 b12 b13 b14 b15 b16 r where
    "b = [b0, b1, b2, b3, b4, b5, b6, b7, b8, b9, b10, b11, b12, b13, b14, b15, b16] @ r"
proof -
  have "Suc (Suc (Suc (Suc (Suc (Suc (Suc (Suc (Suc (Suc (Suc (Suc (Suc (Suc (Suc (Suc (Suc 0))))))))))))))))
      \<le> length b" using assms by simp
  then show ?thesis using that by (auto simp: Suc_le_length_iff)
qed

lemma encode_header_image:
  assumes "17 \<le> length buf"
  shows "encode_header buf h = header_image h 0 @ drop 17 buf"
  using assms
  by (elim split17)
    (simp add: encode_header_def header_image_defs wr16_def wr32_def mem_write_def Let_def)

lemma header_image_update:
  "(header_image h c @ r)[16 := d] = header_image h d @ r"
  by (simp add: header_image_defs)

lemma read_header_image: "read_header (header_image h c @ r) = h\<lparr>ph_crc := c\<rparr>"
proof -
  have "rd16 (header_image h c @ r) 0 = ph_magic h" "rd16 (header_image h c @ r) 6 = ph_payload_len h"
    "rd32 (header_image h c @ r) 8 = ph_seq h" "rd32 (header_image h c @ r) 12 = ph_ts_us h"
    by (rule rd16_le16 rd32_le32; simp add: mem_read_def header_image_defs)+
  then show ?thesis
    by (simp add: read_header_def) (simp add: header_image_defs)
qed

section \<open>Encoding and decoding frames\<close>

lemma take16_header_image:
  "take 16 (header_image h c @ r) = header_prefix h"
  by (simp add: header_image_def)

definition frame_sum :: "vmc_proto_header \<Rightarrow> bytes \<Rightarrow> u8" where
  "frame_sum h p = crc8_update 0 (header_prefix h @ p)"

definition frame_image :: "vmc_proto_header \<Rightarrow> bytes \<Rightarrow> bytes" where
  "frame_image h p = header_image h (frame_sum h p) @ p"

lemma crc8_update_append: "crc8_update c (xs @ ys) = crc8_update (crc8_update c xs) ys"
  by (simp add: crc8_update_def)

lemma crc8_update_Nil [simp]: "crc8_update c [] = c"
  by (simp add: crc8_update_def)

lemma frame_crc_image:
  assumes "n \<le> length p"
  shows "frame_crc (header_image h c @ r) 16 (Some p) n = frame_sum h (take n p)"
  unfolding frame_crc_def take16_header_image
  using assms by (simp add: frame_sum_def Let_def crc8_update_append)

lemma total_unat: "unat (VMC_PROTO_HEADER_SIZE + ucast (n :: u16)) = 17 + unat n"
proof -
  have "unat n < 2 ^ 16" using unat_bound [of n] by simp
  moreover have "unat (ucast n :: sz_t) = unat n" by (simp add: unat_ucast_up)
  ultimately show ?thesis
    by (subst unat_add_no_wrap) (simp_all add: VMC_PROTO_HEADER_SIZE_def)
qed

lemma vmc_proto_encode_frame:
  assumes valid: "vmc_proto_header_valid (Some h)"
    and p: "unat (ph_payload_len h) \<le> length p"
    and cap: "17 + unat (ph_payload_len h) \<le> unat cap" and buf: "unat cap \<le> length buf"
  shows "vmc_proto_encode (Some buf) cap (Some h) (Some p) =
    (int (17 + unat (ph_payload_len h)),
     Some (frame_image h (take (unat (ph_payload_len h)) p) @ drop (17 + unat (ph_payload_len h)) buf))"
proof -
  let ?n = "unat (ph_payload_len h)"
  have ge: "17 \<le> length buf" and fit: "17 + ?n \<le> length buf" using cap buf by simp_all
  have nlt: "\<not> cap < VMC_PROTO_HEADER_SIZE + ucast (ph_payload_len h)"
    using cap by (simp add: word_less_nat_alt total_unat)
  let ?b2 = "if ?n > 0 then mem_write (encode_header buf h) 17 (take ?n p) else encode_header buf h"
  have b2: "?b2 = header_image h 0 @ take ?n p @ drop (17 + ?n) buf"
    using p by (simp add: encode_header_image [OF ge] mem_write_def add.commute)
  show ?thesis
    using valid nlt p
    by (simp add: vmc_proto_encode_def Let_def total_unat b2 [simplified] frame_crc_image
        header_image_update frame_image_def)
qed

lemma vmc_proto_decode_frame:
  assumes valid: "vmc_proto_header_valid (Some h)"
    and p: "length p = unat (ph_payload_len h)"
    and len: "17 + length p \<le> unat len"
  shows "vmc_proto_decode (Some (frame_image h p @ r)) len =
    (VMC_OK, Some (h\<lparr>ph_crc := frame_sum h p\<rparr>, p @ r))"
proof -
  have lt: "\<not> len < VMC_PROTO_HEADER_SIZE" "\<not> len < VMC_PROTO_HEADER_SIZE + ucast (ph_payload_len h)"
    using len p by (simp_all add: word_less_nat_alt total_unat) (simp add: VMC_PROTO_HEADER_SIZE_def)
  have v: "vmc_proto_header_valid (Some (h\<lparr>ph_crc := c\<rparr>))" for c
    using valid by (simp add: vmc_proto_header_valid_Some)
  show ?thesis
    using lt v p
    by (simp add: vmc_proto_decode_def vmc_proto_decode_header_def Let_def frame_image_def
        read_header_image frame_crc_image status_defs)
qed

text \<open>
  Conversely, an accepted datagram is exactly the wire image of the header it yields, with
  the payload that follows it.
\<close>

lemma header_image_read:
  assumes "17 \<le> length b"
  shows "header_image (read_header b) (b ! 16) = take 17 b"
  using assms
  by (elim split17) (simp add: header_image_def header_prefix_def read_header_def le16_rd16 le32_rd32)

section \<open>Error detection\<close>

lemma and_80_bit: "(c :: u8) AND 0x80 \<noteq> 0 \<longleftrightarrow> bit c 7"
  using bit_iff_and_push_bit_not_eq_0 [of c 7] by simp

lemma crc8_bit_bits:
  "bit (crc8_bit c) n \<longleftrightarrow> n < 8 \<and> ((0 < n \<and> bit c (n - 1)) \<noteq> (bit c 7 \<and> n < 3))"
proof -
  have seven: "(7 :: u32) = mask 3" by (simp add: mask_eq_exp_minus_1)
  have pb: "bit (push_bit 1 (ucast c :: u32)) n \<longleftrightarrow> 1 \<le> n \<and> n < 32 \<and> n \<le> 8 \<and> bit c (n - 1)"
    by (auto simp only: bit_push_bit_iff bit_ucast_iff) (auto dest: bit_imp_le_length)
  show ?thesis
    unfolding crc8_bit_def and_80_bit seven
    by (auto simp only: bit_ucast_iff bit_xor_iff pb bit_mask_iff split: if_splits)
      (auto dest: bit_imp_le_length)
qed

lemma inj_crc8_bit: "inj crc8_bit"
proof (rule injI)
  fix a b assume eq: "crc8_bit a = crc8_bit b"
  have bits: "((0 < n \<and> bit a (n - 1)) \<noteq> (bit a 7 \<and> n < 3)) =
      ((0 < n \<and> bit b (n - 1)) \<noteq> (bit b 7 \<and> n < 3))" if "n < 8" for n
    using that eq crc8_bit_bits [of a n] crc8_bit_bits [of b n] by simp
  have b7: "bit a 7 = bit b 7" using bits [of 0] by simp
  show "a = b"
  proof (rule bit_word_eqI)
    fix n assume "n < LENGTH(8)"
    then have n: "n < 8" by simp
    show "bit a n = bit b n"
    proof (cases "n = 7")
      case True with b7 show ?thesis by simp
    next
      case False
      with n bits [of "Suc n"] b7 show ?thesis by auto
    qed
  qed
qed

lemma inj_crc8_byte: "inj (crc8_byte b)"
proof (rule injI)
  fix x y assume "crc8_byte b x = crc8_byte b y"
  moreover have "inj (crc8_bit ^^ 8)" by (rule inj_fn [OF inj_crc8_bit])
  ultimately have "x XOR b = y XOR b" by (simp add: crc8_byte_def inj_eq)
  then have "(x XOR b) XOR b = (y XOR b) XOR b" by simp
  then show "x = y" by (simp add: xor.assoc)
qed

lemma crc8_byte_differs: "b \<noteq> b' \<Longrightarrow> crc8_byte b x \<noteq> crc8_byte b' x"
proof
  assume "b \<noteq> b'" and "crc8_byte b x = crc8_byte b' x"
  moreover have "inj (crc8_bit ^^ 8)" by (rule inj_fn [OF inj_crc8_bit])
  ultimately have "x XOR b = x XOR b'" by (simp add: crc8_byte_def inj_eq)
  then have "x XOR (x XOR b) = x XOR (x XOR b')" by simp
  with \<open>b \<noteq> b'\<close> show False by (simp flip: xor.assoc)
qed

lemma inj_crc8_update: "inj (\<lambda>c. crc8_update c xs)"
proof (induction xs)
  case Nil
  then show ?case by (simp add: inj_def)
next
  case (Cons x xs)
  have "(\<lambda>c. crc8_update c (x # xs)) = (\<lambda>c. crc8_update c xs) \<circ> crc8_byte x"
    by (simp add: crc8_update_def fun_eq_iff)
  with Cons inj_crc8_byte show ?case by (simp add: inj_compose)
qed

lemma crc8_update_differs:
  assumes "j < length xs" and "b \<noteq> xs ! j"
  shows "crc8_update c (xs[j := b]) \<noteq> crc8_update c xs"
proof -
  have "crc8_update c (take j xs @ y # drop (Suc j) xs) =
      crc8_update (crc8_byte y (crc8_update c (take j xs))) (drop (Suc j) xs)" for y
    by (simp add: crc8_update_def)
  then have eq: "crc8_update c (take j xs @ y # drop (Suc j) xs) = crc8_update c (take j xs @ z # drop (Suc j) xs)
      \<Longrightarrow> y = z" for y z
    using injD [OF inj_crc8_update] crc8_byte_differs by metis
  have "xs = take j xs @ xs ! j # drop (Suc j) xs" using assms(1) by (rule id_take_nth_drop)
  with eq [of b "xs ! j"] assms show ?thesis by (auto simp: upd_conv_take_nth_drop)
qed

definition covered :: "bytes \<Rightarrow> nat \<Rightarrow> bytes" where
  "covered f n = take 16 f @ take n (drop 17 f)"

lemma frame_crc_covered: "frame_crc f 16 (Some (drop 17 f)) n = crc8_update 0 (covered f n)"
  by (simp add: frame_crc_def covered_def crc8_update_append Let_def)

lemma covered_update:
  assumes "17 + n \<le> length f" and "i < 17 + n" and "i \<noteq> 16" and "b \<noteq> f ! i"
  shows "crc8_update 0 (covered (f[i := b]) n) \<noteq> crc8_update 0 (covered f n)"
proof -
  obtain b0 r where f: "f = b0 @ r" "length b0 = 17"
    using assms(1) by (metis append_take_drop_id le_add1 length_take min_absorb2 order_trans)
  let ?j = "if i < 16 then i else i - 1"
  have cov: "covered f n = take 16 b0 @ take n r" using f by (simp add: covered_def)
  have "covered (f[i := b]) n = (covered f n)[?j := b] \<and> ?j < length (covered f n) \<and>
      b \<noteq> covered f n ! ?j"
  proof (cases "i < 16")
    case True
    then have "covered (f[i := b]) n = (take 16 b0)[i := b] @ take n r"
      using f by (simp add: covered_def list_update_append take_update_swap)
    then show ?thesis
      using True f assms by (simp add: cov [unfolded f(1)] list_update_append nth_append)
  next
    case False
    with assms have i: "17 \<le> i" by simp
    then have u: "f[i := b] = b0 @ r[i - 17 := b]" using f by (simp add: list_update_append)
    have "covered (f[i := b]) n = take 16 b0 @ (take n r)[i - 17 := b]"
      using f unfolding u covered_def by (simp add: take_update_swap)
    moreover have "\<not> i < 16" "\<not> i - 1 < 16" "i - 1 < 16 + n" "i - 1 - 16 = i - 17" "\<not> i < 17"
      using i assms by simp_all
    ultimately show ?thesis
      using f assms by (auto simp: cov [unfolded f(1)] list_update_append nth_append)
  qed
  then show ?thesis using crc8_update_differs by metis
qed

lemma vmc_proto_decode_OK_iff:
  "fst (vmc_proto_decode (Some f) len) = VMC_OK \<longleftrightarrow>
     \<not> len < VMC_PROTO_HEADER_SIZE \<and> vmc_proto_header_valid (Some (read_header f)) \<and>
     17 + unat (ph_payload_len (read_header f)) \<le> unat len \<and>
     f ! 16 = crc8_update 0 (covered f (unat (ph_payload_len (read_header f))))"
  by (auto simp: vmc_proto_decode_def vmc_proto_decode_header_def Let_def status_defs
      word_less_nat_alt total_unat frame_crc_covered read_header_def)

lemma read_header_plen_update:
  assumes "i \<noteq> 6" and "i \<noteq> 7"
  shows "ph_payload_len (read_header (f[i := b])) = ph_payload_len (read_header f)"
  using assms by (simp add: read_header_def rd16_def)

section \<open>Properties\<close>

text \<open>
  C2: Encoding a valid header and payload and decoding the bytes written yields the same
  header, with its checksum filled in, and the same payload, whatever the send buffer held
  before and whatever follows the frame in it.
\<close>

theorem proto_roundtrip:
  assumes "vmc_proto_header_valid (Some h)" and "length p = unat (ph_payload_len h)"
    and "17 + length p \<le> unat cap" and "unat cap \<le> length buf"
  shows "\<exists>buf'. vmc_proto_encode (Some buf) cap (Some h) (Some p) =
       (int (17 + length p), Some buf') \<and> length buf' = length buf \<and>
     vmc_proto_decode (Some buf') (of_nat (17 + length p)) =
       (VMC_OK, Some (h\<lparr>ph_crc := buf' ! 16\<rparr>, p @ drop (17 + length p) buf))"
proof -
  let ?buf' = "frame_image h p @ drop (17 + length p) buf"
  have len: "unat (of_nat (17 + length p) :: sz_t) = 17 + length p"
    using assms(2) unat_bound [of "ph_payload_len h"] by (subst unat_of_nat) simp
  have "?buf' ! 16 = frame_sum h p"
    by (simp add: frame_image_def header_image_def nth_append)
  moreover have "length ?buf' = length buf"
    using assms(3,4) by (simp add: frame_image_def)
  ultimately show ?thesis
    using vmc_proto_encode_frame [OF assms(1), of p cap buf] assms
      vmc_proto_decode_frame [OF assms(1,2), of "of_nat (17 + length p)"] len
    by (intro exI [of _ ?buf']) simp
qed

definition sample_header :: vmc_proto_header where
  "sample_header = zero_header\<lparr>ph_magic := VMC_PROTO_MAGIC, ph_version := 1, ph_stream := 1,
     ph_payload_len := 2, ph_seq := 0x01020304, ph_ts_us := 7\<rparr>"

lemma sample_header_valid: "vmc_proto_header_valid (Some sample_header)"
  by (simp add: vmc_proto_header_valid_Some sample_header_def VMC_PROTO_VERSION_def zero_header_def)

lemma sample_header_len: "ph_payload_len sample_header = 2"
  by (simp add: sample_header_def)

theorem proto_roundtrip_witness:
  "\<exists>buf'. vmc_proto_encode (Some (replicate 20 0)) 20 (Some sample_header) (Some [9, 8]) =
       (19, Some buf') \<and> length buf' = 20 \<and>
     vmc_proto_decode (Some buf') 19 =
       (VMC_OK, Some (sample_header\<lparr>ph_crc := buf' ! 16\<rparr>, [9, 8, 0]))"
  using proto_roundtrip [of sample_header "[9, 8]" 20 "replicate 20 0"]
  by (simp add: sample_header_valid sample_header_len)

text \<open>
  C4: The decoder accepts a datagram exactly when its bytes are the wire image of some valid
  header and payload (followed by anything within the received length), so no two different
  frames are read from one datagram and nothing is accepted that the encoder could not have
  produced.
\<close>

theorem proto_decode_accepts_iff:
  assumes "length f = unat len"
  shows "vmc_proto_decode (Some f) len = (VMC_OK, Some (h, q)) \<longleftrightarrow>
    (\<exists>p r. f = frame_image h p @ r \<and> q = p @ r \<and> length p = unat (ph_payload_len h) \<and>
       vmc_proto_header_valid (Some h) \<and> ph_crc h = frame_sum h p)"
    (is "?L \<longleftrightarrow> ?R")
proof
  assume L: ?L
  then have ok: "fst (vmc_proto_decode (Some f) len) = VMC_OK" by simp
  note acc = ok [unfolded vmc_proto_decode_OK_iff]
  from acc have l17: "17 \<le> length f"
    using assms by (simp add: word_less_nat_alt VMC_PROTO_HEADER_SIZE_def)
  have h: "h = read_header f" "q = drop 17 f"
    using L by (auto simp: vmc_proto_decode_def vmc_proto_decode_header_def Let_def status_defs
        split: if_splits)
  let ?n = "unat (ph_payload_len h)"
  have img: "header_image h (f ! 16) = take 17 f"
    using header_image_read [OF l17] h by simp
  then have pre: "header_prefix h = take 16 f"
    using take16_header_image [of h "f ! 16" "[]"] by (simp add: min_def)
  then have sum: "frame_sum h (take ?n q) = f ! 16"
    using acc h by (simp add: frame_sum_def covered_def)
  have "f = frame_image h (take ?n q) @ drop ?n q"
    using img sum h by (simp add: frame_image_def del: drop_drop)
  moreover have "length (take ?n q) = ?n"
    using acc h assms by (auto simp: min_def)
  moreover have "ph_crc h = f ! 16" using h by (simp add: read_header_def)
  ultimately show ?R using acc h(1) sum by (intro exI [of _ "take ?n q"] exI [of _ "drop ?n q"]) simp
next
  assume ?R
  then obtain p r where f: "f = frame_image h p @ r" and q: "q = p @ r"
    and p: "length p = unat (ph_payload_len h)" and v: "vmc_proto_header_valid (Some h)"
    and c: "ph_crc h = frame_sum h p" by blast
  have "17 + length p \<le> unat len"
    using assms f by (simp add: frame_image_def flip: assms)
  from vmc_proto_decode_frame [OF v p this] f q c show ?L
    by (metis vmc_proto_header.surjective vmc_proto_header.update_convs(9))
qed

theorem proto_decode_accepts_iff_witness:
  "vmc_proto_decode (Some (replicate 17 0)) 17 \<noteq> (VMC_OK, Some (zero_header, []))"
  using proto_decode_accepts_iff [of "replicate 17 0" 17 zero_header "[]"]
  by (simp add: vmc_proto_header_valid_Some zero_header_def VMC_PROTO_VERSION_def)

text \<open>
  C3: Overwriting any one byte of an accepted datagram with a different value makes the
  decoder reject it, for every position of the frame except the two bytes of the length
  field (which decide how much of the datagram the checksum covers).
\<close>

theorem proto_detects_byte_error:
  assumes ok: "fst (vmc_proto_decode (Some f) len) = VMC_OK" and "length f = unat len"
    and i: "i < 17 + unat (ph_payload_len (read_header f))" "i \<noteq> 6" "i \<noteq> 7"
    and b: "b \<noteq> f ! i"
  shows "fst (vmc_proto_decode (Some (f[i := b])) len) \<noteq> VMC_OK"
proof -
  let ?n = "unat (ph_payload_len (read_header f))"
  have fits: "17 + ?n \<le> length f" and crc: "f ! 16 = crc8_update 0 (covered f ?n)"
    using ok assms(2) by (simp_all add: vmc_proto_decode_OK_iff)
  have "f[i := b] ! 16 \<noteq> crc8_update 0 (covered (f[i := b]) ?n)"
  proof (cases "i = 16")
    case True
    then have "covered (f[i := b]) ?n = covered f ?n" by (simp add: covered_def)
    with True crc b fits show ?thesis by simp
  next
    case False
    with covered_update [OF fits i(1) False b] crc show ?thesis by simp
  qed
  then show ?thesis
    using i by (simp add: vmc_proto_decode_OK_iff read_header_plen_update)
qed

definition sample_frame :: bytes where
  "sample_frame = frame_image (sample_header\<lparr>ph_payload_len := 0\<rparr>) []"

lemma sample_frame_ok: "fst (vmc_proto_decode (Some sample_frame) 17) = VMC_OK"
  using vmc_proto_decode_frame [of "sample_header\<lparr>ph_payload_len := 0\<rparr>" "[]" 17 "[]"]
    sample_header_valid
  by (simp add: vmc_proto_header_valid_Some sample_frame_def)

lemma sample_frame_seq: "length sample_frame = 17" "sample_frame ! 8 = 4"
  by (simp_all add: sample_frame_def frame_image_def header_image_defs sample_header_def)

theorem proto_detects_byte_error_witness:
  "fst (vmc_proto_decode (Some sample_frame) 17) = VMC_OK \<and>
   fst (vmc_proto_decode (Some (sample_frame[8 := 5])) 17) \<noteq> VMC_OK"
  using sample_frame_ok proto_detects_byte_error [of sample_frame 17 8 5] sample_frame_seq by simp

end
