(* ===== verification/Jitter_Buffer.thy ===== *)
theory Jitter_Buffer
  imports Vmc_Prelude
begin

text \<open>
  The fixed-slot reorder buffer of \<^verbatim>\<open>src/transport/jitter_buffer.c\<close>: 256 slots that own
  a copy of their payload, 32-bit sequence numbers compared modulo wrap-around, and a playout
  delay. The contract of a buffer that releases its items in order is the locale
  \<open>playout_queue\<close>; the receive loop's drain is proved against it.
\<close>

section \<open>State\<close>

definition VMC_JB_MAX_SLOTS :: nat where [const_defs]: "VMC_JB_MAX_SLOTS = 256"
definition VMC_JB_PAYLOAD_CAP :: nat where [const_defs]: "VMC_JB_PAYLOAD_CAP = 1408"

text \<open>
  The payload pointer of a slot is null or points to the slot's own storage, so it is kept
  as a flag.
\<close>

record vmc_jb_slot =
  js_seq :: u32
  js_ts_us :: u32
  js_flags :: u16
  js_stream :: u8
  js_len :: u16
  js_recv_us :: u64
  js_payload :: bool
  js_storage :: bytes
  js_valid :: bool

record vmc_jitter_buffer =
  jb_slots :: "vmc_jb_slot list"
  jb_next_seq :: u32
  jb_target_delay_us :: u64
  jb_stats_pushed :: u64
  jb_stats_played :: u64
  jb_stats_dropped_late :: u64
  jb_stats_dropped_dupe :: u64
  jb_stats_gaps :: u64

definition zero_slot :: vmc_jb_slot where
  "zero_slot = \<lparr>js_seq = 0, js_ts_us = 0, js_flags = 0, js_stream = 0, js_len = 0, js_recv_us = 0,
     js_payload = False, js_storage = replicate VMC_JB_PAYLOAD_CAP 0, js_valid = False\<rparr>"

definition zero_jb :: vmc_jitter_buffer where
  "zero_jb = \<lparr>jb_slots = replicate VMC_JB_MAX_SLOTS zero_slot, jb_next_seq = 0,
     jb_target_delay_us = 0, jb_stats_pushed = 0, jb_stats_played = 0, jb_stats_dropped_late = 0,
     jb_stats_dropped_dupe = 0, jb_stats_gaps = 0\<rparr>"

section \<open>Operations\<close>

definition vmc_jb_init ::
  "vmc_jitter_buffer option \<Rightarrow> u64 \<Rightarrow> vmc_status \<times> vmc_jitter_buffer option" where
  "vmc_jb_init jb delay =
     (case jb of
        None \<Rightarrow> (VMC_ERR_INVALID_ARG, None)
      | Some _ \<Rightarrow> (VMC_OK, Some (zero_jb\<lparr>jb_target_delay_us := delay\<rparr>)))"

definition vmc_jb_reset :: "vmc_jitter_buffer \<Rightarrow> u32 \<Rightarrow> vmc_jitter_buffer" where
  "vmc_jb_reset jb first_seq = zero_jb\<lparr>jb_next_seq := first_seq\<rparr>"

definition seq_cmp :: "u32 \<Rightarrow> u32 \<Rightarrow> int" where
  "seq_cmp a b = sint (a - b)"

definition find_slot :: "vmc_jitter_buffer \<Rightarrow> u32 \<Rightarrow> nat option" where
  "find_slot jb seq = first_index (\<lambda>s. js_valid s \<and> js_seq s = seq) (jb_slots jb)"

definition free_slot :: "vmc_jitter_buffer \<Rightarrow> nat option" where
  "free_slot jb = first_index (\<lambda>s. \<not> js_valid s) (jb_slots jb)"

text \<open>The body of the slot written by a push (lines 65 to 78).\<close>

definition fill_slot ::
  "vmc_jb_slot \<Rightarrow> u32 \<Rightarrow> u32 \<Rightarrow> u8 \<Rightarrow> u16 \<Rightarrow> bytes option \<Rightarrow> u16 \<Rightarrow> u64 \<Rightarrow> vmc_jb_slot" where
  "fill_slot s seq ts_us stream flags payload len recv_us =
     (let s1 = s\<lparr>js_seq := seq, js_ts_us := ts_us, js_flags := flags, js_stream := stream,
                 js_len := len, js_recv_us := recv_us, js_valid := True\<rparr>;
          cap = (if unat len < VMC_JB_PAYLOAD_CAP then unat len else VMC_JB_PAYLOAD_CAP);
          s2 = (if len > 0
                then s1\<lparr>js_storage := mem_write (js_storage s1) 0
                                        (take cap (case payload of Some p \<Rightarrow> p | None \<Rightarrow> [])),
                        js_len := of_nat cap\<rparr>
                else s1)
      in s2\<lparr>js_payload := True\<rparr>)"

definition vmc_jb_push ::
  "vmc_jitter_buffer option \<Rightarrow> u32 \<Rightarrow> u32 \<Rightarrow> u8 \<Rightarrow> u16 \<Rightarrow> bytes option \<Rightarrow> u16 \<Rightarrow> u64
     \<Rightarrow> vmc_status \<times> vmc_jitter_buffer option" where
  "vmc_jb_push jbo seq ts_us stream flags payload len recv_us =
     (case jbo of
        None \<Rightarrow> (VMC_ERR_INVALID_ARG, jbo)
      | Some jb0 \<Rightarrow>
          if len > 0 \<and> payload = None then (VMC_ERR_INVALID_ARG, jbo)
          else
            let jb = (if jb_stats_pushed jb0 = 0 then jb0\<lparr>jb_next_seq := seq\<rparr> else jb0)
            in case find_slot jb seq of
                 Some _ \<Rightarrow> (VMC_ERR_AGAIN,
                            Some (jb\<lparr>jb_stats_dropped_dupe := jb_stats_dropped_dupe jb + 1\<rparr>))
               | None \<Rightarrow>
                   let fwd = seq_cmp seq (jb_next_seq jb)
                   in if fwd \<ge> int VMC_JB_MAX_SLOTS \<or> fwd \<le> - int VMC_JB_MAX_SLOTS
                      then (VMC_ERR_OUT_OF_SYNC,
                            Some (jb\<lparr>jb_stats_dropped_late := jb_stats_dropped_late jb + 1\<rparr>))
                      else
                        (case free_slot jb of
                           None \<Rightarrow> (VMC_ERR_OVERRUN,
                                    Some (jb\<lparr>jb_stats_dropped_late := jb_stats_dropped_late jb + 1\<rparr>))
                         | Some i \<Rightarrow>
                             (VMC_OK,
                              Some (jb\<lparr>jb_slots := (jb_slots jb)[i := fill_slot (jb_slots jb ! i)
                                         seq ts_us stream flags payload len recv_us],
                                       jb_stats_pushed := jb_stats_pushed jb + 1\<rparr>))))"

definition peek_scan ::
  "vmc_jb_slot \<Rightarrow> vmc_jb_slot option \<times> vmc_jb_slot option
     \<Rightarrow> vmc_jb_slot option \<times> vmc_jb_slot option" where
  "peek_scan s acc =
     (case acc of (mn, newest) \<Rightarrow>
        if \<not> js_valid s then acc
        else ((case mn of None \<Rightarrow> Some s
               | Some m \<Rightarrow> if seq_cmp (js_seq s) (js_seq m) < 0 then Some s else mn),
              (case newest of None \<Rightarrow> Some s
               | Some w \<Rightarrow> if js_recv_us s > js_recv_us w then Some s else newest)))"

text \<open>
  Every branch of the \<^verbatim>\<open>iter\<close> loop's body returns, so the loop runs once. The slot pointer
  returned is the slot's contents: the caller reads it before the next call.
\<close>

definition vmc_jb_peek ::
  "vmc_jitter_buffer option \<Rightarrow> u64 \<Rightarrow> vmc_jb_slot option \<times> vmc_jitter_buffer option" where
  "vmc_jb_peek jbo now_us =
     (case jbo of
        None \<Rightarrow> (None, jbo)
      | Some jb \<Rightarrow>
          (case fold peek_scan (jb_slots jb) (None, None) of
             (Some mn, Some newest) \<Rightarrow>
               let old = (\<lambda>s. now_us - js_recv_us s \<ge> jb_target_delay_us jb)
               in if seq_cmp (js_seq mn) (jb_next_seq jb) < 0 then
                    (if old mn then (Some mn, Some (jb\<lparr>jb_next_seq := js_seq mn\<rparr>))
                     else (None, jbo))
                  else if seq_cmp (js_seq mn) (jb_next_seq jb) > 0 then
                    (if old newest then
                       let jb1 = jb\<lparr>jb_stats_gaps :=
                                     jb_stats_gaps jb + ucast (js_seq mn - jb_next_seq jb),
                                   jb_next_seq := js_seq mn\<rparr>
                       in (if old mn then (Some mn, Some jb1) else (None, Some jb1))
                     else (None, jbo))
                  else if old mn then (Some mn, jbo)
                  else (None, jbo)
           | _ \<Rightarrow> (None, jbo)))"

definition vmc_jb_consume :: "vmc_jitter_buffer \<Rightarrow> vmc_jitter_buffer" where
  "vmc_jb_consume jb =
     (case find_slot jb (jb_next_seq jb) of
        None \<Rightarrow> jb
      | Some i \<Rightarrow> jb\<lparr>jb_slots := (jb_slots jb)[i := (jb_slots jb ! i)\<lparr>js_valid := False\<rparr>],
                     jb_next_seq := jb_next_seq jb + 1,
                     jb_stats_played := jb_stats_played jb + 1\<rparr>)"

definition vmc_jb_flush_before :: "vmc_jitter_buffer \<Rightarrow> u32 \<Rightarrow> vmc_jitter_buffer" where
  "vmc_jb_flush_before jb seq =
     (let jb1 = jb\<lparr>jb_slots := map (\<lambda>s. if js_valid s \<and> seq_cmp (js_seq s) seq < 0
                                     then s\<lparr>js_valid := False\<rparr> else s) (jb_slots jb)\<rparr>
      in if seq_cmp seq (jb_next_seq jb1) > 0 then jb1\<lparr>jb_next_seq := seq\<rparr> else jb1)"

definition vmc_jb_estimate_jitter_us :: "vmc_jitter_buffer \<Rightarrow> u64" where
  "vmc_jb_estimate_jitter_us jb = 0"

section \<open>Sequence numbers as offsets\<close>

text \<open>
  Within a half of the number circle the wrapped comparison agrees with the order of the
  distances from any base.
\<close>

definition seq_off :: "u32 \<Rightarrow> u32 \<Rightarrow> nat" where
  "seq_off base a = unat (a - base)"

lemma seq_off_inj: "seq_off base a = seq_off base b \<longleftrightarrow> a = b"
  by (simp add: seq_off_def flip: word_unat_eq_iff)

lemma uint_half: "unat (w :: u32) < 2 ^ 31 \<Longrightarrow> uint w < 2 ^ 31"
proof -
  assume "unat w < 2 ^ 31"
  then have "int (unat w) < int (2 ^ 31)" by (simp only: of_nat_less_iff)
  then show ?thesis by simp
qed

lemma sint_diff_small:
  fixes x y :: u32
  assumes "unat x < 2 ^ 31" and "unat y < 2 ^ 31"
  shows "sint (x - y) = int (unat x) - int (unat y)"
proof -
  have x: "0 \<le> uint x" "uint x < 2 ^ 31" and y: "0 \<le> uint y" "uint y < 2 ^ 31"
    using assms uint_half by simp_all
  then have "sint x = uint x" "sint y = uint y"
    using signed_take_bit_int_eq_self [of 31 "uint x", OF order_trans [OF _ x(1)]]
      signed_take_bit_int_eq_self [of 31 "uint y", OF order_trans [OF _ y(1)]]
    by (simp_all add: sint_uint)
  moreover have "- (2 ^ 31) \<le> uint x - uint y" "uint x - uint y < 2 ^ 31"
    using x y by linarith+
  ultimately show ?thesis
    using signed_take_bit_int_eq_self [of 31 "uint x - uint y"] by (simp add: sint_word_ariths)
qed

lemma seq_cmp_off:
  assumes "seq_off base a < 2 ^ 31" and "seq_off base b < 2 ^ 31"
  shows "seq_cmp a b = int (seq_off base a) - int (seq_off base b)"
proof -
  have "a - b = (a - base) - (b - base)" by simp
  then show ?thesis
    using assms sint_diff_small [of "a - base" "b - base"] by (simp add: seq_cmp_def seq_off_def)
qed

section \<open>Well-formed buffers\<close>

definition slot_ok :: "vmc_jb_slot \<Rightarrow> bool" where
  "slot_ok s \<longleftrightarrow> length (js_storage s) = VMC_JB_PAYLOAD_CAP \<and> unat (js_len s) \<le> VMC_JB_PAYLOAD_CAP \<and>
     (js_valid s \<longrightarrow> js_payload s)"

definition held :: "vmc_jitter_buffer \<Rightarrow> vmc_jb_slot list" where
  "held jb = filter js_valid (jb_slots jb)"

text \<open>
  No sequence number is held twice, and while nothing was flushed the two counters account
  for every held datagram.
\<close>

definition jb_inv :: "vmc_jitter_buffer \<Rightarrow> bool" where
  "jb_inv jb \<longleftrightarrow> length (jb_slots jb) = VMC_JB_MAX_SLOTS \<and> list_all slot_ok (jb_slots jb) \<and>
     distinct (map js_seq (held jb))"

definition jb_balanced :: "vmc_jitter_buffer \<Rightarrow> bool" where
  "jb_balanced jb \<longleftrightarrow> jb_stats_pushed jb = jb_stats_played jb + of_nat (length (held jb))"

lemma find_slot_None: "find_slot jb seq = None \<longleftrightarrow> seq \<notin> js_seq ` set (held jb)"
  by (auto simp: find_slot_def held_def)

lemma find_slot_Some:
  "find_slot jb seq = Some i \<Longrightarrow>
     i < length (jb_slots jb) \<and> js_valid (jb_slots jb ! i) \<and> js_seq (jb_slots jb ! i) = seq"
  using first_index_Some by (fastforce simp: find_slot_def)

lemma free_slot_Some:
  "free_slot jb = Some i \<Longrightarrow> i < length (jb_slots jb) \<and> \<not> js_valid (jb_slots jb ! i)"
  using first_index_Some by (fastforce simp: free_slot_def)

lemma free_slot_None: "free_slot jb = None \<longleftrightarrow> length (held jb) = length (jb_slots jb)"
  using length_filter_less [of _ "jb_slots jb" js_valid]
  by (fastforce simp: free_slot_def held_def)

lemma zero_jb_inv: "jb_inv zero_jb"
  by (auto simp: jb_inv_def zero_jb_def held_def slot_ok_def zero_slot_def list_all_iff)

lemma fill_slot_props:
  assumes "slot_ok s" and "len > 0 \<longrightarrow> (\<exists>p. payload = Some p \<and> unat len \<le> length p)"
  shows "slot_ok (fill_slot s seq ts st fl payload len rv)"
    and "js_valid (fill_slot s seq ts st fl payload len rv)"
    and "js_seq (fill_slot s seq ts st fl payload len rv) = seq"
    and "js_recv_us (fill_slot s seq ts st fl payload len rv) = rv"
proof -
  have c: "unat (of_nat (min (unat len) 1408) :: u16) = min (unat len) 1408"
    by (subst unat_of_nat) simp
  show "slot_ok (fill_slot s seq ts st fl payload len rv)"
    using assms c
    by (cases "len = 0") (auto simp: slot_ok_def fill_slot_def Let_def const_defs min_def word_neq_0_conv)
qed (simp_all add: fill_slot_def Let_def)

lemma held_upd:
  assumes "i < length (jb_slots jb)"
  shows "held (jb\<lparr>jb_slots := (jb_slots jb)[i := s]\<rparr>) =
    filter js_valid (take i (jb_slots jb)) @ filter js_valid [s] @
    filter js_valid (drop (Suc i) (jb_slots jb))"
    and "held jb = filter js_valid (take i (jb_slots jb)) @ filter js_valid [jb_slots jb ! i] @
    filter js_valid (drop (Suc i) (jb_slots jb))"
  using set_update_split(2) [OF assms, of s] arg_cong [OF set_update_split(1) [OF assms], of "filter js_valid"]
  by (simp_all add: held_def)

lemma held_simps [simp]:
  "held (jb\<lparr>jb_next_seq := a\<rparr>) = held jb" "held (jb\<lparr>jb_stats_pushed := b\<rparr>) = held jb"
  "held (jb\<lparr>jb_stats_played := b\<rparr>) = held jb" "held (jb\<lparr>jb_stats_dropped_late := b\<rparr>) = held jb"
  "held (jb\<lparr>jb_stats_dropped_dupe := b\<rparr>) = held jb" "held (jb\<lparr>jb_stats_gaps := b\<rparr>) = held jb"
  "held (jb\<lparr>jb_target_delay_us := b\<rparr>) = held jb"
  by (simp_all add: held_def)

lemma jb_inv_simps [simp]:
  "jb_inv (jb\<lparr>jb_next_seq := a\<rparr>) = jb_inv jb" "jb_inv (jb\<lparr>jb_stats_pushed := b\<rparr>) = jb_inv jb"
  "jb_inv (jb\<lparr>jb_stats_played := b\<rparr>) = jb_inv jb" "jb_inv (jb\<lparr>jb_stats_dropped_late := b\<rparr>) = jb_inv jb"
  "jb_inv (jb\<lparr>jb_stats_dropped_dupe := b\<rparr>) = jb_inv jb" "jb_inv (jb\<lparr>jb_stats_gaps := b\<rparr>) = jb_inv jb"
  "jb_inv (jb\<lparr>jb_target_delay_us := b\<rparr>) = jb_inv jb"
  by (simp_all add: jb_inv_def held_def)

section \<open>Push and consume\<close>

lemma insert_slot:
  assumes inv: "jb_inv jb" and i: "i < length (jb_slots jb)" "\<not> js_valid (jb_slots jb ! i)"
    and s: "slot_ok s" "js_valid s" "js_seq s \<notin> js_seq ` set (held jb)"
  defines "jb' \<equiv> jb\<lparr>jb_slots := (jb_slots jb)[i := s]\<rparr>"
  shows "jb_inv jb'" and "set (held jb') = insert s (set (held jb))"
    and "length (held jb') = Suc (length (held jb))"
proof -
  note h = held_upd [OF i(1)]
  show hs: "set (held jb') = insert s (set (held jb))"
    and "length (held jb') = Suc (length (held jb))"
    using i(2) s(2) unfolding jb'_def h(1) [of s] by (auto simp: h(2))
  have "distinct (map js_seq (held jb'))"
    using inv s(2,3) i(2) unfolding jb'_def h(1) [of s] jb_inv_def by (auto simp: h(2))
  moreover have "list_all slot_ok (jb_slots jb')"
    using inv s(1) i(1) by (auto simp: jb'_def jb_inv_def list_all_length nth_list_update)
  ultimately show "jb_inv jb'" using inv by (simp add: jb_inv_def jb'_def)
qed

lemma remove_slot:
  assumes inv: "jb_inv jb" and i: "i < length (jb_slots jb)" "js_valid (jb_slots jb ! i)"
  defines "jb' \<equiv> jb\<lparr>jb_slots := (jb_slots jb)[i := (jb_slots jb ! i)\<lparr>js_valid := False\<rparr>]\<rparr>"
  shows "jb_inv jb'" and "set (held jb') = set (held jb) - {jb_slots jb ! i}"
    and "Suc (length (held jb')) = length (held jb)"
proof -
  note h = held_upd [OF i(1)]
  have d: "distinct (map js_seq (held jb))" using inv by (simp add: jb_inv_def)
  then have "distinct (held jb)" by (simp add: distinct_map)
  then show "set (held jb') = set (held jb) - {jb_slots jb ! i}"
    and "Suc (length (held jb')) = length (held jb)"
    using i(2) unfolding jb'_def h(1) by (auto simp: h(2))
  have "distinct (map js_seq (held jb'))"
    using d i(2) unfolding jb'_def h(1) by (auto simp: h(2))
  moreover have "list_all slot_ok (jb_slots jb')"
    using inv i(1) by (auto simp: jb'_def jb_inv_def list_all_length nth_list_update slot_ok_def)
  ultimately show "jb_inv jb'" using inv by (simp add: jb_inv_def jb'_def)
qed

text \<open>The base of the reorder window that a push works with.\<close>

definition push_base :: "vmc_jitter_buffer \<Rightarrow> u32 \<Rightarrow> u32" where
  "push_base jb seq = (if jb_stats_pushed jb = 0 then seq else jb_next_seq jb)"

definition in_window :: "vmc_jitter_buffer \<Rightarrow> u32 \<Rightarrow> bool" where
  "in_window jb seq \<longleftrightarrow> \<bar>seq_cmp seq (push_base jb seq)\<bar> < int VMC_JB_MAX_SLOTS"

definition payload_ok :: "bytes option \<Rightarrow> u16 \<Rightarrow> bool" where
  "payload_ok payload len \<longleftrightarrow> (len > 0 \<longrightarrow> (\<exists>p. payload = Some p \<and> unat len \<le> length p))"

lemma vmc_jb_push_cases:
  assumes inv: "jb_inv jb" and p: "payload_ok payload len"
  obtains
    (dup) "seq \<in> js_seq ` set (held jb)"
      "vmc_jb_push (Some jb) seq ts st fl payload len rv = (VMC_ERR_AGAIN, Some (jb\<lparr>
         jb_next_seq := push_base jb seq, jb_stats_dropped_dupe := jb_stats_dropped_dupe jb + 1\<rparr>))"
  | (late) "seq \<notin> js_seq ` set (held jb)" "\<not> in_window jb seq"
      "vmc_jb_push (Some jb) seq ts st fl payload len rv = (VMC_ERR_OUT_OF_SYNC, Some (jb\<lparr>
         jb_next_seq := push_base jb seq, jb_stats_dropped_late := jb_stats_dropped_late jb + 1\<rparr>))"
  | (full) "seq \<notin> js_seq ` set (held jb)" "in_window jb seq" "length (held jb) = VMC_JB_MAX_SLOTS"
      "vmc_jb_push (Some jb) seq ts st fl payload len rv = (VMC_ERR_OVERRUN, Some (jb\<lparr>
         jb_next_seq := push_base jb seq, jb_stats_dropped_late := jb_stats_dropped_late jb + 1\<rparr>))"
  | (stored) i where "seq \<notin> js_seq ` set (held jb)" "in_window jb seq"
      "length (held jb) < VMC_JB_MAX_SLOTS" "i < length (jb_slots jb)" "\<not> js_valid (jb_slots jb ! i)"
      "vmc_jb_push (Some jb) seq ts st fl payload len rv = (VMC_OK, Some (jb\<lparr>
         jb_slots := (jb_slots jb)[i := fill_slot (jb_slots jb ! i) seq ts st fl payload len rv],
         jb_next_seq := push_base jb seq, jb_stats_pushed := jb_stats_pushed jb + 1\<rparr>))"
proof -
  let ?jb = "jb\<lparr>jb_next_seq := push_base jb seq\<rparr>"
  have b: "(if jb_stats_pushed jb = 0 then jb\<lparr>jb_next_seq := seq\<rparr> else jb) = ?jb"
    by (simp add: push_base_def)
  have np: "\<not> (len > 0 \<and> payload = None)" using p by (auto simp: payload_ok_def)
  have le: "length (held jb) \<le> VMC_JB_MAX_SLOTS"
    using inv length_filter_le [of js_valid "jb_slots jb"] by (simp add: jb_inv_def held_def)
  have w: "(seq_cmp seq (jb_next_seq ?jb) \<ge> int VMC_JB_MAX_SLOTS \<or>
      seq_cmp seq (jb_next_seq ?jb) \<le> - int VMC_JB_MAX_SLOTS) = (\<not> in_window jb seq)"
    by (auto simp: in_window_def)
  note push = vmc_jb_push_def [of "Some jb" seq ts st fl payload len rv, simplified option.case if_not_P [OF np] b w Let_def]
  show ?thesis
  proof (cases "find_slot ?jb seq")
    case (Some i)
    with find_slot_None [of ?jb seq] show ?thesis by (intro dup) (auto simp: push)
  next
    case None
    then have f: "find_slot ?jb seq = None" "seq \<notin> js_seq ` set (held jb)"
      using find_slot_None [of ?jb seq] by simp_all
    show ?thesis
    proof (cases "in_window jb seq")
      case False with f show ?thesis by (intro late) (auto simp: push)
    next
      case True
      show ?thesis
      proof (cases "free_slot ?jb")
        case None
        then have "length (held jb) = VMC_JB_MAX_SLOTS"
          using inv by (simp add: free_slot_None jb_inv_def)
        with True f None show ?thesis by (intro full) (auto simp: push)
      next
        case (Some i)
        then have "length (held jb) < VMC_JB_MAX_SLOTS"
          using free_slot_None [of ?jb] inv le by (simp add: jb_inv_def)
        with True f Some free_slot_Some [OF Some] show ?thesis
          by (intro stored [of i]) (auto simp: push)
      qed
    qed
  qed
qed

lemma vmc_jb_push_inv:
  assumes "jb_inv jb" and "payload_ok payload len"
    and "vmc_jb_push (Some jb) seq ts st fl payload len rv = (r, Some jb')"
  shows "jb_inv jb' \<and> (jb_balanced jb \<longrightarrow> jb_balanced jb')"
proof -
  have slots: "slot_ok (jb_slots jb ! i)" if "i < length (jb_slots jb)" for i
    using assms(1) that by (simp add: jb_inv_def list_all_length)
  from assms(1,2) show ?thesis
  proof (cases rule: vmc_jb_push_cases [of jb payload len seq ts st fl rv])
    case (stored i)
    let ?s = "fill_slot (jb_slots jb ! i) seq ts st fl payload len rv"
    note f = fill_slot_props [OF slots [OF stored(4)] assms(2) [unfolded payload_ok_def],
        of seq ts st fl rv]
    note ins = insert_slot [OF assms(1) stored(4,5) f(1,2)]
    have jb': "jb' = jb\<lparr>jb_slots := (jb_slots jb)[i := ?s]\<rparr>\<lparr>jb_next_seq := push_base jb seq,
        jb_stats_pushed := jb_stats_pushed jb + 1\<rparr>"
      using stored(6) assms(3) by simp
    show ?thesis
      using ins stored(1) f(3) unfolding jb' jb_balanced_def by (simp add: algebra_simps)
  qed (use assms in \<open>auto simp: jb_balanced_def\<close>)
qed

lemma held_unique:
  "jb_inv jb \<Longrightarrow> a \<in> set (held jb) \<Longrightarrow> b \<in> set (held jb) \<Longrightarrow> js_seq a = js_seq b \<Longrightarrow> a = b"
  by (auto simp: jb_inv_def distinct_map inj_on_def)

lemma vmc_jb_consume_held:
  assumes inv: "jb_inv jb" and s: "s \<in> set (held jb)" and n: "js_seq s = jb_next_seq jb"
  shows "jb_inv (vmc_jb_consume jb)" and "set (held (vmc_jb_consume jb)) = set (held jb) - {s}"
    and "Suc (length (held (vmc_jb_consume jb))) = length (held jb)"
    and "jb_next_seq (vmc_jb_consume jb) = jb_next_seq jb + 1"
    and "jb_stats_played (vmc_jb_consume jb) = jb_stats_played jb + 1"
    and "jb_target_delay_us (vmc_jb_consume jb) = jb_target_delay_us jb"
    and "jb_stats_pushed (vmc_jb_consume jb) = jb_stats_pushed jb"
proof -
  have "jb_next_seq jb \<in> js_seq ` set (held jb)" using s n by (metis imageI)
  then obtain i where i: "find_slot jb (jb_next_seq jb) = Some i"
    using find_slot_None [of jb "jb_next_seq jb"] by fastforce
  note fi = find_slot_Some [OF i]
  then have "jb_slots jb ! i \<in> set (held jb)" by (auto simp: held_def)
  then have eq: "jb_slots jb ! i = s" using fi held_unique [OF inv _ s] n by simp
  note rem = remove_slot [OF inv, of i, unfolded eq]
  show "jb_inv (vmc_jb_consume jb)" "set (held (vmc_jb_consume jb)) = set (held jb) - {s}"
    "Suc (length (held (vmc_jb_consume jb))) = length (held jb)"
    "jb_next_seq (vmc_jb_consume jb) = jb_next_seq jb + 1"
    "jb_stats_played (vmc_jb_consume jb) = jb_stats_played jb + 1"
    "jb_target_delay_us (vmc_jb_consume jb) = jb_target_delay_us jb"
    "jb_stats_pushed (vmc_jb_consume jb) = jb_stats_pushed jb"
    using rem fi eq by (simp_all add: vmc_jb_consume_def i)
qed

lemma vmc_jb_consume_none:
  "jb_next_seq jb \<notin> js_seq ` set (held jb) \<Longrightarrow> vmc_jb_consume jb = jb"
  by (auto simp: vmc_jb_consume_def simp flip: find_slot_None)

section \<open>Playout\<close>

text \<open>
  \<open>jb_span base jb\<close>: every held sequence number lies within half of the number circle
  from \<open>base\<close>, so that the wrapped comparison is a linear order on them.
\<close>

definition jb_span :: "u32 \<Rightarrow> vmc_jitter_buffer \<Rightarrow> bool" where
  "jb_span base jb \<longleftrightarrow> (\<forall>s \<in> set (held jb). seq_off base (js_seq s) < 2 ^ 31)"

lemma peek_scan_held:
  "fold peek_scan xs acc = fold peek_scan (filter js_valid xs) acc"
  by (induction xs arbitrary: acc) (auto simp: peek_scan_def split: prod.splits)

lemma peek_scan_Some:
  assumes "\<forall>x \<in> set xs. js_valid x"
  shows "\<exists>m' w'. fold peek_scan xs (Some m, Some w) = (Some m', Some w') \<and> w' \<in> insert w (set xs) \<and>
    ((\<forall>x \<in> insert m (set xs). seq_off base (js_seq x) < 2 ^ 31) \<longrightarrow>
       m' \<in> insert m (set xs) \<and>
       (\<forall>x \<in> insert m (set xs). seq_off base (js_seq m') \<le> seq_off base (js_seq x)))"
  using assms
proof (induction xs arbitrary: m w)
  case (Cons x xs)
  define m1 where "m1 = (if seq_cmp (js_seq x) (js_seq m) < 0 then x else m)"
  define w1 where "w1 = (if js_recv_us x > js_recv_us w then x else w)"
  have step: "peek_scan x (Some m, Some w) = (Some m1, Some w1)"
    using Cons.prems by (simp add: peek_scan_def m1_def w1_def)
  obtain m' w' where r: "fold peek_scan xs (Some m1, Some w1) = (Some m', Some w')"
    "w' \<in> insert w1 (set xs)"
    "(\<forall>x \<in> insert m1 (set xs). seq_off base (js_seq x) < 2 ^ 31) \<longrightarrow>
       m' \<in> insert m1 (set xs) \<and>
       (\<forall>x \<in> insert m1 (set xs). seq_off base (js_seq m') \<le> seq_off base (js_seq x))"
    using Cons.IH [of m1 w1] Cons.prems by auto
  have le: "seq_off base (js_seq m1) \<le> seq_off base (js_seq x) \<and>
      seq_off base (js_seq m1) \<le> seq_off base (js_seq m)"
    if "seq_off base (js_seq x) < 2 ^ 31" "seq_off base (js_seq m) < 2 ^ 31"
    using seq_cmp_off [OF that] by (auto simp: m1_def)
  have m1: "m1 \<in> {x, m}" and w1: "w1 \<in> {x, w}" by (auto simp: m1_def w1_def)
  have "m' \<in> insert m (set (x # xs)) \<and>
      (\<forall>y \<in> insert m (set (x # xs)). seq_off base (js_seq m') \<le> seq_off base (js_seq y))"
    if sp: "\<forall>y \<in> insert m (set (x # xs)). seq_off base (js_seq y) < 2 ^ 31"
  proof -
    have "m' \<in> insert m1 (set xs)"
      and mn: "\<forall>y \<in> insert m1 (set xs). seq_off base (js_seq m') \<le> seq_off base (js_seq y)"
      using r(3) m1 sp by simp_all blast+
    moreover have "seq_off base (js_seq m') \<le> seq_off base (js_seq x)"
      "seq_off base (js_seq m') \<le> seq_off base (js_seq m)"
      using le sp mn order_trans by (metis insertI1 list.set_intros(1) insertI2)+
    ultimately show ?thesis using m1 by simp blast
  qed
  moreover have "w' \<in> insert w (set (x # xs))" using r(2) w1 by simp blast
  ultimately show ?case using r(1) step by simp
qed auto

lemma peek_scan_result:
  assumes "jb_span base jb" and "held jb \<noteq> []"
  obtains m w where "fold peek_scan (jb_slots jb) (None, None) = (Some m, Some w)"
    "m \<in> set (held jb)" "w \<in> set (held jb)"
    "\<forall>x \<in> set (held jb). seq_off base (js_seq m) \<le> seq_off base (js_seq x)"
proof -
  obtain x xs where h: "held jb = x # xs" using assms(2) by (cases "held jb") auto
  then have v: "js_valid x" "\<forall>y \<in> set xs. js_valid y"
    using filter_set [of js_valid "jb_slots jb"] by (auto simp: held_def filter_eq_Cons_iff)
  have "fold peek_scan (jb_slots jb) (None, None) = fold peek_scan xs (Some x, Some x)"
    using peek_scan_held [of "jb_slots jb"] h v(1) by (simp add: held_def peek_scan_def)
  with peek_scan_Some [OF v(2), of x x base] assms(1) h that show ?thesis
    by (auto simp: jb_span_def)
qed

definition old_enough :: "vmc_jitter_buffer \<Rightarrow> u64 \<Rightarrow> vmc_jb_slot \<Rightarrow> bool" where
  "old_enough jb now s \<longleftrightarrow> jb_target_delay_us jb \<le> now - js_recv_us s"

lemma vmc_jb_peek_empty: "held jb = [] \<Longrightarrow> vmc_jb_peek (Some jb) now = (None, Some jb)"
  using peek_scan_held [of "jb_slots jb"] by (simp add: vmc_jb_peek_def held_def)

lemma vmc_jb_peek_keeps:
  assumes "vmc_jb_peek (Some jb) now = (r, Some jb')"
  shows "jb_slots jb' = jb_slots jb" and "jb_target_delay_us jb' = jb_target_delay_us jb"
    and "jb_stats_pushed jb' = jb_stats_pushed jb" and "jb_stats_played jb' = jb_stats_played jb"
  using assms by (auto simp: vmc_jb_peek_def Let_def split: prod.splits option.splits if_splits)

lemma vmc_jb_peek_Some:
  assumes span: "jb_span base jb" and pk: "vmc_jb_peek (Some jb) now = (Some s, Some jb')"
  shows "s \<in> set (held jb)" and "old_enough jb now s" and "jb_next_seq jb' = js_seq s"
    and "\<forall>x \<in> set (held jb). seq_off base (js_seq s) \<le> seq_off base (js_seq x)"
proof -
  have "held jb \<noteq> []" using pk vmc_jb_peek_empty by force
  then obtain m w where f: "fold peek_scan (jb_slots jb) (None, None) = (Some m, Some w)"
    "m \<in> set (held jb)" "w \<in> set (held jb)"
    "\<forall>x \<in> set (held jb). seq_off base (js_seq m) \<le> seq_off base (js_seq x)"
    using span by (elim peek_scan_result)
  have z: "sint w = 0 \<Longrightarrow> w = 0" for w :: u32 by (metis signed_word_eqI sint_0)
  have "s = m" "old_enough jb now m" "jb_next_seq jb' = js_seq m"
    using pk z [of "js_seq m - jb_next_seq jb"]
    by (auto simp: vmc_jb_peek_def f Let_def old_enough_def seq_cmp_def split: if_splits)
  with f show "s \<in> set (held jb)" "old_enough jb now s" "jb_next_seq jb' = js_seq s"
    "\<forall>x \<in> set (held jb). seq_off base (js_seq s) \<le> seq_off base (js_seq x)" by simp_all
qed

lemma vmc_jb_peek_ready:
  assumes "jb_span base jb" and "held jb \<noteq> []" and "\<forall>s \<in> set (held jb). old_enough jb now s"
  shows "\<exists>s jb'. vmc_jb_peek (Some jb) now = (Some s, Some jb')"
proof -
  obtain m w where "fold peek_scan (jb_slots jb) (None, None) = (Some m, Some w)"
    "m \<in> set (held jb)" "w \<in> set (held jb)"
    using assms(1,2) by (rule peek_scan_result)
  with assms(3) show ?thesis by (auto simp: vmc_jb_peek_def Let_def old_enough_def)
qed

section \<open>The ordered playout contract\<close>

text \<open>The client's loop: take the next item until none is left (or the bound is reached).\<close>

fun drain :: "('s \<Rightarrow> 'p option \<times> 's) \<Rightarrow> nat \<Rightarrow> 's \<Rightarrow> 'p list \<times> 's" where
  "drain take_next 0 s = ([], s)"
| "drain take_next (Suc n) s =
     (case take_next s of
        (None, s1) \<Rightarrow> ([], s1)
      | (Some p, s1) \<Rightarrow> (case drain take_next n s1 of (ps, s2) \<Rightarrow> (p # ps, s2)))"

locale playout_queue =
  fixes inv :: "'s \<Rightarrow> bool"
    and items :: "'s \<Rightarrow> 'p set"
    and key :: "'p \<Rightarrow> nat"
    and take_next :: "'s \<Rightarrow> 'p option \<times> 's"
  assumes items_finite: "inv s \<Longrightarrow> finite (items s)"
    and next_None: "inv s \<Longrightarrow> take_next s = (None, s') \<Longrightarrow> items s = {} \<and> s' = s"
    and next_Some: "inv s \<Longrightarrow> take_next s = (Some p, s') \<Longrightarrow>
      inv s' \<and> p \<in> items s \<and> items s' = items s - {p} \<and> (\<forall>q \<in> items s - {p}. key p < key q)"
begin

lemma drain_sorted:
  assumes "inv s" and "card (items s) < n" and "drain take_next n s = (ps, s')"
  shows "set ps = items s \<and> sorted_wrt (\<lambda>p q. key p < key q) ps \<and> items s' = {} \<and> inv s'"
  using assms
proof (induction n arbitrary: s ps)
  case (Suc n)
  show ?case
  proof (cases "take_next s")
    case (Pair o1 s1)
    show ?thesis
    proof (cases o1)
      case None
      with Suc.prems Pair next_None [of s s1] show ?thesis by auto
    next
      case (Some p)
      have law: "inv s1" "p \<in> items s" "items s1 = items s - {p}" "\<forall>q \<in> items s - {p}. key p < key q"
        using next_Some [of s p s1] Suc.prems(1) Pair Some by auto
      obtain qs where q: "drain take_next n s1 = (qs, s')" "ps = p # qs"
        using Suc.prems(3) Pair Some by (auto split: prod.splits)
      have "card (items s1) < card (items s)"
        unfolding law(3) using items_finite [OF Suc.prems(1)] law(2) by (rule card_Diff1_less)
      then have "card (items s1) < n" using Suc.prems(2) by linarith
      from Suc.IH [OF law(1) this q(1)] show ?thesis using q(2) law by auto
    qed
  qed
qed simp

lemma drain_length:
  assumes "inv s" and "card (items s) < n" and "drain take_next n s = (ps, s')"
  shows "length ps = card (items s)"
proof -
  have d: "set ps = items s" "sorted_wrt (\<lambda>p q. key p < key q) ps"
    using drain_sorted [OF assms] by blast+
  have "distinct ps"
    using d(2) by (induction ps) auto
  with d(1) show ?thesis by (metis distinct_card)
qed

end

text \<open>
  The buffer's peek and consume, as the receive loop of \<^verbatim>\<open>apps/thinclient/main.c\<close> pairs
  them, at one instant at which everything held is old enough to play.
\<close>

definition jb_take_next :: "u64 \<Rightarrow> vmc_jitter_buffer \<Rightarrow> vmc_jb_slot option \<times> vmc_jitter_buffer" where
  "jb_take_next now jb =
     (case vmc_jb_peek (Some jb) now of
        (Some s, Some jb1) \<Rightarrow> (Some s, vmc_jb_consume jb1)
      | (_, Some jb1) \<Rightarrow> (None, jb1)
      | (_, None) \<Rightarrow> (None, jb))"

definition jb_ready :: "u32 \<Rightarrow> u64 \<Rightarrow> vmc_jitter_buffer \<Rightarrow> bool" where
  "jb_ready base now jb \<longleftrightarrow> jb_inv jb \<and> jb_span base jb \<and> (\<forall>s \<in> set (held jb). old_enough jb now s)"

interpretation jb: playout_queue "jb_ready base now" "\<lambda>jb. set (held jb)"
  "\<lambda>s. seq_off base (js_seq s)" "jb_take_next now" for base now
proof unfold_locales
  fix jb jb' assume rd: "jb_ready base now jb" and nx: "jb_take_next now jb = (None, jb')"
  then have "held jb = []"
    using vmc_jb_peek_ready [of base jb now] by (fastforce simp: jb_ready_def jb_take_next_def)
  with nx show "set (held jb) = {} \<and> jb' = jb"
    by (simp add: jb_take_next_def vmc_jb_peek_empty)
next
  fix jb s jb' assume rd: "jb_ready base now jb" and nx: "jb_take_next now jb = (Some s, jb')"
  then obtain jb1 where pk: "vmc_jb_peek (Some jb) now = (Some s, Some jb1)"
    and jb': "jb' = vmc_jb_consume jb1"
    by (auto simp: jb_take_next_def split: prod.splits option.splits)
  have inv: "jb_inv jb" and span: "jb_span base jb" using rd by (simp_all add: jb_ready_def)
  note p = vmc_jb_peek_Some [OF span pk] and keep = vmc_jb_peek_keeps [OF pk]
  have h: "held jb1 = held jb" and inv1: "jb_inv jb1"
    using keep inv by (simp_all add: held_def jb_inv_def)
  have "s \<in> set (held jb1)" "js_seq s = jb_next_seq jb1" using p h by simp_all
  note c = vmc_jb_consume_held [OF inv1 this]
  have "\<forall>q \<in> set (held jb) - {s}. seq_off base (js_seq s) < seq_off base (js_seq q)"
    using p(1,4) held_unique [OF inv] by (metis DiffE insertI1 le_neq_implies_less seq_off_inj)
  moreover have "jb_ready base now jb'"
    using rd c keep unfolding jb' jb_ready_def by (auto simp: jb_span_def old_enough_def h)
  ultimately show "jb_ready base now jb' \<and> s \<in> set (held jb) \<and> set (held jb') = set (held jb) - {s} \<and>
      (\<forall>q \<in> set (held jb) - {s}. seq_off base (js_seq s) < seq_off base (js_seq q))"
    using p(1) c(2) h jb' by simp
qed simp

section \<open>Properties\<close>

definition slot_carries :: "vmc_jb_slot \<Rightarrow> u32 \<Rightarrow> u32 \<Rightarrow> u8 \<Rightarrow> u16 \<Rightarrow> bytes \<Rightarrow> u64 \<Rightarrow> bool" where
  "slot_carries s seq ts st fl bs rv \<longleftrightarrow>
     js_seq s = seq \<and> js_ts_us s = ts \<and> js_stream s = st \<and> js_flags s = fl \<and> js_recv_us s = rv \<and>
     js_payload s \<and> take (unat (js_len s)) (js_storage s) = bs"

lemma fill_slot_carries:
  assumes "slot_ok s" and "payload_ok payload len"
  shows "slot_carries (fill_slot s seq ts st fl payload len rv) seq ts st fl
    (take (min (unat len) VMC_JB_PAYLOAD_CAP) (case payload of Some p \<Rightarrow> p | None \<Rightarrow> [])) rv"
proof (cases "len = 0")
  case True
  then show ?thesis by (simp add: slot_carries_def fill_slot_def Let_def)
next
  case False
  then obtain p where p: "payload = Some p" "unat len \<le> length p" "0 < len"
    using assms(2) by (auto simp: payload_ok_def word_neq_0_conv)
  let ?c = "if unat len < 1408 then unat len else 1408"
  have c: "unat (of_nat ?c :: u16) = ?c" by (subst unat_of_nat) simp
  have "take ?c (mem_write (js_storage s) 0 (take ?c p)) = take ?c p"
    using p(2) by (simp add: mem_write_def)
  then show ?thesis
    using assms(1) p c
    by (simp add: slot_carries_def fill_slot_def Let_def const_defs slot_ok_def min_def
        split: if_splits)
qed

text \<open>
  The outcome of a push on a well-formed buffer, branch by branch. A sequence number
  already held is refused as a duplicate; one 256 or more away from the playout position is
  out of sync; with all 256 slots taken the push overruns; otherwise one slot is added that
  carries the datagram's metadata and a copy of its payload, cut at 1408 bytes. A refused
  datagram changes no held slot, and the buffer stays well-formed and its counters balanced.
\<close>

theorem jb_push_spec:
  assumes "jb_inv jb" and "payload_ok payload len"
  shows "\<exists>r jb'. vmc_jb_push (Some jb) seq ts st fl payload len rv = (r, Some jb') \<and>
    jb_inv jb' \<and> (jb_balanced jb \<longrightarrow> jb_balanced jb') \<and>
    r = (if seq \<in> js_seq ` set (held jb) then VMC_ERR_AGAIN
         else if \<not> in_window jb seq then VMC_ERR_OUT_OF_SYNC
         else if length (held jb) = VMC_JB_MAX_SLOTS then VMC_ERR_OVERRUN else VMC_OK) \<and>
    (r \<noteq> VMC_OK \<longrightarrow> held jb' = held jb) \<and>
    (r = VMC_OK \<longrightarrow> (\<exists>s. set (held jb') = insert s (set (held jb)) \<and>
       slot_carries s seq ts st fl (take (min (unat len) VMC_JB_PAYLOAD_CAP)
         (case payload of Some p \<Rightarrow> p | None \<Rightarrow> [])) rv))"
  using assms
proof (cases rule: vmc_jb_push_cases [of jb payload len seq ts st fl rv])
  case (stored i)
  let ?s = "fill_slot (jb_slots jb ! i) seq ts st fl payload len rv"
  have sl: "slot_ok (jb_slots jb ! i)"
    using assms(1) stored(4) by (simp add: jb_inv_def list_all_length)
  note f = fill_slot_props [OF sl assms(2) [unfolded payload_ok_def], of seq ts st fl rv]
  have "set (held (jb\<lparr>jb_slots := (jb_slots jb)[i := ?s]\<rparr>)) = insert ?s (set (held jb))"
    using insert_slot(2) [OF assms(1) stored(4,5) f(1,2)] stored(1) f(3) by simp
  then show ?thesis
    using stored vmc_jb_push_inv [OF assms stored(6)] fill_slot_carries [OF sl assms(2)]
    by (intro exI [of _ VMC_OK] exI) (auto simp: status_defs)
qed (use assms in \<open>auto simp: status_defs jb_balanced_def\<close>)

theorem jb_push_spec_witness:
  "\<exists>jb'. vmc_jb_push (Some zero_jb) 7 0 1 0 (Some [42]) 1 5 = (VMC_OK, Some jb') \<and>
    (\<exists>s. set (held jb') = {s} \<and> slot_carries s 7 0 1 0 [42] 5)"
proof -
  have h: "held zero_jb = []" by (simp add: held_def zero_jb_def zero_slot_def)
  have "jb_inv zero_jb" by (rule zero_jb_inv)
  moreover have "payload_ok (Some [42]) 1" by (simp add: payload_ok_def)
  moreover have "in_window zero_jb 7"
    by (simp add: in_window_def push_base_def zero_jb_def seq_cmp_def VMC_JB_MAX_SLOTS_def)
  ultimately show ?thesis
    using jb_push_spec [of zero_jb "Some [42]" 1 7 0 1 0 5]
    by (simp add: h const_defs) blast
qed

text \<open>
  C5: At an instant at which everything held is old enough, the receive loop's drain (peek,
  consume, repeat) delivers every held datagram exactly once, in increasing sequence order
  across the 32-bit wrap-around, and leaves the buffer empty, provided the held numbers span
  less than half of the number circle.
\<close>

theorem jb_drain_in_order:
  assumes "jb_inv jb" and "jb_span base jb" and "\<forall>s \<in> set (held jb). old_enough jb now s"
    and "drain (jb_take_next now) (Suc VMC_JB_MAX_SLOTS) jb = (ps, jb')"
  shows "set ps = set (held jb) \<and> length ps = length (held jb) \<and>
    sorted_wrt (\<lambda>p q. seq_off base (js_seq p) < seq_off base (js_seq q)) ps \<and>
    held jb' = [] \<and> jb_inv jb'"
proof -
  have rd: "jb_ready base now jb" using assms by (simp add: jb_ready_def)
  have d: "distinct (held jb)" using assms(1) by (simp add: jb_inv_def distinct_map)
  then have c: "card (set (held jb)) = length (held jb)" by (rule distinct_card)
  have "length (held jb) \<le> VMC_JB_MAX_SLOTS"
    using assms(1) length_filter_le [of js_valid "jb_slots jb"] by (simp add: jb_inv_def held_def)
  then have lt: "card (set (held jb)) < Suc VMC_JB_MAX_SLOTS" using c by simp
  show ?thesis
    using jb.drain_sorted [OF rd lt assms(4)] jb.drain_length [OF rd lt assms(4)] c
    by (simp add: jb_ready_def)
qed

definition slot_at :: "u32 \<Rightarrow> vmc_jb_slot" where
  "slot_at q = zero_slot\<lparr>js_seq := q, js_payload := True, js_valid := True\<rparr>"

definition jb_wrap :: vmc_jitter_buffer where
  "jb_wrap = zero_jb\<lparr>jb_slots := slot_at 1 # slot_at (- 2) # replicate 254 zero_slot\<rparr>"

lemma jb_wrap_held: "held jb_wrap = [slot_at 1, slot_at (- 2)]"
  by (simp add: jb_wrap_def held_def slot_at_def zero_slot_def)

lemma jb_wrap_inv: "jb_inv jb_wrap"
  by (auto simp: jb_inv_def jb_wrap_held)
    (auto simp: jb_wrap_def slot_at_def zero_slot_def slot_ok_def list_all_iff const_defs)

theorem jb_drain_in_order_witness:
  "\<exists>ps jb'. drain (jb_take_next 0) (Suc VMC_JB_MAX_SLOTS) jb_wrap = (ps, jb') \<and>
     ps = [slot_at (- 2), slot_at 1] \<and> held jb' = []"
proof -
  obtain ps jb' where d: "drain (jb_take_next 0) (Suc VMC_JB_MAX_SLOTS) jb_wrap = (ps, jb')" by fastforce
  have off: "seq_off (- 2) (js_seq (slot_at (- 2))) = 0" "seq_off (- 2) (js_seq (slot_at 1)) = 3"
    by (simp_all add: seq_off_def slot_at_def)
  have span: "jb_span (- 2) jb_wrap" by (simp add: jb_span_def jb_wrap_held off)
  have old: "\<forall>s \<in> set (held jb_wrap). old_enough jb_wrap 0 s"
    by (simp add: old_enough_def jb_wrap_def zero_jb_def)
  have r: "set ps = {slot_at (- 2), slot_at 1}" "length ps = 2" "held jb' = []"
    "sorted_wrt (\<lambda>p q. seq_off (- 2) (js_seq p) < seq_off (- 2) (js_seq q)) ps"
    using jb_drain_in_order [OF jb_wrap_inv span old d] by (auto simp: jb_wrap_held)
  obtain a b where "ps = [a, b]" using r(2) by (auto simp: length_Suc_conv numeral_2_eq_2)
  with r(1,4) off have "ps = [slot_at (- 2), slot_at 1]" by (auto simp: doubleton_eq_iff)
  with d r(3) show ?thesis by blast
qed

text \<open>
  Whatever the clock says, a slot offered for playout has been held for the target delay
  and is the least held number; consuming it removes exactly that slot, moves the playout
  position just past it and counts it as played.
\<close>

theorem jb_peek_consume_spec:
  assumes "jb_inv jb" and "jb_span base jb" and "vmc_jb_peek (Some jb) now = (Some s, Some jb1)"
  shows "s \<in> set (held jb) \<and> old_enough jb now s \<and>
    (\<forall>x \<in> set (held jb). seq_off base (js_seq s) \<le> seq_off base (js_seq x)) \<and>
    set (held (vmc_jb_consume jb1)) = set (held jb) - {s} \<and>
    jb_next_seq (vmc_jb_consume jb1) = js_seq s + 1 \<and> jb_inv (vmc_jb_consume jb1) \<and>
    (jb_balanced jb \<longrightarrow> jb_balanced (vmc_jb_consume jb1))"
proof -
  note p = vmc_jb_peek_Some [OF assms(2,3)] and k = vmc_jb_peek_keeps [OF assms(3)]
  have h: "held jb1 = held jb" and inv1: "jb_inv jb1"
    using k assms(1) by (simp_all add: held_def jb_inv_def)
  have "s \<in> set (held jb1)" "js_seq s = jb_next_seq jb1" using p h by simp_all
  note c = vmc_jb_consume_held [OF inv1 this]
  have "jb_balanced (vmc_jb_consume jb1)" if "jb_balanced jb"
    using that c(3,5,7) k(3,4) h by (simp add: jb_balanced_def) (metis of_nat_Suc add.assoc add.commute)
  with p c h show ?thesis by simp
qed

theorem jb_peek_consume_spec_witness:
  "\<exists>s jb1. vmc_jb_peek (Some jb_wrap) 0 = (Some s, Some jb1) \<and> js_seq s = - 2 \<and>
     jb_next_seq (vmc_jb_consume jb1) = - 1"
proof -
  have span: "jb_span (- 2) jb_wrap" by (simp add: jb_span_def jb_wrap_held seq_off_def slot_at_def)
  have "\<forall>s \<in> set (held jb_wrap). old_enough jb_wrap 0 s"
    by (simp add: old_enough_def jb_wrap_def zero_jb_def)
  then obtain s jb1 where pk: "vmc_jb_peek (Some jb_wrap) 0 = (Some s, Some jb1)"
    using vmc_jb_peek_ready [OF span _, of 0] by (auto simp: jb_wrap_held)
  have r: "s \<in> set (held jb_wrap)" "jb_next_seq (vmc_jb_consume jb1) = js_seq s + 1"
    "\<forall>x \<in> set (held jb_wrap). seq_off (- 2) (js_seq s) \<le> seq_off (- 2) (js_seq x)"
    using jb_peek_consume_spec [OF jb_wrap_inv span pk] by blast+
  have "seq_off (- 2) (js_seq (slot_at 1)) = 3" "seq_off (- 2) (js_seq (slot_at (- 2))) = 0"
    by (simp_all add: seq_off_def slot_at_def)
  with r(1,3) have "s = slot_at (- 2)" by (auto simp: jb_wrap_held)
  with pk r(2) show ?thesis by (simp add: slot_at_def)
qed

text \<open>
  A reset forgets the playout delay along with the slots. The first datagram pushed after
  it is offered for playout at the very instant of its arrival, whatever delay the buffer was
  initialised with.
\<close>

theorem jb_reset_loses_delay:
  "\<exists>s jb1 jb2. vmc_jb_push (Some (vmc_jb_reset jb first)) seq ts st fl payload 0 now = (VMC_OK, Some jb1) \<and>
     vmc_jb_peek (Some jb1) now = (Some s, Some jb2) \<and> js_seq s = seq"
proof -
  let ?jb = "vmc_jb_reset jb first"
  have h: "held ?jb = []" by (simp add: vmc_jb_reset_def zero_jb_def held_def zero_slot_def)
  have inv: "jb_inv ?jb" using zero_jb_inv by (simp add: vmc_jb_reset_def)
  have ok: "payload_ok payload 0" by (simp add: payload_ok_def)
  have w: "in_window ?jb seq"
    by (simp add: in_window_def push_base_def vmc_jb_reset_def zero_jb_def seq_cmp_def VMC_JB_MAX_SLOTS_def)
  obtain jb1 s where p: "vmc_jb_push (Some ?jb) seq ts st fl payload 0 now = (VMC_OK, Some jb1)"
    and s: "set (held jb1) = {s}" "js_seq s = seq"
    using inv ok
  proof (cases rule: vmc_jb_push_cases [of ?jb payload 0 seq ts st fl now])
    case (stored i)
    let ?s = "fill_slot (jb_slots ?jb ! i) seq ts st fl payload 0 now"
    have "slot_ok (jb_slots ?jb ! i)" using inv stored(4) by (simp add: jb_inv_def list_all_length)
    note f = fill_slot_props [OF this ok [unfolded payload_ok_def], of seq ts st fl now]
    have "set (held (?jb\<lparr>jb_slots := (jb_slots ?jb)[i := ?s]\<rparr>)) = {?s}"
      using insert_slot(2) [OF inv stored(4,5) f(1,2)] by (simp add: h)
    with that [OF stored(6)] f(3) show ?thesis by simp
  qed (use h w in \<open>simp_all add: const_defs\<close>)
  have d: "jb_target_delay_us jb1 = 0"
    using p by (auto simp: vmc_jb_push_def Let_def vmc_jb_reset_def zero_jb_def status_defs
        split: if_splits option.splits)
  have span: "jb_span seq jb1" using s by (simp add: jb_span_def seq_off_def)
  obtain s' jb2 where pk: "vmc_jb_peek (Some jb1) now = (Some s', Some jb2)"
    using vmc_jb_peek_ready [OF span, of now] s(1) by (fastforce simp: old_enough_def d)
  with vmc_jb_peek_Some(1) [OF span pk] s p show ?thesis by auto
qed

end
