(* ===== verification/Fragment_Assembler.thy ===== *)
theory Fragment_Assembler
  imports Little_Endian
begin

unbundle bit_operations_syntax

text \<open>
  Fragmentation of video access units, \<^verbatim>\<open>src/video/fragment.c\<close>: the 4-byte fragment
  header and the assembler that rebuilds an access unit from its chunks in a caller-owned
  buffer. The assembler is shown to refine a small specification on byte lists, and the
  specification to rebuild every access unit from its chunks.
\<close>

section \<open>Fragment header\<close>

definition VMC_VIDEO_FRAG_CHUNK :: nat where [const_defs]: "VMC_VIDEO_FRAG_CHUNK = 1400"
definition VMC_VIDEO_FRAG_LAST :: u16 where [const_defs]: "VMC_VIDEO_FRAG_LAST = 0x8000"
definition VMC_VIDEO_FRAG_INDEX_MASK :: u16 where [const_defs]: "VMC_VIDEO_FRAG_INDEX_MASK = 0x7FFF"
definition VMC_VIDEO_AU_MAX :: sz_t where [const_defs]: "VMC_VIDEO_AU_MAX = 512 * 1024"

definition vmc_video_frag_hdr_pack :: "bytes \<Rightarrow> u16 \<Rightarrow> u16 \<Rightarrow> bytes" where
  "vmc_video_frag_hdr_pack out frame_id frag_index =
     out[0 := ucast (frame_id AND 0xff), 1 := ucast (drop_bit 8 frame_id AND 0xff),
         2 := ucast (frag_index AND 0xff), 3 := ucast (drop_bit 8 frag_index AND 0xff)]"

text \<open>The frame id, the chunk index and the last-chunk flag, as written through the out pointers.\<close>

definition vmc_video_frag_hdr_unpack :: "bytes \<Rightarrow> u16 \<times> u16 \<times> bool" where
  "vmc_video_frag_hdr_unpack inp =
     (let idx = ucast (inp ! 2) OR push_bit 8 (ucast (inp ! 3))
      in (ucast (inp ! 0) OR push_bit 8 (ucast (inp ! 1)),
          idx AND VMC_VIDEO_FRAG_INDEX_MASK, idx AND VMC_VIDEO_FRAG_LAST \<noteq> 0))"

section \<open>Assembler\<close>

record vmc_frag_assembler =
  fa_buf :: bytes
  fa_cap :: sz_t
  fa_frame_id :: u16
  fa_next_index :: u16
  fa_filled :: sz_t
  fa_started :: bool

definition vmc_frag_reset :: "vmc_frag_assembler \<Rightarrow> vmc_frag_assembler" where
  "vmc_frag_reset a = a\<lparr>fa_frame_id := 0, fa_next_index := 0, fa_filled := 0, fa_started := False\<rparr>"

definition vmc_frag_init ::
  "vmc_frag_assembler option \<Rightarrow> bytes option \<Rightarrow> sz_t \<Rightarrow> vmc_status \<times> vmc_frag_assembler option" where
  "vmc_frag_init a buf cap =
     (case (a, buf) of
        (Some x, Some b) \<Rightarrow>
          if cap = 0 \<or> cap > VMC_VIDEO_AU_MAX then (VMC_ERR_INVALID_ARG, a)
          else (VMC_OK, Some (vmc_frag_reset (x\<lparr>fa_buf := b, fa_cap := cap\<rparr>)))
      | _ \<Rightarrow> (VMC_ERR_INVALID_ARG, a))"

text \<open>The result is the status, the assembler and the value left in \<^verbatim>\<open>*out_au_len\<close>.\<close>

definition vmc_frag_feed ::
  "vmc_frag_assembler option \<Rightarrow> u16 \<Rightarrow> u16 \<Rightarrow> bool \<Rightarrow> bytes option \<Rightarrow> sz_t
     \<Rightarrow> vmc_status \<times> vmc_frag_assembler option \<times> sz_t" where
  "vmc_frag_feed ao frame_id frag_index is_last chunk len =
     (case ao of
        None \<Rightarrow> (VMC_ERR_INVALID_ARG, ao, 0)
      | Some a0 \<Rightarrow>
          if len > 0 \<and> chunk = None then (VMC_ERR_INVALID_ARG, ao, 0)
          else
            let a = (if \<not> fa_started a0 \<or> frame_id \<noteq> fa_frame_id a0
                     then a0\<lparr>fa_frame_id := frame_id, fa_next_index := 0, fa_filled := 0,
                             fa_started := True\<rparr>
                     else a0)
            in if frag_index \<noteq> fa_next_index a
               then (VMC_ERR_OUT_OF_SYNC, Some (a\<lparr>fa_started := False\<rparr>), 0)
               else if len > fa_cap a - fa_filled a
               then (VMC_ERR_OVERRUN, Some (a\<lparr>fa_started := False\<rparr>), 0)
               else
                 let a1 = a\<lparr>fa_buf := mem_write (fa_buf a) (unat (fa_filled a))
                              (take (unat len) (case chunk of Some c \<Rightarrow> c | None \<Rightarrow> [])),
                            fa_filled := fa_filled a + len,
                            fa_next_index := fa_next_index a + 1\<rparr>
                 in if is_last then (VMC_OK, Some (a1\<lparr>fa_started := False\<rparr>), fa_filled a1)
                    else (VMC_OK, Some a1, 0))"

section \<open>Specification\<close>

text \<open>
  The abstract assembler is idle, or holds the frame id, the next chunk index and the bytes
  collected so far. A finished access unit is part of the result.
\<close>

type_synonym asm = "(u16 \<times> u16 \<times> bytes) option"

definition asm_feed :: "nat \<Rightarrow> asm \<Rightarrow> u16 \<Rightarrow> u16 \<Rightarrow> bool \<Rightarrow> bytes \<Rightarrow> vmc_status \<times> asm \<times> bytes option" where
  "asm_feed cap st fid idx is_last chunk =
     (let (n, bs) = (case st of Some (f, n, bs) \<Rightarrow> if f = fid then (n, bs) else (0, [])
                     | None \<Rightarrow> (0, []))
      in if idx \<noteq> n then (VMC_ERR_OUT_OF_SYNC, None, None)
         else if length bs + length chunk > cap then (VMC_ERR_OVERRUN, None, None)
         else if is_last then (VMC_OK, None, Some (bs @ chunk))
         else (VMC_OK, Some (fid, n + 1, bs @ chunk), None))"

definition fa_inv :: "vmc_frag_assembler \<Rightarrow> bool" where
  "fa_inv a \<longleftrightarrow> length (fa_buf a) = unat (fa_cap a) \<and> fa_filled a \<le> fa_cap a"

definition fa_abs :: "vmc_frag_assembler \<Rightarrow> asm" where
  "fa_abs a = (if fa_started a
     then Some (fa_frame_id a, fa_next_index a, take (unat (fa_filled a)) (fa_buf a)) else None)"

lemma fa_abs_stopped [simp]: "fa_abs (a\<lparr>fa_started := False\<rparr>) = None"
  by (simp add: fa_abs_def)

lemma vmc_frag_feed_refines:
  assumes inv: "fa_inv a" and c: "length c = unat len"
  obtains r a' n where
    "vmc_frag_feed (Some a) fid idx is_last (Some c) len = (r, Some a', n)" "fa_inv a'"
    "fa_cap a' = fa_cap a"
    "asm_feed (unat (fa_cap a)) (fa_abs a) fid idx is_last c =
       (r, fa_abs a', if r = VMC_OK \<and> is_last then Some (take (unat n) (fa_buf a')) else None)"
    "\<not> is_last \<or> r \<noteq> VMC_OK \<Longrightarrow> n = 0" "unat n \<le> length (fa_buf a')"
proof -
  define b where "b = (if \<not> fa_started a \<or> fid \<noteq> fa_frame_id a
     then a\<lparr>fa_frame_id := fid, fa_next_index := 0, fa_filled := 0, fa_started := True\<rparr> else a)"
  define bs where "bs = take (unat (fa_filled b)) (fa_buf b)"
  have b: "fa_inv b" "fa_started b" "fa_frame_id b = fid" "fa_cap b = fa_cap a" "fa_buf b = fa_buf a"
    using inv by (auto simp: b_def fa_inv_def)
  have le: "unat (fa_filled b) \<le> unat (fa_cap b)" using b(1) by (simp add: fa_inv_def word_le_nat_alt)
  then have lbs: "length bs = unat (fa_filled b)" using b(1) by (simp add: bs_def fa_inv_def)
  have start: "(case fa_abs a of Some (f, n, bs) \<Rightarrow> if f = fid then (n, bs) else (0, []) | None \<Rightarrow> (0, []))
      = (fa_next_index b, bs)"
    by (auto simp: fa_abs_def b_def bs_def)
  have room: "(len > fa_cap b - fa_filled b) = (length bs + length c > unat (fa_cap a))"
  proof -
    have "fa_filled b \<le> fa_cap b" using b(1) by (simp add: fa_inv_def)
    then have "unat (fa_cap b - fa_filled b) = unat (fa_cap b) - unat (fa_filled b)" by (rule unat_sub)
    then show ?thesis using le lbs c b(4) by (simp add: word_less_nat_alt) linarith
  qed
  note feed = vmc_frag_feed_def [of "Some a" fid idx is_last "Some c" len, simplified option.case Let_def b_def [symmetric]]
  consider (sync) "idx \<noteq> fa_next_index b"
    | (over) "idx = fa_next_index b" "len > fa_cap b - fa_filled b"
    | (fits) "idx = fa_next_index b" "\<not> len > fa_cap b - fa_filled b" by blast
  then show ?thesis
  proof cases
    case sync
    then have "vmc_frag_feed (Some a) fid idx is_last (Some c) len =
        (VMC_ERR_OUT_OF_SYNC, Some (b\<lparr>fa_started := False\<rparr>), 0)" unfolding feed by simp
    then show ?thesis
      using sync b by (elim that) (simp_all add: asm_feed_def start fa_inv_def status_defs)
  next
    case over
    then have "vmc_frag_feed (Some a) fid idx is_last (Some c) len =
        (VMC_ERR_OVERRUN, Some (b\<lparr>fa_started := False\<rparr>), 0)" unfolding feed by simp
    then show ?thesis
      using over b room by (elim that) (simp_all add: asm_feed_def start fa_inv_def status_defs)
  next
    case fits
    let ?a1 = "b\<lparr>fa_buf := mem_write (fa_buf b) (unat (fa_filled b)) c,
      fa_filled := fa_filled b + len, fa_next_index := fa_next_index b + 1\<rparr>"
    have fit: "unat (fa_filled b) + length c \<le> unat (fa_cap b)" using fits room lbs b(4) by simp
    have cap: "unat (fa_cap b) < 2 ^ 64" using unat_bound [of "fa_cap b"] by simp
    have filled: "unat (fa_filled b + len) = unat (fa_filled b) + length c"
      using fit cap c by (subst unat_add_no_wrap) simp_all
    have blen: "length (fa_buf b) = unat (fa_cap b)" using b(1) by (simp add: fa_inv_def)
    have inv1: "fa_inv ?a1" using fit blen filled by (simp add: fa_inv_def word_le_nat_alt)
    have n: "unat (fa_filled b + len) \<le> length (fa_buf ?a1)" using fit blen filled by simp
    have tk: "take (unat (fa_filled b + len)) (mem_write (fa_buf b) (unat (fa_filled b)) c) = bs @ c"
      unfolding bs_def using fit blen filled by (intro take_mem_write_end) simp_all
    have abs1: "fa_abs ?a1 = Some (fid, fa_next_index b + 1, bs @ c)" using b tk by (simp add: fa_abs_def)
    show ?thesis
    proof (cases is_last)
      case True
      then have "vmc_frag_feed (Some a) fid idx is_last (Some c) len =
        (VMC_OK, Some (?a1\<lparr>fa_started := False\<rparr>), fa_filled b + len)" 
        using fits c unfolding feed by simp
      then show ?thesis
        using True fits room b tk inv1 n by (elim that) (simp_all add: asm_feed_def start fa_inv_def)
    next
      case False
      then have "vmc_frag_feed (Some a) fid idx is_last (Some c) len = (VMC_OK, Some ?a1, 0)"
        using fits c unfolding feed by simp
      then show ?thesis
        using False fits room b abs1 inv1 by (elim that) (simp_all add: asm_feed_def start fa_inv_def)
    qed
  qed
qed

section \<open>Runs of the assembler\<close>

text \<open>
  A received chunk with its parsed header, and the client's loop over a sequence of them: an
  access unit is handed on when the feed succeeds with a non-zero length, as
  \<^verbatim>\<open>apps/thinclient/main.c\<close> does.
\<close>

record chunk_msg =
  cm_frame :: u16
  cm_index :: u16
  cm_last :: bool
  cm_bytes :: bytes

fun frag_run :: "vmc_frag_assembler \<Rightarrow> chunk_msg list \<Rightarrow> bytes list \<times> vmc_frag_assembler" where
  "frag_run a [] = ([], a)"
| "frag_run a (m # ms) =
     (case vmc_frag_feed (Some a) (cm_frame m) (cm_index m) (cm_last m) (Some (cm_bytes m))
             (of_nat (length (cm_bytes m))) of
        (st, Some a1, n) \<Rightarrow>
          (case frag_run a1 ms of (aus, a2) \<Rightarrow>
             (if st = VMC_OK \<and> n > 0 then take (unat n) (fa_buf a1) # aus else aus, a2))
      | (_, None, _) \<Rightarrow> ([], a))"

fun asm_run :: "nat \<Rightarrow> asm \<Rightarrow> chunk_msg list \<Rightarrow> bytes list \<times> asm" where
  "asm_run cap st [] = ([], st)"
| "asm_run cap st (m # ms) =
     (case asm_feed cap st (cm_frame m) (cm_index m) (cm_last m) (cm_bytes m) of
        (_, st1, out) \<Rightarrow>
          (case asm_run cap st1 ms of (aus, st2) \<Rightarrow>
             (case out of Some au \<Rightarrow> if au \<noteq> [] then au # aus else aus | None \<Rightarrow> aus, st2)))"

lemma frag_run_refines:
  assumes "fa_inv a" and "\<forall>m \<in> set ms. length (cm_bytes m) < 2 ^ 64"
  shows "\<exists>aus a'. frag_run a ms = (aus, a') \<and> fa_inv a' \<and> fa_cap a' = fa_cap a \<and>
    asm_run (unat (fa_cap a)) (fa_abs a) ms = (aus, fa_abs a')"
  using assms
proof (induction ms arbitrary: a)
  case (Cons m ms)
  let ?len = "of_nat (length (cm_bytes m)) :: sz_t"
  have len: "length (cm_bytes m) = unat ?len" using Cons.prems(2) by (simp add: unat_of_nat)
  obtain r a1 n where f: "vmc_frag_feed (Some a) (cm_frame m) (cm_index m) (cm_last m) (Some (cm_bytes m)) ?len
      = (r, Some a1, n)" "fa_inv a1" "fa_cap a1 = fa_cap a"
    "asm_feed (unat (fa_cap a)) (fa_abs a) (cm_frame m) (cm_index m) (cm_last m) (cm_bytes m) =
       (r, fa_abs a1, if r = VMC_OK \<and> cm_last m then Some (take (unat n) (fa_buf a1)) else None)"
    "\<not> cm_last m \<or> r \<noteq> VMC_OK \<Longrightarrow> n = 0" "unat n \<le> length (fa_buf a1)"
    using vmc_frag_feed_refines [OF Cons.prems(1) len, of "cm_frame m" "cm_index m" "cm_last m"]
    by blast
  obtain aus a' where r: "frag_run a1 ms = (aus, a')" "fa_inv a'" "fa_cap a' = fa_cap a1"
    "asm_run (unat (fa_cap a1)) (fa_abs a1) ms = (aus, fa_abs a')"
    using Cons.IH [OF f(2)] Cons.prems(2) by auto
  have nz: "n > 0 \<longleftrightarrow> unat n \<noteq> 0" by (simp add: word_neq_0_conv unat_eq_0)
  show ?case
  proof (cases "r = VMC_OK \<and> cm_last m")
    case True
    have "n > 0 \<longleftrightarrow> take (unat n) (fa_buf a1) \<noteq> []" using nz f(6) by auto
    then show ?thesis using f(1,3,4) r True by simp
  next
    case False
    then show ?thesis using f(1,3,4,5) r by auto
  qed
qed simp

text \<open>A run of chunks of one frame, indexed from zero without gaps, that spells out \<open>bs\<close>.\<close>

definition run_of :: "u16 \<Rightarrow> chunk_msg list \<Rightarrow> bytes \<Rightarrow> bool" where
  "run_of f run bs \<longleftrightarrow> (\<forall>m \<in> set run. cm_frame m = f) \<and>
     map cm_index run = map of_nat [0..<length run] \<and> concat (map cm_bytes run) = bs"

definition asm_explained :: "chunk_msg list \<Rightarrow> asm \<Rightarrow> bool" where
  "asm_explained hist st \<longleftrightarrow>
     (\<forall>f n bs. st = Some (f, n, bs) \<longrightarrow>
        (\<exists>pre run. hist = pre @ run \<and> run_of f run bs \<and> n = of_nat (length run)))"

lemma asm_explainedI:
  "hist = pre @ run \<Longrightarrow> run_of f run bs \<Longrightarrow> asm_explained hist (Some (f, of_nat (length run), bs))"
  unfolding asm_explained_def by blast

lemma run_of_snoc:
  "run_of f run bs \<Longrightarrow> cm_frame m = f \<Longrightarrow> cm_index m = of_nat (length run) \<Longrightarrow>
     run_of f (run @ [m]) (bs @ cm_bytes m)"
  by (auto simp: run_of_def)

lemma run_of_single: "cm_index m = 0 \<Longrightarrow> run_of (cm_frame m) [m] (cm_bytes m)"
  by (simp add: run_of_def)

lemma asm_feed_explained:
  assumes ex: "asm_explained hist st"
    and feed: "asm_feed cap st (cm_frame m) (cm_index m) (cm_last m) (cm_bytes m) = (r, st', out)"
  shows "asm_explained (hist @ [m]) st'"
    and "out = Some au \<Longrightarrow> \<exists>pre run. hist @ [m] = pre @ run @ [m] \<and>
           run_of (cm_frame m) (run @ [m]) au \<and> cm_last m \<and> length au \<le> cap"
proof -
  obtain n bs where nb: "(case st of Some (f, n, bs) \<Rightarrow> if f = cm_frame m then (n, bs) else (0, [])
      | None \<Rightarrow> (0, [])) = (n, bs)" by fastforce
  have run: "\<exists>pre run. hist = pre @ run \<and> run_of (cm_frame m) run bs \<and> n = of_nat (length run)"
  proof (cases "\<exists>k. st = Some (cm_frame m, k)")
    case True
    with ex nb show ?thesis by (auto simp: asm_explained_def)
  next
    case False
    with nb have "n = 0 \<and> bs = []" by (auto split: option.splits if_splits)
    then show ?thesis by (intro exI [of _ hist] exI [of _ "[]"]) (simp add: run_of_def)
  qed
  then obtain pre run where pr: "hist = pre @ run" "run_of (cm_frame m) run bs" "n = of_nat (length run)"
    by blast
  have ext: "run_of (cm_frame m) (run @ [m]) (bs @ cm_bytes m)" if "cm_index m = n"
    using pr that by (simp add: run_of_snoc)
  show "asm_explained (hist @ [m]) st'"
  proof -
    have "st' = None \<or> (cm_index m = n \<and> st' = Some (cm_frame m, n + 1, bs @ cm_bytes m))"
      using feed nb by (auto simp: asm_feed_def split: if_splits)
    then show ?thesis
    proof
      assume "cm_index m = n \<and> st' = Some (cm_frame m, n + 1, bs @ cm_bytes m)"
      with ext pr show ?thesis
        using asm_explainedI [of "hist @ [m]" pre "run @ [m]" "cm_frame m" "bs @ cm_bytes m"]
        by (simp add: add.commute)
    qed (simp add: asm_explained_def)
  qed
  show "out = Some au \<Longrightarrow> \<exists>pre run. hist @ [m] = pre @ run @ [m] \<and>
           run_of (cm_frame m) (run @ [m]) au \<and> cm_last m \<and> length au \<le> cap"
  proof -
    assume "out = Some au"
    then have "cm_index m = n" "au = bs @ cm_bytes m" "cm_last m" "length au \<le> cap"
      using feed nb by (auto simp: asm_feed_def split: if_splits)
    with ext pr(1) show ?thesis by (metis append.assoc)
  qed
qed

lemma asm_run_explained:
  assumes "asm_explained hist st" and "asm_run cap st ms = (aus, st')" and "au \<in> set aus"
  shows "\<exists>f pre run m post. hist @ ms = pre @ (run @ [m]) @ post \<and> run_of f (run @ [m]) au \<and>
    cm_last m \<and> length au \<le> cap"
  using assms
proof (induction ms arbitrary: hist st aus)
  case (Cons m ms)
  obtain r st1 out where f:
    "asm_feed cap st (cm_frame m) (cm_index m) (cm_last m) (cm_bytes m) = (r, st1, out)"
    by (metis prod_cases3)
  obtain aus1 where r: "asm_run cap st1 ms = (aus1, st')"
    "aus = (case out of Some au \<Rightarrow> if au \<noteq> [] then au # aus1 else aus1 | None \<Rightarrow> aus1)"
    using Cons.prems(2) f by (auto split: prod.splits)
  show ?case
  proof (cases "au \<in> set aus1")
    case True
    have "\<exists>f pre run m' post. (hist @ [m]) @ ms = pre @ (run @ [m']) @ post \<and>
        run_of f (run @ [m']) au \<and> cm_last m' \<and> length au \<le> cap"
      by (rule Cons.IH [OF asm_feed_explained(1) [OF Cons.prems(1) f] r(1) True])
    then show ?thesis by simp
  next
    case False
    then have "out = Some au" using Cons.prems(3) r(2) by (auto split: option.splits if_splits)
    from asm_feed_explained(2) [OF Cons.prems(1) f this]
    obtain pre run where "hist @ [m] = pre @ run @ [m]" "run_of (cm_frame m) (run @ [m]) au"
      "cm_last m" "length au \<le> cap" by blast
    then show ?thesis
      by (intro exI [of _ "cm_frame m"] exI [of _ pre] exI [of _ run] exI [of _ m] exI [of _ ms]) simp
  qed
qed simp

text \<open>The chunks of one access unit as a sender numbers them, from index \<open>k\<close>.\<close>

fun chunk_msgs :: "u16 \<Rightarrow> nat \<Rightarrow> bytes list \<Rightarrow> chunk_msg list" where
  "chunk_msgs f k [] = []"
| "chunk_msgs f k (c # cs) =
     \<lparr>cm_frame = f, cm_index = of_nat k, cm_last = (cs = []), cm_bytes = c\<rparr> # chunk_msgs f (Suc k) cs"

definition asm_idle_for :: "u16 \<Rightarrow> asm \<Rightarrow> bool" where
  "asm_idle_for f st \<longleftrightarrow> (\<forall>k. st \<noteq> Some (f, k))"

lemma asm_run_chunks:
  assumes "css \<noteq> []" and "length bs + length (concat css) \<le> cap" and "bs @ concat css \<noteq> []"
  shows "asm_run cap (Some (f, of_nat k, bs)) (chunk_msgs f k css) = ([bs @ concat css], None)"
  using assms
proof (induction css arbitrary: k bs)
  case (Cons c cs)
  show ?case
  proof (cases "cs = []")
    case True
    with Cons.prems show ?thesis by (simp add: asm_feed_def)
  next
    case False
    have "asm_run cap (Some (f, of_nat (Suc k), bs @ c)) (chunk_msgs f (Suc k) cs) =
        ([(bs @ c) @ concat cs], None)"
      using Cons.prems False by (intro Cons.IH) auto
    with Cons.prems False show ?thesis by (simp add: asm_feed_def add.commute)
  qed
qed simp

lemma asm_run_idle:
  assumes "asm_idle_for f st" and "css \<noteq> []"
  shows "asm_run cap st (chunk_msgs f 0 css) = asm_run cap (Some (f, 0, [])) (chunk_msgs f 0 css)"
proof (cases css)
  case (Cons c cs)
  have "asm_feed cap st f 0 l c = asm_feed cap (Some (f, 0, [])) f 0 l c" for l
    using assms(1) by (auto simp: asm_feed_def asm_idle_for_def split: option.splits)
  then show ?thesis by (simp add: Cons)
qed (use assms in simp)

lemma set_chunk_msgs: "m \<in> set (chunk_msgs f k css) \<Longrightarrow> cm_bytes m \<in> set css"
  by (induction css arbitrary: k) auto

section \<open>Properties\<close>

text \<open>
  Packing a fragment header with a 15-bit chunk index and the last-chunk bit and parsing
  it again yields the frame id, the index and the flag.
\<close>

theorem frag_hdr_roundtrip:
  assumes "4 \<le> length out" and "idx < 0x8000"
  shows "vmc_video_frag_hdr_unpack (vmc_video_frag_hdr_pack out fid
           (idx OR (if is_last then VMC_VIDEO_FRAG_LAST else 0))) = (fid, idx, is_last)"
proof -
  define w where "w = idx OR (if is_last then VMC_VIDEO_FRAG_LAST else 0)"
  have rt: "vmc_video_frag_hdr_unpack (vmc_video_frag_hdr_pack out fid w) =
      (fid, w AND VMC_VIDEO_FRAG_INDEX_MASK, w AND VMC_VIDEO_FRAG_LAST \<noteq> 0)"
    using assms(1) less_le_trans [of 0 4 "length out"]
    by (simp add: vmc_video_frag_hdr_unpack_def vmc_video_frag_hdr_pack_def Let_def le16_join)
  have m: "VMC_VIDEO_FRAG_INDEX_MASK = mask 15" "VMC_VIDEO_FRAG_LAST = push_bit 15 1"
    by (simp_all add: const_defs mask_eq_exp_minus_1)
  have hi: "\<not> bit idx 15" and lo: "take_bit 15 idx = idx"
  proof -
    have "unat idx < 2 ^ 15" using assms(2) by (simp add: word_less_nat_alt)
    then show "take_bit 15 idx = idx"
      by (simp add: word_unat_eq_iff unsigned_take_bit_eq take_bit_nat_eq_self)
    then show "\<not> bit idx 15" by (metis bit_take_bit_iff order_less_irrefl)
  qed
  have "w AND mask 15 = idx"
    using lo by (simp add: w_def m flip: take_bit_eq_mask)
  moreover have "(w AND push_bit 15 1 \<noteq> 0) = is_last"
    using hi bit_iff_and_push_bit_not_eq_0 [of w 15] by (auto simp: w_def m bit_or_iff bit_push_bit_iff)
  ultimately show ?thesis using rt by (simp add: m w_def)
qed

theorem frag_hdr_roundtrip_witness:
  "vmc_video_frag_hdr_unpack (vmc_video_frag_hdr_pack [0, 0, 0, 0] 0x1234 0x8003) = (0x1234, 3, True)"
  using frag_hdr_roundtrip [of "[0, 0, 0, 0]" 3 "0x1234" True] by (simp add: const_defs)

text \<open>
  C7: On the byte buffer with its fill offset, a feed does exactly what the specification on
  byte lists prescribes: the same status, the same abstract successor state, and on the last
  chunk the reported length and the buffer prefix are the specified access unit. No feed
  writes outside the buffer.
\<close>

theorem frag_feed_refines_spec:
  assumes "fa_inv a" and "length c = unat len"
  shows "\<exists>r a' n. vmc_frag_feed (Some a) fid idx is_last (Some c) len = (r, Some a', n) \<and> fa_inv a' \<and>
    fa_cap a' = fa_cap a \<and>
    asm_feed (unat (fa_cap a)) (fa_abs a) fid idx is_last c =
      (r, fa_abs a', if r = VMC_OK \<and> is_last then Some (take (unat n) (fa_buf a')) else None)"
  using vmc_frag_feed_refines [OF assms, of fid idx is_last] by metis

definition fa_sample :: vmc_frag_assembler where
  "fa_sample = \<lparr>fa_buf = [0, 0, 0, 0], fa_cap = 4, fa_frame_id = 9, fa_next_index = 1,
     fa_filled = 2, fa_started = True\<rparr>"

lemma fa_sample_inv: "fa_inv fa_sample"
  by (simp add: fa_inv_def fa_sample_def)

theorem frag_feed_refines_spec_witness:
  "\<exists>a' n. vmc_frag_feed (Some fa_sample) 9 1 True (Some [5, 6]) 2 = (VMC_OK, Some a', n) \<and> fa_inv a' \<and>
     take (unat n) (fa_buf a') = [0, 0, 5, 6]"
  using frag_feed_refines_spec [OF fa_sample_inv, of "[5, 6]" 2 9 1 True]
  by (auto simp: asm_feed_def fa_abs_def fa_sample_def)

text \<open>
  C6: An access unit is delivered only when the chunks of one frame arrived back to back,
  numbered from zero without a gap and closed by the last-chunk flag, and it is the
  concatenation of exactly those chunks. Loss, duplication, reordering or interleaving of
  frames never splices bytes of different frames together.
\<close>

theorem frag_delivers_whole_frames:
  assumes "fa_inv a" and "\<not> fa_started a" and "\<forall>m \<in> set ms. length (cm_bytes m) < 2 ^ 64"
    and "frag_run a ms = (aus, a')" and "au \<in> set aus"
  shows "\<exists>f pre run m post. ms = pre @ (run @ [m]) @ post \<and> run_of f (run @ [m]) au \<and> cm_last m \<and>
    length au \<le> unat (fa_cap a)"
proof -
  have "asm_run (unat (fa_cap a)) (fa_abs a) ms = (aus, fa_abs a')"
    using frag_run_refines [OF assms(1,3)] assms(4) by auto
  moreover have "asm_explained [] (fa_abs a)" using assms(2) by (simp add: asm_explained_def fa_abs_def)
  ultimately show ?thesis using asm_run_explained [of "[]"] assms(5) by fastforce
qed

definition sample_msgs :: "chunk_msg list" where
  "sample_msgs = [\<lparr>cm_frame = 1, cm_index = 0, cm_last = False, cm_bytes = [7]\<rparr>,
     \<lparr>cm_frame = 2, cm_index = 0, cm_last = False, cm_bytes = [8]\<rparr>,
     \<lparr>cm_frame = 2, cm_index = 1, cm_last = True, cm_bytes = [9]\<rparr>]"

theorem frag_delivers_whole_frames_witness:
  "fst (frag_run (vmc_frag_reset fa_sample) sample_msgs) = [[8, 9]] \<and>
   (\<exists>f pre run m post. sample_msgs = pre @ (run @ [m]) @ post \<and> run_of f (run @ [m]) [8, 9])"
proof -
  obtain aus a' where r: "frag_run (vmc_frag_reset fa_sample) sample_msgs = (aus, a')" by fastforce
  then have aus: "aus = [[8, 9]]"
    by (simp add: sample_msgs_def fa_sample_def vmc_frag_reset_def vmc_frag_feed_def mem_write_def
        status_defs)
  have "fa_inv (vmc_frag_reset fa_sample)" "\<not> fa_started (vmc_frag_reset fa_sample)"
    "\<forall>m \<in> set sample_msgs. length (cm_bytes m) < 2 ^ 64"
    by (simp_all add: fa_inv_def vmc_frag_reset_def fa_sample_def sample_msgs_def)
  from frag_delivers_whole_frames [OF this r, of "[8, 9]"] aus
  have "\<exists>f pre run m post. sample_msgs = pre @ (run @ [m]) @ post \<and> run_of f (run @ [m]) [8, 9]"
    by (metis list.set_intros(1))
  with r aus show ?thesis by simp
qed

text \<open>
  The chunks of an access unit, fed in order to an assembler that is not in the middle of
  a frame with the same id, rebuild it, if it is not empty and fits the buffer; the assembler
  is idle again afterwards.
\<close>

theorem frag_reassembles:
  assumes "fa_inv a" and "asm_idle_for f (fa_abs a)" and "concat css \<noteq> []"
    and "length (concat css) \<le> unat (fa_cap a)"
  shows "\<exists>a'. frag_run a (chunk_msgs f 0 css) = ([concat css], a') \<and> fa_inv a' \<and> fa_abs a' = None"
proof -
  have len: "length (concat css) < 2 ^ 64" using assms(4) unat_bound [of "fa_cap a"] by simp
  have "length (cm_bytes m) < 2 ^ 64" if "m \<in> set (chunk_msgs f 0 css)" for m
  proof -
    have "length (cm_bytes m) \<le> length (concat css)"
      using set_chunk_msgs [OF that] member_le_sum_list [of "length (cm_bytes m)" "map length css"]
      by (simp add: length_concat)
    with len show ?thesis by simp
  qed
  moreover have "css \<noteq> []" using assms(3) by auto
  ultimately show ?thesis
    using frag_run_refines [OF assms(1), of "chunk_msgs f 0 css"] assms
      asm_run_chunks [of css "[]" "unat (fa_cap a)" f 0] asm_run_idle [OF assms(2)]
    by auto
qed

theorem frag_reassembles_witness:
  "\<exists>a'. frag_run fa_sample (chunk_msgs 4 0 [[1, 2], [3]]) = ([[1, 2, 3]], a') \<and> fa_abs a' = None"
proof -
  have "asm_idle_for 4 (fa_abs fa_sample)" by (simp add: asm_idle_for_def fa_abs_def fa_sample_def)
  moreover have "unat (fa_cap fa_sample) = 4" by (simp add: fa_sample_def)
  ultimately show ?thesis
    using frag_reassembles [OF fa_sample_inv, of 4 "[[1, 2], [3]]"] by (simp del: frag_run.simps) blast
qed

end
