(* ===== verification/Input_Batch.thy ===== *)
theory Input_Batch
  imports Little_Endian
begin

unbundle bit_operations_syntax

text \<open>
  Input events and their batching, \<^verbatim>\<open>include/vmc/input/input.h\<close> and
  \<^verbatim>\<open>src/input/batch.c\<close>: a batch of up to 32 fixed-size events, its little-endian wire
  form and the parser.
\<close>

section \<open>Events and batches\<close>

datatype vmc_input_type = VMC_INPUT_TOUCH_DOWN | VMC_INPUT_TOUCH_MOVE | VMC_INPUT_TOUCH_UP
  | VMC_INPUT_BUTTON | VMC_INPUT_SENSOR | VMC_INPUT_COUNT

fun input_type_code :: "vmc_input_type \<Rightarrow> u16" where
  "input_type_code VMC_INPUT_TOUCH_DOWN = 0"
| "input_type_code VMC_INPUT_TOUCH_MOVE = 1"
| "input_type_code VMC_INPUT_TOUCH_UP = 2"
| "input_type_code VMC_INPUT_BUTTON = 3"
| "input_type_code VMC_INPUT_SENSOR = 4"
| "input_type_code VMC_INPUT_COUNT = 5"

record vmc_input_event =
  ie_type :: u16
  ie_slot :: u16
  ie_x :: u16
  ie_y :: u16
  ie_pressure :: u16
  ie_buttons :: u16
  ie_ts_us :: u32

definition VMC_INPUT_BATCH_MAX_EVENTS :: nat where [const_defs]: "VMC_INPUT_BATCH_MAX_EVENTS = 32"
definition SIZEOF_INPUT_EVENT :: nat where [const_defs]: "SIZEOF_INPUT_EVENT = 16"

record vmc_input_batch =
  ib_events :: "vmc_input_event list"
  ib_count :: u16

definition vmc_input_batch_reset :: "vmc_input_batch \<Rightarrow> vmc_input_batch" where
  "vmc_input_batch_reset b = b\<lparr>ib_count := 0\<rparr>"

definition vmc_input_batch_full :: "vmc_input_batch \<Rightarrow> bool" where
  "vmc_input_batch_full b \<longleftrightarrow> unat (ib_count b) \<ge> VMC_INPUT_BATCH_MAX_EVENTS"

definition vmc_input_batch_push ::
  "vmc_input_batch option \<Rightarrow> vmc_input_event option \<Rightarrow> vmc_status \<times> vmc_input_batch option" where
  "vmc_input_batch_push bo evo =
     (case (bo, evo) of
        (Some b, Some ev) \<Rightarrow>
          if vmc_input_batch_full b then (VMC_ERR_OVERRUN, bo)
          else (VMC_OK, Some (b\<lparr>ib_events := (ib_events b)[unat (ib_count b) := ev],
                                ib_count := ib_count b + 1\<rparr>))
      | _ \<Rightarrow> (VMC_ERR_INVALID_ARG, bo))"

section \<open>Wire form\<close>

definition w16 :: "bytes \<Rightarrow> nat \<Rightarrow> u16 \<Rightarrow> bytes" where
  "w16 p off v = p[off := ucast (v AND 0xff), off + 1 := ucast (drop_bit 8 v AND 0xff)]"

definition w32 :: "bytes \<Rightarrow> nat \<Rightarrow> u32 \<Rightarrow> bytes" where
  "w32 p off v = p[off := ucast (v AND 0xff), off + 1 := ucast (drop_bit 8 v AND 0xff),
     off + 2 := ucast (drop_bit 16 v AND 0xff), off + 3 := ucast (drop_bit 24 v AND 0xff)]"

definition r16 :: "bytes \<Rightarrow> nat \<Rightarrow> u16" where
  "r16 p off = ucast (p ! off) OR push_bit 8 (ucast (p ! (off + 1)))"

definition r32 :: "bytes \<Rightarrow> nat \<Rightarrow> u32" where
  "r32 p off = ucast (p ! off) OR push_bit 8 (ucast (p ! (off + 1))) OR
     push_bit 16 (ucast (p ! (off + 2))) OR push_bit 24 (ucast (p ! (off + 3)))"

definition ser_event :: "vmc_input_event \<Rightarrow> nat \<Rightarrow> bytes \<Rightarrow> bytes" where
  "ser_event e p out =
     (let o1 = w16 out (p + 0) (ie_type e);
          o2 = w16 o1 (p + 2) (ie_slot e);
          o3 = w16 o2 (p + 4) (ie_x e);
          o4 = w16 o3 (p + 6) (ie_y e);
          o5 = w16 o4 (p + 8) (ie_pressure e);
          o6 = w16 o5 (p + 10) (ie_buttons e)
      in w32 o6 (p + 12) (ie_ts_us e))"

definition batch_need :: "u16 \<Rightarrow> sz_t" where
  "batch_need count = 2 + ucast count * of_nat SIZEOF_INPUT_EVENT"

definition vmc_input_batch_serialize ::
  "vmc_input_batch option \<Rightarrow> bytes option \<Rightarrow> sz_t \<Rightarrow> vmc_status \<times> bytes option" where
  "vmc_input_batch_serialize bo outo cap =
     (case (bo, outo) of
        (Some b, Some out) \<Rightarrow>
          let need = batch_need (ib_count b)
          in if cap < need then (VMC_ERR_NOMEM, outo)
             else (int (unat need),
                   Some (fold (\<lambda>i. ser_event (ib_events b ! i) (2 + i * SIZEOF_INPUT_EVENT))
                           [0..<unat (ib_count b)] (w16 out 0 (ib_count b))))
      | _ \<Rightarrow> (VMC_ERR_INVALID_ARG, outo))"

definition des_event :: "bytes \<Rightarrow> nat \<Rightarrow> vmc_input_event" where
  "des_event data p = \<lparr>ie_type = r16 data (p + 0), ie_slot = r16 data (p + 2), ie_x = r16 data (p + 4),
     ie_y = r16 data (p + 6), ie_pressure = r16 data (p + 8), ie_buttons = r16 data (p + 10),
     ie_ts_us = r32 data (p + 12)\<rparr>"

definition vmc_input_batch_deserialize ::
  "bytes option \<Rightarrow> sz_t \<Rightarrow> vmc_input_batch option \<Rightarrow> vmc_status \<times> vmc_input_batch option" where
  "vmc_input_batch_deserialize datao len outo =
     (case (datao, outo) of
        (Some data, Some out) \<Rightarrow>
          if len < 2 then (VMC_ERR_PROTO, outo)
          else
            let count = r16 data 0
            in if batch_need count > len then (VMC_ERR_PROTO, outo)
               else if unat count > VMC_INPUT_BATCH_MAX_EVENTS then (VMC_ERR_PROTO, outo)
               else (VMC_OK, Some (out\<lparr>ib_count := count,
                       ib_events := fold (\<lambda>i es. es[i := des_event data (2 + i * SIZEOF_INPUT_EVENT)])
                         [0..<unat count] (ib_events out)\<rparr>))
      | _ \<Rightarrow> (VMC_ERR_INVALID_ARG, outo))"

section \<open>Invariant and contents\<close>

definition ib_inv :: "vmc_input_batch \<Rightarrow> bool" where
  "ib_inv b \<longleftrightarrow> length (ib_events b) = VMC_INPUT_BATCH_MAX_EVENTS \<and>
     unat (ib_count b) \<le> VMC_INPUT_BATCH_MAX_EVENTS"

definition ib_list :: "vmc_input_batch \<Rightarrow> vmc_input_event list" where
  "ib_list b = take (unat (ib_count b)) (ib_events b)"

definition ev_bytes :: "vmc_input_event \<Rightarrow> bytes" where
  "ev_bytes e = le16 (ie_type e) @ le16 (ie_slot e) @ le16 (ie_x e) @ le16 (ie_y e) @
     le16 (ie_pressure e) @ le16 (ie_buttons e) @ le32 (ie_ts_us e)"

definition batch_image :: "vmc_input_event list \<Rightarrow> bytes" where
  "batch_image es = le16 (of_nat (length es)) @ concat (map ev_bytes es)"

declare add_2_eq_Suc [simp del] add_2_eq_Suc' [simp del]

lemma length_ib_list: "ib_inv b \<Longrightarrow> length (ib_list b) = unat (ib_count b)"
  by (simp add: ib_inv_def ib_list_def)

lemma length_ev_bytes [simp]: "length (ev_bytes e) = 16"
  by (simp add: ev_bytes_def)

lemma batch_need_unat: "unat (batch_need c) = 2 + 16 * unat c"
proof -
  have c: "unat (ucast c :: sz_t) = unat c" by (simp add: unat_ucast_up)
  have "unat c < 2 ^ 16" using unat_bound [of c] by simp
  then have m: "unat (ucast c * 16 :: sz_t) = unat c * 16" by (simp add: unat_word_ariths c)
  with \<open>unat c < 2 ^ 16\<close> show ?thesis
    by (simp add: batch_need_def SIZEOF_INPUT_EVENT_def unat_word_ariths c)
qed

lemma concat_ev_length: "length (concat (map ev_bytes es)) = 16 * length es"
  by (induction es) auto

lemma w16_write: "off + 2 \<le> length p \<Longrightarrow> w16 p off v = mem_write p off (le16 v)"
  by (rule nth_equalityI) (auto simp: w16_def nth_mem_write le16_def nth_list_update nth_Cons'
      split: if_splits)

lemma w32_write: "off + 4 \<le> length p \<Longrightarrow> w32 p off v = mem_write p off (le32 v)"
  by (rule nth_equalityI) (auto simp: w32_def nth_mem_write le32_def nth_list_update nth_Cons'
      split: if_splits)

lemma ser_event_write:
  assumes "off + 16 \<le> length p"
  shows "ser_event e off p = mem_write p off (ev_bytes e)"
  using assms
  by (simp add: ser_event_def Let_def w16_write w32_write ev_bytes_def mem_write_def add.commute)

lemma ser_fold:
  assumes "2 + 16 * n \<le> length out" and "n \<le> length es"
  shows "fold (\<lambda>i. ser_event (es ! i) (2 + i * 16)) [0..<n] (w16 out 0 c) =
    le16 c @ concat (map ev_bytes (take n es)) @ drop (2 + 16 * n) out"
  using assms
proof (induction n)
  case 0
  then show ?case by (simp add: w16_write mem_write_def numeral_2_eq_2)
next
  case (Suc n)
  let ?pre = "le16 c @ concat (map ev_bytes (take n es))"
  have "length ?pre = 2 + 16 * n" using Suc.prems by (simp add: concat_ev_length)
  moreover have "fold (\<lambda>i. ser_event (es ! i) (2 + i * 16)) [0..<n] (w16 out 0 c) =
      ?pre @ drop (2 + 16 * n) out" using Suc by simp
  ultimately show ?case
    using Suc.prems by (simp add: ser_event_write mem_write_def take_Suc_conv_app_nth mult.commute)
qed

lemma r16_rd16: "r16 = rd16" and r32_rd32: "r32 = rd32"
  by (simp_all add: r16_def rd16_def r32_def rd32_def fun_eq_iff)

lemma des_event_bytes:
  assumes "length pre = off"
  shows "des_event (pre @ ev_bytes e @ r) off = e"
proof -
  let ?d = "pre @ ev_bytes e @ r"
  have "rd16 ?d (off + 0) = ie_type e" "rd16 ?d (off + 2) = ie_slot e" "rd16 ?d (off + 4) = ie_x e"
    "rd16 ?d (off + 6) = ie_y e" "rd16 ?d (off + 8) = ie_pressure e" "rd16 ?d (off + 10) = ie_buttons e"
    "rd32 ?d (off + 12) = ie_ts_us e"
    using assms by (intro rd16_le16 rd32_le32; simp add: mem_read_def ev_bytes_def)+
  then show ?thesis by (simp add: des_event_def r16_rd16 r32_rd32)
qed

lemma des_event_image:
  assumes "i < length es"
  shows "des_event (batch_image es @ r) (2 + i * 16) = es ! i"
proof -
  have "es = take i es @ es ! i # drop (Suc i) es" using assms by (rule id_take_nth_drop)
  then have "batch_image es @ r = (le16 (of_nat (length es)) @ concat (map ev_bytes (take i es))) @
      ev_bytes (es ! i) @ concat (map ev_bytes (drop (Suc i) es)) @ r"
    unfolding batch_image_def by (metis append.assoc concat.simps(2) concat_append list.simps(9) map_append)
  moreover have "length (le16 (of_nat (length es)) @ concat (map ev_bytes (take i es))) = 2 + i * 16"
    using assms by (simp add: concat_ev_length)
  ultimately show ?thesis by (metis des_event_bytes)
qed

lemma fold_update:
  assumes "n \<le> length xs"
  shows "fold (\<lambda>i es. es[i := f i]) [0..<n] xs = map f [0..<n] @ drop n xs"
  using assms
proof (induction n)
  case (Suc n)
  then have "drop n xs = xs ! n # drop (Suc n) xs" by (simp add: Cons_nth_drop_Suc)
  with Suc show ?case by (simp add: list_update_append)
qed simp

lemma serialize_image:
  assumes "ib_inv b" and "2 + 16 * length (ib_list b) \<le> unat cap" and "unat cap \<le> length out"
  shows "vmc_input_batch_serialize (Some b) (Some out) cap =
    (int (length (batch_image (ib_list b))),
     Some (batch_image (ib_list b) @ drop (length (batch_image (ib_list b))) out))"
proof -
  have n: "length (ib_list b) = unat (ib_count b)" using assms(1) by (rule length_ib_list)
  then have c: "of_nat (length (ib_list b)) = ib_count b" by simp
  have "\<not> cap < batch_need (ib_count b)"
    using assms(2) by (simp add: word_less_nat_alt batch_need_unat n)
  moreover have "fold (\<lambda>i. ser_event (ib_events b ! i) (2 + i * 16)) [0..<unat (ib_count b)]
      (w16 out 0 (ib_count b)) =
      le16 (ib_count b) @ concat (map ev_bytes (ib_list b)) @ drop (2 + 16 * unat (ib_count b)) out"
    using assms n ser_fold [of "unat (ib_count b)" out "ib_events b" "ib_count b"]
    by (simp add: ib_list_def ib_inv_def)
  ultimately show ?thesis
    by (simp add: vmc_input_batch_serialize_def Let_def batch_need_unat batch_image_def c
        concat_ev_length n SIZEOF_INPUT_EVENT_def)
qed

lemma deserialize_image:
  assumes "ib_inv b0" and "length es \<le> VMC_INPUT_BATCH_MAX_EVENTS"
    and "length (batch_image es) \<le> unat len"
  shows "\<exists>b. vmc_input_batch_deserialize (Some (batch_image es @ r)) len (Some b0) = (VMC_OK, Some b) \<and>
    ib_inv b \<and> ib_list b = es"
proof -
  have n: "unat (of_nat (length es) :: u16) = length es"
    using assms(2) by (subst unat_of_nat) (simp add: const_defs)
  have cnt: "r16 (batch_image es @ r) 0 = of_nat (length es)"
    unfolding r16_rd16 by (rule rd16_le16) (simp_all add: mem_read_def batch_image_def)
  have "\<not> len < 2" "\<not> batch_need (of_nat (length es)) > len"
    using assms(3) by (simp_all add: word_less_nat_alt batch_need_unat n batch_image_def concat_ev_length)
  moreover have evs: "map (\<lambda>i. des_event (batch_image es @ r) (2 + i * 16)) [0..<length es] = es"
    by (rule nth_equalityI) (simp_all add: des_event_image)
  moreover have "fold (\<lambda>i es'. es'[i := des_event (batch_image es @ r) (2 + i * 16)]) [0..<length es] (ib_events b0)
      = es @ drop (length es) (ib_events b0)"
    using assms(1,2) evs by (subst fold_update) (simp_all add: ib_inv_def)
  ultimately show ?thesis
    using assms(1,2)
    by (simp add: vmc_input_batch_deserialize_def Let_def cnt n ib_inv_def ib_list_def const_defs)
qed

section \<open>Properties\<close>

text \<open>
  A batch refines a bounded list: a push on a batch with fewer than 32 events appends the
  event, on a full one it reports an overrun and changes nothing.
\<close>

theorem input_batch_push_spec:
  assumes "ib_inv b"
  shows "\<exists>b'. vmc_input_batch_push (Some b) (Some ev) =
      (if length (ib_list b) = VMC_INPUT_BATCH_MAX_EVENTS then VMC_ERR_OVERRUN else VMC_OK, Some b') \<and>
    ib_inv b' \<and>
    ib_list b' = (if length (ib_list b) = VMC_INPUT_BATCH_MAX_EVENTS then ib_list b else ib_list b @ [ev])"
proof (cases "unat (ib_count b) = VMC_INPUT_BATCH_MAX_EVENTS")
  case True
  then show ?thesis
    using assms length_ib_list [OF assms] by (simp add: vmc_input_batch_push_def vmc_input_batch_full_def)
next
  case False
  then have lt: "unat (ib_count b) < 32" using assms by (simp add: ib_inv_def const_defs)
  then have "unat (ib_count b + 1) = Suc (unat (ib_count b))"
    by (subst unat_add_no_wrap) simp_all
  with lt assms False length_ib_list [OF assms] show ?thesis
    by (simp add: vmc_input_batch_push_def vmc_input_batch_full_def ib_inv_def ib_list_def const_defs
        take_Suc_conv_app_nth)
qed

definition ev0 :: vmc_input_event where
  "ev0 = \<lparr>ie_type = 1, ie_slot = 2, ie_x = 0xABCD, ie_y = 4, ie_pressure = 5, ie_buttons = 6,
     ie_ts_us = 0xDEADBEEF\<rparr>"

definition batch0 :: vmc_input_batch where
  "batch0 = \<lparr>ib_events = replicate 32 ev0, ib_count = 3\<rparr>"

lemma batch0_inv: "ib_inv batch0" by (simp add: ib_inv_def batch0_def const_defs)

lemma batch0_list: "ib_list batch0 = [ev0, ev0, ev0]"
proof -
  have "unat (3 :: u16) = Suc (Suc (Suc 0))" by simp
  then show ?thesis by (simp add: ib_list_def batch0_def take_replicate numeral_3_eq_3)
qed

theorem input_batch_push_spec_witness:
  "\<exists>b'. vmc_input_batch_push (Some batch0) (Some ev0) = (VMC_OK, Some b') \<and>
     ib_list b' = [ev0, ev0, ev0, ev0]"
  using input_batch_push_spec [OF batch0_inv, of ev0] by (auto simp: batch0_list const_defs)

text \<open>
  C9: Serialising a batch and parsing the bytes, into any batch and with any bytes following,
  restores exactly its events.
\<close>

theorem input_batch_roundtrip:
  assumes "ib_inv b" and "ib_inv b0" and "2 + 16 * length (ib_list b) \<le> unat cap"
    and "unat cap \<le> length out"
  shows "\<exists>out' b'. vmc_input_batch_serialize (Some b) (Some out) cap =
      (int (2 + 16 * length (ib_list b)), Some out') \<and> length out' = length out \<and>
    vmc_input_batch_deserialize (Some out') (of_nat (2 + 16 * length (ib_list b))) (Some b0) =
      (VMC_OK, Some b') \<and> ib_inv b' \<and> ib_list b' = ib_list b"
proof -
  let ?es = "ib_list b"
  have len: "length (batch_image ?es) = 2 + 16 * length ?es"
    by (simp add: batch_image_def concat_ev_length)
  have le: "length ?es \<le> VMC_INPUT_BATCH_MAX_EVENTS"
    using assms(1) length_ib_list [OF assms(1)] by (simp add: ib_inv_def)
  then have u: "unat (of_nat (2 + 16 * length ?es) :: sz_t) = 2 + 16 * length ?es"
    by (subst unat_of_nat) (simp add: const_defs)
  have ser: "vmc_input_batch_serialize (Some b) (Some out) cap =
      (int (2 + 16 * length ?es), Some (batch_image ?es @ drop (2 + 16 * length ?es) out))"
    using serialize_image [OF assms(1,3,4)] len by simp
  have "length (batch_image ?es) \<le> unat (of_nat (2 + 16 * length ?es) :: sz_t)" using len u by simp
  from deserialize_image [OF assms(2) le this, of "drop (2 + 16 * length ?es) out"]
  show ?thesis using ser len assms(3,4) by auto
qed

theorem input_batch_roundtrip_witness:
  "\<exists>out' b'. vmc_input_batch_serialize (Some batch0) (Some (replicate 64 0)) 64 = (50, Some out') \<and>
     vmc_input_batch_deserialize (Some out') 50 (Some batch0) = (VMC_OK, Some b') \<and>
     ib_list b' = [ev0, ev0, ev0]"
  using input_batch_roundtrip [OF batch0_inv batch0_inv, of 64 "replicate 64 0"]
  by (auto simp: batch0_list)

text \<open>
  The parser reads only inside the datagram and never yields more than 32 events: what it
  accepts announces at most 32 events that all lie within the received length, and everything
  else is refused with a protocol error and leaves the batch untouched.
\<close>

theorem input_batch_deserialize_bounds:
  assumes "ib_inv b0"
  shows "\<exists>st b. vmc_input_batch_deserialize (Some data) len (Some b0) = (st, Some b) \<and> ib_inv b \<and>
    (if 2 \<le> unat len \<and> 2 + 16 * unat (r16 data 0) \<le> unat len \<and> unat (r16 data 0) \<le> 32
     then st = VMC_OK \<and> unat (ib_count b) = unat (r16 data 0) \<and>
          (\<forall>i < unat (ib_count b). ib_list b ! i = des_event data (2 + i * 16))
     else st = VMC_ERR_PROTO \<and> b = b0)"
proof (cases "2 \<le> unat len \<and> 2 + 16 * unat (r16 data 0) \<le> unat len \<and> unat (r16 data 0) \<le> 32")
  case True
  then have "\<not> len < 2" "\<not> batch_need (r16 data 0) > len"
    by (simp_all add: word_less_nat_alt batch_need_unat)
  with True assms show ?thesis
    by (simp add: vmc_input_batch_deserialize_def Let_def const_defs ib_inv_def ib_list_def fold_update
        nth_append)
next
  case False
  then have "len < 2 \<or> batch_need (r16 data 0) > len \<or> unat (r16 data 0) > 32"
    by (auto simp: word_less_nat_alt batch_need_unat)
  with False assms show ?thesis
    by (auto simp: vmc_input_batch_deserialize_def Let_def const_defs)
qed

theorem input_batch_deserialize_bounds_witness:
  "\<exists>b. vmc_input_batch_deserialize (Some [1, 0, 7]) 3 (Some batch0) = (VMC_ERR_PROTO, Some b) \<and> b = batch0"
  using input_batch_deserialize_bounds [OF batch0_inv, of "[1, 0, 7]" 3]
  by (auto simp: r16_def)

end
