(* ===== verification/Audio_Mixer.thy ===== *)
theory Audio_Mixer
  imports Vmc_Prelude
begin

text \<open>
  The fixed-point mixer and the audio pipeline, \<^verbatim>\<open>src/audio/mixer.c\<close> and
  \<^verbatim>\<open>src/audio/pipeline.c\<close>. Samples and gains are 16-bit words read as two's complement, and
  the accumulator is a 32-bit word, so that the absence of overflow is a theorem. The sink
  and source callbacks of the pipeline are parameters.
\<close>

section \<open>Mixer\<close>

definition VMC_AUDIO_CHANNELS :: nat where [const_defs]: "VMC_AUDIO_CHANNELS = 2"
definition VMC_AUDIO_SAMPLE_RATE :: nat where [const_defs]: "VMC_AUDIO_SAMPLE_RATE = 48000"

type_synonym i16 = "16 word"
type_synonym i32 = "32 word"

definition VMC_MIXER_MAX_SOURCES :: nat where [const_defs]: "VMC_MIXER_MAX_SOURCES = 8"

record vmc_mixer_source =
  ms_active :: bool
  ms_gain_q8 :: i16
  ms_pcm :: "i16 list option"
  ms_frames :: sz_t

type_synonym vmc_mixer = "vmc_mixer_source list"

definition zero_source :: vmc_mixer_source where
  "zero_source = \<lparr>ms_active = False, ms_gain_q8 = 0, ms_pcm = None, ms_frames = 0\<rparr>"

definition vmc_mixer_init :: "vmc_mixer option \<Rightarrow> vmc_mixer option" where
  "vmc_mixer_init m = (case m of None \<Rightarrow> None
     | Some _ \<Rightarrow> Some (replicate VMC_MIXER_MAX_SOURCES zero_source))"

definition vmc_mixer_set_source ::
  "vmc_mixer option \<Rightarrow> sz_t \<Rightarrow> i16 list option \<Rightarrow> sz_t \<Rightarrow> i16 \<Rightarrow> vmc_status \<times> vmc_mixer option" where
  "vmc_mixer_set_source mo idx pcm frames gain_q8 =
     (case mo of
        None \<Rightarrow> (VMC_ERR_INVALID_ARG, mo)
      | Some m \<Rightarrow>
          if unat idx \<ge> VMC_MIXER_MAX_SOURCES then (VMC_ERR_INVALID_ARG, mo)
          else if frames > 0 \<and> pcm = None then (VMC_ERR_INVALID_ARG, mo)
          else if sint gain_q8 < 0 then (VMC_ERR_INVALID_ARG, mo)
          else (VMC_OK, Some (m[unat idx := \<lparr>ms_active = (frames > 0), ms_gain_q8 = gain_q8,
                                             ms_pcm = pcm, ms_frames = frames\<rparr>])))"

definition vmc_mixer_clear_source :: "vmc_mixer option \<Rightarrow> sz_t \<Rightarrow> vmc_mixer option" where
  "vmc_mixer_clear_source mo idx =
     (case mo of
        None \<Rightarrow> None
      | Some m \<Rightarrow> if unat idx \<ge> VMC_MIXER_MAX_SOURCES then mo
                   else Some (m[unat idx := (m ! unat idx)\<lparr>ms_active := False\<rparr>]))"

definition sat_i16 :: "i32 \<Rightarrow> i16" where
  "sat_i16 v = (if sint v > 32767 then 32767 else if sint v < - 32768 then - 32768 else ucast v)"

definition pcm_at :: "vmc_mixer_source \<Rightarrow> nat \<Rightarrow> i16" where
  "pcm_at src s = (case ms_pcm src of Some p \<Rightarrow> p ! s | None \<Rightarrow> 0)"

text \<open>One step of the inner loop: the contribution of a source to sample \<open>s\<close>.\<close>

definition mix_step :: "nat \<Rightarrow> vmc_mixer_source \<Rightarrow> i32 \<Rightarrow> i32" where
  "mix_step s src acc =
     (if \<not> ms_active src then acc
      else if s div 2 \<ge> unat (ms_frames src) then acc
      else acc + of_int (c_div (sint (pcm_at src s) * sint (ms_gain_q8 src)) 256))"

definition mix_sample :: "vmc_mixer \<Rightarrow> nat \<Rightarrow> i16" where
  "mix_sample m s = sat_i16 (fold (mix_step s) m 0)"

definition vmc_mixer_mix :: "vmc_mixer option \<Rightarrow> i16 list option \<Rightarrow> sz_t \<Rightarrow> i16 list option" where
  "vmc_mixer_mix mo outo frames_out =
     (case (mo, outo) of
        (Some m, Some out) \<Rightarrow>
          if frames_out = 0 then outo
          else Some (fold (\<lambda>s o1. o1[s := mix_sample m s]) [0..<unat (frames_out * 2)] out)
      | _ \<Rightarrow> outo)"

section \<open>Pipeline\<close>

text \<open>
  A callback is a parameter on the state \<open>'w\<close> of the device behind it, \<open>None\<close> when the
  function pointer is null. \<open>play\<close> consumes a block, \<open>capture\<close> fills one.
\<close>

record 'w vmc_audio_pipeline =
  ap_mixer :: vmc_mixer
  ap_play :: "('w \<Rightarrow> i16 list option \<Rightarrow> sz_t \<Rightarrow> vmc_status \<times> 'w) option"
  ap_capture :: "('w \<Rightarrow> sz_t \<Rightarrow> vmc_status \<times> i16 list \<times> sz_t \<times> 'w) option"
  ap_last_mix_ms :: u32

definition vmc_audio_pipeline_init :: "'w vmc_audio_pipeline option \<Rightarrow> 'w vmc_audio_pipeline option" where
  "vmc_audio_pipeline_init p =
     (case p of None \<Rightarrow> None
      | Some _ \<Rightarrow> Some \<lparr>ap_mixer = replicate VMC_MIXER_MAX_SOURCES zero_source, ap_play = None,
                        ap_capture = None, ap_last_mix_ms = 0\<rparr>)"

definition vmc_audio_pipeline_render ::
  "'w vmc_audio_pipeline option \<Rightarrow> 'w \<Rightarrow> i16 list option \<Rightarrow> sz_t
     \<Rightarrow> vmc_status \<times> 'w vmc_audio_pipeline option \<times> 'w" where
  "vmc_audio_pipeline_render po w mec_pcm mec_frames =
     (case po of
        None \<Rightarrow> (VMC_ERR_INVALID_ARG, po, w)
      | Some p \<Rightarrow>
          if mec_frames > 0 \<and> mec_pcm = None then (VMC_ERR_INVALID_ARG, po, w)
          else (case vmc_mixer_set_source (Some (ap_mixer p)) 0 mec_pcm mec_frames 256 of
                  (st, mo) \<Rightarrow>
                    let p1 = (case mo of Some m \<Rightarrow> p\<lparr>ap_mixer := m\<rparr> | None \<Rightarrow> p)
                    in if st \<noteq> VMC_OK then (st, Some p1, w)
                       else (case ap_play p1 of
                               None \<Rightarrow> (VMC_ERR_NOSYS, Some p1, w)
                             | Some play \<Rightarrow>
                                 (case play w mec_pcm mec_frames of (r, w1) \<Rightarrow> (r, Some p1, w1)))))"

definition vmc_audio_pipeline_capture ::
  "'w vmc_audio_pipeline option \<Rightarrow> 'w \<Rightarrow> i16 list option \<Rightarrow> sz_t \<Rightarrow> sz_t option
     \<Rightarrow> vmc_status \<times> i16 list option \<times> sz_t option \<times> 'w" where
  "vmc_audio_pipeline_capture po w buf max_frames out_frames =
     (case (po, buf, out_frames) of
        (Some p, Some _, Some _) \<Rightarrow>
          (case ap_capture p of
             None \<Rightarrow> (VMC_ERR_NOSYS, buf, out_frames, w)
           | Some cap \<Rightarrow> (case cap w max_frames of (st, b, n, w1) \<Rightarrow> (st, Some b, Some n, w1)))
      | _ \<Rightarrow> (VMC_ERR_INVALID_ARG, buf, out_frames, w))"

section \<open>The exact mix\<close>

definition contribution :: "nat \<Rightarrow> vmc_mixer_source \<Rightarrow> int" where
  "contribution s src =
     (if ms_active src \<and> s div 2 < unat (ms_frames src)
      then c_div (sint (pcm_at src s) * sint (ms_gain_q8 src)) 256 else 0)"

definition clamp16 :: "int \<Rightarrow> int" where
  "clamp16 v = max (- 32768) (min 32767 v)"

definition mixer_ok :: "vmc_mixer \<Rightarrow> bool" where
  "mixer_ok m \<longleftrightarrow> length m = VMC_MIXER_MAX_SOURCES \<and>
     list_all (\<lambda>s. ms_active s \<longrightarrow> 0 \<le> sint (ms_gain_q8 s) \<and>
       (\<exists>p. ms_pcm s = Some p \<and> 2 * unat (ms_frames s) \<le> length p)) m"

lemma sint16_bounds: "- 32768 \<le> sint (w :: i16)" "sint w \<le> 32767"
  using sint_greater_eq [of w] sint_less [of w] by simp_all

lemma contribution_bound: "\<bar>contribution s src\<bar> \<le> 4194304"
proof -
  have "\<bar>sint (pcm_at src s)\<bar> \<le> 32768" "\<bar>sint (ms_gain_q8 src)\<bar> \<le> 32768"
    using sint16_bounds [of "pcm_at src s"] sint16_bounds [of "ms_gain_q8 src"] by simp_all
  then have "\<bar>sint (pcm_at src s) * sint (ms_gain_q8 src)\<bar> \<le> 32768 * 32768"
    unfolding abs_mult by (rule mult_mono) simp_all
  then have "\<bar>sint (pcm_at src s) * sint (ms_gain_q8 src)\<bar> div 256 \<le> (32768 * 32768) div 256"
    by (rule zdiv_mono1) simp
  with abs_c_div_le [of 256 "sint (pcm_at src s) * sint (ms_gain_q8 src)"] show ?thesis
    by (auto simp: contribution_def)
qed

lemma sum_contribution_bound:
  "\<bar>\<Sum>src \<leftarrow> m. contribution s src\<bar> \<le> 4194304 * int (length m)"
proof (induction m)
  case (Cons a m)
  with contribution_bound [of s a] show ?case by simp
qed simp

lemma mix_fold:
  "fold (mix_step s) m acc = acc + of_int (\<Sum>src \<leftarrow> m. contribution s src)"
  by (induction m arbitrary: acc) (simp_all add: mix_step_def contribution_def)

lemma sint_of_int32: "\<bar>v\<bar> < 2 ^ 31 \<Longrightarrow> sint (of_int v :: i32) = v"
  by (subst signed_of_int) (simp add: signed_take_bit_int_eq_self_iff abs_less_iff)

lemma sat_i16_clamp: "sint (sat_i16 v) = clamp16 (sint v)"
proof (cases "sint v > 32767 \<or> sint v < - 32768")
  case True
  then show ?thesis by (auto simp: sat_i16_def clamp16_def)
next
  case False
  have "sint (ucast v :: i16) = signed_take_bit 15 (signed_take_bit 31 (uint v))"
    by (simp add: signed_ucast_eq signed_take_bit_signed_take_bit)
  also have "\<dots> = signed_take_bit 15 (sint v)" by (simp add: sint_uint)
  also have "\<dots> = sint v" using False by (simp add: signed_take_bit_int_eq_self_iff)
  finally have "sint (ucast v :: i16) = sint v" .
  with False show ?thesis by (auto simp: sat_i16_def clamp16_def)
qed

lemma mix_sample_exact:
  assumes "length m = VMC_MIXER_MAX_SOURCES"
  shows "sint (mix_sample m s) = clamp16 (\<Sum>src \<leftarrow> m. contribution s src)"
proof -
  have "\<bar>\<Sum>src \<leftarrow> m. contribution s src\<bar> < 2 ^ 31"
    using sum_contribution_bound [of s m] assms by (simp add: const_defs)
  then show ?thesis by (simp add: mix_sample_def sat_i16_clamp mix_fold sint_of_int32)
qed

lemma mix_out:
  assumes "n \<le> length (out :: 'a list)"
  shows "fold (\<lambda>s o1. o1[s := f s]) [0..<n] out = map f [0..<n] @ drop n out"
  using assms
proof (induction n)
  case (Suc n)
  then have "drop n out = out ! n # drop (Suc n) out" by (simp add: Cons_nth_drop_Suc)
  with Suc show ?case by (simp add: list_update_append)
qed simp

section \<open>Properties\<close>

text \<open>
  C10: Every output sample is the saturated sum of the scaled samples of the active sources
  that reach it, computed over the integers: with eight sources the 32-bit accumulator cannot
  overflow, at any gain and on any input. Samples past the requested frames are untouched.
\<close>

theorem mixer_mix_exact:
  assumes "length m = VMC_MIXER_MAX_SOURCES" and "unat (frames * 2) \<le> length out" and "frames \<noteq> 0"
  shows "\<exists>out'. vmc_mixer_mix (Some m) (Some out) frames = Some out' \<and> length out' = length out \<and>
    (\<forall>s < unat (frames * 2). sint (out' ! s) = clamp16 (\<Sum>src \<leftarrow> m. contribution s src)) \<and>
    drop (unat (frames * 2)) out' = drop (unat (frames * 2)) out"
proof -
  let ?n = "unat (frames * 2)"
  have "vmc_mixer_mix (Some m) (Some out) frames = Some (map (mix_sample m) [0..<?n] @ drop ?n out)"
    using assms(2,3) by (simp add: vmc_mixer_mix_def mix_out)
  then show ?thesis
    using assms(2) mix_sample_exact [OF assms(1)] by (simp add: nth_append)
qed

definition mixer2 :: vmc_mixer where
  "mixer2 = \<lparr>ms_active = True, ms_gain_q8 = 0x7FFF, ms_pcm = Some [32767, 1000], ms_frames = 1\<rparr> #
     \<lparr>ms_active = True, ms_gain_q8 = 128, ms_pcm = Some [- 3, 10], ms_frames = 1\<rparr> #
     replicate 6 zero_source"

theorem mixer_mix_exact_witness:
  "\<exists>out'. vmc_mixer_mix (Some mixer2) (Some [0, 0, 9]) 1 = Some out' \<and>
     sint (out' ! 0) = 32767 \<and> sint (out' ! 1) = 32767 \<and> drop 2 out' = [9]"
proof -
  have "length mixer2 = VMC_MIXER_MAX_SOURCES" by (simp add: mixer2_def const_defs)
  moreover have two: "unat (1 * 2 :: sz_t) = 2" by simp
  ultimately obtain out' where
    o: "vmc_mixer_mix (Some mixer2) (Some [0, 0, 9]) 1 = Some out'"
    "\<forall>s < 2. sint (out' ! s) = clamp16 (\<Sum>src \<leftarrow> mixer2. contribution s src)" "drop 2 out' = [9]"
    using mixer_mix_exact [of mixer2 1 "[0, 0, 9]", unfolded two] by auto
  have "clamp16 (\<Sum>src \<leftarrow> mixer2. contribution 0 src) = 32767"
    "clamp16 (\<Sum>src \<leftarrow> mixer2. contribution 1 src) = 32767"
    by (simp_all add: mixer2_def contribution_def pcm_at_def zero_source_def clamp16_def c_div_def
        sum_list_replicate)
  with o show ?thesis by auto
qed

text \<open>
  A single source at unit gain (256 in the Q8.8 format) passes through unchanged and
  sample-exact, negative samples included, and is followed by silence where it ends.
\<close>

theorem mixer_unit_gain_identity:
  assumes "vmc_mixer_set_source (vmc_mixer_init (Some m0)) idx (Some pcm) frames 256 = (VMC_OK, Some m)"
  shows "sint (mix_sample m s) = (if s div 2 < unat frames then sint (pcm ! s) else 0)"
proof -
  let ?src = "\<lparr>ms_active = (frames > 0), ms_gain_q8 = 256, ms_pcm = Some pcm, ms_frames = frames\<rparr>"
  have i: "unat idx < 8" and m: "m = (replicate 8 zero_source)[unat idx := ?src]"
    using assms by (auto simp: vmc_mixer_set_source_def vmc_mixer_init_def status_defs const_defs
        split: if_splits)
  have len: "length m = VMC_MIXER_MAX_SOURCES" by (simp add: m const_defs)
  have z: "contribution s zero_source = 0" by (simp add: contribution_def zero_source_def)
  have "(\<Sum>src \<leftarrow> m. contribution s src) = contribution s ?src"
    using i z by (simp add: m map_update upd_conv_take_nth_drop sum_list_replicate)
  moreover have "c_div (sint (pcm ! s) * 256) 256 = sint (pcm ! s)"
    by (cases "sint (pcm ! s) < 0") (simp_all add: c_div_neg)
  ultimately have "(\<Sum>src \<leftarrow> m. contribution s src) = (if s div 2 < unat frames then sint (pcm ! s) else 0)"
    by (auto simp: contribution_def pcm_at_def simp flip: word_neq_0_conv)
  with mix_sample_exact [OF len] sint16_bounds [of "pcm ! s"] show ?thesis by (simp add: clamp16_def)
qed

theorem mixer_unit_gain_identity_witness:
  "\<exists>m. vmc_mixer_set_source (vmc_mixer_init (Some [])) 3 (Some [- 5, 7]) 1 256 = (VMC_OK, Some m) \<and>
     sint (mix_sample m 0) = - 5 \<and> sint (mix_sample m 2) = 0"
proof -
  obtain m where m: "vmc_mixer_set_source (vmc_mixer_init (Some [])) 3 (Some [- 5, 7]) 1 256 = (VMC_OK, Some m)"
    by (simp add: vmc_mixer_set_source_def vmc_mixer_init_def const_defs)
  from mixer_unit_gain_identity [OF m, of 0] mixer_unit_gain_identity [OF m, of 2] m show ?thesis by simp
qed

end
