(* ===== verification/Session_State.thy ===== *)
theory Session_State
  imports Vmc_Prelude "HOL-Library.Sublist"
begin

text \<open>
  The session state machine, \<^verbatim>\<open>src/session/state.c\<close>. A dispatch returns the status, the
  session and the callbacks it invoked, in order. A callback pointer is modelled by whether
  it is set; the opaque user pointer is passed through.
\<close>

section \<open>States, events, callbacks\<close>

datatype vmc_session_state = VMC_SESSION_OFFLINE | VMC_SESSION_DISCOVER | VMC_SESSION_CONNECTING
  | VMC_SESSION_ACTIVE | VMC_SESSION_DEGRADED | VMC_SESSION_RECONNECTING | VMC_SESSION_TERMINATING
  | VMC_SESSION_COUNT

datatype vmc_session_event = VMC_EVENT_BOOT | VMC_EVENT_MAPPER_RESP | VMC_EVENT_TRANSPORT_UP
  | VMC_EVENT_LINK_OK | VMC_EVENT_LINK_DEGRADED | VMC_EVENT_LINK_LOST | VMC_EVENT_USER_TERMINATE
  | VMC_EVENT_SECURITY_TERM | VMC_EVENT_TIMEOUT | VMC_EVENT_COUNT

fun vmc_session_state_name :: "vmc_session_state \<Rightarrow> string" where
  "vmc_session_state_name VMC_SESSION_OFFLINE = ''OFFLINE''"
| "vmc_session_state_name VMC_SESSION_DISCOVER = ''DISCOVER''"
| "vmc_session_state_name VMC_SESSION_CONNECTING = ''CONNECTING''"
| "vmc_session_state_name VMC_SESSION_ACTIVE = ''ACTIVE''"
| "vmc_session_state_name VMC_SESSION_DEGRADED = ''DEGRADED''"
| "vmc_session_state_name VMC_SESSION_RECONNECTING = ''RECONNECTING''"
| "vmc_session_state_name VMC_SESSION_TERMINATING = ''TERMINATING''"
| "vmc_session_state_name VMC_SESSION_COUNT = ''?''"

fun vmc_session_event_name :: "vmc_session_event \<Rightarrow> string" where
  "vmc_session_event_name VMC_EVENT_BOOT = ''BOOT''"
| "vmc_session_event_name VMC_EVENT_MAPPER_RESP = ''MAPPER_RESP''"
| "vmc_session_event_name VMC_EVENT_TRANSPORT_UP = ''TRANSPORT_UP''"
| "vmc_session_event_name VMC_EVENT_LINK_OK = ''LINK_OK''"
| "vmc_session_event_name VMC_EVENT_LINK_DEGRADED = ''LINK_DEGRADED''"
| "vmc_session_event_name VMC_EVENT_LINK_LOST = ''LINK_LOST''"
| "vmc_session_event_name VMC_EVENT_USER_TERMINATE = ''USER_TERMINATE''"
| "vmc_session_event_name VMC_EVENT_SECURITY_TERM = ''SECURITY_TERM''"
| "vmc_session_event_name VMC_EVENT_TIMEOUT = ''TIMEOUT''"
| "vmc_session_event_name VMC_EVENT_COUNT = ''?''"

datatype cb_call = On_state_change vmc_session_state vmc_session_state nat | On_quality_drop nat
  | On_session_lost nat | On_terminated vmc_session_state nat

record vmc_session_callbacks =
  cb_state_change :: bool
  cb_quality_drop :: bool
  cb_session_lost :: bool
  cb_terminated :: bool

record vmc_session =
  ss_state :: vmc_session_state
  ss_cb :: vmc_session_callbacks
  ss_user :: nat
  ss_retries :: u32

section \<open>Operations\<close>

definition vmc_session_init ::
  "vmc_session option \<Rightarrow> vmc_session_callbacks \<Rightarrow> nat \<Rightarrow> vmc_status \<times> vmc_session option" where
  "vmc_session_init s cb user =
     (case s of
        None \<Rightarrow> (VMC_ERR_INVALID_ARG, None)
      | Some _ \<Rightarrow> (VMC_OK, Some \<lparr>ss_state = VMC_SESSION_OFFLINE, ss_cb = cb, ss_user = user,
                                  ss_retries = 0\<rparr>))"

definition vmc_session_get_state :: "vmc_session option \<Rightarrow> vmc_session_state" where
  "vmc_session_get_state s = (case s of Some x \<Rightarrow> ss_state x | None \<Rightarrow> VMC_SESSION_OFFLINE)"

definition transition :: "vmc_session \<Rightarrow> vmc_session_state \<Rightarrow> vmc_session \<times> cb_call list" where
  "transition s to =
     (let from = ss_state s
      in if from = to then (s, [])
         else let s1 = s\<lparr>ss_state := to\<rparr>;
                  c1 = (if cb_state_change (ss_cb s1) then [On_state_change from to (ss_user s1)] else []);
                  c2 = (case to of
                          VMC_SESSION_DEGRADED \<Rightarrow>
                            if cb_quality_drop (ss_cb s1) then [On_quality_drop (ss_user s1)] else []
                        | VMC_SESSION_RECONNECTING \<Rightarrow>
                            if cb_session_lost (ss_cb s1) then [On_session_lost (ss_user s1)] else []
                        | _ \<Rightarrow> [])
              in (s1, c1 @ c2))"

definition go :: "vmc_session \<Rightarrow> vmc_session_state \<Rightarrow> vmc_status \<times> vmc_session \<times> cb_call list" where
  "go s to = (case transition s to of (s1, cs) \<Rightarrow> (VMC_OK, s1, cs))"

definition go_terminate :: "vmc_session \<Rightarrow> vmc_status \<times> vmc_session \<times> cb_call list" where
  "go_terminate s =
     (case transition s VMC_SESSION_TERMINATING of (s1, cs) \<Rightarrow>
        (VMC_OK, s1, cs @ (if cb_terminated (ss_cb s1) then [On_terminated (ss_state s1) (ss_user s1)]
                           else [])))"

fun dispatch_body :: "vmc_session \<Rightarrow> vmc_session_event \<Rightarrow> vmc_status \<times> vmc_session \<times> cb_call list" where
  "dispatch_body s ev =
     (let retry = s\<lparr>ss_retries := ss_retries s + 1\<rparr>
      in case ss_state s of
        VMC_SESSION_OFFLINE \<Rightarrow>
          if ev = VMC_EVENT_BOOT then go s VMC_SESSION_DISCOVER
          else (VMC_ERR_INVALID_STATE, s, [])
      | VMC_SESSION_DISCOVER \<Rightarrow>
          if ev = VMC_EVENT_MAPPER_RESP then go s VMC_SESSION_CONNECTING
          else if ev = VMC_EVENT_TIMEOUT then (VMC_OK, retry, [])
          else if ev = VMC_EVENT_LINK_LOST then go s VMC_SESSION_OFFLINE
          else (VMC_ERR_INVALID_STATE, s, [])
      | VMC_SESSION_CONNECTING \<Rightarrow>
          if ev = VMC_EVENT_TRANSPORT_UP then go s VMC_SESSION_ACTIVE
          else if ev = VMC_EVENT_TIMEOUT then go retry VMC_SESSION_DISCOVER
          else if ev = VMC_EVENT_LINK_LOST then go s VMC_SESSION_OFFLINE
          else (VMC_ERR_INVALID_STATE, s, [])
      | VMC_SESSION_ACTIVE \<Rightarrow>
          if ev = VMC_EVENT_LINK_DEGRADED then go s VMC_SESSION_DEGRADED
          else if ev = VMC_EVENT_LINK_LOST then go s VMC_SESSION_RECONNECTING
          else if ev = VMC_EVENT_USER_TERMINATE \<or> ev = VMC_EVENT_SECURITY_TERM then go_terminate s
          else (VMC_ERR_INVALID_STATE, s, [])
      | VMC_SESSION_DEGRADED \<Rightarrow>
          if ev = VMC_EVENT_LINK_OK then go s VMC_SESSION_ACTIVE
          else if ev = VMC_EVENT_LINK_LOST then go s VMC_SESSION_RECONNECTING
          else if ev = VMC_EVENT_USER_TERMINATE \<or> ev = VMC_EVENT_SECURITY_TERM then go_terminate s
          else (VMC_ERR_INVALID_STATE, s, [])
      | VMC_SESSION_RECONNECTING \<Rightarrow>
          if ev = VMC_EVENT_TRANSPORT_UP then go s VMC_SESSION_ACTIVE
          else if ev = VMC_EVENT_LINK_OK then go s VMC_SESSION_DISCOVER
          else if ev = VMC_EVENT_TIMEOUT then go retry VMC_SESSION_OFFLINE
          else (VMC_ERR_INVALID_STATE, s, [])
      | VMC_SESSION_TERMINATING \<Rightarrow> (VMC_OK, s, [])
      | VMC_SESSION_COUNT \<Rightarrow> (VMC_ERR_INVALID_STATE, s, []))"

definition vmc_session_dispatch ::
  "vmc_session option \<Rightarrow> vmc_session_event \<Rightarrow> vmc_status \<times> vmc_session option \<times> cb_call list" where
  "vmc_session_dispatch so ev =
     (case so of
        None \<Rightarrow> (VMC_ERR_INVALID_ARG, None, [])
      | Some s \<Rightarrow> (case dispatch_body s ev of (st, s1, cs) \<Rightarrow> (st, Some s1, cs)))"

section \<open>Transition table\<close>

text \<open>The successor state, or \<open>None\<close> where the event is refused.\<close>

fun next_state :: "vmc_session_state \<Rightarrow> vmc_session_event \<Rightarrow> vmc_session_state option" where
  "next_state VMC_SESSION_OFFLINE VMC_EVENT_BOOT = Some VMC_SESSION_DISCOVER"
| "next_state VMC_SESSION_DISCOVER VMC_EVENT_MAPPER_RESP = Some VMC_SESSION_CONNECTING"
| "next_state VMC_SESSION_DISCOVER VMC_EVENT_TIMEOUT = Some VMC_SESSION_DISCOVER"
| "next_state VMC_SESSION_DISCOVER VMC_EVENT_LINK_LOST = Some VMC_SESSION_OFFLINE"
| "next_state VMC_SESSION_CONNECTING VMC_EVENT_TRANSPORT_UP = Some VMC_SESSION_ACTIVE"
| "next_state VMC_SESSION_CONNECTING VMC_EVENT_TIMEOUT = Some VMC_SESSION_DISCOVER"
| "next_state VMC_SESSION_CONNECTING VMC_EVENT_LINK_LOST = Some VMC_SESSION_OFFLINE"
| "next_state VMC_SESSION_ACTIVE VMC_EVENT_LINK_DEGRADED = Some VMC_SESSION_DEGRADED"
| "next_state VMC_SESSION_ACTIVE VMC_EVENT_LINK_LOST = Some VMC_SESSION_RECONNECTING"
| "next_state VMC_SESSION_ACTIVE VMC_EVENT_USER_TERMINATE = Some VMC_SESSION_TERMINATING"
| "next_state VMC_SESSION_ACTIVE VMC_EVENT_SECURITY_TERM = Some VMC_SESSION_TERMINATING"
| "next_state VMC_SESSION_DEGRADED VMC_EVENT_LINK_OK = Some VMC_SESSION_ACTIVE"
| "next_state VMC_SESSION_DEGRADED VMC_EVENT_LINK_LOST = Some VMC_SESSION_RECONNECTING"
| "next_state VMC_SESSION_DEGRADED VMC_EVENT_USER_TERMINATE = Some VMC_SESSION_TERMINATING"
| "next_state VMC_SESSION_DEGRADED VMC_EVENT_SECURITY_TERM = Some VMC_SESSION_TERMINATING"
| "next_state VMC_SESSION_RECONNECTING VMC_EVENT_TRANSPORT_UP = Some VMC_SESSION_ACTIVE"
| "next_state VMC_SESSION_RECONNECTING VMC_EVENT_LINK_OK = Some VMC_SESSION_DISCOVER"
| "next_state VMC_SESSION_RECONNECTING VMC_EVENT_TIMEOUT = Some VMC_SESSION_OFFLINE"
| "next_state VMC_SESSION_TERMINATING _ = Some VMC_SESSION_TERMINATING"
| "next_state _ _ = None"

text \<open>A step of the machine under a dispatched event, with the callbacks it fires.\<close>

inductive sess_step :: "vmc_session \<Rightarrow> vmc_session_event \<Rightarrow> cb_call list \<Rightarrow> vmc_session \<Rightarrow> bool" where
  dispatch: "vmc_session_dispatch (Some s) ev = (st, Some s', cs) \<Longrightarrow> sess_step s ev cs s'"

inductive sess_run :: "vmc_session \<Rightarrow> vmc_session_event list \<Rightarrow> cb_call list \<Rightarrow> vmc_session \<Rightarrow> bool" where
  start: "sess_run s [] [] s"
| more: "sess_run s evs cs s1 \<Longrightarrow> sess_step s1 ev cs1 s2 \<Longrightarrow> sess_run s (evs @ [ev]) (cs @ cs1) s2"

inductive_simps sess_step_iff: "sess_step s ev cs s'"

definition fresh :: "vmc_session_callbacks \<Rightarrow> nat \<Rightarrow> vmc_session" where
  "fresh cb user = \<lparr>ss_state = VMC_SESSION_OFFLINE, ss_cb = cb, ss_user = user, ss_retries = 0\<rparr>"

lemma vmc_session_init_fresh: "vmc_session_init (Some s) cb user = (VMC_OK, Some (fresh cb user))"
  by (simp add: vmc_session_init_def fresh_def)

definition change_calls :: "vmc_session \<Rightarrow> vmc_session_state \<Rightarrow> cb_call list" where
  "change_calls s to =
     (if ss_state s = to then []
      else (if cb_state_change (ss_cb s) then [On_state_change (ss_state s) to (ss_user s)] else []) @
           (if to = VMC_SESSION_DEGRADED \<and> cb_quality_drop (ss_cb s) then [On_quality_drop (ss_user s)] else []) @
           (if to = VMC_SESSION_RECONNECTING \<and> cb_session_lost (ss_cb s) then [On_session_lost (ss_user s)] else []) @
           (if to = VMC_SESSION_TERMINATING \<and> cb_terminated (ss_cb s)
            then [On_terminated VMC_SESSION_TERMINATING (ss_user s)] else []))"

definition counts_retry :: "vmc_session_state \<Rightarrow> vmc_session_event \<Rightarrow> bool" where
  "counts_retry st ev \<longleftrightarrow> ev = VMC_EVENT_TIMEOUT \<and>
     st \<in> {VMC_SESSION_DISCOVER, VMC_SESSION_CONNECTING, VMC_SESSION_RECONNECTING}"

lemma dispatch_table:
  "vmc_session_dispatch (Some s) ev =
     (case next_state (ss_state s) ev of
        None \<Rightarrow> (VMC_ERR_INVALID_STATE, Some s, [])
      | Some to \<Rightarrow> (VMC_OK, Some (s\<lparr>ss_state := to,
          ss_retries := ss_retries s + (if counts_retry (ss_state s) ev then 1 else 0)\<rparr>), change_calls s to))"
proof (cases s)
  case (fields st cb user r)
  show ?thesis
    unfolding fields
    by (cases st; cases ev)
      (simp_all add: vmc_session_dispatch_def go_def go_terminate_def transition_def change_calls_def
        counts_retry_def)
qed

lemma sess_stepE:
  assumes "sess_step s ev cs s'"
  obtains (refused) "next_state (ss_state s) ev = None" "s' = s" "cs = []"
  | (moved) to where "next_state (ss_state s) ev = Some to" "ss_state s' = to" "ss_cb s' = ss_cb s"
      "ss_user s' = ss_user s" "cs = change_calls s to"
  using assms
  by (auto simp: sess_step_iff dispatch_table split: option.splits)

section \<open>Runs\<close>

text \<open>The handshake each state presupposes.\<close>

fun handshake :: "vmc_session_state \<Rightarrow> vmc_session_event list" where
  "handshake VMC_SESSION_OFFLINE = []"
| "handshake VMC_SESSION_DISCOVER = [VMC_EVENT_BOOT]"
| "handshake VMC_SESSION_CONNECTING = [VMC_EVENT_BOOT, VMC_EVENT_MAPPER_RESP]"
| "handshake _ = [VMC_EVENT_BOOT, VMC_EVENT_MAPPER_RESP, VMC_EVENT_TRANSPORT_UP]"

lemma handshake_next:
  "next_state st ev = Some to \<Longrightarrow> handshake to = handshake st @ [ev] \<or> prefix (handshake to) (handshake st)"
  by (cases st; cases ev) auto

lemma run_handshake:
  assumes "sess_run s evs cs s'" and "handshake (ss_state s) = []"
  shows "subseq (handshake (ss_state s')) evs"
  using assms
proof induction
  case (more s evs cs s1 ev cs1 s2)
  from more.hyps(2) show ?case
  proof (cases rule: sess_stepE)
    case refused
    with more.IH more.prems show ?thesis by (simp add: list_emb_prefix)
  next
    case (moved to)
    note sub = more.IH [OF more.prems]
    from handshake_next [OF moved(1)] show ?thesis
    proof
      assume "handshake to = handshake (ss_state s1) @ [ev]"
      with sub moved(2) show ?thesis by (simp add: list_emb_append_mono)
    next
      assume "prefix (handshake to) (handshake (ss_state s1))"
      with sub have "subseq (handshake to) evs"
        by (meson prefix_imp_subseq subseq_order.order_trans)
      with moved(2) show ?thesis by (simp add: list_emb_prefix)
    qed
  qed
qed simp

lemma run_cb: "sess_run s evs cs s' \<Longrightarrow> ss_cb s' = ss_cb s \<and> ss_user s' = ss_user s"
  by (induction rule: sess_run.induct) (auto elim: sess_stepE)

text \<open>The state changes reported by \<open>on_state_change\<close>, as a list of pairs.\<close>

fun changes :: "cb_call list \<Rightarrow> (vmc_session_state \<times> vmc_session_state) list" where
  "changes [] = []"
| "changes (On_state_change a b u # cs) = (a, b) # changes cs"
| "changes (_ # cs) = changes cs"

fun path :: "vmc_session_state \<Rightarrow> (vmc_session_state \<times> vmc_session_state) list \<Rightarrow> vmc_session_state \<Rightarrow> bool" where
  "path a [] b = (a = b)"
| "path a ((x, y) # ps) b = (a = x \<and> x \<noteq> y \<and> path y ps b)"

lemma changes_append: "changes (xs @ ys) = changes xs @ changes ys"
  by (induction xs rule: changes.induct) simp_all

lemma path_append: "path a (ps @ qs) c \<longleftrightarrow> (\<exists>b. path a ps b \<and> path b qs c)"
  by (induction a ps c rule: path.induct) auto

lemma changes_change_calls:
  "cb_state_change (ss_cb s) \<Longrightarrow> path (ss_state s) (changes (change_calls s to)) to"
  by (auto simp: change_calls_def changes_append)

definition is_terminated :: "cb_call \<Rightarrow> bool" where
  "is_terminated c = (case c of On_terminated _ _ \<Rightarrow> True | _ \<Rightarrow> False)"

lemma terminated_calls:
  "length (filter is_terminated (change_calls s to)) =
     (if ss_state s \<noteq> to \<and> to = VMC_SESSION_TERMINATING \<and> cb_terminated (ss_cb s) then 1 else 0)"
  by (simp add: change_calls_def is_terminated_def)

section \<open>Properties\<close>

text \<open>
  C0: The dispatcher implements the transition table: an event the table has no entry for is
  refused with \<open>VMC_ERR_INVALID_STATE\<close>, changes nothing and fires no callback; any other
  event moves to the tabulated state, counts a retry exactly for a timeout outside a
  connection, and fires the callbacks of that change.
\<close>

theorem session_dispatch_table:
  "vmc_session_dispatch (Some s) ev =
     (case next_state (ss_state s) ev of
        None \<Rightarrow> (VMC_ERR_INVALID_STATE, Some s, [])
      | Some to \<Rightarrow> (VMC_OK, Some (s\<lparr>ss_state := to,
          ss_retries := ss_retries s + (if counts_retry (ss_state s) ev then 1 else 0)\<rparr>), change_calls s to))"
  by (rule dispatch_table)

text \<open>
  C11: A session becomes active only through the full handshake: any sequence of events that
  takes a fresh session to the active, degraded, reconnecting or terminating state contains
  boot, mapper response and transport-up in that order.
\<close>

theorem session_active_needs_handshake:
  assumes "sess_run (fresh cb user) evs cs s'"
    and "ss_state s' \<in> {VMC_SESSION_ACTIVE, VMC_SESSION_DEGRADED, VMC_SESSION_RECONNECTING,
           VMC_SESSION_TERMINATING}"
  shows "subseq [VMC_EVENT_BOOT, VMC_EVENT_MAPPER_RESP, VMC_EVENT_TRANSPORT_UP] evs"
  using run_handshake [OF assms(1)] assms(2) by (auto simp: fresh_def)

definition no_cb :: vmc_session_callbacks where
  "no_cb = \<lparr>cb_state_change = False, cb_quality_drop = False, cb_session_lost = False,
     cb_terminated = False\<rparr>"

definition all_cb :: vmc_session_callbacks where
  "all_cb = \<lparr>cb_state_change = True, cb_quality_drop = True, cb_session_lost = True,
     cb_terminated = True\<rparr>"

lemma run_snoc:
  "sess_run s evs cs s1 \<Longrightarrow> vmc_session_dispatch (Some s1) ev = (st, Some s2, cs1) \<Longrightarrow>
     sess_run s (evs @ [ev]) (cs @ cs1) s2"
  by (rule sess_run.more) (auto intro: sess_step.dispatch)

lemma sample_run:
  "\<exists>cs s'. sess_run (fresh all_cb 0)
     [VMC_EVENT_BOOT, VMC_EVENT_MAPPER_RESP, VMC_EVENT_TRANSPORT_UP, VMC_EVENT_USER_TERMINATE] cs s' \<and>
     ss_state s' = VMC_SESSION_TERMINATING \<and> length (filter is_terminated cs) = 1"
proof -
  let ?f = "fresh all_cb 0"
  note step = run_snoc [where st = VMC_OK]
  have 1: "sess_run ?f [VMC_EVENT_BOOT] [On_state_change VMC_SESSION_OFFLINE VMC_SESSION_DISCOVER 0]
      (?f\<lparr>ss_state := VMC_SESSION_DISCOVER\<rparr>)"
    using step [OF sess_run.start, of ?f VMC_EVENT_BOOT]
    by (simp add: dispatch_table counts_retry_def change_calls_def fresh_def all_cb_def)
  have 2: "sess_run ?f [VMC_EVENT_BOOT, VMC_EVENT_MAPPER_RESP]
      [On_state_change VMC_SESSION_OFFLINE VMC_SESSION_DISCOVER 0,
       On_state_change VMC_SESSION_DISCOVER VMC_SESSION_CONNECTING 0]
      (?f\<lparr>ss_state := VMC_SESSION_CONNECTING\<rparr>)"
    using step [OF 1, of VMC_EVENT_MAPPER_RESP]
    by (simp add: dispatch_table counts_retry_def change_calls_def fresh_def all_cb_def)
  have 3: "\<exists>cs. sess_run ?f [VMC_EVENT_BOOT, VMC_EVENT_MAPPER_RESP, VMC_EVENT_TRANSPORT_UP] cs
      (?f\<lparr>ss_state := VMC_SESSION_ACTIVE\<rparr>) \<and> filter is_terminated cs = []"
    using step [OF 2, of VMC_EVENT_TRANSPORT_UP]
    by (intro exI conjI, assumption?)
      (auto simp: dispatch_table counts_retry_def change_calls_def fresh_def all_cb_def is_terminated_def)
  then obtain cs where cs: "sess_run ?f [VMC_EVENT_BOOT, VMC_EVENT_MAPPER_RESP, VMC_EVENT_TRANSPORT_UP] cs
      (?f\<lparr>ss_state := VMC_SESSION_ACTIVE\<rparr>)" "filter is_terminated cs = []" by blast
  have "sess_run ?f [VMC_EVENT_BOOT, VMC_EVENT_MAPPER_RESP, VMC_EVENT_TRANSPORT_UP, VMC_EVENT_USER_TERMINATE]
      (cs @ [On_state_change VMC_SESSION_ACTIVE VMC_SESSION_TERMINATING 0,
             On_terminated VMC_SESSION_TERMINATING 0]) (?f\<lparr>ss_state := VMC_SESSION_TERMINATING\<rparr>)"
    using step [OF cs(1), of VMC_EVENT_USER_TERMINATE]
    by (simp add: dispatch_table counts_retry_def change_calls_def fresh_def all_cb_def)
  then show ?thesis
    by (intro exI conjI, assumption) (simp_all add: cs(2) is_terminated_def)
qed

theorem session_active_needs_handshake_witness:
  "\<exists>cs s'. sess_run (fresh all_cb 0)
     [VMC_EVENT_BOOT, VMC_EVENT_MAPPER_RESP, VMC_EVENT_TRANSPORT_UP, VMC_EVENT_USER_TERMINATE] cs s' \<and>
     ss_state s' = VMC_SESSION_TERMINATING \<and>
     subseq [VMC_EVENT_BOOT, VMC_EVENT_MAPPER_RESP, VMC_EVENT_TRANSPORT_UP]
       [VMC_EVENT_BOOT, VMC_EVENT_MAPPER_RESP, VMC_EVENT_TRANSPORT_UP, VMC_EVENT_USER_TERMINATE]"
proof -
  obtain cs s' where r: "sess_run (fresh all_cb 0)
     [VMC_EVENT_BOOT, VMC_EVENT_MAPPER_RESP, VMC_EVENT_TRANSPORT_UP, VMC_EVENT_USER_TERMINATE] cs s'"
    "ss_state s' = VMC_SESSION_TERMINATING" using sample_run by blast
  with session_active_needs_handshake [OF r(1)] show ?thesis by blast
qed

text \<open>
  Termination is final: from the terminating state no sequence of events leaves it,
  changes the session or fires another callback.
\<close>

theorem session_terminating_absorbing:
  assumes "sess_run s evs cs s'" and "ss_state s = VMC_SESSION_TERMINATING"
  shows "s' = s \<and> cs = []"
  using assms
proof induction
  case (more s evs cs s1 ev cs1 s2)
  then have "s1 = s" "cs = []" by simp_all
  with more.hyps(2) more.prems show ?case
    by (auto simp: sess_step_iff dispatch_table counts_retry_def change_calls_def)
qed simp

theorem session_terminating_absorbing_witness:
  "\<exists>cs s'. sess_run ((fresh all_cb 0)\<lparr>ss_state := VMC_SESSION_TERMINATING\<rparr>) [VMC_EVENT_BOOT] cs s' \<and>
     s' = (fresh all_cb 0)\<lparr>ss_state := VMC_SESSION_TERMINATING\<rparr> \<and> cs = []"
proof -
  let ?s = "(fresh all_cb 0)\<lparr>ss_state := VMC_SESSION_TERMINATING\<rparr>"
  obtain st s2 cs1 where "vmc_session_dispatch (Some ?s) VMC_EVENT_BOOT = (st, Some s2, cs1)"
    by (auto simp: dispatch_table)
  from run_snoc [OF sess_run.start this] have r: "sess_run ?s [VMC_EVENT_BOOT] cs1 s2" by simp
  with session_terminating_absorbing [OF r] show ?thesis by auto
qed

text \<open>
  An observer of the state-change callback can follow the machine: the changes reported
  over any run form an unbroken path from the first state to the last, each one a real
  change, and the termination callback fires at most once.
\<close>

theorem session_callbacks_track_state:
  assumes "sess_run s evs cs s'" and "cb_state_change (ss_cb s)"
  shows "path (ss_state s) (changes cs) (ss_state s') \<and> length (filter is_terminated cs) \<le> 1 \<and>
    (length (filter is_terminated cs) = 1 \<longrightarrow> ss_state s' = VMC_SESSION_TERMINATING)"
  using assms
proof induction
  case (more s evs cs s1 ev cs1 s2)
  have cb: "cb_state_change (ss_cb s1)" using run_cb [OF more.hyps(1)] more.prems by simp
  note ih = more.IH [OF more.prems]
  from more.hyps(2) show ?case
  proof (cases rule: sess_stepE)
    case refused
    with ih show ?thesis by simp
  next
    case (moved to)
    have "to = VMC_SESSION_TERMINATING" if "ss_state s1 = VMC_SESSION_TERMINATING"
      using moved(1) that by (cases ev) simp_all
    moreover have "length (filter is_terminated cs) = 0" if "ss_state s1 \<noteq> VMC_SESSION_TERMINATING"
      using ih that by linarith
    ultimately have "length (filter is_terminated (cs @ cs1)) \<le> 1 \<and>
        (length (filter is_terminated (cs @ cs1)) = 1 \<longrightarrow> to = VMC_SESSION_TERMINATING)"
      using ih moved(5) terminated_calls [of s1 to] by auto
    moreover have "path (ss_state s) (changes (cs @ cs1)) to"
      using ih moved(5) changes_change_calls [OF cb, of to] by (auto simp: changes_append path_append)
    ultimately show ?thesis using moved(2) by simp
  qed
qed simp

theorem session_callbacks_track_state_witness:
  "\<exists>cs s'. sess_run (fresh all_cb 0)
     [VMC_EVENT_BOOT, VMC_EVENT_MAPPER_RESP, VMC_EVENT_TRANSPORT_UP, VMC_EVENT_USER_TERMINATE] cs s' \<and>
     path VMC_SESSION_OFFLINE (changes cs) VMC_SESSION_TERMINATING"
proof -
  obtain cs s' where r: "sess_run (fresh all_cb 0)
     [VMC_EVENT_BOOT, VMC_EVENT_MAPPER_RESP, VMC_EVENT_TRANSPORT_UP, VMC_EVENT_USER_TERMINATE] cs s'"
    "ss_state s' = VMC_SESSION_TERMINATING" using sample_run by blast
  from session_callbacks_track_state [OF r(1)] r show ?thesis
    by (auto simp: fresh_def all_cb_def)
qed

end
