(* ===== verification/Udp_Transport.thy ===== *)
theory Udp_Transport
  imports Vmc_Prelude
begin

text \<open>
  The transport interface of \<^verbatim>\<open>include/vmc/transport/transport.h\<close>, its counters
  (\<^verbatim>\<open>src/transport/transport.c\<close>) and the UDP implementation
  (\<^verbatim>\<open>src/transport/udp_transport.c\<close>). The socket calls of the operating system are the
  fields of a parameter record over an arbitrary network state \<open>'w\<close>. Logging is not
  modelled.
\<close>

section \<open>System calls\<close>

text \<open>
  Results follow the calls: a descriptor or a count, negative on failure, with the \<open>errno\<close>
  value left behind. \<open>sys_getaddrinfo\<close> returns the return code and the first address, if any.
\<close>

record ('w, 'a) net_ops =
  sys_socket :: "'w \<Rightarrow> int \<times> 'w"
  sys_close :: "int \<Rightarrow> 'w \<Rightarrow> 'w"
  sys_send :: "int \<Rightarrow> bytes \<Rightarrow> 'w \<Rightarrow> int \<times> nat \<times> 'w"
  sys_recv :: "int \<Rightarrow> nat \<Rightarrow> 'w \<Rightarrow> int \<times> nat \<times> bytes \<times> 'w"
  sys_getaddrinfo :: "string \<Rightarrow> u16 \<Rightarrow> 'w \<Rightarrow> int \<times> 'a option \<times> 'w"
  sys_connect :: "int \<Rightarrow> 'a \<Rightarrow> 'w \<Rightarrow> int \<times> 'w"

definition EAGAIN :: nat where [const_defs]: "EAGAIN = 11"
definition EWOULDBLOCK :: nat where [const_defs]: "EWOULDBLOCK = EAGAIN"

section \<open>The transport interface\<close>

record vmc_transport =
  tr_tx_bytes :: u64
  tr_rx_bytes :: u64
  tr_tx_packets :: u64
  tr_rx_packets :: u64

definition vmc_transport_note_tx :: "vmc_transport \<Rightarrow> sz_t \<Rightarrow> vmc_transport" where
  "vmc_transport_note_tx t bytes =
     t\<lparr>tr_tx_bytes := tr_tx_bytes t + bytes, tr_tx_packets := tr_tx_packets t + 1\<rparr>"

definition vmc_transport_note_rx :: "vmc_transport \<Rightarrow> sz_t \<Rightarrow> vmc_transport" where
  "vmc_transport_note_rx t bytes =
     t\<lparr>tr_rx_bytes := tr_rx_bytes t + bytes, tr_rx_packets := tr_rx_packets t + 1\<rparr>"

text \<open>
  The operations table. A receive yields the status, the buffer and the length it reports,
  if any.
\<close>

record 's vmc_transport_ops =
  op_open :: "'s \<Rightarrow> vmc_status \<times> 's"
  op_close :: "('s \<Rightarrow> 's) option"
  op_send :: "'s \<Rightarrow> bytes \<Rightarrow> sz_t \<Rightarrow> vmc_status \<times> 's"
  op_recv :: "'s \<Rightarrow> bytes \<Rightarrow> sz_t \<Rightarrow> vmc_status \<times> bytes \<times> sz_t option \<times> 's"
  op_stats :: "'s \<Rightarrow> u64 \<times> u64 \<times> u64 \<times> u64"

definition vmc_transport_open :: "'s vmc_transport_ops \<Rightarrow> 's \<Rightarrow> vmc_status \<times> 's" where
  "vmc_transport_open ops t = op_open ops t"

definition vmc_transport_close :: "'s vmc_transport_ops \<Rightarrow> 's \<Rightarrow> 's" where
  "vmc_transport_close ops t = (case op_close ops of Some f \<Rightarrow> f t | None \<Rightarrow> t)"

definition vmc_transport_send :: "'s vmc_transport_ops \<Rightarrow> 's \<Rightarrow> bytes \<Rightarrow> sz_t \<Rightarrow> vmc_status \<times> 's" where
  "vmc_transport_send ops t p len = op_send ops t p len"

definition vmc_transport_recv ::
  "'s vmc_transport_ops \<Rightarrow> 's \<Rightarrow> bytes \<Rightarrow> sz_t \<Rightarrow> vmc_status \<times> bytes \<times> sz_t option \<times> 's" where
  "vmc_transport_recv ops t buf cap = op_recv ops t buf cap"

section \<open>UDP implementation\<close>

record vmc_udp_transport =
  ut_base :: vmc_transport
  ut_fd :: int
  ut_recv_buf :: bytes
  ut_recv_cap :: sz_t
  ut_local_port :: u16

definition VMC_UDP_RECV_BUF_DEFAULT :: nat where [const_defs]: "VMC_UDP_RECV_BUF_DEFAULT = 2048"

type_synonym 'w udp = "vmc_udp_transport \<times> 'w"

definition udp_open :: "('w, 'a) net_ops \<Rightarrow> 'w udp \<Rightarrow> vmc_status \<times> 'w udp" where
  "udp_open net = (\<lambda>(u, w).
     if ut_fd u \<ge> 0 then (VMC_OK, u, w)
     else (case sys_socket net w of (fd, w1) \<Rightarrow>
             let u1 = u\<lparr>ut_fd := fd\<rparr>
             in if ut_fd u1 < 0 then (VMC_ERR_IO, u1, w1) else (VMC_OK, u1, w1)))"

definition udp_close :: "('w, 'a) net_ops \<Rightarrow> 'w udp \<Rightarrow> 'w udp" where
  "udp_close net = (\<lambda>(u, w).
     if ut_fd u \<ge> 0 then (u\<lparr>ut_fd := - 1\<rparr>, sys_close net (ut_fd u) w) else (u, w))"

definition udp_send :: "('w, 'a) net_ops \<Rightarrow> 'w udp \<Rightarrow> bytes \<Rightarrow> sz_t \<Rightarrow> vmc_status \<times> 'w udp" where
  "udp_send net = (\<lambda>(u, w) packet len.
     if ut_fd u < 0 then (VMC_ERR_NOT_CONNECTED, u, w)
     else (case sys_send net (ut_fd u) (take (unat len) packet) w of (n, err, w1) \<Rightarrow>
             if n < 0 then
               (if err = EAGAIN \<or> err = EWOULDBLOCK then (VMC_ERR_AGAIN, u, w1)
                else (VMC_ERR_IO, u, w1))
             else (VMC_OK, u\<lparr>ut_base := vmc_transport_note_tx (ut_base u) (of_int n)\<rparr>, w1)))"

definition udp_recv ::
  "('w, 'a) net_ops \<Rightarrow> 'w udp \<Rightarrow> bytes \<Rightarrow> sz_t \<Rightarrow> vmc_status \<times> bytes \<times> sz_t option \<times> 'w udp" where
  "udp_recv net = (\<lambda>(u, w) buf cap.
     if ut_fd u < 0 then (VMC_ERR_NOT_CONNECTED, buf, None, u, w)
     else (case sys_recv net (ut_fd u) (unat cap) w of (n, err, data, w1) \<Rightarrow>
             if n < 0 then
               (if err = EAGAIN \<or> err = EWOULDBLOCK then (VMC_ERR_AGAIN, buf, None, u, w1)
                else (VMC_ERR_IO, buf, None, u, w1))
             else if n = 0 then (VMC_ERR_AGAIN, buf, None, u, w1)
             else (VMC_OK, mem_write buf 0 data, Some (of_int n),
                   u\<lparr>ut_base := vmc_transport_note_rx (ut_base u) (of_int n)\<rparr>, w1)))"

definition udp_stats :: "'w udp \<Rightarrow> u64 \<times> u64 \<times> u64 \<times> u64" where
  "udp_stats = (\<lambda>(u, w). (tr_tx_bytes (ut_base u), tr_rx_bytes (ut_base u),
     tr_tx_packets (ut_base u), tr_rx_packets (ut_base u)))"

definition k_udp_ops :: "('w, 'a) net_ops \<Rightarrow> 'w udp vmc_transport_ops" where
  "k_udp_ops net = \<lparr>op_open = udp_open net, op_close = Some (udp_close net), op_send = udp_send net,
     op_recv = udp_recv net, op_stats = udp_stats\<rparr>"

definition vmc_udp_init :: "vmc_udp_transport option \<Rightarrow> bytes option \<Rightarrow> sz_t
    \<Rightarrow> vmc_status \<times> vmc_udp_transport option" where
  "vmc_udp_init uo recv_buf recv_cap =
     (case uo of
        None \<Rightarrow> (VMC_ERR_INVALID_ARG, None)
      | Some _ \<Rightarrow>
          let u = \<lparr>ut_base = \<lparr>tr_tx_bytes = 0, tr_rx_bytes = 0, tr_tx_packets = 0, tr_rx_packets = 0\<rparr>,
                   ut_fd = - 1, ut_recv_buf = [], ut_recv_cap = 0, ut_local_port = 0\<rparr>
          in (VMC_OK, Some (case recv_buf of
                Some b \<Rightarrow> if recv_cap > 0 then u\<lparr>ut_recv_buf := b, ut_recv_cap := recv_cap\<rparr>
                          else u\<lparr>ut_recv_buf := replicate VMC_UDP_RECV_BUF_DEFAULT 0,
                                 ut_recv_cap := of_nat VMC_UDP_RECV_BUF_DEFAULT\<rparr>
              | None \<Rightarrow> u\<lparr>ut_recv_buf := replicate VMC_UDP_RECV_BUF_DEFAULT 0,
                          ut_recv_cap := of_nat VMC_UDP_RECV_BUF_DEFAULT\<rparr>)))"

definition vmc_udp_connect ::
  "('w, 'a) net_ops \<Rightarrow> vmc_udp_transport option \<Rightarrow> 'w \<Rightarrow> string option \<Rightarrow> u16
     \<Rightarrow> vmc_status \<times> vmc_udp_transport option \<times> 'w" where
  "vmc_udp_connect net uo w host port =
     (case (uo, host) of
        (Some u, Some h) \<Rightarrow>
          if port = 0 then (VMC_ERR_INVALID_ARG, uo, w)
          else (case udp_open net (u, w) of (st, u1, w1) \<Rightarrow>
                  if st \<noteq> VMC_OK then (st, Some u1, w1)
                  else (case sys_getaddrinfo net h port w1 of (rc, res, w2) \<Rightarrow>
                          (case res of
                             None \<Rightarrow> (VMC_ERR_IO, Some u1, w2)
                           | Some addr \<Rightarrow>
                               if rc \<noteq> 0 then (VMC_ERR_IO, Some u1, w2)
                               else (case sys_connect net (ut_fd u1) addr w2 of (c, w3) \<Rightarrow>
                                       if c \<noteq> 0 then (VMC_ERR_IO, Some u1, w3)
                                       else (VMC_OK, Some u1, w3)))))
      | _ \<Rightarrow> (VMC_ERR_INVALID_ARG, uo, w))"

section \<open>The counting contract\<close>

text \<open>
  A client trace of sends and receives through an operations table; \<open>tr_run\<close> returns the
  statuses in order.
\<close>

datatype tr_op = Send bytes | Recv sz_t

fun tr_run :: "'s vmc_transport_ops \<Rightarrow> tr_op list \<Rightarrow> 's \<Rightarrow> vmc_status list \<times> 's" where
  "tr_run ops [] s = ([], s)"
| "tr_run ops (Send p # os) s =
     (case vmc_transport_send ops s p (of_nat (length p)) of (st, s1) \<Rightarrow>
        (case tr_run ops os s1 of (sts, s2) \<Rightarrow> (st # sts, s2)))"
| "tr_run ops (Recv cap # os) s =
     (case vmc_transport_recv ops s (replicate (unat cap) 0) cap of (st, _, _, s1) \<Rightarrow>
        (case tr_run ops os s1 of (sts, s2) \<Rightarrow> (st # sts, s2)))"

fun is_send :: "tr_op \<Rightarrow> bool" where
  "is_send (Send p) = True"
| "is_send (Recv c) = False"

definition successes :: "(tr_op \<Rightarrow> bool) \<Rightarrow> tr_op list \<Rightarrow> vmc_status list \<Rightarrow> nat" where
  "successes P os sts = length (filter (\<lambda>(q, st). P q \<and> st = VMC_OK) (zip os sts))"

locale counted_transport =
  fixes ops :: "'s vmc_transport_ops"
    and tx :: "'s \<Rightarrow> u64"
    and rx :: "'s \<Rightarrow> u64"
  assumes send_counts: "op_send ops s p len = (st, s') \<Longrightarrow>
      rx s' = rx s \<and> tx s' = tx s + (if st = VMC_OK then 1 else 0)"
    and recv_counts: "op_recv ops s buf cap = (st, buf', n, s') \<Longrightarrow>
      tx s' = tx s \<and> rx s' = rx s + (if st = VMC_OK then 1 else 0)"
begin

lemma run_counts:
  assumes "tr_run ops os s = (sts, s')"
  shows "tx s' = tx s + of_nat (successes is_send os sts) \<and>
    rx s' = rx s + of_nat (successes (\<lambda>q. \<not> is_send q) os sts) \<and> length sts = length os"
  using assms
proof (induction os arbitrary: s sts)
  case Nil
  then show ?case by (simp add: successes_def)
next
  case (Cons q os)
  show ?case
  proof (cases q)
    case (Send p)
    obtain st s1 where x: "op_send ops s p (of_nat (length p)) = (st, s1)" by fastforce
    obtain sts1 where r: "tr_run ops os s1 = (sts1, s')" "sts = st # sts1"
      using Cons.prems by (auto simp: Send x vmc_transport_send_def split: prod.splits)
    from Cons.IH [OF r(1)] send_counts [OF x] r(2) Send show ?thesis
      by (auto simp: successes_def)
  next
    case (Recv cap)
    obtain st b n s1 where x: "op_recv ops s (replicate (unat cap) 0) cap = (st, b, n, s1)"
      by (metis prod_cases4)
    obtain sts1 where r: "tr_run ops os s1 = (sts1, s')" "sts = st # sts1"
      using Cons.prems by (auto simp: Recv x vmc_transport_recv_def split: prod.splits)
    from Cons.IH [OF r(1)] recv_counts [OF x] r(2) Recv show ?thesis
      by (auto simp: successes_def)
  qed
qed

end

interpretation udp: counted_transport "k_udp_ops net" "\<lambda>(u, w). tr_tx_packets (ut_base u)"
  "\<lambda>(u, w). tr_rx_packets (ut_base u)" for net
  by unfold_locales
    (auto simp: k_udp_ops_def udp_send_def udp_recv_def vmc_transport_note_tx_def
      vmc_transport_note_rx_def status_defs split: prod.splits if_splits)

section \<open>Properties\<close>

text \<open>
  C0: Over any sequence of sends and receives the packet counters advance by exactly the
  number of calls that returned \<open>VMC_OK\<close>, modulo the 64-bit wrap-around, whatever the
  network does.
\<close>

theorem udp_counts_packets:
  assumes "tr_run (k_udp_ops net) os (u, w) = (sts, u', w')"
  shows "tr_tx_packets (ut_base u') = tr_tx_packets (ut_base u) + of_nat (successes is_send os sts) \<and>
    tr_rx_packets (ut_base u') = tr_rx_packets (ut_base u) + of_nat (successes (\<lambda>q. \<not> is_send q) os sts)"
  using udp.run_counts [OF assms] by simp

text \<open>A loop-back network: a queue of datagrams, cut to the receiver's capacity.\<close>

definition loop_net :: "(bytes list, unit) net_ops" where
  "loop_net = \<lparr>sys_socket = \<lambda>w. (3, w), sys_close = \<lambda>fd w. w,
     sys_send = \<lambda>fd p w. (int (length p), 0, w @ [p]),
     sys_recv = \<lambda>fd cap w. (case w of [] \<Rightarrow> (- 1, EAGAIN, [], [])
       | p # ps \<Rightarrow> (int (min cap (length p)), 0, take cap p, ps)),
     sys_getaddrinfo = \<lambda>h p w. (0, Some (), w), sys_connect = \<lambda>fd a w. (0, w)\<rparr>"

definition udp_up :: vmc_udp_transport where
  "udp_up = \<lparr>ut_base = \<lparr>tr_tx_bytes = 0, tr_rx_bytes = 0, tr_tx_packets = 0, tr_rx_packets = 0\<rparr>,
     ut_fd = 3, ut_recv_buf = [], ut_recv_cap = 0, ut_local_port = 0\<rparr>"

theorem udp_counts_packets_witness:
  "\<exists>sts u' w'. tr_run (k_udp_ops loop_net) [Send [1, 2], Recv 8, Recv 8] (udp_up, []) = (sts, u', w') \<and>
     sts = [VMC_OK, VMC_OK, VMC_ERR_AGAIN] \<and> tr_tx_packets (ut_base u') = 1 \<and>
     tr_rx_packets (ut_base u') = 1"
proof -
  obtain sts u' w' where
    r: "tr_run (k_udp_ops loop_net) [Send [1, 2], Recv 8, Recv 8] (udp_up, []) = (sts, u', w')"
    by (metis prod_cases3)
  then have sts: "sts = [VMC_OK, VMC_OK, VMC_ERR_AGAIN]"
    by (auto simp: vmc_transport_send_def vmc_transport_recv_def k_udp_ops_def udp_send_def udp_recv_def
        loop_net_def udp_up_def)
  from udp_counts_packets [OF r] have "tr_tx_packets (ut_base u') = 1 \<and> tr_rx_packets (ut_base u') = 1"
    by (simp add: sts successes_def status_defs) (simp add: udp_up_def)
  with r sts show ?thesis by blast
qed

text \<open>
  C0: A receive that succeeds has stored a datagram inside the caller's buffer: if \<^verbatim>\<open>recv\<close>
  returns the number of bytes it stored, and never more than it was asked for, then the
  reported length is positive and within the capacity, those bytes are the datagram, and the
  rest of the buffer is unchanged.
\<close>

theorem udp_recv_within_buffer:
  assumes recv_documented: "\<And>fd cap w n err data w'. sys_recv net fd cap w = (n, err, data, w') \<Longrightarrow>
      0 \<le> n \<Longrightarrow> n = int (length data) \<and> length data \<le> cap"
    and "unat cap \<le> length buf"
    and "udp_recv net (u, w) buf cap = (VMC_OK, buf', Some m, u', w')"
  shows "0 < m \<and> m \<le> cap \<and> length buf' = length buf \<and>
    (\<exists>err data. sys_recv net (ut_fd u) (unat cap) w = (int (unat m), err, data, w') \<and>
       take (unat m) buf' = data \<and> drop (unat m) buf' = drop (unat m) buf)"
proof -
  obtain n err data where r: "sys_recv net (ut_fd u) (unat cap) w = (n, err, data, w')" "0 < n"
    "buf' = mem_write buf 0 data" "m = of_int n"
    using assms(3) by (auto simp: udp_recv_def status_defs split: prod.splits if_splits)
  then have d: "n = int (length data)" "length data \<le> unat cap" using recv_documented by force+
  have m: "unat m = length data"
    using d unat_bound [of cap] by (simp add: r(4) unat_of_nat)
  have "0 < m" using r(2) d m by (simp add: word_less_nat_alt)
  moreover have "m \<le> cap" using m d by (simp add: word_le_nat_alt)
  ultimately show ?thesis
    using r d m assms(2) by (simp add: mem_write_def)
qed

theorem udp_recv_within_buffer_witness:
  "\<exists>buf' m u' w'. udp_recv loop_net (udp_up, [[7, 8, 9]]) [0, 0, 0] 2 = (VMC_OK, buf', Some m, u', w') \<and>
     0 < m \<and> m \<le> 2 \<and> length buf' = 3"
proof -
  have doc: "sys_recv loop_net fd cap w = (n, err, data, w') \<Longrightarrow> 0 \<le> n \<Longrightarrow>
      n = int (length data) \<and> length data \<le> cap" for fd cap w n err data w'
    by (auto simp: loop_net_def split: list.splits)
  obtain buf' m u' w' where r:
    "udp_recv loop_net (udp_up, [[7, 8, 9]]) [0, 0, 0] 2 = (VMC_OK, buf', Some m, u', w')"
    by (simp add: udp_recv_def loop_net_def udp_up_def)
  from udp_recv_within_buffer [OF doc _ r] r show ?thesis by auto
qed

end
