(* ===== verification/Session_Ctx.thy ===== *)
theory Session_Ctx
  imports Session_State Wire_Protocol Udp_Transport
begin

unbundle bit_operations_syntax

text \<open>
  The session driver, \<^verbatim>\<open>src/session/session.c\<close>: keep-alives, link supervision and control
  traffic around the state machine. The transport is reached through its operations table
  and threaded as the state \<open>'s\<close>; the readings of the monotonic clock are arguments.
\<close>

section \<open>State\<close>

record vmc_session_config =
  cfg_container_host :: string
  cfg_container_port :: u16
  cfg_keepalive_ms :: u32
  cfg_link_timeout_ms :: u32

record vmc_session_ctx =
  sc_sm :: vmc_session
  sc_cfg :: vmc_session_config
  sc_last_rx_ms :: u64
  sc_last_keepalive_ms :: u64
  sc_last_ka_send_us :: u64
  sc_tx_seq :: u64
  sc_keepalive_interval_ms :: u32

definition no_callbacks :: vmc_session_callbacks where
  "no_callbacks = \<lparr>cb_state_change = False, cb_quality_drop = False, cb_session_lost = False,
     cb_terminated = False\<rparr>"

section \<open>Operations\<close>

definition vmc_session_ctx_init ::
  "vmc_session_ctx option \<Rightarrow> 's option \<Rightarrow> vmc_session_config option \<Rightarrow> nat \<Rightarrow> u64
     \<Rightarrow> vmc_status \<times> vmc_session_ctx option" where
  "vmc_session_ctx_init sco t cfgo user now_ms =
     (case (sco, t, cfgo) of
        (Some sc, Some _, Some cfg) \<Rightarrow>
          (case vmc_session_init (Some (sc_sm sc)) no_callbacks user of
             (st, Some sm) \<Rightarrow>
               (st, Some \<lparr>sc_sm = sm, sc_cfg = cfg, sc_last_rx_ms = now_ms,
                  sc_last_keepalive_ms = now_ms, sc_last_ka_send_us = 0, sc_tx_seq = 0,
                  sc_keepalive_interval_ms =
                    (if cfg_keepalive_ms cfg \<noteq> 0 then cfg_keepalive_ms cfg else 2000)\<rparr>)
           | (st, None) \<Rightarrow> (st, sco))
      | _ \<Rightarrow> (VMC_ERR_INVALID_ARG, sco))"

definition ctx_dispatch :: "vmc_session_ctx \<Rightarrow> vmc_session_event \<Rightarrow> vmc_status \<times> vmc_session_ctx" where
  "ctx_dispatch sc ev =
     (case vmc_session_dispatch (Some (sc_sm sc)) ev of
        (st, Some sm, _) \<Rightarrow> (st, sc\<lparr>sc_sm := sm\<rparr>)
      | (st, None, _) \<Rightarrow> (st, sc))"

definition vmc_session_start :: "vmc_session_ctx option \<Rightarrow> vmc_status \<times> vmc_session_ctx option" where
  "vmc_session_start sco =
     (case sco of None \<Rightarrow> (VMC_ERR_INVALID_ARG, None)
      | Some sc \<Rightarrow> (case ctx_dispatch sc VMC_EVENT_BOOT of (st, sc1) \<Rightarrow> (st, Some sc1)))"

definition vmc_session_stop :: "vmc_session_ctx option \<Rightarrow> vmc_status \<times> vmc_session_ctx option" where
  "vmc_session_stop sco =
     (case sco of None \<Rightarrow> (VMC_ERR_INVALID_ARG, None)
      | Some sc \<Rightarrow> (case ctx_dispatch sc VMC_EVENT_USER_TERMINATE of (st, sc1) \<Rightarrow> (st, Some sc1)))"

definition keepalive_header :: "u64 \<Rightarrow> u64 \<Rightarrow> vmc_proto_header" where
  "keepalive_header tx_seq now_ms =
     zero_header\<lparr>ph_magic := VMC_PROTO_MAGIC, ph_version := VMC_PROTO_VERSION,
       ph_stream := VMC_PROTO_STREAM_CONTROL, ph_payload_len := 0, ph_seq := ucast tx_seq,
       ph_ts_us := ucast now_ms\<rparr>"

text \<open>
  The packet is built in an uninitialised stack buffer; its contents are the argument
  \<open>stack\<close>. \<open>now_us\<close> is the clock reading taken just before the send.
\<close>

definition send_keepalive ::
  "'s vmc_transport_ops \<Rightarrow> bytes \<Rightarrow> vmc_session_ctx \<Rightarrow> u64 \<Rightarrow> u64 \<Rightarrow> 's
     \<Rightarrow> vmc_status \<times> vmc_session_ctx \<times> 's" where
  "send_keepalive ops stack sc now_ms now_us t =
     (let h = keepalive_header (sc_tx_seq sc) now_ms;
          sc1 = sc\<lparr>sc_tx_seq := sc_tx_seq sc + 1\<rparr>
      in case vmc_proto_encode (Some stack) VMC_PROTO_HEADER_SIZE (Some h) None of
           (st, pkt) \<Rightarrow>
             if st < 0 then (st, sc1, t)
             else let sc2 = sc1\<lparr>sc_last_ka_send_us := now_us\<rparr>
                  in case vmc_transport_send ops t (case pkt of Some p \<Rightarrow> p | None \<Rightarrow> [])
                            (of_int st) of
                       (r, t1) \<Rightarrow> (r, sc2, t1))"

definition vmc_session_step ::
  "'s vmc_transport_ops \<Rightarrow> bytes \<Rightarrow> vmc_session_ctx option \<Rightarrow> u64 \<Rightarrow> u64 \<Rightarrow> 's
     \<Rightarrow> vmc_status \<times> vmc_session_ctx option \<times> 's" where
  "vmc_session_step ops stack sco now_ms now_us t =
     (case sco of
        None \<Rightarrow> (VMC_ERR_INVALID_ARG, None, t)
      | Some sc \<Rightarrow>
          if vmc_session_get_state (Some (sc_sm sc)) \<in> {VMC_SESSION_ACTIVE, VMC_SESSION_DEGRADED} then
            (let (sc1, t1) =
                   (if now_ms - sc_last_keepalive_ms sc \<ge> ucast (sc_keepalive_interval_ms sc)
                    then (case send_keepalive ops stack sc now_ms now_us t of
                            (_, sc', t') \<Rightarrow> (sc'\<lparr>sc_last_keepalive_ms := now_ms\<rparr>, t'))
                    else (sc, t))
             in if cfg_link_timeout_ms (sc_cfg sc1) > 0 \<and>
                   now_ms - sc_last_rx_ms sc1 > ucast (cfg_link_timeout_ms (sc_cfg sc1))
                then (case ctx_dispatch sc1 VMC_EVENT_LINK_LOST of (st, sc2) \<Rightarrow> (st, Some sc2, t1))
                else (VMC_OK, Some sc1, t1))
          else (VMC_OK, sco, t))"

definition vmc_session_on_rx ::
  "vmc_session_ctx option \<Rightarrow> bytes option \<Rightarrow> sz_t \<Rightarrow> u64 \<Rightarrow> vmc_status \<times> vmc_session_ctx option" where
  "vmc_session_on_rx sco packet len now_ms =
     (case (sco, packet) of
        (Some sc, Some p) \<Rightarrow>
          (case vmc_proto_decode_header (Some p) len (Some zero_header) of
             (st, ho) \<Rightarrow>
               if st \<noteq> VMC_OK then (st, sco)
               else (case ho of
                       Some h \<Rightarrow> (VMC_OK, if ph_stream h = VMC_PROTO_STREAM_CONTROL
                                          then Some (sc\<lparr>sc_last_rx_ms := now_ms\<rparr>) else sco)
                     | None \<Rightarrow> (VMC_OK, sco)))
      | _ \<Rightarrow> (VMC_ERR_INVALID_ARG, sco))"

section \<open>Keep-alives\<close>

lemma keepalive_valid: "vmc_proto_header_valid (Some (keepalive_header q n))"
  by (simp add: vmc_proto_header_valid_Some keepalive_header_def zero_header_def)

lemma keepalive_encode:
  assumes "length stack = 17"
  shows "vmc_proto_encode (Some stack) VMC_PROTO_HEADER_SIZE (Some (keepalive_header q n)) None =
    (17, Some (frame_image (keepalive_header q n) []))"
proof -
  let ?h = "keepalive_header q n"
  have n: "ph_payload_len ?h = 0" by (simp add: keepalive_header_def)
  have "frame_crc (header_image ?h 0) 16 None 0 = frame_sum ?h []"
    using take16_header_image [of ?h 0 "[]"] by (simp add: frame_crc_def frame_sum_def Let_def)
  then show ?thesis
    using keepalive_valid [of q n] assms header_image_update [of ?h 0 "[]"]
    by (simp add: vmc_proto_encode_def Let_def n encode_header_image frame_image_def
        VMC_PROTO_HEADER_SIZE_def)
qed

lemma send_keepalive_frame:
  assumes "length stack = 17"
  shows "send_keepalive ops stack sc now_ms now_us t =
    (case vmc_transport_send ops t (frame_image (keepalive_header (sc_tx_seq sc) now_ms) []) 17 of
       (r, t1) \<Rightarrow> (r, sc\<lparr>sc_tx_seq := sc_tx_seq sc + 1, sc_last_ka_send_us := now_us\<rparr>, t1))"
  by (simp add: send_keepalive_def Let_def keepalive_encode [OF assms])

definition keepalive_due :: "vmc_session_ctx \<Rightarrow> u64 \<Rightarrow> bool" where
  "keepalive_due sc now \<longleftrightarrow> now - sc_last_keepalive_ms sc \<ge> ucast (sc_keepalive_interval_ms sc)"

definition link_expired :: "vmc_session_ctx \<Rightarrow> u64 \<Rightarrow> bool" where
  "link_expired sc now \<longleftrightarrow> cfg_link_timeout_ms (sc_cfg sc) > 0 \<and>
     now - sc_last_rx_ms sc > ucast (cfg_link_timeout_ms (sc_cfg sc))"

definition connected :: "vmc_session_ctx \<Rightarrow> bool" where
  "connected sc \<longleftrightarrow> ss_state (sc_sm sc) \<in> {VMC_SESSION_ACTIVE, VMC_SESSION_DEGRADED}"

lemma lost_dispatch:
  "connected sc \<Longrightarrow> ctx_dispatch sc VMC_EVENT_LINK_LOST =
     (VMC_OK, sc\<lparr>sc_sm := (sc_sm sc)\<lparr>ss_state := VMC_SESSION_RECONNECTING\<rparr>\<rparr>)"
  by (auto simp: connected_def ctx_dispatch_def dispatch_table counts_retry_def)

lemma step_idle:
  "\<not> connected sc \<Longrightarrow> vmc_session_step ops stack (Some sc) now_ms now_us t = (VMC_OK, Some sc, t)"
  by (simp add: vmc_session_step_def connected_def vmc_session_get_state_def)

lemma on_rx_cases:
  "vmc_session_on_rx (Some sc) (Some p) len now = (st, sco) \<Longrightarrow>
     (sco = Some sc \<or> sco = Some (sc\<lparr>sc_last_rx_ms := now\<rparr>))"
  by (auto simp: vmc_session_on_rx_def split: prod.splits option.splits if_splits)

text \<open>The calls the client's main loop makes on the session, in any order.\<close>

datatype drive_op = Step u64 u64 | Rx bytes u64

fun drive :: "'s vmc_transport_ops \<Rightarrow> bytes \<Rightarrow> drive_op list \<Rightarrow> vmc_session_ctx \<Rightarrow> 's
    \<Rightarrow> vmc_session_ctx \<times> 's" where
  "drive ops stack [] sc t = (sc, t)"
| "drive ops stack (Step now_ms now_us # os) sc t =
     (case vmc_session_step ops stack (Some sc) now_ms now_us t of
        (_, Some sc1, t1) \<Rightarrow> drive ops stack os sc1 t1
      | (_, None, t1) \<Rightarrow> (sc, t1))"
| "drive ops stack (Rx p now_ms # os) sc t =
     (case vmc_session_on_rx (Some sc) (Some p) (of_nat (length p)) now_ms of
        (_, Some sc1) \<Rightarrow> drive ops stack os sc1 t
      | (_, None) \<Rightarrow> (sc, t))"

text \<open>
  One step of a connected session: whether a keep-alive goes out, and the state it ends in.
\<close>

lemma session_step_law:
  assumes "connected sc" and "length stack = 17"
  shows "\<exists>sc' t'. vmc_session_step ops stack (Some sc) now_ms now_us t = (VMC_OK, Some sc', t') \<and>
    (if keepalive_due sc now_ms
     then t' = snd (vmc_transport_send ops t (frame_image (keepalive_header (sc_tx_seq sc) now_ms) []) 17) \<and>
          sc_last_keepalive_ms sc' = now_ms \<and> sc_tx_seq sc' = sc_tx_seq sc + 1
     else t' = t \<and> sc_last_keepalive_ms sc' = sc_last_keepalive_ms sc \<and> sc_tx_seq sc' = sc_tx_seq sc) \<and>
    ss_state (sc_sm sc') =
      (if link_expired sc now_ms then VMC_SESSION_RECONNECTING else ss_state (sc_sm sc))"
proof -
  define sc1 where "sc1 = (if keepalive_due sc now_ms
     then sc\<lparr>sc_tx_seq := sc_tx_seq sc + 1, sc_last_ka_send_us := now_us, sc_last_keepalive_ms := now_ms\<rparr>
     else sc)"
  define t1 where "t1 = (if keepalive_due sc now_ms
     then snd (vmc_transport_send ops t (frame_image (keepalive_header (sc_tx_seq sc) now_ms) []) 17) else t)"
  have c1: "connected sc1" and l1: "link_expired sc1 now_ms = link_expired sc now_ms"
    using assms(1) by (auto simp: sc1_def connected_def link_expired_def)
  have step: "vmc_session_step ops stack (Some sc) now_ms now_us t =
      (if link_expired sc1 now_ms
       then (case ctx_dispatch sc1 VMC_EVENT_LINK_LOST of (st, sc2) \<Rightarrow> (st, Some sc2, t1))
       else (VMC_OK, Some sc1, t1))"
  proof -
    have "(if now_ms - sc_last_keepalive_ms sc \<ge> ucast (sc_keepalive_interval_ms sc)
       then (case send_keepalive ops stack sc now_ms now_us t of
               (_, sc', t') \<Rightarrow> (sc'\<lparr>sc_last_keepalive_ms := now_ms\<rparr>, t'))
       else (sc, t)) = (sc1, t1)"
      by (simp add: send_keepalive_frame [OF assms(2)] sc1_def t1_def keepalive_due_def split: prod.splits)
    then show ?thesis
      using assms(1)
      by (simp only: vmc_session_step_def option.case vmc_session_get_state_def connected_def if_True
          Let_def prod.case link_expired_def)
  qed
  show ?thesis
    unfolding step using lost_dispatch [OF c1] l1 by (simp add: sc1_def t1_def)
qed

section \<open>Properties\<close>

text \<open>
  One step of a connected session. When the keep-alive interval has passed, exactly one
  packet is sent, the 17-byte control frame with the next sequence number, which the decoder
  accepts; otherwise the transport is not touched. The session moves to reconnecting exactly
  when the link timeout is set and exceeded, and stays in its state otherwise.
\<close>

theorem session_step_spec:
  assumes "connected sc" and "length stack = 17"
  shows "\<exists>sc' t' ka. vmc_session_step ops stack (Some sc) now_ms now_us t = (VMC_OK, Some sc', t') \<and>
    vmc_proto_decode (Some ka) 17 =
      (VMC_OK, Some ((keepalive_header (sc_tx_seq sc) now_ms)\<lparr>ph_crc := ka ! 16\<rparr>, [])) \<and>
    (if keepalive_due sc now_ms
     then t' = snd (vmc_transport_send ops t ka 17) \<and>
          sc_last_keepalive_ms sc' = now_ms \<and> sc_tx_seq sc' = sc_tx_seq sc + 1
     else t' = t \<and> sc_last_keepalive_ms sc' = sc_last_keepalive_ms sc \<and> sc_tx_seq sc' = sc_tx_seq sc) \<and>
    ss_state (sc_sm sc') =
      (if link_expired sc now_ms then VMC_SESSION_RECONNECTING else ss_state (sc_sm sc))"
proof -
  let ?h = "keepalive_header (sc_tx_seq sc) now_ms"
  have "frame_image ?h [] ! 16 = frame_sum ?h []"
    by (simp add: frame_image_def header_image_def nth_append)
  then have "vmc_proto_decode (Some (frame_image ?h [])) 17 =
      (VMC_OK, Some (?h\<lparr>ph_crc := frame_image ?h [] ! 16\<rparr>, []))"
    using vmc_proto_decode_frame [OF keepalive_valid, of "[]" "sc_tx_seq sc" now_ms 17 "[]"]
    by (simp add: keepalive_header_def)
  with session_step_law [OF assms, of ops now_ms now_us t] show ?thesis by blast
qed

definition cfg0 :: vmc_session_config where
  "cfg0 = \<lparr>cfg_container_host = '''', cfg_container_port = 5000, cfg_keepalive_ms = 0,
     cfg_link_timeout_ms = 5000\<rparr>"

definition ctx_active :: vmc_session_ctx where
  "ctx_active = \<lparr>sc_sm = (fresh no_callbacks 0)\<lparr>ss_state := VMC_SESSION_ACTIVE\<rparr>, sc_cfg = cfg0,
     sc_last_rx_ms = 1000, sc_last_keepalive_ms = 1000, sc_last_ka_send_us = 0, sc_tx_seq = 7,
     sc_keepalive_interval_ms = 2000\<rparr>"

lemma ctx_active_connected: "connected ctx_active"
  by (simp add: connected_def ctx_active_def)

lemma ctx_active_9000:
  "keepalive_due ctx_active 9000" "link_expired ctx_active 9000" "sc_tx_seq ctx_active = 7"
  by (simp_all add: keepalive_due_def link_expired_def ctx_active_def cfg0_def)

theorem session_step_spec_witness:
  "\<exists>sc' t'. vmc_session_step (k_udp_ops loop_net) (replicate 17 0) (Some ctx_active) 9000 0 (udp_up, [])
       = (VMC_OK, Some sc', t') \<and>
     ss_state (sc_sm sc') = VMC_SESSION_RECONNECTING \<and> sc_tx_seq sc' = 8"
  using session_step_spec [OF ctx_active_connected, of "replicate 17 0" "k_udp_ops loop_net" 9000 0 "(udp_up, [])"]
    ctx_active_9000
  by auto

text \<open>
  The driver never leaves the reconnecting state: whatever packets arrive and however
  often the session is stepped, it stays there, sends nothing and the transport is not
  touched. Leaving it takes an event dispatched from outside this module.
\<close>

theorem session_reconnecting_stuck:
  assumes "ss_state (sc_sm sc) = VMC_SESSION_RECONNECTING" and "drive ops stack os sc t = (sc', t')"
  shows "ss_state (sc_sm sc') = VMC_SESSION_RECONNECTING \<and> t' = t \<and> sc_tx_seq sc' = sc_tx_seq sc"
  using assms
proof (induction os arbitrary: sc)
  case (Cons q os)
  show ?case
  proof (cases q)
    case (Step a b)
    have "\<not> connected sc" using Cons.prems(1) by (simp add: connected_def)
    with Cons Step show ?thesis by (simp add: step_idle)
  next
    case (Rx p now)
    obtain st sc1 where r: "vmc_session_on_rx (Some sc) (Some p) (of_nat (length p)) now = (st, Some sc1)"
      by (metis on_rx_cases old.prod.exhaust)
    have d: "drive ops stack os sc1 t = (sc', t')" using Cons.prems(2) Rx r by simp
    from on_rx_cases [OF r] have "sc1 = sc \<or> sc1 = sc\<lparr>sc_last_rx_ms := now\<rparr>" by simp
    with Cons.IH [OF _ d] Cons.prems(1) show ?thesis by auto
  qed
qed simp

theorem session_reconnecting_stuck_witness:
  "ss_state (sc_sm (fst (drive (k_udp_ops loop_net) (replicate 17 0) [Step 9000 0, Rx [1, 2] 9001]
     (ctx_active\<lparr>sc_sm := (sc_sm ctx_active)\<lparr>ss_state := VMC_SESSION_RECONNECTING\<rparr>\<rparr>) (udp_up, []))))
   = VMC_SESSION_RECONNECTING"
proof -
  let ?sc = "ctx_active\<lparr>sc_sm := (sc_sm ctx_active)\<lparr>ss_state := VMC_SESSION_RECONNECTING\<rparr>\<rparr>"
  obtain sc' t' where d: "drive (k_udp_ops loop_net) (replicate 17 0) [Step 9000 0, Rx [1, 2] 9001] ?sc (udp_up, [])
      = (sc', t')" by (rule prod.exhaust)
  from session_reconnecting_stuck [OF _ d] have "ss_state (sc_sm sc') = VMC_SESSION_RECONNECTING" by simp
  then show ?thesis unfolding d by simp
qed

text \<open>
  Only control traffic keeps the link alive. However much video, audio or input traffic
  arrives, the session is unchanged by it, and the next step after the timeout since the last
  control packet declares the link lost.
\<close>

theorem session_media_does_not_refresh_link:
  assumes "connected sc" and "length stack = 17" and "link_expired sc now_ms"
    and media: "\<forall>q \<in> set os. \<exists>p n. q = Rx p n \<and> ph_stream (read_header p) \<noteq> VMC_PROTO_STREAM_CONTROL"
    and "drive ops stack (os @ [Step now_ms now_us]) sc t = (sc', t')"
  shows "ss_state (sc_sm sc') = VMC_SESSION_RECONNECTING"
proof -
  have "drive ops stack (os @ rest) sc t = drive ops stack rest sc t" for rest
    using media
  proof (induction os)
    case (Cons q os)
    then obtain p n where q: "q = Rx p n" "ph_stream (read_header p) \<noteq> VMC_PROTO_STREAM_CONTROL"
      by auto
    have "\<exists>st. vmc_session_on_rx (Some sc) (Some p) (of_nat (length p)) n = (st, Some sc)"
      using q(2) unfolding vmc_session_on_rx_def vmc_proto_decode_header_def
      by (simp add: Let_def status_defs)
    then obtain st where "vmc_session_on_rx (Some sc) (Some p) (of_nat (length p)) n = (st, Some sc)" ..
    with Cons q show ?case by simp
  qed simp
  then have "drive ops stack [Step now_ms now_us] sc t = (sc', t')" using assms(5) by simp
  moreover obtain sc1 t1 where "vmc_session_step ops stack (Some sc) now_ms now_us t = (VMC_OK, Some sc1, t1)"
    "ss_state (sc_sm sc1) = VMC_SESSION_RECONNECTING"
    using session_step_law [OF assms(1,2), of ops now_ms now_us t] assms(3) by auto
  ultimately show ?thesis by simp
qed

theorem session_media_does_not_refresh_link_witness:
  "ss_state (sc_sm (fst (drive (k_udp_ops loop_net) (replicate 17 0)
     ([Rx sample_frame 8999] @ [Step 9000 0]) ctx_active (udp_up, [])))) = VMC_SESSION_RECONNECTING"
proof -
  obtain sc' t' where d: "drive (k_udp_ops loop_net) (replicate 17 0) ([Rx sample_frame 8999] @ [Step 9000 0])
      ctx_active (udp_up, []) = (sc', t')" by (rule prod.exhaust)
  have "ph_stream (read_header sample_frame) \<noteq> VMC_PROTO_STREAM_CONTROL"
    using read_header_image [of "sample_header\<lparr>ph_payload_len := 0\<rparr>"
        "frame_sum (sample_header\<lparr>ph_payload_len := 0\<rparr>) []" "[]"]
    by (simp add: sample_frame_def frame_image_def) (simp add: sample_header_def const_defs)
  then have "ss_state (sc_sm sc') = VMC_SESSION_RECONNECTING"
    using session_media_does_not_refresh_link [OF ctx_active_connected _ ctx_active_9000(2) _ d] by simp
  then show ?thesis unfolding d by simp
qed

end
