(* ===== verification/Ascii_Text.thy ===== *)
theory Ascii_Text
  imports Vmc_Prelude "HOL-Library.Sublist"
begin

text \<open>
  Text as the code handles it: null-terminated strings, substring search, decimal numerals
  and their printing, and the passage between characters and bytes. These are the parts of
  the C library that the mapper client, the telemetry writer and the stream client use.
\<close>

section \<open>Strings\<close>

text \<open>The C string held in a buffer: the bytes before the first null.\<close>

definition c_string :: "string \<Rightarrow> string" where
  "c_string s = takeWhile (\<lambda>c. c \<noteq> CHR 0x00) s"

text \<open>The suffix of \<open>s\<close> that starts at the first occurrence of \<open>pat\<close>.\<close>

fun strstr :: "string \<Rightarrow> string \<Rightarrow> string option" where
  "strstr [] pat = (if pat = [] then Some [] else None)"
| "strstr (c # s) pat = (if prefix pat (c # s) then Some (c # s) else strstr s pat)"

definition is_c_space :: "char \<Rightarrow> bool" where
  "is_c_space c \<longleftrightarrow> c \<in> {CHR '' '', CHR 0x09, CHR 0x0A, CHR 0x0B, CHR 0x0C, CHR 0x0D}"

definition digit_val :: "char \<Rightarrow> nat option" where
  "digit_val c = 
     (let n = of_char c :: nat in if 48 \<le> n \<and> n \<le> 57 then Some (n - 48) else None)"

fun scan_digits :: "nat \<Rightarrow> string \<Rightarrow> nat" where
  "scan_digits acc [] = acc"
| "scan_digits acc (c # s) =
     (case digit_val c of Some d \<Rightarrow> scan_digits (10 * acc + d) s | None \<Rightarrow> acc)"

text \<open>Decimal conversion; outside the range of the result type the C function is undefined.\<close>

definition atoi :: "string \<Rightarrow> int" where
  "atoi s =
     (case dropWhile is_c_space s of
        c # r \<Rightarrow> if c = CHR ''-'' then - int (scan_digits 0 r)
                 else if c = CHR ''+'' then int (scan_digits 0 r) else int (scan_digits 0 (c # r))
      | [] \<Rightarrow> 0)"

text \<open>The digits in front of a string, and the rest.\<close>

fun digits :: "string \<Rightarrow> string \<times> string" where
  "digits [] = ([], [])"
| "digits (c # s) = (if digit_val c \<noteq> None then (case digits s of (d, r) \<Rightarrow> (c # d, r)) else ([], c # s))"

text \<open>An optional sign in front of a number.\<close>

definition read_sign :: "string \<Rightarrow> int \<times> string" where
  "read_sign s =
     (case s of
        c # r \<Rightarrow> if c = CHR ''-'' then (- 1, r) else if c = CHR ''+'' then (1, r) else (1, s)
      | [] \<Rightarrow> (1, []))"

text \<open>\<open>%d\<close>: leading space, sign, at least one digit.\<close>

definition scan_int :: "string \<Rightarrow> (int \<times> string) option" where
  "scan_int s =
     (case read_sign (dropWhile is_c_space s) of (sg, t) \<Rightarrow>
        (case digits t of (d, r) \<Rightarrow> if d = [] then None else Some (sg * int (scan_digits 0 d), r)))"

definition to_bytes :: "string \<Rightarrow> bytes" where
  "to_bytes s = map (\<lambda>c. of_nat (of_char c)) s"

definition of_bytes :: "bytes \<Rightarrow> string" where
  "of_bytes bs = map (\<lambda>b. char_of (unat b)) bs"

lemma of_bytes_to_bytes [simp]: "of_bytes (to_bytes s) = s"
proof -
  have "char_of (unat (of_nat (of_char c) :: u8)) = c" for c
    using nat_of_char_less_256 [of c] by (simp add: unat_of_nat take_bit_nat_eq_self)
  then show ?thesis by (simp add: of_bytes_def to_bytes_def comp_def)
qed

section \<open>Decimal numerals\<close>

text \<open>What \<open>%u\<close> and \<open>%llu\<close> print.\<close>

definition digit_char :: "nat \<Rightarrow> char" where
  "digit_char d = char_of (48 + d)"

fun dec_string :: "nat \<Rightarrow> string" where
  "dec_string n = (if n < 10 then [digit_char n] else dec_string (n div 10) @ [digit_char (n mod 10)])"

declare dec_string.simps [simp del]

text \<open>What \<open>%d\<close> and \<open>%ld\<close> print.\<close>

definition int_string :: "int \<Rightarrow> string" where
  "int_string n = (if n < 0 then CHR ''-'' # dec_string (nat (- n)) else dec_string (nat n))"

lemma digit_val_char: "d < 10 \<Longrightarrow> digit_val (digit_char d) = Some d"
  by (simp add: digit_val_def digit_char_def Let_def)

lemma scan_digits_append:
  "\<forall>c \<in> set s. digit_val c \<noteq> None \<Longrightarrow> scan_digits acc (s @ t) = scan_digits (scan_digits acc s) t"
  by (induction acc s rule: scan_digits.induct) auto

lemma dec_string_digits: "c \<in> set (dec_string n) \<Longrightarrow> digit_val c \<noteq> None"
proof (induction n rule: dec_string.induct)
  case (1 n)
  then show ?case
    using digit_val_char [of n] digit_val_char [of "n mod 10"] by (auto simp: dec_string.simps [of n] split: if_splits)
qed

lemma scan_dec_string: "scan_digits 0 (dec_string n) = n"
proof (induction n rule: dec_string.induct)
  case (1 n)
  show ?case
  proof (cases "n < 10")
    case True
    then show ?thesis by (simp add: dec_string.simps [of n] digit_val_char)
  next
    case False
    then show ?thesis
      using 1 dec_string_digits [of _ "n div 10"]
      by (simp add: dec_string.simps [of n] scan_digits_append digit_val_char)
  qed
qed

lemma dec_string_Cons: "\<exists>c s. dec_string n = c # s"
  by (cases "dec_string n") (auto simp: dec_string.simps [of n] split: if_splits)

lemma digit_facts:
  assumes "digit_val c \<noteq> None"
  shows "\<not> is_c_space c" "c \<noteq> CHR ''-''" "c \<noteq> CHR ''+''" "c \<noteq> CHR 0x00"
  using assms by (auto simp: digit_val_def is_c_space_def Let_def split: if_splits)

lemma digits_append:
  "\<forall>c \<in> set d. digit_val c \<noteq> None \<Longrightarrow> digits (d @ r) = (case digits r of (e, r') \<Rightarrow> (d @ e, r'))"
  by (induction d) (auto split: prod.split)

lemma digits_dec:
  assumes "digit_val c = None"
  shows "digits (dec_string n @ c # s) = (dec_string n, c # s)"
  using assms dec_string_digits [of _ n] by (subst digits_append) auto

lemma dec_string_head:
  "dropWhile is_c_space (dec_string n @ s) = dec_string n @ s" "read_sign (dec_string n @ s) = (1, dec_string n @ s)"
proof -
  obtain c r where cr: "dec_string n = c # r" using dec_string_Cons by blast
  have "digit_val c \<noteq> None" using dec_string_digits [of c n] cr by simp
  note c = digit_facts [OF this]
  show "dropWhile is_c_space (dec_string n @ s) = dec_string n @ s" using c cr by simp
  show "read_sign (dec_string n @ s) = (1, dec_string n @ s)" using c cr by (simp add: read_sign_def)
qed

lemma scan_int_dec: "digit_val c = None \<Longrightarrow> scan_int (dec_string n @ c # s) = Some (int n, c # s)"
  using dec_string_Cons [of n] by (auto simp: scan_int_def dec_string_head digits_dec scan_dec_string)

end
