(* ===== verification/Mapper.thy ===== *)
theory Mapper
  imports Session_Ctx Ascii_Text
begin

text \<open>
  The mapper client, \<^verbatim>\<open>src/session/mapper.c\<close>: a request over UDP, a bounded number of
  attempts, and the parser of the \<^verbatim>\<open>ROUTE <ip>:<port>\<close> response with the parts of
  \<^verbatim>\<open>strstr\<close>, \<^verbatim>\<open>sscanf\<close> and \<^verbatim>\<open>strncpy\<close> it uses. The socket calls are the parameter record
  of the transport.
\<close>

section \<open>Response parser\<close>

definition VMC_SESSION_MAX_ROUTE :: nat where [const_defs]: "VMC_SESSION_MAX_ROUTE = 128"

text \<open>
  The \<open>%u\<close> conversion: white space, an optional sign, at least one digit; the value is that
  of \<^verbatim>\<open>strtoul\<close> (saturating at \<open>2 ^ 64 - 1\<close>, negated modulo \<open>2 ^ 64\<close> after a minus sign), cut
  to 32 bits.
\<close>

definition scan_uint :: "string \<Rightarrow> nat option" where
  "scan_uint s =
     (let s1 = dropWhile is_c_space s;
          (neg, s2) = (case s1 of c # r \<Rightarrow> if c = CHR ''-'' then (True, r)
                                           else if c = CHR ''+'' then (False, r) else (False, s1)
                       | [] \<Rightarrow> (False, s1))
      in case s2 of
           [] \<Rightarrow> None
         | c # _ \<Rightarrow>
             (case digit_val c of
                None \<Rightarrow> None
              | Some _ \<Rightarrow>
                  let v = scan_digits 0 s2;
                      u = (if v \<ge> 2 ^ 64 then 2 ^ 64 - 1
                           else if neg then (2 ^ 64 - v) mod 2 ^ 64 else v)
                  in Some (u mod 2 ^ 32)))"

text \<open>\<^verbatim>\<open>sscanf(s, "%127[^:]:%u", host, &port) == 2\<close>\<close>

definition scan_route :: "string \<Rightarrow> (string \<times> nat) option" where
  "scan_route s =
     (let host = takeWhile (\<lambda>c. c \<noteq> CHR '':'') (take 127 s);
          rest = drop (length host) s
      in if host = [] then None
         else case rest of
                c # r \<Rightarrow> if c = CHR '':'' then map_option (\<lambda>p. (host, p)) (scan_uint r) else None
              | [] \<Rightarrow> None)"

definition parse_response :: "string \<Rightarrow> (string \<times> nat) option" where
  "parse_response buf =
     (case strstr (c_string buf) ''ROUTE '' of
        None \<Rightarrow> None
      | Some route \<Rightarrow>
          (case scan_route (drop 6 route) of
             None \<Rightarrow> None
           | Some (host, port) \<Rightarrow> if port > 0 \<and> port \<le> 65535 then Some (host, port) else None))"

section \<open>Client\<close>

record vmc_mapper_cfg =
  mc_host :: "string option"
  mc_port :: u16
  mc_timeout_ms :: u32
  mc_max_retries :: u32

text \<open>\<open>alloc\<close>: whether the allocation of the context succeeds.\<close>

definition vmc_mapper_create :: "bool \<Rightarrow> vmc_mapper_cfg option \<Rightarrow> vmc_mapper_cfg option" where
  "vmc_mapper_create alloc cfgo =
     (case cfgo of
        None \<Rightarrow> None
      | Some cfg \<Rightarrow>
          if mc_host cfg = None \<or> mc_port cfg = 0 then None
          else if \<not> alloc then None
          else let m = cfg;
                   m1 = (if mc_timeout_ms m = 0 then m\<lparr>mc_timeout_ms := 1000\<rparr> else m)
               in Some (if mc_max_retries m1 = 0 then m1\<lparr>mc_max_retries := 3\<rparr> else m1))"

definition mapper_request :: string where
  "mapper_request = ''VMC1 thin-client-01''"

definition set_route :: "vmc_session_config \<Rightarrow> string \<Rightarrow> nat \<Rightarrow> vmc_session_config" where
  "set_route cfg host port =
     cfg\<lparr>cfg_container_host := take (VMC_SESSION_MAX_ROUTE - 1) host, cfg_container_port := of_nat port\<rparr>"

text \<open>
  The attempt loop, with the number of attempts left (\<open>max_retries + 1\<close> at the start) and the
  result so far. The counter of the code is 32 bits wide, so the number of attempts is finite
  for every \<open>max_retries\<close> below \<open>2 ^ 32 - 1\<close>.
\<close>

fun attempts :: "('w, 'a) net_ops \<Rightarrow> int \<Rightarrow> nat \<Rightarrow> vmc_status \<Rightarrow> vmc_session_config \<Rightarrow> 'w
    \<Rightarrow> vmc_status \<times> vmc_session_config \<times> 'w" where
  "attempts net fd 0 result out w = (result, out, w)"
| "attempts net fd (Suc k) result out w =
     (if result = VMC_OK then (result, out, w)
      else case sys_send net fd (to_bytes mapper_request) w of (n, _, w1) \<Rightarrow>
        if n < 0 then (VMC_ERR_IO, out, w1)
        else case sys_recv net fd 255 w1 of (n2, _, data, w2) \<Rightarrow>
          if n2 < 0 then attempts net fd k result out w2
          else (case parse_response (of_bytes data) of
                  Some (host, port) \<Rightarrow> attempts net fd k VMC_OK (set_route out host port) w2
                | None \<Rightarrow> attempts net fd k VMC_ERR_PROTO out w2))"

definition vmc_mapper_resolve ::
  "('w, 'a) net_ops \<Rightarrow> vmc_mapper_cfg option \<Rightarrow> vmc_session_config option \<Rightarrow> 'w
     \<Rightarrow> vmc_status \<times> vmc_session_config option \<times> 'w" where
  "vmc_mapper_resolve net mo outo w =
     (case (mo, outo) of
        (Some m, Some out) \<Rightarrow>
          (case sys_getaddrinfo net (case mc_host m of Some h \<Rightarrow> h | None \<Rightarrow> []) (mc_port m) w of
             (rc, res, w1) \<Rightarrow>
               (case res of
                  None \<Rightarrow> (VMC_ERR_IO, outo, w1)
                | Some addr \<Rightarrow>
                    if rc \<noteq> 0 then (VMC_ERR_IO, outo, w1)
                    else (case sys_socket net w1 of (fd, w2) \<Rightarrow>
                            if fd < 0 then (VMC_ERR_IO, outo, w2)
                            else (case sys_connect net fd addr w2 of (_, w3) \<Rightarrow>
                                    (case attempts net fd (unat (mc_max_retries m) + 1) VMC_ERR_TIMEOUT out w3 of
                                       (r, out1, w4) \<Rightarrow> (r, Some out1, sys_close net fd w4))))))
      | _ \<Rightarrow> (VMC_ERR_INVALID_ARG, outo, w))"

section \<open>What the parser accepts\<close>

lemma scan_route_host:
  assumes "scan_route s = Some (host, port)"
  shows "host \<noteq> [] \<and> length host \<le> 127 \<and> CHR '':'' \<notin> set host \<and> prefix (host @ '':'') s"
proof -
  define hst where "hst = takeWhile (\<lambda>c. c \<noteq> CHR '':'') (take 127 s)"
  have h: "host = hst" "hst \<noteq> []" and r: "\<exists>r. drop (length hst) s = CHR '':'' # r"
    using assms by (auto simp: scan_route_def Let_def hst_def [symmetric] split: if_splits list.splits)
  have "prefix hst (take 127 s)" by (simp add: hst_def takeWhile_is_prefix)
  then have p: "prefix hst s" "length hst \<le> 127"
    using take_is_prefix prefix_order.trans prefix_length_le by force+
  then have "s = hst @ drop (length hst) s" by (auto simp: prefix_def)
  with r have "prefix (hst @ '':'') s" by (metis Cons_prefix_Cons Nil_prefix same_prefix_prefix)
  moreover have "CHR '':'' \<notin> set hst" using set_takeWhileD by (fastforce simp: hst_def)
  ultimately show ?thesis using h p by simp
qed

lemma parse_response_ok:
  assumes "parse_response buf = Some (host, port)"
  shows "host \<noteq> []" "length host \<le> 127" "CHR '':'' \<notin> set host" "0 < port" "port \<le> 65535"
  using assms scan_route_host
  by (auto simp: parse_response_def split: option.splits prod.splits if_splits)

definition good_route :: "vmc_session_config \<Rightarrow> vmc_session_config \<Rightarrow> bool" where
  "good_route out out' \<longleftrightarrow> (\<exists>host port. out' = out\<lparr>cfg_container_host := host, cfg_container_port := port\<rparr> \<and>
     host \<noteq> [] \<and> length host < VMC_SESSION_MAX_ROUTE \<and> CHR '':'' \<notin> set host \<and> port \<noteq> 0)"

lemma set_route_good:
  assumes "parse_response buf = Some (host, port)"
  shows "good_route out (set_route out host port)"
proof -
  note p = parse_response_ok [OF assms]
  have "unat (of_nat port :: u16) = port" using p(5) by (subst unat_of_nat) simp
  then have "(of_nat port :: u16) \<noteq> 0" using p(4) by auto
  with p show ?thesis
    unfolding good_route_def set_route_def const_defs
    by (intro exI [of _ host] exI [of _ "of_nat port"]) simp
qed

lemma attempts_done: "attempts net fd k VMC_OK out w = (VMC_OK, out, w)"
  by (cases k) auto

lemma attempts_result:
  assumes "attempts net fd k r0 out w = (r, out', w')" and "r0 \<noteq> VMC_OK"
  shows "(r = VMC_OK \<and> good_route out out') \<or>
    (r \<in> {r0, VMC_ERR_IO, VMC_ERR_PROTO} \<and> r \<noteq> VMC_OK \<and> out' = out)"
  using assms
proof (induction k arbitrary: r0 w)
  case (Suc k)
  obtain n e w1 where s: "sys_send net fd (to_bytes mapper_request) w = (n, e, w1)" by (metis prod_cases3)
  obtain n2 e2 d w2 where v: "sys_recv net fd 255 w1 = (n2, e2, d, w2)" by (metis prod_cases4)
  consider (io) "n < 0" | (to) "\<not> n < 0" "n2 < 0"
    | (bad) "\<not> n < 0" "\<not> n2 < 0" "parse_response (of_bytes d) = None"
    | (ok) host port where "\<not> n < 0" "\<not> n2 < 0" "parse_response (of_bytes d) = Some (host, port)"
    by (metis option.exhaust surj_pair)
  then show ?case
  proof cases
    case io
    then show ?thesis using Suc.prems s by (auto simp: status_defs)
  next
    case to
    then have "attempts net fd k r0 out w2 = (r, out', w')" using Suc.prems s v by simp
    from Suc.IH [OF this Suc.prems(2)] show ?thesis .
  next
    case bad
    then have "attempts net fd k VMC_ERR_PROTO out w2 = (r, out', w')" using Suc.prems s v by simp
    from Suc.IH [OF this] show ?thesis by (auto simp: status_defs)
  next
    case ok
    then show ?thesis
      using Suc.prems s v set_route_good [OF ok(3)] by (auto simp: attempts_done)
  qed
qed auto

section \<open>Announced routes\<close>

lemma scan_uint_dec: "n < 2 ^ 32 \<Longrightarrow> scan_uint (dec_string n) = Some n"
proof -
  assume n: "n < 2 ^ 32"
  obtain c s where d: "dec_string n = c # s" using dec_string_Cons by blast
  then have c: "digit_val c \<noteq> None" using dec_string_digits [of c n] by simp
  show ?thesis
    using n digit_facts [OF c] c scan_dec_string [of n] by (auto simp: scan_uint_def Let_def d)
qed

definition route_response :: "string \<Rightarrow> nat \<Rightarrow> string" where
  "route_response host port = ''VMC1 ROUTE '' @ host @ '':'' @ dec_string port"

definition host_ok :: "string \<Rightarrow> bool" where
  "host_ok host \<longleftrightarrow> host \<noteq> [] \<and> length host \<le> 127 \<and> CHR '':'' \<notin> set host \<and> CHR 0x00 \<notin> set host"

lemma scan_route_response:
  assumes "host_ok host"
  shows "scan_route (host @ CHR '':'' # r) = map_option (\<lambda>p. (host, p)) (scan_uint r)"
proof -
  have "takeWhile (\<lambda>c. c \<noteq> CHR '':'') (take 127 (host @ CHR '':'' # r)) = host"
  proof -
    have "\<forall>c \<in> set host. c \<noteq> CHR '':''" using assms by (auto simp: host_ok_def)
    then have all: "takeWhile (\<lambda>c. c \<noteq> CHR '':'') host = host"
      and ext: "takeWhile (\<lambda>c. c \<noteq> CHR '':'') (host @ CHR '':'' # ys) = host" for ys
      by (auto simp: takeWhile_eq_all_conv takeWhile_append2)
    have "take 127 (host @ CHR '':'' # r) = host @ take (127 - length host) (CHR '':'' # r)"
      using assms by (simp add: host_ok_def)
    then show ?thesis using all ext by (cases "127 - length host") (simp_all only: take_0 append_Nil2 take_Suc_Cons)
  qed
  then show ?thesis using assms by (simp add: scan_route_def host_ok_def)
qed

lemma strstr_response: "strstr (''VMC1 ROUTE '' @ r) ''ROUTE '' = Some (''ROUTE '' @ r)"
  by simp

lemma parse_route:
  assumes "host_ok host" and "0 < port" and "port \<le> 65535"
  shows "parse_response (route_response host port) = Some (host, port)"
proof -
  have nz: "CHR 0x00 \<notin> set (route_response host port)"
    using assms(1) dec_string_digits [of "CHR 0x00" port] digit_facts(4) [of "CHR 0x00"]
    by (auto simp: route_response_def host_ok_def)
  then have "\<forall>c \<in> set (route_response host port). c \<noteq> CHR 0x00" by blast
  then have "c_string (route_response host port) = route_response host port"
    unfolding c_string_def by (simp only: takeWhile_eq_all_conv)
  then show ?thesis
    using assms scan_route_response [OF assms(1)] scan_uint_dec [of port]
      strstr_response [of "host @ '':'' @ dec_string port"]
    by (simp add: parse_response_def route_response_def del: strstr.simps)
qed

section \<open>Properties\<close>

text \<open>
  C0: The route a mapper announces as \<open>VMC1 ROUTE <host>:<port>\<close> is understood exactly: for
  every non-empty host of at most 127 characters without a colon and every port from 1 to
  65535 the client's parser returns the same host and port.
\<close>

theorem mapper_route_roundtrip:
  assumes "host_ok host" and "0 < port" and "port \<le> 65535"
  shows "parse_response (route_response host port) = Some (host, port)"
  using assms by (rule parse_route)

theorem mapper_route_roundtrip_witness:
  "parse_response (route_response ''10.0.0.7'' 5000) = Some (''10.0.0.7'', 5000)"
  by (rule mapper_route_roundtrip) (simp_all add: host_ok_def)

text \<open>
  Discovery either succeeds with a usable route (a non-empty host that fits its field, no
  colon, a non-zero port, every other setting kept) or fails with an I/O, timeout or protocol
  error and leaves the configuration as it was, whatever the network returns.
\<close>

theorem mapper_resolve_result:
  assumes "vmc_mapper_resolve net (Some m) (Some out) w = (r, Some out', w')"
  shows "(r = VMC_OK \<and> good_route out out') \<or>
    (r \<in> {VMC_ERR_IO, VMC_ERR_TIMEOUT, VMC_ERR_PROTO} \<and> out' = out)"
proof -
  have "r = VMC_ERR_IO \<and> out' = out \<or>
      (\<exists>fd w3 w4. attempts net fd (unat (mc_max_retries m) + 1) VMC_ERR_TIMEOUT out w3 = (r, out', w4))"
    using assms
    by (auto simp: vmc_mapper_resolve_def simp del: attempts.simps split: prod.splits option.splits if_splits)
  moreover have "r = VMC_OK \<and> good_route out out' \<or>
      r \<in> {VMC_ERR_TIMEOUT, VMC_ERR_IO, VMC_ERR_PROTO} \<and> r \<noteq> VMC_OK \<and> out' = out"
    if "attempts net fd (unat (mc_max_retries m) + 1) VMC_ERR_TIMEOUT out w3 = (r, out', w4)" for fd w3 w4
    using that by (rule attempts_result) (simp add: status_defs)
  ultimately show ?thesis by blast
qed

definition mapper0 :: vmc_mapper_cfg where
  "mapper0 = \<lparr>mc_host = Some ''mapper'', mc_port = 4000, mc_timeout_ms = 1000, mc_max_retries = 1\<rparr>"

text \<open>A network that answers the first request with \<open>resp\<close> and then stays silent.\<close>

definition answer_net :: "(bytes list, unit) net_ops" where
  "answer_net = loop_net\<lparr>sys_send := \<lambda>fd p w. (int (length p), 0, w)\<rparr>"

theorem mapper_resolve_result_witness:
  "\<exists>out' w'. vmc_mapper_resolve answer_net (Some mapper0) (Some cfg0) [to_bytes ''VMC1 ROUTE a:7'']
       = (VMC_OK, Some out', w') \<and> good_route cfg0 out'"
proof -
  obtain r o1 w' where res:
    "vmc_mapper_resolve answer_net (Some mapper0) (Some cfg0) [to_bytes ''VMC1 ROUTE a:7''] = (r, o1, w')"
    by (metis prod_cases3)
  have "digit_char 7 = CHR ''7''" by code_simp
  then have "(''VMC1 ROUTE a:7'' :: string) = route_response ''a'' 7"
    by (simp add: route_response_def dec_string.simps)
  moreover have "take 255 (to_bytes ''VMC1 ROUTE a:7'') = to_bytes ''VMC1 ROUTE a:7''"
    by (simp add: to_bytes_def)
  ultimately have p: "parse_response (of_bytes (take 255 (to_bytes ''VMC1 ROUTE a:7''))) = Some (''a'', 7)"
    using parse_route [of "''a''" 7] by (simp add: host_ok_def)
  have "r = VMC_OK \<and> o1 \<noteq> None"
    using res p by (auto simp: vmc_mapper_resolve_def answer_net_def loop_net_def mapper0_def attempts_done
        status_defs numeral_2_eq_2)
  then obtain out' where o: "r = VMC_OK" "o1 = Some out'" by auto
  from mapper_resolve_result [OF res [unfolded o(2)]] o res show ?thesis by (auto simp: status_defs)
qed

text \<open>One attempt that is not answered: a request and a receive that times out.\<close>

definition silent_round :: "('w, 'a) net_ops \<Rightarrow> int \<Rightarrow> 'w \<Rightarrow> 'w" where
  "silent_round net fd w =
     (case sys_send net fd (to_bytes mapper_request) w of (_, _, w1) \<Rightarrow>
        case sys_recv net fd 255 w1 of (_, _, _, w2) \<Rightarrow> w2)"

lemma attempts_silent:
  assumes sends: "\<And>w. fst (sys_send net fd (to_bytes mapper_request) w) \<ge> 0"
    and silent: "\<And>w. fst (sys_recv net fd 255 w) < 0"
  shows "attempts net fd k VMC_ERR_TIMEOUT out w = (VMC_ERR_TIMEOUT, out, (silent_round net fd ^^ k) w)"
proof (induction k arbitrary: w)
  case (Suc k)
  obtain n e w1 where s: "sys_send net fd (to_bytes mapper_request) w = (n, e, w1)" by (metis prod_cases3)
  obtain n2 e2 d w2 where v: "sys_recv net fd 255 w1 = (n2, e2, d, w2)" by (metis prod_cases4)
  have "\<not> n < 0" "n2 < 0" using sends [of w] silent [of w1] s v by simp_all
  with s v Suc.IH [of w2] show ?case
    by (simp add: status_defs silent_round_def funpow_Suc_right del: funpow.simps)
qed simp

text \<open>
  C0: Against a network that takes every request and answers none, a discovery with
  \<open>max_retries = n\<close> makes exactly \<open>n + 1\<close> attempts, a request and a receive each, then closes
  its socket and reports a timeout with the configuration untouched. (The counter of the loop
  has the width of \<open>max_retries\<close>: at \<open>2 ^ 32 - 1\<close> the loop of the code would not end, the
  hypothesis leaves that value out.)
\<close>

theorem mapper_attempts_bounded:
  assumes resolved: "sys_getaddrinfo net (case mc_host m of Some h \<Rightarrow> h | None \<Rightarrow> []) (mc_port m) w = (0, Some addr, w1)"
    and opened: "sys_socket net w1 = (fd, w2)" "fd \<ge> 0"
    and bound: "unat (mc_max_retries m) < 2 ^ 32 - 1"
    and sends: "\<And>w. fst (sys_send net fd (to_bytes mapper_request) w) \<ge> 0"
    and silent: "\<And>w. fst (sys_recv net fd 255 w) < 0"
  shows "vmc_mapper_resolve net (Some m) (Some out) w =
    (VMC_ERR_TIMEOUT, Some out,
     sys_close net fd ((silent_round net fd ^^ (unat (mc_max_retries m) + 1)) (snd (sys_connect net fd addr w2))))"
  using resolved opened attempts_silent [OF sends silent]
  by (simp add: vmc_mapper_resolve_def split_beta del: attempts.simps funpow.simps)

text \<open>A network that counts requests and closed sockets and never answers.\<close>

definition silent_net :: "(nat \<times> nat, unit) net_ops" where
  "silent_net = \<lparr>sys_socket = \<lambda>w. (3, w), sys_close = \<lambda>fd w. (fst w, Suc (snd w)),
     sys_send = \<lambda>fd p w. (int (length p), 0, (Suc (fst w), snd w)),
     sys_recv = \<lambda>fd cap w. (- 1, EAGAIN, [], w),
     sys_getaddrinfo = \<lambda>h p w. (0, Some (), w), sys_connect = \<lambda>fd a w. (0, w)\<rparr>"

theorem mapper_attempts_bounded_witness:
  "vmc_mapper_resolve silent_net (Some mapper0) (Some cfg0) (0, 0) = (VMC_ERR_TIMEOUT, Some cfg0, (2, 1))"
proof -
  have "vmc_mapper_resolve silent_net (Some mapper0) (Some cfg0) (0, 0) =
    (VMC_ERR_TIMEOUT, Some cfg0, sys_close silent_net 3
       ((silent_round silent_net 3 ^^ (unat (mc_max_retries mapper0) + 1)) (snd (sys_connect silent_net 3 () (0, 0)))))"
    by (rule mapper_attempts_bounded) (simp_all add: silent_net_def mapper0_def)
  then show ?thesis by (simp add: silent_net_def mapper0_def silent_round_def)
qed

end
