(* ===== verification/Telemetry.thy ===== *)
theory Telemetry
  imports Ascii_Text Wire_Protocol "HOL-Library.Multiset"
begin

unbundle bit_operations_syntax

text \<open>
  The telemetry ring, \<^verbatim>\<open>src/core/telemetry.c\<close>: producers on any thread format one line and
  push it into a ring of 16384 slots with an atomic reservation and a compare-and-swap
  claim; one writer thread drains the slots to a file and to UDP datagrams. The sequential
  operations come first. The interleaving of producers and writer at the granularity of the
  atomic accesses is a step relation over the same slot operations.

  A short write to the file, the thread primitives and the flush timing are not modelled.
\<close>

section \<open>State\<close>

definition TLM_RING_SLOTS :: nat where [const_defs]: "TLM_RING_SLOTS = 16384"
definition TLM_SLOT_CAP :: nat where [const_defs]: "TLM_SLOT_CAP = 384"

datatype tlm_slot_state = TLM_SLOT_EMPTY | TLM_SLOT_CLAIMED | TLM_SLOT_FILLED

record tlm_slot =
  sl_buf :: bytes
  sl_len :: u16
  sl_state :: tlm_slot_state

text \<open>
  The module's globals. The file is its contents, \<open>None\<close> while it is not open; the datagrams
  sent are recorded while the socket is open.
\<close>

record tlm =
  g_slots :: "nat \<Rightarrow> tlm_slot"
  g_head :: u32
  g_tail :: u32
  g_seq :: u64
  g_dropped :: u64
  g_enabled :: bool
  g_stop :: bool
  g_file :: "bytes option"
  g_udp_open :: bool
  g_udp_sent :: "bytes list"
  g_role :: string
  g_host :: string
  g_build :: string
  g_git :: string
  g_last_sync_us :: u64

definition slot_ix :: "u32 \<Rightarrow> nat" where
  "slot_ix h = unat h mod TLM_RING_SLOTS"

definition upd_slot :: "nat \<Rightarrow> (tlm_slot \<Rightarrow> tlm_slot) \<Rightarrow> (nat \<Rightarrow> tlm_slot) \<Rightarrow> nat \<Rightarrow> tlm_slot" where
  "upd_slot i f slots = slots(i := f (slots i))"

section \<open>Producer\<close>

definition tlm_line :: "string \<Rightarrow> u64 \<Rightarrow> u64 \<Rightarrow> string \<Rightarrow> string" where
  "tlm_line type ts seq flds =
     ''{\"t\":\"'' @ type @ ''\",\"ts\":'' @ dec_string (unat ts) @ '',\"seq\":'' @
     dec_string (unat seq) @ '','' @ flds @ ''}'' @ [CHR 0x0A]"

text \<open>The copy of the formatted line into a claimed slot.\<close>

definition fill_line :: "bytes \<Rightarrow> tlm_slot \<Rightarrow> tlm_slot" where
  "fill_line line sl = sl\<lparr>sl_buf := mem_write (sl_buf sl) 0 line, sl_len := of_nat (length line)\<rparr>"

text \<open>
  The push of one formatted line by one producer running alone: reserve an index, test the
  slot, claim it, fill it, publish it.
\<close>

definition tlm_push :: "bytes \<Rightarrow> tlm \<Rightarrow> tlm" where
  "tlm_push line s =
     (let i = slot_ix (g_head s);
          s1 = s\<lparr>g_head := g_head s + 1\<rparr>
      in if sl_state (g_slots s1 i) \<noteq> TLM_SLOT_EMPTY
         then s1\<lparr>g_dropped := g_dropped s1 + 1\<rparr>
         else let s2 = s1\<lparr>g_slots := upd_slot i (\<lambda>x. x\<lparr>sl_state := TLM_SLOT_CLAIMED\<rparr>) (g_slots s1)\<rparr>;
                  s3 = s2\<lparr>g_slots := upd_slot i (fill_line line) (g_slots s2)\<rparr>
              in s3\<lparr>g_slots := upd_slot i (\<lambda>x. x\<lparr>sl_state := TLM_SLOT_FILLED\<rparr>) (g_slots s3)\<rparr>)"

text \<open>
  \<open>flds\<close> is what the format and its arguments expand to, and \<open>now\<close> the clock reading. A
  line that does not fit is discarded, the second time only after a sequence number was taken.
\<close>

definition vmc_tlm_emit :: "string option \<Rightarrow> string \<Rightarrow> u64 \<Rightarrow> tlm \<Rightarrow> tlm" where
  "vmc_tlm_emit type flds now s =
     (case type of
        None \<Rightarrow> s
      | Some t \<Rightarrow>
          if \<not> g_enabled s then s
          else if length flds \<ge> TLM_SLOT_CAP - 96 then s
          else let s1 = s\<lparr>g_seq := g_seq s + 1\<rparr>;
                   line = tlm_line t now (g_seq s1) flds
               in if length line \<ge> TLM_SLOT_CAP then s1
                  else tlm_push (to_bytes line) s1)"

section \<open>Sinks\<close>

text \<open>The hand-written frame of a telemetry datagram.\<close>

definition tlm_frame :: "bytes \<Rightarrow> u64 \<Rightarrow> bytes" where
  "tlm_frame line now =
     (let plen = (of_nat (length line) :: u16);
          p = [0x43, 0x56, 1, 0, 4, 0, ucast (plen AND 0xff), ucast (drop_bit 8 plen), 0, 0, 0, 0,
               ucast (now AND 0xff), ucast (drop_bit 8 now AND 0xff),
               ucast (drop_bit 16 now AND 0xff), ucast (drop_bit 24 now AND 0xff)];
          crc = fold crc8_byte (p @ line) 0
      in p @ [crc] @ line)"

definition tlm_write_sinks :: "bytes \<Rightarrow> u64 \<Rightarrow> tlm \<Rightarrow> tlm" where
  "tlm_write_sinks line now s =
     (let s1 = (case g_file s of
                  Some f \<Rightarrow> if length line > 0 then s\<lparr>g_file := Some (f @ line)\<rparr> else s
                | None \<Rightarrow> s)
      in if g_udp_open s1 \<and> length line > 0 \<and> length line + 17 < 17 + 65535
         then s1\<lparr>g_udp_sent := g_udp_sent s1 @ [tlm_frame line now]\<rparr>
         else s1)"

section \<open>Writer\<close>

text \<open>
  What \<^verbatim>\<open>snprintf\<close> would print for the clock synchronisation event. The length passed on is
  the full one, so the sink reads past the 256-byte buffer when the text is longer; the bytes
  found there are \<open>beyond\<close>.
\<close>

definition sync_text :: "u64 \<Rightarrow> u64 \<Rightarrow> u64 \<Rightarrow> tlm \<Rightarrow> string" where
  "sync_text ts seq realtime s =
     ''{\"t\":\"clock_sync\",\"ts\":'' @ dec_string (unat ts) @ '',\"seq\":'' @ dec_string (unat seq) @
     '',\"realtime_us\":'' @ dec_string (unat realtime) @ '',\"host\":\"'' @ g_host s @
     ''\",\"role\":\"'' @ g_role s @ ''\",\"build\":\"'' @ g_build s @ ''\",\"git\":\"'' @ g_git s @
     ''\"}'' @ [CHR 0x0A]"

definition snprintf_buf :: "nat \<Rightarrow> string \<Rightarrow> bytes" where
  "snprintf_buf cap txt = to_bytes (take (cap - 1) txt) @ [0]"

definition tlm_emit_sync :: "u64 \<Rightarrow> u64 \<Rightarrow> bytes \<Rightarrow> tlm \<Rightarrow> tlm" where
  "tlm_emit_sync ts realtime beyond s =
     (let s1 = s\<lparr>g_seq := g_seq s + 1\<rparr>;
          txt = sync_text ts (g_seq s1) realtime s1;
          n = length txt
      in if n > 0 then tlm_write_sinks (take n (snprintf_buf 256 txt @ beyond)) ts s1 else s1)"

definition overflow_text :: "u64 \<Rightarrow> u64 \<Rightarrow> u64 \<Rightarrow> string" where
  "overflow_text ts seq dropped =
     ''{\"t\":\"tlm_overflow\",\"ts\":'' @ dec_string (unat ts) @ '',\"seq\":'' @ dec_string (unat seq) @
     '',\"dropped\":'' @ dec_string (unat dropped) @ ''}'' @ [CHR 0x0A]"

definition tlm_emit_overflow :: "u64 \<Rightarrow> tlm \<Rightarrow> tlm" where
  "tlm_emit_overflow now s =
     (let dropped = g_dropped s;
          s1 = s\<lparr>g_dropped := 0, g_seq := g_seq s + 1\<rparr>
      in tlm_write_sinks (to_bytes (overflow_text now (g_seq s1) dropped)) now s1)"

text \<open>The inner drain loop, up to the head loaded at the start of the round.\<close>

function tlm_drain :: "u32 \<Rightarrow> u64 \<Rightarrow> tlm \<Rightarrow> tlm" where
  "tlm_drain head now s =
     (if g_tail s = head then s
      else let sl = g_slots s (slot_ix (g_tail s))
           in if sl_state sl \<noteq> TLM_SLOT_FILLED then s
              else let s1 = tlm_write_sinks (take (unat (sl_len sl)) (sl_buf sl)) now s
                   in tlm_drain head now
                        (s1\<lparr>g_slots := upd_slot (slot_ix (g_tail s)) (\<lambda>x. x\<lparr>sl_state := TLM_SLOT_EMPTY\<rparr>)
                              (g_slots s1), g_tail := g_tail s1 + 1\<rparr>))"
  by pat_completeness auto

lemma tlm_write_sinks_tail [simp]:
  "g_tail (tlm_write_sinks line now s) = g_tail s" "g_slots (tlm_write_sinks line now s) = g_slots s"
  "g_head (tlm_write_sinks line now s) = g_head s" "g_dropped (tlm_write_sinks line now s) = g_dropped s"
  by (simp_all add: tlm_write_sinks_def Let_def split: option.splits)

lemma head_distance:
  fixes t h :: u32
  assumes "t \<noteq> h" shows "unat (h - (t + 1)) < unat (h - t)"
proof -
  have "h - t \<noteq> 0" using assms by simp
  then have "unat (h - t - 1) < unat (h - t)" by (simp add: unat_minus_one unat_gt_0)
  then show ?thesis by (simp add: algebra_simps)
qed

termination tlm_drain
  by (relation "measure (\<lambda>(head, now, s). unat (head - g_tail s))") (auto simp: head_distance)

declare tlm_drain.simps [simp del]

text \<open>
  One round of the writer's outer loop at clock reading \<open>now\<close>, with the head it loads:
  drain, a clock synchronisation once per second, the overflow notice.
\<close>

definition tlm_writer_round :: "u64 \<Rightarrow> u64 \<Rightarrow> bytes \<Rightarrow> tlm \<Rightarrow> tlm" where
  "tlm_writer_round now realtime beyond s =
     (if g_stop s then s
      else let s1 = tlm_drain (g_head s) now s;
               s2 = (if now - g_last_sync_us s1 \<ge> 1000000
                     then tlm_emit_sync now realtime beyond (s1\<lparr>g_last_sync_us := now\<rparr>) else s1)
           in if g_dropped s2 > 0 then tlm_emit_overflow now s2 else s2)"

text \<open>The end of the writer: the last overflow notice, if a file is open.\<close>

definition tlm_writer_exit :: "u64 \<Rightarrow> tlm \<Rightarrow> tlm" where
  "tlm_writer_exit now s =
     (case g_file s of
        None \<Rightarrow> s
      | Some _ \<Rightarrow>
          if g_dropped s > 0
          then let s1 = s\<lparr>g_seq := g_seq s + 1\<rparr>
               in tlm_write_sinks (to_bytes (overflow_text now (g_seq s1) (g_dropped s1))) now s1
          else s)"

definition vmc_tlm_enabled :: "tlm \<Rightarrow> bool" where
  "vmc_tlm_enabled s \<longleftrightarrow> g_enabled s"

definition all_empty :: "(nat \<Rightarrow> tlm_slot) \<Rightarrow> nat \<Rightarrow> tlm_slot" where
  "all_empty slots = (\<lambda>i. if i < TLM_RING_SLOTS then (slots i)\<lparr>sl_state := TLM_SLOT_EMPTY\<rparr> else slots i)"

definition vmc_tlm_shutdown :: "tlm \<Rightarrow> tlm" where
  "vmc_tlm_shutdown s =
     (if \<not> g_enabled s then s
      else s\<lparr>g_file := None, g_udp_open := False, g_enabled := False, g_stop := False, g_head := 0,
             g_tail := 0, g_seq := 0, g_slots := all_empty (g_slots s)\<rparr>)"

text \<open>The destination: the part before the last colon and the port after it, or port 9998.\<close>

definition tlm_udp_dst :: "string \<Rightarrow> (string \<times> nat) option" where
  "tlm_udp_dst spec =
     (let (host, port) =
        (if CHR '':'' \<in> set spec
         then (take 255 (rev (drop 1 (dropWhile (\<lambda>c. c \<noteq> CHR '':'') (rev spec)))),
               atoi (rev (takeWhile (\<lambda>c. c \<noteq> CHR '':'') (rev spec))))
         else (take 255 spec, 9998))
      in if port \<le> 0 \<or> port > 65535 then None else Some (host, nat port))"

text \<open>
  The environment decides what is opened: \<open>path\<close> and \<open>udp\<close> are the two variables, \<open>fopen_ok\<close>,
  \<open>resolve_ok\<close> and \<open>thread_ok\<close> the results of opening the file, of resolving and opening the
  socket, and of starting the writer.
\<close>

definition nonempty :: "string option \<Rightarrow> bool" where
  "nonempty v = (case v of Some (c # r) \<Rightarrow> True | _ \<Rightarrow> False)"

definition or_default :: "nat \<Rightarrow> string \<Rightarrow> string option \<Rightarrow> string" where
  "or_default cap d v = take (cap - 1) (case v of Some x \<Rightarrow> x | None \<Rightarrow> d)"

definition vmc_tlm_init ::
  "string option \<Rightarrow> string option \<Rightarrow> string option \<Rightarrow> string option \<Rightarrow> string option \<Rightarrow> string option
     \<Rightarrow> bytes option \<Rightarrow> bool \<Rightarrow> bool \<Rightarrow> tlm \<Rightarrow> bool \<times> tlm" where
  "vmc_tlm_init role host build git path udp fopen_res resolve_ok thread_ok s0 =
     (let s1 = (if g_enabled s0 then vmc_tlm_shutdown s0 else s0);
          s2 = s1\<lparr>g_role := or_default 16 ''client'' role, g_host := or_default 128 ''unknown'' host,
                  g_build := or_default 16 ''unknown'' build, g_git := or_default 32 ''unknown'' git\<rparr>
      in if \<not> nonempty path \<and> \<not> nonempty udp then (False, s2)
         else let s3 = (if nonempty path then s2\<lparr>g_file := fopen_res\<rparr> else s2);
                  s4 = (case udp of
                          Some (c # r) \<Rightarrow>
                            if tlm_udp_dst (c # r) \<noteq> None \<and> resolve_ok then s3\<lparr>g_udp_open := True\<rparr>
                            else s3
                        | _ \<Rightarrow> s3);
                  s5 = s4\<lparr>g_enabled := g_file s4 \<noteq> None \<or> g_udp_open s4\<rparr>
              in if \<not> g_enabled s5 then (False, s5)
                 else let s6 = s5\<lparr>g_head := 0, g_tail := 0, g_seq := 0, g_dropped := 0,
                                  g_slots := all_empty (g_slots s5), g_stop := False\<rparr>
                      in if thread_ok then (True, s6)
                         else (False, s6\<lparr>g_file := None, g_udp_open := False, g_enabled := False\<rparr>))"

section \<open>Telemetry datagrams\<close>

definition tlm_header :: "bytes \<Rightarrow> u64 \<Rightarrow> vmc_proto_header" where
  "tlm_header line now = \<lparr>ph_magic = VMC_PROTO_MAGIC, ph_version = VMC_PROTO_VERSION, ph_flags = 0,
     ph_stream = VMC_PROTO_STREAM_TELEMETRY, ph_reserved = 0, ph_payload_len = of_nat (length line),
     ph_seq = 0, ph_ts_us = ucast now, ph_crc = 0\<rparr>"

lemma ucast_drop_bit_down:
  fixes now :: u64
  assumes "k + 8 \<le> 32"
  shows "(ucast (drop_bit k (ucast now :: u32)) :: u8) = ucast (drop_bit k now)"
  using assms by (intro bit_word_eqI) (auto simp: bit_simps dest: bit_imp_le_length)

lemma ucast_ucast_down: "(ucast (ucast (now :: u64) :: u32) :: u8) = ucast now"
  by (rule bit_word_eqI) (auto simp: bit_simps)

lemma drop_8_u16: "(ucast (drop_bit 8 (v :: u16) AND 0xff) :: u8) = ucast (drop_bit 8 v)"
  by (rule ucast_and_ff)

lemma tlm_header_prefix:
  "header_prefix (tlm_header line now) =
     [0x43, 0x56, 1, 0, 4, 0, ucast (of_nat (length line) AND 0xff :: u16),
      ucast (drop_bit 8 (of_nat (length line) :: u16)), 0, 0, 0, 0,
      ucast (now AND 0xff), ucast (drop_bit 8 now AND 0xff),
      ucast (drop_bit 16 now AND 0xff), ucast (drop_bit 24 now AND 0xff)]"
  by (simp add: header_prefix_def tlm_header_def le16_def le32_def const_defs
      ucast_drop_bit_down ucast_ucast_down)

lemma tlm_frame_image: "tlm_frame line now = frame_image (tlm_header line now) line"
  by (simp add: tlm_frame_def frame_image_def header_image_def frame_sum_def crc8_update_def
      tlm_header_prefix Let_def)

section \<open>Interleaving\<close>

text \<open>
  Each producer is at one point between its atomic accesses, with the index it reserved and
  the line it formatted; the writer has either not yet read its slot or has passed the line
  on and not yet released the slot. \<open>published\<close> and \<open>sunk\<close> record, in order, the lines made
  visible by producers and the lines given to the sinks.
\<close>

datatype pc = Idle | Reserved u32 bytes | Checked u32 bytes | Claimed u32 bytes | Copied u32 bytes

record cfg =
  c_slots :: "nat \<Rightarrow> tlm_slot"
  c_head :: u32
  c_tail :: u32
  c_dropped :: u64
  c_pc :: "nat \<Rightarrow> pc"
  c_sent :: bool
  published :: "bytes list"
  sunk :: "bytes list"

inductive tlm_step :: "cfg \<Rightarrow> cfg \<Rightarrow> bool" where
  reserve: "c_pc c t = Idle \<Longrightarrow> length line < TLM_SLOT_CAP \<Longrightarrow>
     tlm_step c (c\<lparr>c_head := c_head c + 1, c_pc := (c_pc c)(t := Reserved (c_head c) line)\<rparr>)"
| check_free: "c_pc c t = Reserved h line \<Longrightarrow> sl_state (c_slots c (slot_ix h)) = TLM_SLOT_EMPTY \<Longrightarrow>
     tlm_step c (c\<lparr>c_pc := (c_pc c)(t := Checked h line)\<rparr>)"
| check_drop: "c_pc c t = Reserved h line \<Longrightarrow> sl_state (c_slots c (slot_ix h)) \<noteq> TLM_SLOT_EMPTY \<Longrightarrow>
     tlm_step c (c\<lparr>c_pc := (c_pc c)(t := Idle), c_dropped := c_dropped c + 1\<rparr>)"
| claim: "c_pc c t = Checked h line \<Longrightarrow> sl_state (c_slots c (slot_ix h)) = TLM_SLOT_EMPTY \<Longrightarrow>
     tlm_step c (c\<lparr>c_pc := (c_pc c)(t := Claimed h line),
       c_slots := upd_slot (slot_ix h) (\<lambda>x. x\<lparr>sl_state := TLM_SLOT_CLAIMED\<rparr>) (c_slots c)\<rparr>)"
| claim_drop: "c_pc c t = Checked h line \<Longrightarrow> sl_state (c_slots c (slot_ix h)) \<noteq> TLM_SLOT_EMPTY \<Longrightarrow>
     tlm_step c (c\<lparr>c_pc := (c_pc c)(t := Idle), c_dropped := c_dropped c + 1\<rparr>)"
| copy: "c_pc c t = Claimed h line \<Longrightarrow>
     tlm_step c (c\<lparr>c_pc := (c_pc c)(t := Copied h line),
       c_slots := upd_slot (slot_ix h) (fill_line line) (c_slots c)\<rparr>)"
| publish: "c_pc c t = Copied h line \<Longrightarrow>
     tlm_step c (c\<lparr>c_pc := (c_pc c)(t := Idle), published := published c @ [line],
       c_slots := upd_slot (slot_ix h) (\<lambda>x. x\<lparr>sl_state := TLM_SLOT_FILLED\<rparr>) (c_slots c)\<rparr>)"
| sink: "\<not> c_sent c \<Longrightarrow> c_tail c \<noteq> c_head c \<Longrightarrow>
     sl_state (c_slots c (slot_ix (c_tail c))) = TLM_SLOT_FILLED \<Longrightarrow>
     tlm_step c (c\<lparr>c_sent := True, sunk := sunk c @
       [take (unat (sl_len (c_slots c (slot_ix (c_tail c))))) (sl_buf (c_slots c (slot_ix (c_tail c))))]\<rparr>)"
| release: "c_sent c \<Longrightarrow>
     tlm_step c (c\<lparr>c_sent := False, c_tail := c_tail c + 1,
       c_slots := upd_slot (slot_ix (c_tail c)) (\<lambda>x. x\<lparr>sl_state := TLM_SLOT_EMPTY\<rparr>) (c_slots c)\<rparr>)"

definition cfg_init :: "cfg \<Rightarrow> bool" where
  "cfg_init c \<longleftrightarrow> (\<forall>i. sl_state (c_slots c i) = TLM_SLOT_EMPTY \<and> length (sl_buf (c_slots c i)) = TLM_SLOT_CAP) \<and>
     (\<forall>t. c_pc c t = Idle) \<and> \<not> c_sent c \<and> published c = [] \<and> sunk c = []"

definition slot_line :: "tlm_slot \<Rightarrow> bytes" where
  "slot_line sl = take (unat (sl_len sl)) (sl_buf sl)"

definition slot_filled :: "tlm_slot \<Rightarrow> bytes multiset" where
  "slot_filled sl = (if sl_state sl = TLM_SLOT_FILLED then {#slot_line sl#} else {#})"

definition in_ring :: "cfg \<Rightarrow> bytes multiset" where
  "in_ring c = (\<Sum>i < TLM_RING_SLOTS. slot_filled (c_slots c i))"

text \<open>The slot a producer owns, if any.\<close>

fun owns :: "pc \<Rightarrow> nat option" where
  "owns (Claimed h line) = Some (slot_ix h)"
| "owns (Copied h line) = Some (slot_ix h)"
| "owns _ = None"

fun pc_line_ok :: "pc \<Rightarrow> bool" where
  "pc_line_ok Idle = True"
| "pc_line_ok (Reserved h line) = (length line < TLM_SLOT_CAP)"
| "pc_line_ok (Checked h line) = (length line < TLM_SLOT_CAP)"
| "pc_line_ok (Claimed h line) = (length line < TLM_SLOT_CAP)"
| "pc_line_ok (Copied h line) = (length line < TLM_SLOT_CAP)"

definition ring_inv :: "cfg \<Rightarrow> bool" where
  "ring_inv c \<longleftrightarrow>
     (\<forall>i. length (sl_buf (c_slots c i)) = TLM_SLOT_CAP) \<and>
     (\<forall>t. pc_line_ok (c_pc c t)) \<and>
     (\<forall>t i. owns (c_pc c t) = Some i \<longrightarrow> sl_state (c_slots c i) = TLM_SLOT_CLAIMED) \<and>
     (\<forall>t u i. owns (c_pc c t) = Some i \<longrightarrow> owns (c_pc c u) = Some i \<longrightarrow> t = u) \<and>
     (\<forall>t h line. c_pc c t = Copied h line \<longrightarrow> slot_line (c_slots c (slot_ix h)) = line) \<and>
     (c_sent c \<longrightarrow> sl_state (c_slots c (slot_ix (c_tail c))) = TLM_SLOT_FILLED)"

definition pending :: "cfg \<Rightarrow> bytes multiset" where
  "pending c = (if c_sent c then {#slot_line (c_slots c (slot_ix (c_tail c)))#} else {#})"

definition conserved :: "cfg \<Rightarrow> bool" where
  "conserved c \<longleftrightarrow> mset (sunk c) + in_ring c = mset (published c) + pending c"

lemma slot_ix_lt: "slot_ix h < TLM_RING_SLOTS"
  by (simp add: slot_ix_def TLM_RING_SLOTS_def)

lemma sum_upd:
  fixes f :: "nat \<Rightarrow> 'b multiset"
  assumes "i < n"
  shows "(\<Sum>j < n. f j) = f i + (\<Sum>j \<in> {..<n} - {i}. f j)"
  using assms by (simp add: sum.remove)

lemma in_ring_upd:
  assumes "i < TLM_RING_SLOTS"
  shows "(\<Sum>j < TLM_RING_SLOTS. slot_filled (upd_slot i f slots j)) + slot_filled (slots i) =
    (\<Sum>j < TLM_RING_SLOTS. slot_filled (slots j)) + slot_filled (f (slots i))"
proof -
  have "(\<Sum>j \<in> {..<TLM_RING_SLOTS} - {i}. slot_filled (upd_slot i f slots j)) =
      (\<Sum>j \<in> {..<TLM_RING_SLOTS} - {i}. slot_filled (slots j))"
    by (rule sum.cong) (simp_all add: upd_slot_def)
  then show ?thesis
    using sum_upd [OF assms, of "\<lambda>j. slot_filled (upd_slot i f slots j)"]
      sum_upd [OF assms, of "\<lambda>j. slot_filled (slots j)"]
    by (simp add: upd_slot_def ac_simps)
qed

lemma fill_line_props:
  assumes "length line < TLM_SLOT_CAP" and "length (sl_buf sl) = TLM_SLOT_CAP"
  shows "length (sl_buf (fill_line line sl)) = TLM_SLOT_CAP" "slot_line (fill_line line sl) = line"
    "sl_state (fill_line line sl) = sl_state sl"
  using assms by (simp_all add: fill_line_def slot_line_def mem_write_def const_defs unat_of_nat)

lemma ring_inv_init: "cfg_init c \<Longrightarrow> ring_inv c \<and> conserved c"
  by (auto simp: cfg_init_def ring_inv_def conserved_def in_ring_def pending_def slot_filled_def)

lemmas inv_defs = ring_inv_def upd_slot_def

lemma ring_invI:
  assumes "\<And>i. length (sl_buf (c_slots c i)) = TLM_SLOT_CAP" and "\<And>t. pc_line_ok (c_pc c t)"
    and "\<And>t i. owns (c_pc c t) = Some i \<Longrightarrow> sl_state (c_slots c i) = TLM_SLOT_CLAIMED"
    and "\<And>t u i. owns (c_pc c t) = Some i \<Longrightarrow> owns (c_pc c u) = Some i \<Longrightarrow> t = u"
    and "\<And>t h line. c_pc c t = Copied h line \<Longrightarrow> slot_line (c_slots c (slot_ix h)) = line"
    and "c_sent c \<Longrightarrow> sl_state (c_slots c (slot_ix (c_tail c))) = TLM_SLOT_FILLED"
  shows "ring_inv c"
  unfolding ring_inv_def using assms by blast

lemma tlm_step_inv: "tlm_step c c' \<Longrightarrow> ring_inv c \<Longrightarrow> ring_inv c'"
proof (induction rule: tlm_step.induct)
  case (reserve c t line)
  then show ?case unfolding inv_defs by (auto split: if_splits)
next
  case (check_free c t h line)
  then have "length line < TLM_SLOT_CAP" unfolding inv_defs by (metis pc_line_ok.simps(2))
  with check_free show ?case unfolding inv_defs by (auto split: if_splits)
next
  case (check_drop c t h line)
  then show ?case unfolding inv_defs by (auto split: if_splits)
next
  case (claim c t h line)
  have len: "length line < TLM_SLOT_CAP" using claim unfolding inv_defs by (metis pc_line_ok.simps(3))
  have free: "owns (c_pc c u) \<noteq> Some (slot_ix h)" for u
    using claim unfolding inv_defs by (metis tlm_slot_state.distinct(1))
  then have "slot_ix k \<noteq> slot_ix h" if "c_pc c u = Copied k l" for u k l
    using that by (metis owns.simps(2))
  with claim free len show ?case unfolding inv_defs by (auto simp: slot_line_def split: if_splits)
next
  case (claim_drop c t h line)
  then show ?case unfolding inv_defs by (auto split: if_splits)
next
  case (copy c t h line)
  have len: "length line < TLM_SLOT_CAP" using copy unfolding inv_defs by (metis pc_line_ok.simps(4))
  have mine: "owns (c_pc c t) = Some (slot_ix h)" using copy by simp
  then have other: "slot_ix k \<noteq> slot_ix h" if "c_pc c u = Copied k l" "u \<noteq> t" for u k l
    using that copy(2) unfolding inv_defs by (metis owns.simps(2))
  have st: "sl_state (c_slots c (slot_ix h)) = TLM_SLOT_CLAIMED"
    "length (sl_buf (c_slots c (slot_ix h))) = TLM_SLOT_CAP"
    using copy mine unfolding inv_defs by blast+
  note f = fill_line_props [OF len st(2)]
  let ?c' = "c\<lparr>c_pc := (c_pc c)(t := Copied h line),
       c_slots := upd_slot (slot_ix h) (fill_line line) (c_slots c)\<rparr>"
  have own: "owns (c_pc ?c' u) = owns (c_pc c u)" for u using mine by simp
  have sst: "sl_state (c_slots ?c' i) = sl_state (c_slots c i)" for i using f(3) by (simp add: upd_slot_def)
  show ?case
  proof (rule ring_invI)
    show "length (sl_buf (c_slots ?c' i)) = TLM_SLOT_CAP" for i
      using f(1) copy(2) by (simp add: upd_slot_def ring_inv_def)
    show "pc_line_ok (c_pc ?c' u)" for u using copy(2) len by (simp add: ring_inv_def)
    show "owns (c_pc ?c' u) = Some i \<Longrightarrow> sl_state (c_slots ?c' i) = TLM_SLOT_CLAIMED" for u i
      using copy(2) unfolding own sst ring_inv_def by blast
    show "owns (c_pc ?c' u) = Some i \<Longrightarrow> owns (c_pc ?c' v) = Some i \<Longrightarrow> u = v" for u v i
      using copy(2) unfolding own ring_inv_def by blast
    show "c_pc ?c' u = Copied k l \<Longrightarrow> slot_line (c_slots ?c' (slot_ix k)) = l" for u k l
      using f(2) other [of u k l] copy(2) by (cases "u = t") (auto simp: upd_slot_def ring_inv_def)
    show "c_sent ?c' \<Longrightarrow> sl_state (c_slots ?c' (slot_ix (c_tail ?c'))) = TLM_SLOT_FILLED"
      using copy(2) unfolding sst by (simp add: ring_inv_def)
  qed
next
  case (publish c t h line)
  have mine: "owns (c_pc c t) = Some (slot_ix h)" using publish by simp
  then have other: "owns (c_pc c u) \<noteq> Some (slot_ix h)" if "u \<noteq> t" for u
    using that publish(2) unfolding inv_defs by blast
  then have "slot_ix k \<noteq> slot_ix h" if "c_pc c u = Copied k l" "u \<noteq> t" for u k l
    using that by (metis owns.simps(2))
  with publish other show ?case unfolding inv_defs by (auto simp: slot_line_def split: if_splits)
next
  case (sink c)
  then show ?case unfolding inv_defs by auto
next
  case (release c)
  have "owns (c_pc c u) \<noteq> Some (slot_ix (c_tail c))" for u
    using release unfolding inv_defs by (metis tlm_slot_state.distinct(5))
  then have "slot_ix k \<noteq> slot_ix (c_tail c)" if "c_pc c u = Copied k l" for u k l
    using that by (metis owns.simps(2))
  with release \<open>\<And>u. owns (c_pc c u) \<noteq> Some (slot_ix (c_tail c))\<close> show ?case
    unfolding inv_defs by (auto simp: slot_line_def split: if_splits)
qed

lemma conserved_upd:
  assumes "ring_inv c" and "conserved c" and i: "i < TLM_RING_SLOTS"
    and st: "sl_state (c_slots c i) \<noteq> TLM_SLOT_FILLED"
    and "c_slots c' = upd_slot i f (c_slots c)" "c_sent c' = c_sent c" "c_tail c' = c_tail c"
    and "sunk c' = sunk c" "mset (published c') = mset (published c) + slot_filled (f (c_slots c i))"
  shows "conserved c'"
proof -
  have "in_ring c' = in_ring c + slot_filled (f (c_slots c i))"
    using in_ring_upd [OF i, of f "c_slots c"] st assms(5)
    by (simp add: in_ring_def slot_filled_def [of "c_slots c i"])
  moreover have "pending c' = pending c"
    using assms(1,5,6,7) st by (auto simp: ring_inv_def pending_def upd_slot_def)
  ultimately show ?thesis
    using assms(2,8,9) by (simp add: conserved_def ac_simps)
qed

lemma tlm_step_conserved: "tlm_step c c' \<Longrightarrow> ring_inv c \<Longrightarrow> conserved c \<Longrightarrow> conserved c'"
proof (induction rule: tlm_step.induct)
  case (claim c t h line)
  have "slot_filled ((c_slots c (slot_ix h))\<lparr>sl_state := TLM_SLOT_CLAIMED\<rparr>) = {#}"
    by (simp add: slot_filled_def)
  with claim show ?case
    by (intro conserved_upd [OF claim(3,4) slot_ix_lt [of h]]) simp_all
next
  case (copy c t h line)
  then have st: "sl_state (c_slots c (slot_ix h)) = TLM_SLOT_CLAIMED"
    unfolding ring_inv_def by (metis owns.simps(1))
  then have "slot_filled (fill_line line (c_slots c (slot_ix h))) = {#}"
    by (simp add: slot_filled_def fill_line_def)
  with st copy show ?case
    by (intro conserved_upd [OF copy(2,3) slot_ix_lt [of h]]) simp_all
next
  case (publish c t h line)
  then have st: "sl_state (c_slots c (slot_ix h)) = TLM_SLOT_CLAIMED"
    and ln: "slot_line (c_slots c (slot_ix h)) = line"
    unfolding ring_inv_def by (metis owns.simps(2), blast)
  have "slot_filled ((c_slots c (slot_ix h))\<lparr>sl_state := TLM_SLOT_FILLED\<rparr>) = {#line#}"
    using ln by (simp add: slot_filled_def slot_line_def)
  with st publish show ?case
    by (intro conserved_upd [OF publish(2,3) slot_ix_lt [of h], where f = "\<lambda>x. x\<lparr>sl_state := TLM_SLOT_FILLED\<rparr>"])
      simp_all
next
  case (release c)
  let ?i = "slot_ix (c_tail c)" and ?e = "\<lambda>x. x\<lparr>sl_state := TLM_SLOT_EMPTY\<rparr>"
  have st: "slot_filled (c_slots c ?i) = {#slot_line (c_slots c ?i)#}"
    using release unfolding ring_inv_def slot_filled_def by simp
  have "slot_filled (?e (c_slots c ?i)) = {#}" by (simp add: slot_filled_def)
  then have "add_mset (slot_line (c_slots c ?i)) (\<Sum>j < TLM_RING_SLOTS. slot_filled (upd_slot ?i ?e (c_slots c) j)) =
      (\<Sum>j < TLM_RING_SLOTS. slot_filled (c_slots c j))"
    using st in_ring_upd [OF slot_ix_lt, of "c_tail c" ?e "c_slots c"] by simp
  moreover have "mset (sunk c) + (\<Sum>j < TLM_RING_SLOTS. slot_filled (c_slots c j)) =
      add_mset (slot_line (c_slots c ?i)) (mset (published c))"
    using release by (simp add: conserved_def in_ring_def pending_def)
  ultimately have "mset (sunk c) + (\<Sum>j < TLM_RING_SLOTS. slot_filled (upd_slot ?i ?e (c_slots c) j)) =
      mset (published c)" 
    by (metis add_mset_add_single add_right_cancel union_mset_add_mset_right)
  then show ?case by (simp add: conserved_def in_ring_def pending_def)
qed (simp_all add: conserved_def in_ring_def pending_def slot_line_def)

lemma tlm_run_inv: "tlm_step\<^sup>*\<^sup>* c c' \<Longrightarrow> ring_inv c \<and> conserved c \<Longrightarrow> ring_inv c' \<and> conserved c'"
  by (induction rule: rtranclp_induct) (auto intro: tlm_step_inv tlm_step_conserved)

section \<open>A drop stalls the writer\<close>

definition fresh_tlm :: "tlm \<Rightarrow> bool" where
  "fresh_tlm s \<longleftrightarrow> g_head s = 0 \<and> g_tail s = 0 \<and>
     (\<forall>i < TLM_RING_SLOTS. sl_state (g_slots s i) = TLM_SLOT_EMPTY)"

text \<open>The state of the slots as seen by the drain: which ones are filled.\<close>

definition filled_upto :: "nat \<Rightarrow> nat \<Rightarrow> tlm \<Rightarrow> bool" where
  "filled_upto a b s \<longleftrightarrow> (\<forall>i < TLM_RING_SLOTS. sl_state (g_slots s i) =
     (if a \<le> i \<and> i < b then TLM_SLOT_FILLED else TLM_SLOT_EMPTY))"

lemma slot_ix_of_nat:
  assumes "n < 2 ^ 32" shows "slot_ix (of_nat n) = n mod TLM_RING_SLOTS"
  using assms by (simp add: slot_ix_def unat_of_nat)

lemma tlm_push_empty:
  assumes "filled_upto a n s" and "g_head s = of_nat n" and "a \<le> n" and "n < TLM_RING_SLOTS"
  shows "filled_upto a (Suc n) (tlm_push line s)" and "g_head (tlm_push line s) = of_nat (Suc n)"
    and "g_tail (tlm_push line s) = g_tail s"
proof -
  have i: "slot_ix (g_head s) = n"
    using assms(2,4) by (simp add: slot_ix_of_nat TLM_RING_SLOTS_def)
  have e: "sl_state (g_slots s n) = TLM_SLOT_EMPTY" using assms by (simp add: filled_upto_def)
  have "g_slots (tlm_push line s) = (g_slots s)(n := (fill_line line (g_slots s n))\<lparr>sl_state := TLM_SLOT_FILLED\<rparr>)"
    using e by (simp add: tlm_push_def i Let_def upd_slot_def fill_line_def)
  with assms(1,3) show "filled_upto a (Suc n) (tlm_push line s)"
    by (auto simp: filled_upto_def less_Suc_eq)
  show "g_head (tlm_push line s) = of_nat (Suc n)" "g_tail (tlm_push line s) = g_tail s"
    using assms(2) e by (simp_all add: tlm_push_def i Let_def add.commute)
qed

lemma tlm_pushes:
  assumes "filled_upto a n s" and "g_head s = of_nat n" and "a \<le> n" and "n + length ls \<le> TLM_RING_SLOTS"
  shows "filled_upto a (n + length ls) (fold tlm_push ls s) \<and>
    g_head (fold tlm_push ls s) = of_nat (n + length ls) \<and> g_tail (fold tlm_push ls s) = g_tail s"
  using assms
proof (induction ls arbitrary: n s)
  case (Cons l ls)
  have lt: "n < TLM_RING_SLOTS" using Cons.prems(4) by simp
  note p = tlm_push_empty [OF Cons.prems(1-3) lt, of l]
  have "Suc n + length ls \<le> TLM_RING_SLOTS" "a \<le> Suc n" using Cons.prems by simp_all
  from Cons.IH [OF p(1,2) this(2,1)] p(3) show ?case by simp
qed simp

lemma tlm_drain_filled:
  assumes "filled_upto a b s" and "g_tail s = of_nat a" and "a \<le> b" and "b \<le> TLM_RING_SLOTS"
    and "unat head = b \<or> unat head = TLM_RING_SLOTS + 1 \<and> b = TLM_RING_SLOTS"
  shows "filled_upto b b (tlm_drain head now s) \<and> g_tail (tlm_drain head now s) = of_nat b \<and>
    g_head (tlm_drain head now s) = g_head s"
  using assms

proof (induction "b - a" arbitrary: a s)
  case 0
  then have ab: "a = b" by simp
  have ub: "unat (of_nat b :: u32) = b" using "0.prems"(4) by (simp add: unat_of_nat const_defs)
  show ?case
  proof (cases "g_tail s = head")
    case True
    with ab "0.prems" show ?thesis by (simp add: tlm_drain.simps)
  next
    case False
    then have "unat head \<noteq> b" using ub ab "0.prems"(2) by (metis word_unat_eq_iff)
    with "0.prems"(5) have b: "b = TLM_RING_SLOTS" by blast
    then have "slot_ix (g_tail s) = 0"
      using ab "0.prems"(2) by (simp add: slot_ix_def const_defs)
    moreover have "sl_state (g_slots s 0) = TLM_SLOT_EMPTY"
      using "0.prems"(1) ab b by (simp add: filled_upto_def const_defs)
    ultimately have "tlm_drain head now s = s" using False by (subst tlm_drain.simps) simp
    with ab "0.prems" show ?thesis by simp
  qed
next
  case (Suc k)
  have ab: "a < b" using Suc.hyps(2) by simp
  have ua: "unat (of_nat a :: u32) = a" using ab Suc.prems(4) by (simp add: unat_of_nat const_defs)
  have ia: "slot_ix (g_tail s) = a" "a < TLM_RING_SLOTS"
    using ab Suc.prems(2,4) by (simp_all add: slot_ix_of_nat const_defs)
  have "unat head \<noteq> a" using Suc.prems(5) ab ia(2) by auto
  then have ne: "g_tail s \<noteq> head" using Suc.prems(2) ua by metis
  have fl: "sl_state (g_slots s a) = TLM_SLOT_FILLED"
    using Suc.prems(1) ab ia(2) by (simp add: filled_upto_def)
  define s2 where "s2 = (tlm_write_sinks (take (unat (sl_len (g_slots s a))) (sl_buf (g_slots s a))) now s)
      \<lparr>g_slots := upd_slot a (\<lambda>x. x\<lparr>sl_state := TLM_SLOT_EMPTY\<rparr>) (g_slots s), g_tail := g_tail s + 1\<rparr>"
  have step: "tlm_drain head now s = tlm_drain head now s2"
    using ne fl ia(1) by (subst tlm_drain.simps) (simp add: s2_def Let_def)
  have n: "filled_upto (Suc a) b s2" "g_tail s2 = of_nat (Suc a)" "Suc a \<le> b" "g_head s2 = g_head s"
    using Suc.prems(1,2) ab by (auto simp: s2_def filled_upto_def upd_slot_def add.commute)
  have "k = b - Suc a" using Suc.hyps(2) by simp
  from Suc.hyps(1) [OF this n(1,2,3) Suc.prems(4,5)] n(4) show ?case unfolding step by simp
qed

lemma tlm_push_drop:
  assumes "filled_upto 0 TLM_RING_SLOTS s" and "g_head s = of_nat TLM_RING_SLOTS"
  shows "tlm_push line s = s\<lparr>g_head := g_head s + 1, g_dropped := g_dropped s + 1\<rparr>"
proof -
  have "slot_ix (g_head s) = 0" using assms(2) by (simp add: slot_ix_def const_defs)
  moreover have "sl_state (g_slots s 0) = TLM_SLOT_FILLED"
    using assms(1) by (simp add: filled_upto_def const_defs)
  ultimately show ?thesis by (simp add: tlm_push_def Let_def)
qed

text \<open>Pushes that follow the dropped one fill the slots from index 1 on and leave slot 0 empty.\<close>

lemma stalled_pushes:
  assumes "sl_state (g_slots s 0) = TLM_SLOT_EMPTY"
    and "g_head s = of_nat (TLM_RING_SLOTS + n)" and "0 < n" and "n + length ls \<le> TLM_RING_SLOTS"
  shows "sl_state (g_slots (fold tlm_push ls s) 0) = TLM_SLOT_EMPTY \<and>
    g_tail (fold tlm_push ls s) = g_tail s \<and>
    g_head (fold tlm_push ls s) = of_nat (TLM_RING_SLOTS + n + length ls)"
  using assms
proof (induction ls arbitrary: n s)
  case (Cons l ls)
  have n: "n < TLM_RING_SLOTS" using Cons.prems(4) by simp
  have i: "slot_ix (g_head s) = n"
    unfolding Cons.prems(2) using n by (subst slot_ix_of_nat) (simp_all add: const_defs)
  have p: "sl_state (g_slots (tlm_push l s) 0) = TLM_SLOT_EMPTY" "g_tail (tlm_push l s) = g_tail s"
    "g_head (tlm_push l s) = g_head s + 1"
    using Cons.prems(1,3) by (simp_all add: tlm_push_def i Let_def upd_slot_def)
  then have p3: "g_head (tlm_push l s) = of_nat (TLM_RING_SLOTS + Suc n)"
    using Cons.prems(2) by simp
  have "Suc n + length ls \<le> TLM_RING_SLOTS" using Cons.prems(4) by simp
  from Cons.IH [OF p(1) p3 _ this] p(2) show ?case by simp
qed simp

section \<open>Properties\<close>

text \<open>
  C14: Under every interleaving of any number of producers with the writer, a published line
  is neither lost, nor duplicated, nor torn: the lines given to the sinks together with the
  lines still in the ring are exactly the lines published (counting the one the writer is
  just releasing), and no two producers ever own the same slot.
\<close>

theorem tlm_ring_conserves_lines:
  assumes "cfg_init c0" and "tlm_step\<^sup>*\<^sup>* c0 c"
  shows "mset (sunk c) + in_ring c = mset (published c) + pending c \<and>
    (\<forall>t u i. owns (c_pc c t) = Some i \<longrightarrow> owns (c_pc c u) = Some i \<longrightarrow> t = u)"
  using tlm_run_inv [OF assms(2) ring_inv_init [OF assms(1)]]
  by (simp add: conserved_def ring_inv_def)

definition empty_slot :: tlm_slot where
  "empty_slot = \<lparr>sl_buf = replicate TLM_SLOT_CAP 0, sl_len = 0, sl_state = TLM_SLOT_EMPTY\<rparr>"

definition idle_ring :: cfg where
  "idle_ring = \<lparr>c_slots = (\<lambda>i. empty_slot), c_head = 0, c_tail = 0, c_dropped = 0, c_pc = (\<lambda>t. Idle),
     c_sent = False, published = [], sunk = []\<rparr>"

theorem tlm_ring_conserves_lines_witness:
  "\<exists>c. tlm_step\<^sup>*\<^sup>* idle_ring c \<and> c_pc c 0 = Reserved 0 [65] \<and>
     mset (sunk c) + in_ring c = mset (published c) + pending c"
proof -
  let ?c = "idle_ring\<lparr>c_head := c_head idle_ring + 1, c_pc := (c_pc idle_ring)(0 := Reserved (c_head idle_ring) [65])\<rparr>"
  have i: "cfg_init idle_ring" by (simp add: cfg_init_def idle_ring_def empty_slot_def)
  have "tlm_step idle_ring ?c"
    by (rule tlm_step.reserve) (simp_all add: idle_ring_def const_defs)
  then have r: "tlm_step\<^sup>*\<^sup>* idle_ring ?c" by (rule r_into_rtranclp)
  from tlm_ring_conserves_lines [OF i r] r show ?thesis
    by (intro exI [of _ ?c]) (simp add: idle_ring_def)
qed

text \<open>
  One dropped line stalls the writer. After the ring has filled up and one more line was
  dropped, the writer empties the 16384 slots and then waits at the index the dropped line
  had reserved, which nobody will fill: up to 16383 further lines are published and not one
  of them is drained.
\<close>

theorem tlm_drop_stalls_writer:
  fixes dropped :: bytes and now now' :: u64
  assumes "fresh_tlm s0" and "length ls = TLM_RING_SLOTS" and "length ms < TLM_RING_SLOTS"
  defines "s1 \<equiv> tlm_push dropped (fold tlm_push ls s0)"
  defines "s2 \<equiv> tlm_drain (g_head s1) now s1"
  defines "s3 \<equiv> fold tlm_push ms s2"
  shows "g_dropped s1 = g_dropped (fold tlm_push ls s0) + 1 \<and>
    g_head s3 - g_tail s3 = of_nat (Suc (length ms)) \<and> tlm_drain (g_head s3) now' s3 = s3"
proof -
  have "filled_upto 0 0 s0" using assms(1) by (simp add: fresh_tlm_def filled_upto_def)
  then have f: "filled_upto 0 TLM_RING_SLOTS (fold tlm_push ls s0)"
    "g_head (fold tlm_push ls s0) = of_nat TLM_RING_SLOTS" "g_tail (fold tlm_push ls s0) = 0"
    using tlm_pushes [of 0 0 s0 ls] assms(1,2) by (simp_all add: fresh_tlm_def)
  note d = tlm_push_drop [OF f(1,2), of dropped]
  have s1: "filled_upto 0 TLM_RING_SLOTS s1" "g_tail s1 = of_nat 0"
    "g_head s1 = of_nat (TLM_RING_SLOTS + 1)"
    using f by (simp_all add: s1_def d filled_upto_def add.commute)
  have u: "unat (g_head s1) = TLM_RING_SLOTS + 1" unfolding s1(3) by (simp add: const_defs)
  have s2: "filled_upto TLM_RING_SLOTS TLM_RING_SLOTS s2" "g_tail s2 = of_nat TLM_RING_SLOTS"
    "g_head s2 = of_nat (TLM_RING_SLOTS + 1)"
    using tlm_drain_filled [OF s1(1,2), of "g_head s1" now] u s1(3) by (simp_all add: s2_def)
  have "sl_state (g_slots s2 0) = TLM_SLOT_EMPTY"
    using s2(1) by (simp add: filled_upto_def const_defs)
  then have g: "sl_state (g_slots s3 0) = TLM_SLOT_EMPTY" "g_tail s3 = of_nat TLM_RING_SLOTS"
      "g_head s3 = of_nat (TLM_RING_SLOTS + 1 + length ms)"
    using stalled_pushes [of s2 1 ms] s2(2,3) assms(3) by (simp_all add: s3_def)
  have "slot_ix (g_tail s3) = 0" unfolding g(2) by (simp add: slot_ix_def const_defs)
  then have "tlm_drain (g_head s3) now' s3 = s3" using g(1) by (subst tlm_drain.simps) simp
  with g(2,3) d show ?thesis by (simp add: s1_def)
qed

definition tlm0 :: tlm where
  "tlm0 = \<lparr>g_slots = (\<lambda>i. empty_slot), g_head = 0, g_tail = 0, g_seq = 0, g_dropped = 0, g_enabled = True,
     g_stop = False, g_file = Some [], g_udp_open = False, g_udp_sent = [], g_role = [], g_host = [],
     g_build = [], g_git = [], g_last_sync_us = 0\<rparr>"

theorem tlm_drop_stalls_writer_witness:
  "\<exists>s. g_tail s \<noteq> g_head s \<and> tlm_drain (g_head s) 0 s = s"
proof -
  define s1 where "s1 = tlm_push [65] (fold tlm_push (replicate TLM_RING_SLOTS [65]) tlm0)"
  define s3 where "s3 = fold tlm_push [[66]] (tlm_drain (g_head s1) 0 s1)"
  have "fresh_tlm tlm0" by (simp add: fresh_tlm_def tlm0_def empty_slot_def)
  from tlm_drop_stalls_writer [OF this, of "replicate TLM_RING_SLOTS [65]" "[[66]]" "[65]" 0 0]
  have "g_head s3 - g_tail s3 = 2" "tlm_drain (g_head s3) 0 s3 = s3"
    by (simp_all add: s1_def s3_def const_defs)
  then show ?thesis by (intro exI [of _ s3]) auto
qed

text \<open>
  The telemetry datagrams, whose frame is written by hand, are the wire image the
  protocol prescribes: the decoder accepts every one of them and returns a telemetry header
  and exactly the line as its payload.
\<close>

theorem tlm_datagram_decodes:
  assumes "length line < 65535"
  shows "vmc_proto_decode (Some (tlm_frame line now)) (of_nat (17 + length line)) =
    (VMC_OK, Some ((tlm_header line now)\<lparr>ph_crc := frame_sum (tlm_header line now) line\<rparr>, line)) \<and>
    ph_stream (tlm_header line now) = VMC_PROTO_STREAM_TELEMETRY"
proof -
  have "vmc_proto_header_valid (Some (tlm_header line now))"
    by (simp add: vmc_proto_header_valid_Some tlm_header_def)
  moreover have "length line = unat (ph_payload_len (tlm_header line now))"
    using assms by (simp add: tlm_header_def unat_of_nat)
  moreover have "17 + length line \<le> unat (of_nat (17 + length line) :: sz_t)"
    using assms by (subst unat_of_nat) simp
  ultimately have "vmc_proto_decode (Some (frame_image (tlm_header line now) line @ [])) (of_nat (17 + length line)) =
      (VMC_OK, Some ((tlm_header line now)\<lparr>ph_crc := frame_sum (tlm_header line now) line\<rparr>, line @ []))"
    by (rule vmc_proto_decode_frame)
  then show ?thesis by (simp add: tlm_frame_image) (simp add: tlm_header_def)
qed

theorem tlm_datagram_decodes_witness:
  "fst (vmc_proto_decode (Some (tlm_frame [123, 125, 10] 5)) 20) = VMC_OK"
  using tlm_datagram_decodes [of "[123, 125, 10]" 5] by simp

text \<open>
  The clock synchronisation event passes on the length its text would have, not the
  length of the buffer it is cut to: with a host name, a role, a build and a revision that
  each fill their fields the sink is given more bytes than the 256-byte buffer holds.
\<close>

theorem tlm_sync_exceeds_buffer:
  assumes "length (g_host s) = 127" and "length (g_role s) = 15" and "length (g_build s) = 15"
    and "length (g_git s) = 31"
  shows "length (snprintf_buf 256 (sync_text ts seq rt s)) < length (sync_text ts seq rt s)"
  using assms by (simp add: sync_text_def snprintf_buf_def to_bytes_def)

theorem tlm_sync_exceeds_buffer_witness:
  "length (sync_text 0 0 0 (tlm0\<lparr>g_host := replicate 127 CHR ''h'', g_role := replicate 15 CHR ''r'',
     g_build := replicate 15 CHR ''b'', g_git := replicate 31 CHR ''g''\<rparr>)) > 256"
  using tlm_sync_exceeds_buffer [of "tlm0\<lparr>g_host := replicate 127 CHR ''h'', g_role := replicate 15 CHR ''r'',
     g_build := replicate 15 CHR ''b'', g_git := replicate 31 CHR ''g''\<rparr>" 0 0 0]
  by (simp add: snprintf_buf_def to_bytes_def sync_text_def)

end
