(* ===== verification/Core_Misc.thy ===== *)
theory Core_Misc
  imports Ascii_Text
begin

unbundle bit_operations_syntax

text \<open>
  The small services of the core: the texts of the status codes (\<^verbatim>\<open>src/core/error.c\<close>), the
  log level filter (\<^verbatim>\<open>src/core/logger.c\<close>), the byte swaps of
  \<^verbatim>\<open>include/vmc/core/compiler.h\<close> and the conversion of the clocks
  (\<^verbatim>\<open>src/platform/linux/time.c\<close>).
\<close>

section \<open>Status texts\<close>

definition vmc_strerror :: "vmc_status \<Rightarrow> string" where
  "vmc_strerror status =
     (if status = VMC_OK then ''success''
      else if status = VMC_ERR_GENERAL then ''general error''
      else if status = VMC_ERR_INVALID_ARG then ''invalid argument''
      else if status = VMC_ERR_NOMEM then ''out of memory''
      else if status = VMC_ERR_NOSYS then ''not implemented on this platform''
      else if status = VMC_ERR_TIMEOUT then ''operation timed out''
      else if status = VMC_ERR_BUSY then ''resource busy''
      else if status = VMC_ERR_IO then ''I/O error''
      else if status = VMC_ERR_PROTO then ''protocol violation''
      else if status = VMC_ERR_CORRUPT then ''corrupt framing / checksum''
      else if status = VMC_ERR_AGAIN then ''would block, retry''
      else if status = VMC_ERR_OVERRUN then ''queue overflow''
      else if status = VMC_ERR_NOT_FOUND then ''not found''
      else if status = VMC_ERR_INVALID_STATE then ''invalid state for operation''
      else if status = VMC_ERR_NOT_CONNECTED then ''not connected''
      else if status = VMC_ERR_OUT_OF_SYNC then ''sequence out of sync''
      else if status = VMC_ERR_NO_MEDIA then ''no playable media frame''
      else if status > 0 then ''positive application-defined status''
      else ''unknown error'')"

text \<open>The texts tell every two of the defined codes apart.\<close>

lemma vmc_strerror_inj:
  assumes "- 16 \<le> a" "a \<le> 0" "- 16 \<le> b" "b \<le> 0" "vmc_strerror a = vmc_strerror b"
  shows "a = b"
  using assms by (simp add: vmc_strerror_def status_defs split: if_splits) presburger

section \<open>Logger\<close>

datatype vmc_log_level = VMC_LOG_TRACE | VMC_LOG_DEBUG | VMC_LOG_INFO | VMC_LOG_WARN | VMC_LOG_ERROR
  | VMC_LOG_OFF

text \<open>The C enumeration admits values outside its list, so levels are passed as integers.\<close>

fun level_code :: "vmc_log_level \<Rightarrow> int" where
  "level_code VMC_LOG_TRACE = 0"
| "level_code VMC_LOG_DEBUG = 1"
| "level_code VMC_LOG_INFO = 2"
| "level_code VMC_LOG_WARN = 3"
| "level_code VMC_LOG_ERROR = 4"
| "level_code VMC_LOG_OFF = 5"

definition vmc_log_set_level :: "int \<Rightarrow> int \<Rightarrow> int" where
  "vmc_log_set_level g_log_level level =
     (if level < level_code VMC_LOG_TRACE \<or> level > level_code VMC_LOG_OFF then g_log_level else level)"

definition level_names :: "string list" where
  "level_names = [''TRACE'', ''DEBUG'', ''INFO'', ''WARN'', ''ERROR'']"

text \<open>The text sent to the standard error, \<open>None\<close> when the message is filtered out.\<close>

definition vmc_log_msg :: "int \<Rightarrow> int \<Rightarrow> string \<Rightarrow> nat \<Rightarrow> string \<Rightarrow> string option" where
  "vmc_log_msg g_log_level level file line msg =
     (if level < level_code VMC_LOG_TRACE \<or> level \<ge> level_code VMC_LOG_OFF \<or> level < g_log_level then None
      else Some (''['' @ level_names ! nat level @ ''] '' @ file @ '':'' @ dec_string line @ '': '' @
                 msg @ [CHR 0x0A]))"

text \<open>At the level \<open>OFF\<close> nothing is printed, and an out-of-range level cannot be set.\<close>

lemma vmc_log_off: "vmc_log_msg (level_code VMC_LOG_OFF) level file line msg = None"
  by (auto simp: vmc_log_msg_def)

lemma vmc_log_set_level_range:
  "0 \<le> g \<Longrightarrow> g \<le> 5 \<Longrightarrow> 0 \<le> vmc_log_set_level g l \<and> vmc_log_set_level g l \<le> 5"
  by (simp add: vmc_log_set_level_def)

section \<open>Byte swaps\<close>

definition vmc_bswap16 :: "u16 \<Rightarrow> u16" where
  "vmc_bswap16 x = push_bit 8 x OR drop_bit 8 x"

definition vmc_bswap32 :: "u32 \<Rightarrow> u32" where
  "vmc_bswap32 x = drop_bit 24 (x AND 0xff000000) OR drop_bit 8 (x AND 0x00ff0000) OR
     push_bit 8 (x AND 0x0000ff00) OR push_bit 24 (x AND 0x000000ff)"

definition vmc_bswap64 :: "u64 \<Rightarrow> u64" where
  "vmc_bswap64 x = push_bit 32 (ucast (vmc_bswap32 (ucast (x AND 0xffffffff)))) OR
     ucast (vmc_bswap32 (ucast (drop_bit 32 x)))"

lemma vmc_bswap16_involution: "vmc_bswap16 (vmc_bswap16 x) = x"
  by (rule bit_word_eqI) (auto simp: vmc_bswap16_def bit_simps)

section \<open>Clocks\<close>

text \<open>A \<open>timespec\<close> as seconds and nanoseconds.\<close>

definition vmc_time_us_of :: "u64 \<Rightarrow> nat \<Rightarrow> u64" where
  "vmc_time_us_of tv_sec tv_nsec = tv_sec * 1000000 + of_nat (tv_nsec div 1000)"

definition vmc_time_now_ms :: "u64 \<Rightarrow> nat \<Rightarrow> u64" where
  "vmc_time_now_ms tv_sec tv_nsec = vmc_time_us_of tv_sec tv_nsec div 1000"

text \<open>Within the 64-bit range the conversion is monotone in the clock.\<close>

lemma vmc_time_mono:
  assumes "s1 * 1000000000 + n1 \<le> s2 * 1000000000 + n2" and "n1 < 1000000000" and "n2 < 1000000000"
    and "s2 < 2 ^ 43"
  shows "unat (vmc_time_us_of (of_nat s1) n1) \<le> unat (vmc_time_us_of (of_nat s2) n2)"
proof -
  have us: "unat (vmc_time_us_of (of_nat s) n) = s * 1000000 + n div 1000"
    if "s < 2 ^ 43" "n < 1000000000" for s n
  proof -
    have "n div 1000 < 1000000" using that(2) by (simp add: less_mult_imp_div_less)
    then have "s * 1000000 + n div 1000 < 2 ^ 64" using that(1) by simp
    moreover have "vmc_time_us_of (of_nat s) n = of_nat (s * 1000000 + n div 1000)"
      by (simp add: vmc_time_us_of_def)
    ultimately show ?thesis by (simp only: unat_of_nat) simp
  qed
  have "s1 \<le> s2" using assms(1,2,3) by linarith
  then have b1: "s1 < 2 ^ 43" using assms(4) by simp
  have "(s * 1000000000 + n) div 1000 = s * 1000000 + n div 1000" for s n :: nat
    using div_mult_self1 [of 1000 n "s * 1000000"] by (simp add: ac_simps)
  then show ?thesis using us [OF b1 assms(2)] us [OF assms(4,3)] div_le_mono [OF assms(1), of 1000] by simp
qed

end
