(* ===== verification/Latency_Stats.thy ===== *)
theory Latency_Stats
  imports Vmc_Prelude Session_Ctx
begin

text \<open>
  End-to-end latency measurement of \<^verbatim>\<open>apps/thinclient/main.c\<close>: the clock offset derived
  from a keep-alive echo, the per-frame statistics with their histogram of one-millisecond
  buckets, and the figures of the report. All sums and counters keep their C width.
\<close>

section \<open>State\<close>

record latency =
  g_have_offset :: bool
  g_offset_us :: u32
  g_rtt_us :: u32
  g_one_way_us :: u32
  g_lat_min :: u64
  g_lat_max :: u64
  g_lat_sum :: u64
  g_lat_cnt :: u64
  g_lat_hist :: "u64 list"
  g_decode_sum :: u64
  g_decode_cnt :: u64
  g_jitter_sum :: u64
  g_handoff_sum :: u64
  g_nframe_cnt :: u64

definition latency_start :: latency where
  "latency_start = \<lparr>g_have_offset = False, g_offset_us = 0, g_rtt_us = 0, g_one_way_us = 0,
     g_lat_min = - 1, g_lat_max = 0, g_lat_sum = 0, g_lat_cnt = 0, g_lat_hist = replicate 128 0,
     g_decode_sum = 0, g_decode_cnt = 0, g_jitter_sum = 0, g_handoff_sum = 0, g_nframe_cnt = 0\<rparr>"

section \<open>Operations\<close>

text \<open>\<open>c2\<close> is the monotonic clock when the echo is handled.\<close>

definition latency_update_rtt :: "vmc_session_ctx \<Rightarrow> u32 \<Rightarrow> u64 \<Rightarrow> latency \<Rightarrow> latency" where
  "latency_update_rtt sc sim_echo_ts c2 s =
     (let c1 = sc_last_ka_send_us sc; rtt = c2 - c1
      in if c1 = 0 then s
         else if rtt \<ge> 1000000 then s
         else s\<lparr>g_rtt_us := ucast rtt, g_one_way_us := ucast (rtt div 2),
                g_offset_us := (ucast c1 + ucast (rtt div 2)) - sim_echo_ts,
                g_have_offset := True\<rparr>)"

text \<open>The latency the decode worker computes at hand-off, as the signed value it stores.\<close>

definition handoff_e2e :: "u64 \<Rightarrow> u32 \<Rightarrow> latency \<Rightarrow> u32" where
  "handoff_e2e t_handoff real_send_ts s = ucast t_handoff - real_send_ts - g_offset_us s"

definition lat_bucket :: "u64 \<Rightarrow> nat" where
  "lat_bucket e2e_us = (let b = ucast (e2e_us div 1000) :: u32 in if b \<ge> 128 then 127 else unat b)"

definition latency_record :: "u64 \<Rightarrow> u64 \<Rightarrow> u64 \<Rightarrow> u64 \<Rightarrow> latency \<Rightarrow> latency" where
  "latency_record e2e_us decode_us jitter_us handoff_us s =
     (if \<not> g_have_offset s then s
      else s\<lparr>g_decode_sum := g_decode_sum s + decode_us,
             g_decode_cnt := g_decode_cnt s + 1,
             g_jitter_sum := g_jitter_sum s + jitter_us,
             g_handoff_sum := g_handoff_sum s + handoff_us,
             g_nframe_cnt := g_nframe_cnt s + 1,
             g_lat_min := (if e2e_us < g_lat_min s then e2e_us else g_lat_min s),
             g_lat_max := (if e2e_us > g_lat_max s then e2e_us else g_lat_max s),
             g_lat_sum := g_lat_sum s + e2e_us,
             g_lat_cnt := g_lat_cnt s + 1,
             g_lat_hist := (g_lat_hist s)[lat_bucket e2e_us := g_lat_hist s ! lat_bucket e2e_us + 1]\<rparr>)"

text \<open>
  The percentile loop: the first bucket at which the running total reaches the target, and
  0 when none does.
\<close>

fun p95_scan :: "u64 \<Rightarrow> u64 \<Rightarrow> nat \<Rightarrow> u64 list \<Rightarrow> u64" where
  "p95_scan target acc i [] = 0"
| "p95_scan target acc i (x # xs) =
     (if acc + x \<ge> target then of_nat (i * 1000) else p95_scan target (acc + x) (Suc i) xs)"

record latency_figures =
  lf_avg :: u64
  lf_p95 :: u64
  lf_queue_avg :: u64
  lf_decode_avg :: u64
  lf_handoff_avg :: u64

definition latency_report :: "latency \<Rightarrow> latency_figures option" where
  "latency_report s =
     (if g_lat_cnt s = 0 then None
      else Some \<lparr>lf_avg = g_lat_sum s div g_lat_cnt s,
                 lf_p95 = p95_scan ((g_lat_cnt s * 95) div 100) 0 0 (g_lat_hist s),
                 lf_queue_avg = (if g_nframe_cnt s \<noteq> 0 then g_jitter_sum s div g_nframe_cnt s else 0),
                 lf_decode_avg = (if g_decode_cnt s \<noteq> 0 then g_decode_sum s div g_decode_cnt s else 0),
                 lf_handoff_avg = (if g_nframe_cnt s \<noteq> 0 then g_handoff_sum s div g_nframe_cnt s else 0)\<rparr>)"

section \<open>Statistics of a run\<close>

text \<open>A frame's sample: latency, decode time, queue time and hand-off time.\<close>

type_synonym sample = "u64 \<times> u64 \<times> u64 \<times> u64"

fun record_all :: "sample list \<Rightarrow> latency \<Rightarrow> latency" where
  "record_all [] s = s"
| "record_all ((e, d, j, h) # xs) s = record_all xs (latency_record e d j h s)"

definition in_bucket :: "nat \<Rightarrow> sample list \<Rightarrow> nat" where
  "in_bucket b xs = length (filter (\<lambda>x. lat_bucket (fst x) = b) xs)"

definition upto_bucket :: "nat \<Rightarrow> sample list \<Rightarrow> nat" where
  "upto_bucket b xs = length (filter (\<lambda>x. lat_bucket (fst x) \<le> b) xs)"

lemma lat_bucket_less [simp]: "lat_bucket e < 128"
  by (auto simp: lat_bucket_def Let_def word_le_nat_alt not_le)

lemma latency_record_simps:
  assumes "g_have_offset s"
  shows "g_lat_cnt (latency_record e d j h s) = g_lat_cnt s + 1"
    and "g_lat_hist (latency_record e d j h s) =
          (g_lat_hist s)[lat_bucket e := g_lat_hist s ! lat_bucket e + 1]"
    and "g_have_offset (latency_record e d j h s)"
    and "g_lat_min (latency_record e d j h s) = min e (g_lat_min s)"
    and "g_lat_max (latency_record e d j h s) = max e (g_lat_max s)"
    and "g_lat_sum (latency_record e d j h s) = g_lat_sum s + e"
  using assms by (auto simp: latency_record_def min_def max_def)

lemma record_all_hist:
  "g_have_offset s \<Longrightarrow> length (g_lat_hist s) = 128 \<Longrightarrow> b < 128 \<Longrightarrow>
    g_lat_hist (record_all xs s) ! b = g_lat_hist s ! b + of_nat (in_bucket b xs) \<and>
    length (g_lat_hist (record_all xs s)) = 128"
proof (induction xs s rule: record_all.induct)
  case (2 e d j h xs s)
  then show ?case
    by (auto simp: latency_record_simps in_bucket_def nth_list_update)
qed (simp add: in_bucket_def)

lemma record_all_cnt:
  "g_have_offset s \<Longrightarrow> g_lat_cnt (record_all xs s) = g_lat_cnt s + of_nat (length xs)"
  by (induction xs s rule: record_all.induct) (simp_all add: latency_record_simps)

lemma record_all_extremes:
  "g_have_offset s \<Longrightarrow> g_lat_min (record_all xs s) = Min (insert (g_lat_min s) (fst ` set xs)) \<and>
    g_lat_max (record_all xs s) = Max (insert (g_lat_max s) (fst ` set xs))"
proof (induction xs s rule: record_all.induct)
  case (2 e d j h xs s)
  have a: "Min (insert (min e m) A) = Min (insert m (insert e A))" if "finite A" for m and A :: "u64 set"
    using that by (cases "A = {}") (simp_all add: min.left_commute min.commute)
  have b: "Max (insert (max e m) A) = Max (insert m (insert e A))" if "finite A" for m and A :: "u64 set"
    using that by (cases "A = {}") (simp_all add: max.left_commute max.commute)
  show ?case using 2 by (simp add: latency_record_simps a b)
qed simp

section \<open>The percentile\<close>

lemma in_bucket_upto_Suc: "upto_bucket (Suc b) xs = upto_bucket b xs + in_bucket (Suc b) xs"
  by (induction xs) (auto simp: upto_bucket_def in_bucket_def)

lemma upto_bucket_0: "upto_bucket 0 xs = in_bucket 0 xs"
  by (simp add: upto_bucket_def in_bucket_def)

lemma upto_bucket_all: "upto_bucket 127 xs = length xs"
  using lat_bucket_less by (simp add: upto_bucket_def less_Suc_eq_le [symmetric] filter_id_conv)

lemma upto_bucket_le: "upto_bucket b xs \<le> length xs"
  by (simp add: upto_bucket_def)

definition below_bucket :: "nat \<Rightarrow> sample list \<Rightarrow> nat" where
  "below_bucket b xs = length (filter (\<lambda>x. lat_bucket (fst x) < b) xs)"

lemma below_bucket_Suc: "below_bucket (Suc b) xs = upto_bucket b xs"
  by (simp add: below_bucket_def upto_bucket_def less_Suc_eq_le)

lemma below_bucket_add: "below_bucket b xs + in_bucket b xs = upto_bucket b xs"
  by (cases b) (simp_all add: below_bucket_Suc in_bucket_upto_Suc upto_bucket_0,
      simp add: below_bucket_def)

text \<open>
  The scan over the histogram of \<open>xs\<close> from bucket \<open>i\<close> stops at the least bucket whose
  cumulative count reaches the target.
\<close>

lemma p95_scan_least:
  assumes "length xs < 2 ^ 64" and "unat target \<le> length xs"
    and "i + length hs = 128" and "0 < length hs"
    and "\<forall>k < length hs. hs ! k = of_nat (in_bucket (i + k) xs)"
  shows "\<exists>b < 128. i \<le> b \<and> p95_scan target (of_nat (below_bucket i xs)) i hs = of_nat (b * 1000) \<and>
     unat target \<le> upto_bucket b xs \<and> (\<forall>c. i \<le> c \<longrightarrow> c < b \<longrightarrow> upto_bucket c xs < unat target)"
  using assms(3-5)
proof (induction hs arbitrary: i)
  case (Cons x hs)
  have x: "x = of_nat (in_bucket i xs)" using Cons.prems(3) by force
  have acc: "of_nat (below_bucket i xs) + x = (of_nat (upto_bucket i xs) :: u64)"
    by (simp add: x flip: below_bucket_add)
  have unat_upto: "unat (of_nat (upto_bucket i xs) :: u64) = upto_bucket i xs"
    using le_less_trans [OF upto_bucket_le assms(1)] by (simp add: unat_of_nat take_bit_nat_eq_self)
  show ?case
  proof (cases "unat target \<le> upto_bucket i xs")
    case True
    then show ?thesis using Cons.prems by (intro exI [of _ i]) (simp add: acc word_le_nat_alt unat_upto)
  next
    case False
    have ne: "hs \<noteq> []"
      using False Cons.prems(1) assms(2) upto_bucket_all [of xs] by (cases hs) auto
    have "\<forall>k < length hs. hs ! k = of_nat (in_bucket (Suc i + k) xs)"
      using Cons.prems(3) by fastforce
    with Cons.IH [of "Suc i"] ne Cons.prems(1)
    obtain b where b: "b < 128" "Suc i \<le> b"
        "p95_scan target (of_nat (below_bucket (Suc i) xs)) (Suc i) hs = of_nat (b * 1000)"
        "unat target \<le> upto_bucket b xs" "\<forall>c. Suc i \<le> c \<longrightarrow> c < b \<longrightarrow> upto_bucket c xs < unat target"
      by auto
    moreover have "\<forall>c. i \<le> c \<longrightarrow> c < b \<longrightarrow> upto_bucket c xs < unat target"
      using b(5) False by (metis not_le not_less_eq_eq antisym)
    ultimately show ?thesis
      using False by (intro exI [of _ b]) (simp add: acc word_le_nat_alt unat_upto below_bucket_Suc)
  qed
qed simp

lemma half_close:
  assumes "a \<le> (r :: nat)" shows "2 * \<bar>int a - int (r div 2)\<bar> \<le> int r + 1"
proof -
  define q m where "q = int (r div 2)" and "m = int (r mod 2)"
  have "int r = 2 * q + m"
    unfolding q_def m_def by (metis mult_div_mod_eq of_nat_add of_nat_mult of_nat_numeral)
  moreover have "0 \<le> m" "m < 2" "0 \<le> q" by (simp_all add: q_def m_def)
  moreover have "int a \<le> int r" "0 \<le> int a" using assms by simp_all
  ultimately have "2 * (int a - q) \<le> int r + 1" "2 * (q - int a) \<le> int r + 1"
    by simp_all
  then show ?thesis unfolding q_def by (simp add: abs_if)
qed

section \<open>Properties\<close>

text \<open>
  The percentile of the report is a true order statistic of the recorded frames. After any
  run of fewer than 2^57 frames on fresh statistics with a known clock offset, the reported
  p95 is a thousand times the least millisecond bucket up to which at least 95 per cent
  (rounded down) of the frames fall, the histogram counts every frame once, and the minimum
  and maximum are those of the samples.
\<close>

theorem latency_percentile:
  assumes "g_have_offset s" "g_lat_cnt s = 0" "g_lat_hist s = replicate 128 0" "g_lat_min s = - 1"
    "g_lat_max s = 0" "xs \<noteq> []" "length xs < 2 ^ 57"
  shows "\<exists>f b. latency_report (record_all xs s) = Some f \<and> b < 128 \<and> lf_p95 f = of_nat (b * 1000) \<and>
      length xs * 95 div 100 \<le> upto_bucket b xs \<and>
      (\<forall>c. c < b \<longrightarrow> upto_bucket c xs < length xs * 95 div 100) \<and>
      (\<forall>k < 128. unat (g_lat_hist (record_all xs s) ! k) = in_bucket k xs) \<and>
      g_lat_min (record_all xs s) = Min (fst ` set xs) \<and>
      g_lat_max (record_all xs s) = Max (fst ` set xs)"
proof -
  let ?s = "record_all xs s" and ?n = "length xs"
  have cnt: "g_lat_cnt ?s = of_nat ?n" using assms by (simp add: record_all_cnt)
  have un: "unat (of_nat m :: u64) = m" if "m \<le> ?n" for m
    using that assms(7) by (simp add: unat_of_nat take_bit_nat_eq_self)
  have hist: "length (g_lat_hist ?s) = 128" "\<forall>k < 128. g_lat_hist ?s ! k = of_nat (in_bucket k xs)"
    using record_all_hist [of s 0 xs] record_all_hist [of s _ xs] assms(1,3) by simp_all
  have "unat (of_nat ?n * 95 :: u64) = ?n * 95"
    using assms(7) by (subst unat_mult_lem [THEN iffD1]) (simp_all add: un)
  then have target: "unat (g_lat_cnt ?s * 95 div 100) = ?n * 95 div 100"
    by (simp add: cnt unat_div)
  obtain b where b: "b < 128" "p95_scan (g_lat_cnt ?s * 95 div 100) 0 0 (g_lat_hist ?s) = of_nat (b * 1000)"
      "?n * 95 div 100 \<le> upto_bucket b xs" "\<forall>c. c < b \<longrightarrow> upto_bucket c xs < ?n * 95 div 100"
    using p95_scan_least [of xs "g_lat_cnt ?s * 95 div 100" 0 "g_lat_hist ?s"] hist assms(7) target
      div_le_mono [of "?n * 95" "?n * 100" 100]
    by (auto simp: below_bucket_def)
  have pos: "g_lat_cnt ?s \<noteq> 0" using un [of ?n] assms(6) cnt by (metis length_0_conv order.refl unat_0)
  have ext: "g_lat_min ?s = Min (fst ` set xs)" "g_lat_max ?s = Max (fst ` set xs)"
  proof -
    have "finite (fst ` set xs)" "fst ` set xs \<noteq> {}" using assms(6) by auto
    then show "g_lat_min ?s = Min (fst ` set xs)" "g_lat_max ?s = Max (fst ` set xs)"
      using record_all_extremes [OF assms(1), of xs] assms(4,5)
      by (simp_all add: min.absorb2 max.absorb2)
  qed
  have "in_bucket k xs \<le> ?n" for k by (simp add: in_bucket_def)
  then have "\<forall>k < 128. unat (g_lat_hist ?s ! k) = in_bucket k xs" using hist un by simp
  then show ?thesis using b ext pos by (auto simp: latency_report_def)
qed

definition offset_known :: latency where
  "offset_known = latency_start\<lparr>g_have_offset := True\<rparr>"

theorem latency_percentile_witness:
  "\<exists>f b. latency_report (record_all [(5000, 1, 1, 1), (7000, 1, 1, 1)] offset_known) = Some f \<and>
     b < 128 \<and> lf_p95 f = of_nat (b * 1000)"
  using latency_percentile [of offset_known "[(5000, 1, 1, 1), (7000, 1, 1, 1)]"]
  by (auto simp: offset_known_def latency_start_def)

text \<open>
  C0: Accuracy of the measured latency. Let the sender's 32-bit clock lag the client's by any
  constant \<open>D\<close>, and let the echo of a keep-alive sent at \<open>c1\<close> leave the sender \<open>fwd\<close>
  microseconds later and be handled at \<open>c2\<close>, a round trip of less than a second. Then the
  latency computed for a frame sent at client time \<open>t_send\<close> and handed off at \<open>t\<close> differs
  from the true one by \<open>fwd\<close> minus half the round trip, hence by at most half a round trip,
  across wrap-around of the 32-bit clocks.
\<close>

theorem latency_e2e_error:
  assumes c1: "sc_last_ka_send_us sc = c1" "c1 \<noteq> 0"
    and rtt: "c2 - c1 < 1000000" and fwd: "fwd \<le> c2 - c1"
    and s1: "s1 = latency_update_rtt sc (ucast (c1 + fwd) - D) c2 s"
  shows "sint (handoff_e2e t (ucast t_send - D) s1 - ucast (t - t_send))
            = int (unat fwd) - int (unat (c2 - c1) div 2) \<and>
         2 * \<bar>sint (handoff_e2e t (ucast t_send - D) s1 - ucast (t - t_send))\<bar> \<le> int (unat (c2 - c1)) + 1"
proof -
  let ?r = "c2 - c1"
  have sub: "ucast (a - b) = (ucast a - ucast b :: u32)" for a b :: u64
    by (simp add: ucast_down_sub)
  have add: "ucast (a + b) = (ucast a + ucast b :: u32)" for a b :: u64
    by (simp add: ucast_down_add)
  have ucast_of_int: "ucast w = (word_of_int (int (unat w)) :: u32)" for w :: u64
    by transfer simp
  have "g_offset_us s1 = D + ucast (?r div 2) - ucast fwd"
    using c1 rtt by (simp add: s1 latency_update_rtt_def Let_def add flip: not_le)
  then have e: "handoff_e2e t (ucast t_send - D) s1 - ucast (t - t_send) = ucast fwd - ucast (?r div 2)"
    by (simp add: handoff_e2e_def sub)
  have r: "unat ?r < 1000000" "unat fwd \<le> unat ?r"
    using rtt fwd by (simp_all add: word_less_nat_alt word_le_nat_alt)
  have small: "sint (word_of_int z :: u32) = z" if "\<bar>z\<bar> < 1000000" for z
    using that by (subst signed_of_int) (simp add: signed_take_bit_int_eq_self_iff abs_less_iff)
  have half: "unat (?r div 2) = unat ?r div 2" by (simp add: unat_div)
  have "ucast fwd - ucast (?r div 2) = (word_of_int (int (unat fwd) - int (unat ?r div 2)) :: u32)"
    by (simp only: ucast_of_int half wi_hom_sub)
  moreover have "\<bar>int (unat fwd) - int (unat ?r div 2)\<bar> < 1000000" using r by linarith
  ultimately have v: "sint (ucast fwd - ucast (?r div 2) :: u32) = int (unat fwd) - int (unat ?r div 2)"
    using small by metis
  have "2 * \<bar>int (unat fwd) - int (unat ?r div 2)\<bar> \<le> int (unat ?r) + 1" using r(2) by (rule half_close)
  then show ?thesis unfolding e v by simp
qed

definition ka_ctx :: vmc_session_ctx where
  "ka_ctx = \<lparr>sc_sm = \<lparr>ss_state = VMC_SESSION_ACTIVE, ss_cb = no_callbacks, ss_user = 0, ss_retries = 0\<rparr>,
     sc_cfg = \<lparr>cfg_container_host = [], cfg_container_port = 0, cfg_keepalive_ms = 0,
       cfg_link_timeout_ms = 0\<rparr>, sc_last_rx_ms = 0, sc_last_keepalive_ms = 0,
     sc_last_ka_send_us = 4294967000, sc_tx_seq = 0, sc_keepalive_interval_ms = 0\<rparr>"

theorem latency_e2e_error_witness:
  "2 * \<bar>sint (handoff_e2e 4294980000 (ucast (4294970000 :: u64) - 77)
       (latency_update_rtt ka_ctx (ucast (4294967000 + 300 :: u64) - 77) 4294968000 latency_start)
       - ucast (4294980000 - 4294970000 :: u64))\<bar> \<le> int (unat (4294968000 - 4294967000 :: u64)) + 1"
  using latency_e2e_error [of ka_ctx 4294967000 4294968000 300
      "latency_update_rtt ka_ctx (ucast (4294967000 + 300 :: u64) - 77) 4294968000 latency_start"
      77 latency_start 4294980000 4294970000]
  by (simp add: ka_ctx_def)

end
