(* ===== verification/Frame_Slots.thy ===== *)
theory Frame_Slots
  imports Fragment_Assembler "HOL-Library.Multiset"
begin

text \<open>
  The pool of frame slots between the threads that publish access units and the decode
  worker (\<^verbatim>\<open>apps/thinclient/main.c\<close>): taking a free slot, publishing, picking the slot to
  decode, releasing. Each operation is one critical section of the mutex \<^verbatim>\<open>g_fmu\<close>; waiting
  on a condition variable is the result \<open>None\<close>. The relation \<open>slot_step\<close> interleaves any
  number of publishing threads with the decode worker, one critical section at a time.
  Signed C integers are \<open>int\<close>.
\<close>

section \<open>State and operations\<close>

definition VMC_FRAME_SLOTS :: nat where [const_defs]: "VMC_FRAME_SLOTS = 512"

datatype slot_state = SLOT_FREE | SLOT_READY | SLOT_DECODING | SLOT_WRITING

record vmc_frame_slot =
  fs_buf :: bytes
  fs_len :: nat
  fs_send_ts :: u32
  fs_pub_us :: u64
  fs_deadline_us :: u64
  fs_fidx :: u32
  fs_pts_us :: int
  fs_seg :: int
  fs_state :: slot_state

type_synonym frame_slots = "vmc_frame_slot list"

definition set_state :: "slot_state \<Rightarrow> vmc_frame_slot \<Rightarrow> vmc_frame_slot" where
  "set_state st sl = sl\<lparr>fs_state := st\<rparr>"

definition slot_take_write :: "frame_slots \<Rightarrow> (nat \<times> frame_slots) option" where
  "slot_take_write fs =
     (case first_index (\<lambda>sl. fs_state sl = SLOT_FREE) fs of
        None \<Rightarrow> None
      | Some i \<Rightarrow> Some (i, fs[i := set_state SLOT_WRITING (fs ! i)]))"

definition slot_publish ::
  "nat \<Rightarrow> nat \<Rightarrow> u32 \<Rightarrow> u64 \<Rightarrow> u32 \<Rightarrow> int \<Rightarrow> int \<Rightarrow> u64 \<Rightarrow> frame_slots \<Rightarrow> frame_slots" where
  "slot_publish idx len send_ts deadline_us fidx pts_us seg now fs =
     fs[idx := (fs ! idx)\<lparr>fs_len := len, fs_send_ts := send_ts, fs_pub_us := now,
          fs_deadline_us := deadline_us, fs_fidx := fidx, fs_pts_us := pts_us, fs_seg := seg,
          fs_state := SLOT_READY\<rparr>]"

definition slot_release :: "nat \<Rightarrow> frame_slots \<Rightarrow> frame_slots" where
  "slot_release idx fs = fs[idx := set_state SLOT_FREE (fs ! idx)]"

text \<open>The scan of the decode worker: the ready slot with the least deadline below \<open>best\<close>.\<close>

fun pick_scan :: "nat \<Rightarrow> u64 \<Rightarrow> nat option \<Rightarrow> frame_slots \<Rightarrow> nat option" where
  "pick_scan i best idx [] = idx"
| "pick_scan i best idx (sl # fs) =
     (if fs_state sl = SLOT_READY \<and> fs_deadline_us sl < best
      then pick_scan (Suc i) (fs_deadline_us sl) (Some i) fs
      else pick_scan (Suc i) best idx fs)"

definition slot_pick :: "frame_slots \<Rightarrow> nat option" where
  "slot_pick fs = pick_scan 0 (- 1) None fs"

definition slot_mark_decoding :: "nat \<Rightarrow> frame_slots \<Rightarrow> frame_slots" where
  "slot_mark_decoding idx fs = fs[idx := set_state SLOT_DECODING (fs ! idx)]"

text \<open>
  One access unit of the stream client: the copy into the slot and its publication, or the
  slot handed back when the unit does not fit. The copy happens outside the mutex, on a slot
  that only this thread owns.
\<close>

definition slot_fill :: "nat \<Rightarrow> bytes \<Rightarrow> frame_slots \<Rightarrow> frame_slots" where
  "slot_fill idx data fs = fs[idx := (fs ! idx)\<lparr>fs_buf := mem_write (fs_buf (fs ! idx)) 0 data\<rparr>]"

definition dash_publish_au ::
  "bytes \<Rightarrow> u64 \<Rightarrow> u32 \<Rightarrow> int \<Rightarrow> int \<Rightarrow> u64 \<Rightarrow> frame_slots \<Rightarrow> frame_slots option" where
  "dash_publish_au data deadline_us fidx pts_us seg now fs =
     (case slot_take_write fs of
        None \<Rightarrow> None
      | Some (idx, fs1) \<Rightarrow>
          if length data \<le> length (fs_buf (fs1 ! idx))
          then Some (slot_publish idx (length data) 0 deadline_us fidx pts_us seg now
                       (slot_fill idx data fs1))
          else Some (slot_release idx fs1))"

text \<open>
  The datagram client: the completed unit in the write slot \<open>w\<close> is published with deadline 0,
  and the next free slot becomes the write slot.
\<close>

definition udp_publish :: "nat \<Rightarrow> u32 \<Rightarrow> u32 \<Rightarrow> u64 \<Rightarrow> nat \<Rightarrow> frame_slots \<Rightarrow> (nat \<times> frame_slots) option" where
  "udp_publish au_len ts_us fidx now w fs =
     slot_take_write (slot_publish w au_len ts_us 0 fidx (int (unat fidx) * 1000) 0 now fs)"

text \<open>The access unit held by a slot.\<close>

definition slot_au :: "vmc_frame_slot \<Rightarrow> u32 \<times> bytes" where
  "slot_au sl = (fs_fidx sl, take (fs_len sl) (fs_buf sl))"

section \<open>The pick of the decode worker\<close>

definition ready_below :: "u64 \<Rightarrow> vmc_frame_slot \<Rightarrow> bool" where
  "ready_below best sl \<longleftrightarrow> fs_state sl = SLOT_READY \<and> fs_deadline_us sl < best"

text \<open>Slot \<open>k\<close> is ready with the least deadline, the first one of that deadline.\<close>

definition least_ready :: "frame_slots \<Rightarrow> nat \<Rightarrow> bool" where
  "least_ready fs k \<longleftrightarrow> k < length fs \<and> fs_state (fs ! k) = SLOT_READY \<and>
     (\<forall>j < length fs. fs_state (fs ! j) = SLOT_READY \<longrightarrow> fs_deadline_us (fs ! k) \<le> fs_deadline_us (fs ! j)) \<and>
     (\<forall>j < k. fs_state (fs ! j) = SLOT_READY \<longrightarrow> fs_deadline_us (fs ! k) < fs_deadline_us (fs ! j))"

lemma least_ready_first:
  "fs_state sl = SLOT_READY \<Longrightarrow> \<forall>sl' \<in> set fs. \<not> ready_below (fs_deadline_us sl) sl' \<Longrightarrow>
    least_ready (sl # fs) 0"
  by (auto simp: least_ready_def ready_below_def nth_Cons not_less split: nat.splits)

lemma least_ready_later:
  "least_ready fs k \<Longrightarrow> fs_state sl = SLOT_READY \<longrightarrow> fs_deadline_us (fs ! k) < fs_deadline_us sl \<Longrightarrow>
    least_ready (sl # fs) (Suc k)"
  by (auto simp: least_ready_def nth_Cons split: nat.splits)

lemma pick_scan_cases:
  "(pick_scan i best idx fs = idx \<and> (\<forall>sl \<in> set fs. \<not> ready_below best sl)) \<or>
   (\<exists>k. pick_scan i best idx fs = Some (i + k) \<and> fs_deadline_us (fs ! k) < best \<and> least_ready fs k)"
proof (induction i best idx fs rule: pick_scan.induct)
  case (2 i best idx sl fs)
  show ?case
  proof (cases "ready_below best sl")
    case True
    then have sl: "fs_state sl = SLOT_READY" "fs_deadline_us sl < best" by (simp_all add: ready_below_def)
    with 2(1) consider "pick_scan (Suc i) (fs_deadline_us sl) (Some i) fs = Some i"
        "\<forall>sl' \<in> set fs. \<not> ready_below (fs_deadline_us sl) sl'"
      | k where "pick_scan (Suc i) (fs_deadline_us sl) (Some i) fs = Some (Suc i + k)"
        "fs_deadline_us (fs ! k) < fs_deadline_us sl" "least_ready fs k" by blast
    then show ?thesis
    proof cases
      case 1
      then show ?thesis using sl by (intro disjI2 exI [of _ 0]) (simp add: least_ready_first)
    next
      case (2 k)
      then show ?thesis using sl by (intro disjI2 exI [of _ "Suc k"]) (simp add: least_ready_later)
    qed
  next
    case False
    then have step: "pick_scan i best idx (sl # fs) = pick_scan (Suc i) best idx fs"
      by (auto simp: ready_below_def)
    from False 2(2) consider "pick_scan (Suc i) best idx fs = idx" "\<forall>sl' \<in> set fs. \<not> ready_below best sl'"
      | k where "pick_scan (Suc i) best idx fs = Some (Suc i + k)" "fs_deadline_us (fs ! k) < best"
        "least_ready fs k" by (auto simp: ready_below_def)
    then show ?thesis
    proof cases
      case 1
      then show ?thesis using False step by simp
    next
      case (2 k)
      moreover have "fs_state sl = SLOT_READY \<longrightarrow> fs_deadline_us (fs ! k) < fs_deadline_us sl"
        using False 2(2) by (auto simp: ready_below_def)
      ultimately show ?thesis
        by (intro disjI2 exI [of _ "Suc k"]) (simp add: step least_ready_later del: pick_scan.simps)
    qed
  qed
qed simp

lemma slot_pick_Some: "slot_pick fs = Some k \<Longrightarrow> least_ready fs k"
  using pick_scan_cases [of 0 "- 1" None fs] by (auto simp: slot_pick_def)

lemma slot_pick_None:
  "slot_pick fs = None \<longleftrightarrow> (\<forall>sl \<in> set fs. fs_state sl = SLOT_READY \<longrightarrow> fs_deadline_us sl = - 1)"
proof
  assume "slot_pick fs = None"
  then show "\<forall>sl \<in> set fs. fs_state sl = SLOT_READY \<longrightarrow> fs_deadline_us sl = - 1"
    using pick_scan_cases [of 0 "- 1" None fs]
    by (auto simp: slot_pick_def ready_below_def not_less word_order.extremum_unique)
next
  assume a: "\<forall>sl \<in> set fs. fs_state sl = SLOT_READY \<longrightarrow> fs_deadline_us sl = - 1"
  show "slot_pick fs = None"
    using pick_scan_cases [of 0 "- 1" None fs] a
    by (auto simp: slot_pick_def least_ready_def)
qed

section \<open>Publishers and the decode worker, interleaved\<close>

text \<open>
  A publishing thread owns at most one slot (\<open>writer t\<close>). The decode worker has picked a
  slot, marked it, or finished decoding it. The logs collect the access units published and
  the ones handed to the decoder, by frame index and contents.
\<close>

datatype decoder_pc = D_Idle | D_Picked nat | D_Decoding nat | D_Done nat

record slots_cfg =
  frames :: frame_slots
  writer :: "nat \<Rightarrow> nat option"
  decoder :: decoder_pc
  published :: "(u32 \<times> bytes) list"
  decoded :: "(u32 \<times> bytes) list"

inductive slot_step :: "slots_cfg \<Rightarrow> slots_cfg \<Rightarrow> bool" where
  take: "writer c t = None \<Longrightarrow> slot_take_write (frames c) = Some (i, fs) \<Longrightarrow>
    slot_step c (c\<lparr>frames := fs, writer := (writer c)(t := Some i)\<rparr>)"
| fill: "writer c t = Some i \<Longrightarrow> length data \<le> length (fs_buf (frames c ! i)) \<Longrightarrow>
    slot_step c (c\<lparr>frames := slot_fill i data (frames c)\<rparr>)"
| publish: "writer c t = Some i \<Longrightarrow> len \<le> length (fs_buf (frames c ! i)) \<Longrightarrow>
    slot_step c (c\<lparr>frames := slot_publish i len send_ts deadline fidx pts seg now (frames c),
      writer := (writer c)(t := None),
      published := published c @ [(fidx, List.take len (fs_buf (frames c ! i)))]\<rparr>)"
| abandon: "writer c t = Some i \<Longrightarrow>
    slot_step c (c\<lparr>frames := slot_release i (frames c), writer := (writer c)(t := None)\<rparr>)"
| pick: "decoder c = D_Idle \<Longrightarrow> slot_pick (frames c) = Some i \<Longrightarrow>
    slot_step c (c\<lparr>decoder := D_Picked i\<rparr>)"
| mark: "decoder c = D_Picked i \<Longrightarrow>
    slot_step c (c\<lparr>frames := slot_mark_decoding i (frames c), decoder := D_Decoding i\<rparr>)"
| decode: "decoder c = D_Decoding i \<Longrightarrow>
    slot_step c (c\<lparr>decoder := D_Done i, decoded := decoded c @ [slot_au (frames c ! i)]\<rparr>)"
| release: "decoder c = D_Done i \<Longrightarrow>
    slot_step c (c\<lparr>frames := slot_release i (frames c), decoder := D_Idle\<rparr>)"

inductive_cases slot_stepE: "slot_step c c'"

definition ready_aus :: "frame_slots \<Rightarrow> (u32 \<times> bytes) multiset" where
  "ready_aus fs = mset (map slot_au (filter (\<lambda>sl. fs_state sl = SLOT_READY) fs))"

text \<open>The access unit that is marked but not yet handed to the decoder.\<close>

fun in_decoder :: "decoder_pc \<Rightarrow> frame_slots \<Rightarrow> (u32 \<times> bytes) multiset" where
  "in_decoder (D_Decoding i) fs = {#slot_au (fs ! i)#}"
| "in_decoder _ fs = {#}"

fun decoder_owns :: "decoder_pc \<Rightarrow> nat \<Rightarrow> bool" where
  "decoder_owns (D_Decoding i) j \<longleftrightarrow> i = j"
| "decoder_owns (D_Done i) j \<longleftrightarrow> i = j"
| "decoder_owns _ j \<longleftrightarrow> False"

fun decoder_ok :: "decoder_pc \<Rightarrow> frame_slots \<Rightarrow> bool" where
  "decoder_ok D_Idle fs \<longleftrightarrow> True"
| "decoder_ok (D_Picked i) fs \<longleftrightarrow> i < length fs \<and> fs_state (fs ! i) = SLOT_READY"
| "decoder_ok (D_Decoding i) fs \<longleftrightarrow> i < length fs \<and> fs_state (fs ! i) = SLOT_DECODING"
| "decoder_ok (D_Done i) fs \<longleftrightarrow> i < length fs \<and> fs_state (fs ! i) = SLOT_DECODING"

definition slots_inv :: "slots_cfg \<Rightarrow> bool" where
  "slots_inv c \<longleftrightarrow>
     (\<forall>t i. writer c t = Some i \<longrightarrow> i < length (frames c) \<and> fs_state (frames c ! i) = SLOT_WRITING) \<and>
     (\<forall>t u i. writer c t = Some i \<longrightarrow> writer c u = Some i \<longrightarrow> t = u) \<and>
     decoder_ok (decoder c) (frames c)"

definition aus_conserved :: "slots_cfg \<Rightarrow> bool" where
  "aus_conserved c \<longleftrightarrow>
     mset (published c) = mset (decoded c) + ready_aus (frames c) + in_decoder (decoder c) (frames c)"

definition ready_of :: "vmc_frame_slot \<Rightarrow> (u32 \<times> bytes) multiset" where
  "ready_of sl = (if fs_state sl = SLOT_READY then {#slot_au sl#} else {#})"

lemma ready_aus_append: "ready_aus (xs @ ys) = ready_aus xs + ready_aus ys"
  by (simp add: ready_aus_def)

lemma ready_aus_Cons: "ready_aus (x # xs) = ready_of x + ready_aus xs"
  by (simp add: ready_aus_def ready_of_def)

lemma ready_aus_update:
  assumes "i < length fs"
  shows "ready_aus (fs[i := sl]) + ready_of (fs ! i) = ready_aus fs + ready_of sl"
proof -
  have "ready_aus fs = ready_aus (take i fs @ fs ! i # drop (Suc i) fs)"
    using set_update_split(1) [OF assms] by simp
  then show ?thesis
    by (simp add: set_update_split(2) [OF assms] ready_aus_append ready_aus_Cons)
qed

text \<open>Changing a slot that is not ready before or after keeps the ready units.\<close>

lemma ready_aus_quiet:
  "i < length fs \<Longrightarrow> fs_state (fs ! i) \<noteq> SLOT_READY \<Longrightarrow> fs_state sl \<noteq> SLOT_READY \<Longrightarrow>
    ready_aus (fs[i := sl]) = ready_aus fs"
  using ready_aus_update [of i fs sl] by (simp add: ready_of_def)

lemma slot_take_write_Some:
  assumes "slot_take_write fs = Some (i, fs')"
  shows "i < length fs" "fs_state (fs ! i) = SLOT_FREE" "fs' = fs[i := set_state SLOT_WRITING (fs ! i)]"
    "\<forall>j < i. fs_state (fs ! j) \<noteq> SLOT_FREE"
  using assms first_index_Some [of "\<lambda>sl. fs_state sl = SLOT_FREE" fs]
  by (auto simp: slot_take_write_def split: option.splits)

lemmas slot_op_defs = slot_fill_def slot_publish_def slot_release_def slot_mark_decoding_def set_state_def

lemma decoder_ok_update:
  "decoder_ok d fs \<Longrightarrow> fs_state (fs ! i) \<noteq> SLOT_DECODING \<Longrightarrow> fs_state (fs ! i) \<noteq> SLOT_READY \<Longrightarrow>
    decoder_ok d (fs[i := sl])"
  by (cases d) (auto, (metis nth_list_update_neq)+)

lemma slot_step_inv: "slot_step c c' \<Longrightarrow> slots_inv c \<Longrightarrow> slots_inv c'"
proof (induction rule: slot_step.induct)
  case (take c t i fs)
  note w = slot_take_write_Some [OF take(2)]
  have "decoder_ok (decoder c) fs" using take w by (simp add: slots_inv_def decoder_ok_update)
  with take w show ?case by (auto simp: slots_inv_def set_state_def nth_list_update)
next
  case (fill c t i data)
  then have "decoder_ok (decoder c) (slot_fill i data (frames c))"
    by (auto simp: slots_inv_def slot_fill_def intro!: decoder_ok_update)
  with fill show ?case by (auto simp: slots_inv_def slot_fill_def nth_list_update)
next
  case (publish c t i len fidx send_ts deadline pts seg now)
  then have "decoder_ok (decoder c) (slot_publish i len send_ts deadline fidx pts seg now (frames c))"
    by (auto simp: slots_inv_def slot_publish_def intro!: decoder_ok_update)
  with publish show ?case by (auto simp: slots_inv_def slot_publish_def nth_list_update)
next
  case (abandon c t i)
  then have "decoder_ok (decoder c) (slot_release i (frames c))"
    by (auto simp: slots_inv_def slot_release_def intro!: decoder_ok_update)
  with abandon show ?case by (auto simp: slots_inv_def slot_release_def nth_list_update)
next
  case (pick c i)
  then show ?case using slot_pick_Some [of "frames c" i] by (auto simp: slots_inv_def least_ready_def)
next
  case (mark c i)
  then show ?case by (auto simp: slots_inv_def slot_op_defs nth_list_update)
next
  case (decode c i)
  then show ?case by (auto simp: slots_inv_def)
next
  case (release c i)
  then show ?case by (auto simp: slots_inv_def slot_op_defs nth_list_update)
qed

lemma in_decoder_update:
  "decoder_ok d fs \<Longrightarrow> fs_state (fs ! i) \<noteq> SLOT_DECODING \<Longrightarrow>
    in_decoder d (fs[i := sl]) = in_decoder d fs"
  by (cases d) (auto, metis nth_list_update_neq)

lemma slot_step_conserved: "slot_step c c' \<Longrightarrow> slots_inv c \<Longrightarrow> aus_conserved c \<Longrightarrow> aus_conserved c'"
proof (induction rule: slot_step.induct)
  case (take c t i fs)
  note w = slot_take_write_Some [OF take(2)]
  have "ready_aus fs = ready_aus (frames c)" using w by (simp add: ready_aus_quiet set_state_def)
  moreover have "in_decoder (decoder c) fs = in_decoder (decoder c) (frames c)"
    using take w by (simp add: slots_inv_def in_decoder_update)
  ultimately show ?case using take by (simp add: aus_conserved_def)
next
  case (fill c t i data)
  then have i: "i < length (frames c)" "fs_state (frames c ! i) = SLOT_WRITING" "decoder_ok (decoder c) (frames c)"
    by (auto simp: slots_inv_def)
  then show ?case using fill by (simp add: aus_conserved_def slot_fill_def ready_aus_quiet in_decoder_update)
next
  case (publish c t i len fidx send_ts deadline pts seg now)
  then have i: "i < length (frames c)" "fs_state (frames c ! i) = SLOT_WRITING" "decoder_ok (decoder c) (frames c)"
    by (auto simp: slots_inv_def)
  let ?fs = "slot_publish i len send_ts deadline fidx pts seg now (frames c)"
  have "ready_aus ?fs = ready_aus (frames c) + {#(fidx, List.take len (fs_buf (frames c ! i)))#}"
    using ready_aus_update [OF i(1)] i(2) by (simp add: slot_publish_def ready_of_def slot_au_def)
  moreover have "in_decoder (decoder c) ?fs = in_decoder (decoder c) (frames c)"
    using i by (simp add: slot_publish_def in_decoder_update)
  ultimately show ?case using publish by (simp add: aus_conserved_def)
next
  case (abandon c t i)
  then have i: "i < length (frames c)" "fs_state (frames c ! i) = SLOT_WRITING" "decoder_ok (decoder c) (frames c)"
    by (auto simp: slots_inv_def)
  then show ?case
    using abandon by (simp add: aus_conserved_def slot_release_def set_state_def ready_aus_quiet in_decoder_update)
next
  case (pick c i)
  then show ?case by (simp add: aus_conserved_def)
next
  case (mark c i)
  then have i: "i < length (frames c)" "fs_state (frames c ! i) = SLOT_READY" by (auto simp: slots_inv_def)
  have au: "slot_au (set_state SLOT_DECODING (frames c ! i)) = slot_au (frames c ! i)"
    by (simp add: slot_au_def set_state_def)
  have "ready_aus (slot_mark_decoding i (frames c)) + {#slot_au (frames c ! i)#} = ready_aus (frames c)"
    using ready_aus_update [OF i(1), of "set_state SLOT_DECODING (frames c ! i)"] i(2)
    by (simp add: slot_mark_decoding_def ready_of_def set_state_def)
  moreover have "in_decoder (D_Decoding i) (slot_mark_decoding i (frames c)) = {#slot_au (frames c ! i)#}"
    using i(1) au by (simp add: slot_mark_decoding_def)
  ultimately show ?case using mark by (simp add: aus_conserved_def)
next
  case (decode c i)
  then show ?case by (simp add: aus_conserved_def)
next
  case (release c i)
  then have "i < length (frames c)" "fs_state (frames c ! i) = SLOT_DECODING" by (auto simp: slots_inv_def)
  then show ?case
    using release by (simp add: aus_conserved_def slot_release_def set_state_def ready_aus_quiet)
qed

definition slots_init :: "slots_cfg \<Rightarrow> bool" where
  "slots_init c \<longleftrightarrow> (\<forall>sl \<in> set (frames c). fs_state sl = SLOT_FREE) \<and> writer c = (\<lambda>_. None) \<and>
     decoder c = D_Idle \<and> published c = [] \<and> decoded c = []"

lemma slots_init_ok: "slots_init c \<Longrightarrow> slots_inv c \<and> aus_conserved c"
  by (auto simp: slots_init_def slots_inv_def aus_conserved_def ready_aus_def filter_empty_conv)

lemma slots_reach:
  assumes "slot_step\<^sup>*\<^sup>* c c'" "slots_init c"
  shows "slots_inv c' \<and> aus_conserved c'"
  using assms by (induction rule: rtranclp_induct) (auto simp: slots_init_ok intro: slot_step_inv slot_step_conserved)

section \<open>Properties\<close>

text \<open>
  C15: Hand-over between the threads. Whatever the interleaving of any number of publishing
  threads with the decode worker, every access unit published is exactly once among those
  given to the decoder, those waiting in a ready slot and the one about to be decoded, with
  the bytes it was published with; and no thread ever writes into a slot that is ready or
  being decoded, nor do two threads share one.
\<close>

theorem slots_conserve_frames:
  assumes "slots_init c" and "slot_step\<^sup>*\<^sup>* c c'"
  shows "mset (published c') =
           mset (decoded c') + ready_aus (frames c') + in_decoder (decoder c') (frames c') \<and>
         (\<forall>t i. writer c' t = Some i \<longrightarrow>
            fs_state (frames c' ! i) = SLOT_WRITING \<and> \<not> decoder_owns (decoder c') i \<and>
            (\<forall>u. writer c' u = Some i \<longrightarrow> u = t))"
proof -
  have i: "slots_inv c'" "aus_conserved c'" using slots_reach [OF assms(2,1)] by auto
  have "\<not> decoder_owns (decoder c') i" if "writer c' t = Some i" for t i
    using that i(1) by (cases "decoder c'") (auto simp: slots_inv_def)
  with i show ?thesis by (auto simp: slots_inv_def aus_conserved_def)
qed

definition free_slot :: "bytes \<Rightarrow> vmc_frame_slot" where
  "free_slot buf = \<lparr>fs_buf = buf, fs_len = 0, fs_send_ts = 0, fs_pub_us = 0, fs_deadline_us = 0,
     fs_fidx = 0, fs_pts_us = 0, fs_seg = 0, fs_state = SLOT_FREE\<rparr>"

definition two_slots :: slots_cfg where
  "two_slots = \<lparr>frames = [free_slot [0, 0], free_slot [0, 0]], writer = (\<lambda>_. None), decoder = D_Idle,
     published = [], decoded = []\<rparr>"

theorem slots_conserve_frames_witness:
  "\<exists>c'. slot_step\<^sup>*\<^sup>* two_slots c' \<and> writer c' 0 = Some 0 \<and> fs_state (frames c' ! 0) = SLOT_WRITING"
proof -
  let ?c = "two_slots\<lparr>frames := (frames two_slots)[0 := set_state SLOT_WRITING (free_slot [0, 0])],
      writer := (writer two_slots)(0 := Some 0)\<rparr>"
  have "slot_step two_slots ?c"
    by (rule slot_step.take) (simp_all add: two_slots_def slot_take_write_def free_slot_def)
  then have r: "slot_step\<^sup>*\<^sup>* two_slots ?c" by blast
  have "slots_init two_slots" by (simp add: slots_init_def two_slots_def free_slot_def)
  then have "fs_state (frames ?c ! 0) = SLOT_WRITING"
    by (rule slots_conserve_frames [OF _ r, THEN conjunct2, rule_format, of 0 0, THEN conjunct1])
      (simp add: two_slots_def)
  with r show ?thesis by (intro exI [of _ ?c]) simp
qed

text \<open>
  The choice of the decode worker. The slot it picks is ready, has the least presentation
  deadline of all ready slots, and is the first of those with that deadline; it finds none
  exactly when every ready slot carries the greatest 64-bit deadline.
\<close>

theorem slot_pick_least_deadline:
  "(case slot_pick fs of
      Some k \<Rightarrow> k < length fs \<and> fs_state (fs ! k) = SLOT_READY \<and>
        (\<forall>j. j < length fs \<and> fs_state (fs ! j) = SLOT_READY \<longrightarrow>
           (fs_deadline_us (fs ! k), k) = (fs_deadline_us (fs ! j), j) \<or>
           fs_deadline_us (fs ! k) < fs_deadline_us (fs ! j) \<or>
           fs_deadline_us (fs ! k) = fs_deadline_us (fs ! j) \<and> k < j)
    | None \<Rightarrow> \<forall>sl \<in> set fs. fs_state sl = SLOT_READY \<longrightarrow> fs_deadline_us sl = - 1)"
proof (cases "slot_pick fs")
  case None
  then show ?thesis using slot_pick_None [of fs] by simp
next
  case (Some k)
  then have l: "least_ready fs k" by (rule slot_pick_Some)
  have "fs_deadline_us (fs ! k) < fs_deadline_us (fs ! j) \<or>
      fs_deadline_us (fs ! k) = fs_deadline_us (fs ! j) \<and> k \<le> j"
    if "j < length fs" "fs_state (fs ! j) = SLOT_READY" for j
    using l that by (metis least_ready_def not_le order.order_iff_strict)
  with Some l show ?thesis by (auto simp: least_ready_def order.order_iff_strict)
qed

theorem slot_pick_least_deadline_witness:
  "slot_pick [set_state SLOT_READY ((free_slot [])\<lparr>fs_deadline_us := 9\<rparr>),
              set_state SLOT_READY ((free_slot [])\<lparr>fs_deadline_us := 5\<rparr>)] = Some 1"
  using slot_pick_least_deadline [of "[set_state SLOT_READY ((free_slot [])\<lparr>fs_deadline_us := 9\<rparr>),
              set_state SLOT_READY ((free_slot [])\<lparr>fs_deadline_us := 5\<rparr>)]"]
  by (simp add: slot_pick_def set_state_def free_slot_def)

lemma pick_scan_not_ready: "\<forall>sl \<in> set fs. fs_state sl \<noteq> SLOT_READY \<Longrightarrow> pick_scan i best idx fs = idx"
  by (induction i best idx fs rule: pick_scan.induct) auto

lemma fresh_pool: "replicate VMC_FRAME_SLOTS x = x # x # x # x # replicate 508 x"
  by (simp add: const_defs numeral_eq_Suc flip: replicate_Suc)

lemma zero_less_UINT64_MAX: "(0 :: u64) < - 1"
  by (simp add: word_neq_0_conv [symmetric])

text \<open>
  The datagram client can decode frames out of order. Every frame it publishes carries
  deadline 0, so the worker takes the ready slot with the lowest index and not the oldest. In
  the following run on a fresh pool frame 0 is published and picked, frame 1 is published,
  frame 0 is released and frames 2 and 3 are published: the next frame picked is frame 3, while
  frames 1 and 2, published before it, are still waiting.
\<close>

theorem udp_frames_reordered:
  "\<exists>fs1 fs2 fs3 fs4 fs5.
     slot_take_write (replicate VMC_FRAME_SLOTS (free_slot buf)) = Some (0, fs1) \<and>
     udp_publish 10 0 0 100 0 fs1 = Some (1, fs2) \<and>
     slot_pick fs2 = Some 0 \<and>
     udp_publish 10 0 1 200 1 (slot_mark_decoding 0 fs2) = Some (2, fs3) \<and>
     udp_publish 10 0 2 300 2 (slot_release 0 fs3) = Some (0, fs4) \<and>
     udp_publish 10 0 3 400 0 fs4 = Some (3, fs5) \<and>
     slot_pick fs5 = Some 0 \<and> fs_fidx (fs5 ! 0) = 3 \<and>
     fs_state (fs5 ! 1) = SLOT_READY \<and> fs_fidx (fs5 ! 1) = 1 \<and> fs_pub_us (fs5 ! 1) < fs_pub_us (fs5 ! 0)"
  unfolding fresh_pool
  by (simp add: udp_publish_def slot_take_write_def slot_pick_def slot_op_defs free_slot_def
      pick_scan_not_ready zero_less_UINT64_MAX)

end
