(* ===== verification/Drm_Scanout.thy ===== *)
theory Drm_Scanout
  imports Vmc_Prelude
begin

unbundle bit_operations_syntax

text \<open>
  GPU scanout through DRM dumb buffers, \<^verbatim>\<open>src/video/drm_scanout.c\<close>: the choice of the display
  mode, the creation of the buffers, the round-robin choice of a free buffer, page flips with
  the FIFO of submitted flips, and the handler of flip-complete events. The kernel and libdrm
  are the record \<open>drm_ops\<close> of their calls on a state \<open>'k\<close>; pointers are 64-bit words (0 is the
  null pointer, \<open>- 1\<close> is \<^verbatim>\<open>MAP_FAILED\<close>).
\<close>

section \<open>State\<close>

definition VMC_DRM_MAX_BUFS :: nat where [const_defs]: "VMC_DRM_MAX_BUFS = 8"
definition VMC_DRM_FLIP_HISTORY :: nat where [const_defs]: "VMC_DRM_FLIP_HISTORY = 16"

record vmc_drm_buffer =
  db_handle :: u32
  db_fb :: u32
  db_pitch :: u32
  db_size :: u64
  db_map :: u64
  db_prime_fd :: int
  db_busy :: bool
  db_last_flip_ts :: u64
  db_submit_wall_us :: u64

record vmc_drm_flip_rec =
  fr_buf_idx :: nat
  fr_submit_us :: u64

record drm_mode =
  dm_hdisplay :: u16
  dm_vdisplay :: u16
  dm_vrefresh :: u32
  dm_preferred :: bool

text \<open>Buffer indices that may be absent (\<open>-1\<close> in C) are options.\<close>

record vmc_drm_scanout =
  ds_fd :: int
  ds_crtc :: u32
  ds_conn :: u32
  ds_w :: u32
  ds_h :: u32
  ds_nbufs :: nat
  ds_next :: nat
  ds_last_presented :: u32
  ds_flip_pending :: "nat option"
  ds_on_screen :: "nat option"
  ds_last_completed :: "nat option"
  ds_last_flip_ts_us :: u64
  ds_flips_done :: u32
  ds_vrefresh :: u32
  ds_vblank_period_us :: u32
  ds_bufs :: "vmc_drm_buffer list"
  ds_crtc_set :: bool
  ds_flip_history :: "vmc_drm_flip_rec list"
  ds_flip_h_head :: nat
  ds_flip_h_tail :: nat
  ds_mode :: "drm_mode option"

record drm_connector =
  dc_id :: u32
  dc_connected :: bool
  dc_modes :: "drm_mode list"

datatype flip_result = Flip_Ok | Flip_Busy | Flip_Error

record 'k drm_ops =
  k_open :: "string \<Rightarrow> 'k \<Rightarrow> int \<times> 'k"
  k_close :: "int \<Rightarrow> 'k \<Rightarrow> 'k"
  k_resources :: "int \<Rightarrow> 'k \<Rightarrow> (u32 list \<times> u32 list) option"
  k_connector :: "int \<Rightarrow> u32 \<Rightarrow> 'k \<Rightarrow> drm_connector option"
  k_create_dumb :: "int \<Rightarrow> u32 \<Rightarrow> u32 \<Rightarrow> 'k \<Rightarrow> (u32 \<times> u32 \<times> u64) option \<times> 'k"
  k_map_dumb :: "int \<Rightarrow> u32 \<Rightarrow> 'k \<Rightarrow> u64 option"
  k_mmap :: "u64 \<Rightarrow> int \<Rightarrow> u64 \<Rightarrow> 'k \<Rightarrow> u64 \<times> 'k"
  k_zero :: "u64 \<Rightarrow> u64 \<Rightarrow> 'k \<Rightarrow> 'k"
  k_addfb2 :: "int \<Rightarrow> u32 \<Rightarrow> u32 \<Rightarrow> u32 \<Rightarrow> u32 \<Rightarrow> 'k \<Rightarrow> u32 option \<times> 'k"
  k_prime :: "int \<Rightarrow> u32 \<Rightarrow> 'k \<Rightarrow> int option \<times> 'k"
  k_setcrtc :: "int \<Rightarrow> u32 \<Rightarrow> u32 \<Rightarrow> u32 \<Rightarrow> drm_mode \<Rightarrow> 'k \<Rightarrow> bool \<times> 'k"
  k_page_flip :: "int \<Rightarrow> u32 \<Rightarrow> u32 \<Rightarrow> 'k \<Rightarrow> flip_result \<times> 'k"
  k_poll :: "int \<Rightarrow> int \<Rightarrow> 'k \<Rightarrow> bool \<times> 'k"
  k_events :: "int \<Rightarrow> 'k \<Rightarrow> (u32 \<times> u32) list \<times> 'k"
  k_now_us :: "'k \<Rightarrow> u64 \<times> 'k"
  k_unmap :: "u64 \<Rightarrow> u64 \<Rightarrow> 'k \<Rightarrow> 'k"
  k_rmfb :: "int \<Rightarrow> u32 \<Rightarrow> 'k \<Rightarrow> 'k"
  k_destroy :: "int \<Rightarrow> u32 \<Rightarrow> 'k \<Rightarrow> 'k"

section \<open>Flip-complete events\<close>

definition free_buf :: "nat option \<Rightarrow> u64 \<Rightarrow> vmc_drm_buffer list \<Rightarrow> vmc_drm_buffer list" where
  "free_buf old ts bufs =
     (case old of None \<Rightarrow> bufs
      | Some i \<Rightarrow> bufs[i := (bufs ! i)\<lparr>db_busy := False, db_last_flip_ts := ts\<rparr>])"

definition flip_handler :: "u32 \<Rightarrow> u32 \<Rightarrow> vmc_drm_scanout \<Rightarrow> vmc_drm_scanout" where
  "flip_handler tv_sec tv_usec s =
     (let ts = ucast tv_sec * 1000000 + ucast tv_usec;
          s1 = (if ds_flip_h_head s \<noteq> ds_flip_h_tail s then
                  (let rec = ds_flip_history s ! ds_flip_h_tail s
                   in s\<lparr>ds_flip_h_tail := (ds_flip_h_tail s + 1) mod VMC_DRM_FLIP_HISTORY,
                        ds_bufs := free_buf (ds_on_screen s) ts (ds_bufs s),
                        ds_on_screen := Some (fr_buf_idx rec),
                        ds_last_completed := Some (fr_buf_idx rec),
                        ds_flip_pending := None\<rparr>)
                else (case ds_flip_pending s of
                        None \<Rightarrow> s
                      | Some p \<Rightarrow> s\<lparr>ds_bufs := free_buf (ds_on_screen s) ts (ds_bufs s),
                                    ds_on_screen := Some p, ds_last_completed := Some p,
                                    ds_flip_pending := None\<rparr>))
      in s1\<lparr>ds_flips_done := ds_flips_done s1 + 1, ds_last_flip_ts_us := ts\<rparr>)"

section \<open>Mode choice and initialisation\<close>

definition mode_area :: "drm_mode \<Rightarrow> nat" where
  "mode_area m = unat (dm_hdisplay m) * unat (dm_vdisplay m)"

definition better_mode :: "drm_mode \<Rightarrow> drm_mode \<Rightarrow> bool" where
  "better_mode n b \<longleftrightarrow> dm_preferred n \<and> \<not> dm_preferred b \<or>
     dm_preferred n = dm_preferred b \<and> mode_area n > mode_area b"

fun best_mode :: "drm_mode \<Rightarrow> drm_mode list \<Rightarrow> drm_mode" where
  "best_mode b [] = b"
| "best_mode b (n # ms) = best_mode (if better_mode n b then n else b) ms"

fun find_connected :: "'k drm_ops \<Rightarrow> u32 list \<Rightarrow> int \<Rightarrow> 'k \<Rightarrow> (u32 \<times> drm_mode) option" where
  "find_connected ops [] fd k = None"
| "find_connected ops (c # cs) fd k =
     (case k_connector ops fd c k of
        Some con \<Rightarrow>
          (case dc_modes con of
             [] \<Rightarrow> find_connected ops cs fd k
           | m # ms \<Rightarrow> if dc_connected con then Some (dc_id con, best_mode m ms)
                       else find_connected ops cs fd k)
      | None \<Rightarrow> find_connected ops cs fd k)"

definition map_dumb :: "'k drm_ops \<Rightarrow> int \<Rightarrow> u32 \<Rightarrow> u64 \<Rightarrow> 'k \<Rightarrow> u64 \<times> 'k" where
  "map_dumb ops fd handle sz k =
     (case k_map_dumb ops fd handle k of None \<Rightarrow> (0, k) | Some off \<Rightarrow> k_mmap ops sz fd off k)"

definition zero_buf :: vmc_drm_buffer where
  "zero_buf = \<lparr>db_handle = 0, db_fb = 0, db_pitch = 0, db_size = 0, db_map = 0, db_prime_fd = 0,
     db_busy = False, db_last_flip_ts = 0, db_submit_wall_us = 0\<rparr>"

text \<open>
  The structure after \<^verbatim>\<open>memset\<close>: every index field is 0, so \<^verbatim>\<open>on_screen\<close>, \<^verbatim>\<open>flip_pending\<close> and
  \<^verbatim>\<open>last_completed\<close> denote buffer 0 until they are assigned.
\<close>

definition zero_scanout :: vmc_drm_scanout where
  "zero_scanout = \<lparr>ds_fd = 0, ds_crtc = 0, ds_conn = 0, ds_w = 0, ds_h = 0, ds_nbufs = 0, ds_next = 0,
     ds_last_presented = 0, ds_flip_pending = Some 0, ds_on_screen = Some 0, ds_last_completed = Some 0,
     ds_last_flip_ts_us = 0, ds_flips_done = 0, ds_vrefresh = 0, ds_vblank_period_us = 0,
     ds_bufs = replicate VMC_DRM_MAX_BUFS zero_buf, ds_crtc_set = False,
     ds_flip_history = replicate VMC_DRM_FLIP_HISTORY \<lparr>fr_buf_idx = 0, fr_submit_us = 0\<rparr>,
     ds_flip_h_head = 0, ds_flip_h_tail = 0, ds_mode = None\<rparr>"

definition set_buf :: "nat \<Rightarrow> (vmc_drm_buffer \<Rightarrow> vmc_drm_buffer) \<Rightarrow> vmc_drm_scanout \<Rightarrow> vmc_drm_scanout" where
  "set_buf i f s = s\<lparr>ds_bufs := (ds_bufs s)[i := f (ds_bufs s ! i)]\<rparr>"

definition fail_close :: "'k drm_ops \<Rightarrow> vmc_drm_scanout \<Rightarrow> 'k \<Rightarrow> vmc_status \<times> vmc_drm_scanout \<times> 'k" where
  "fail_close ops s k = (VMC_ERR_IO, s\<lparr>ds_fd := - 1\<rparr>, k_close ops (ds_fd s) k)"

definition make_buf :: "'k drm_ops \<Rightarrow> nat \<Rightarrow> vmc_drm_scanout \<Rightarrow> 'k \<Rightarrow> vmc_status \<times> vmc_drm_scanout \<times> 'k" where
  "make_buf ops i s k =
     (case k_create_dumb ops (ds_fd s) (ds_w s) (ds_h s) k of
        (None, k1) \<Rightarrow> fail_close ops s k1
      | (Some (handle, pitch, sz), k1) \<Rightarrow>
          let s1 = set_buf i (\<lambda>b. b\<lparr>db_pitch := pitch\<rparr>) s
          in if handle = 0 then fail_close ops s1 k1
             else (case map_dumb ops (ds_fd s) handle sz k1 of
                (m, k2) \<Rightarrow>
                  let s2 = set_buf i (\<lambda>b. b\<lparr>db_handle := handle, db_size := sz, db_map := m\<rparr>) s1
                  in if m = 0 then fail_close ops s2 k2
                     else (case k_addfb2 ops (ds_fd s) (ds_w s) (ds_h s) handle pitch (k_zero ops m sz k2) of
                        (None, k3) \<Rightarrow> fail_close ops s2 k3
                      | (Some fb, k3) \<Rightarrow>
                          (case k_prime ops (ds_fd s) handle k3 of
                             (p, k4) \<Rightarrow>
                               (VMC_OK, set_buf i (\<lambda>b. b\<lparr>db_fb := fb,
                                  db_prime_fd := (case p of None \<Rightarrow> - 1 | Some x \<Rightarrow> x)\<rparr>) s2, k4)))))"

fun make_bufs :: "'k drm_ops \<Rightarrow> nat \<Rightarrow> nat \<Rightarrow> vmc_drm_scanout \<Rightarrow> 'k \<Rightarrow> vmc_status \<times> vmc_drm_scanout \<times> 'k" where
  "make_bufs ops i 0 s k = (VMC_OK, s, k)"
| "make_bufs ops i (Suc n) s k =
     (case make_buf ops i s k of
        (st, s1, k1) \<Rightarrow> if st \<noteq> VMC_OK then (st, s1, k1) else make_bufs ops (Suc i) n s1 k1)"

text \<open>The fields set from the chosen mode before the buffers are made.\<close>

definition scanout_start :: "vmc_drm_scanout \<Rightarrow> u32 \<Rightarrow> u32 \<Rightarrow> drm_mode \<Rightarrow> vmc_drm_scanout" where
  "scanout_start s0 conn crtc mode =
     s0\<lparr>ds_conn := conn, ds_crtc := crtc, ds_w := ucast (dm_hdisplay mode),
        ds_h := ucast (dm_vdisplay mode), ds_flip_pending := None,
        ds_on_screen := Some 0, ds_vrefresh := dm_vrefresh mode,
        ds_vblank_period_us := (if dm_vrefresh mode > 0 then 1000000 div dm_vrefresh mode else 16667),
        ds_mode := Some mode\<rparr>"

definition vmc_drm_scanout_init ::
  "'k drm_ops \<Rightarrow> vmc_drm_scanout option \<Rightarrow> string option \<Rightarrow> int \<Rightarrow> 'k
     \<Rightarrow> vmc_status \<times> vmc_drm_scanout option \<times> 'k" where
  "vmc_drm_scanout_init ops so dev nbufs k =
     (if so = None \<or> nbufs < 1 \<or> nbufs > int VMC_DRM_MAX_BUFS then (VMC_ERR_INVALID_ARG, so, k)
      else case k_open ops (case dev of None \<Rightarrow> ''/dev/dri/card1'' | Some d \<Rightarrow> d) k of
        (fd, k1) \<Rightarrow>
          let s0 = zero_scanout\<lparr>ds_nbufs := nat nbufs, ds_fd := fd\<rparr>
          in if fd < 0 then (VMC_ERR_IO, Some s0, k1)
             else (case k_resources ops fd k1 of
                None \<Rightarrow> (VMC_ERR_IO, Some (s0\<lparr>ds_fd := - 1\<rparr>), k_close ops fd k1)
              | Some (connectors, crtcs) \<Rightarrow>
                  (case find_connected ops connectors fd k1 of
                     None \<Rightarrow> (VMC_ERR_NOT_FOUND, Some (s0\<lparr>ds_fd := - 1\<rparr>), k_close ops fd k1)
                   | Some (conn, mode) \<Rightarrow>
                       let s1 = scanout_start s0 conn (crtcs ! 0) mode
                       in (case make_bufs ops 0 (nat nbufs) s1 k1 of
                             (st, s2, k2) \<Rightarrow>
                               if st \<noteq> VMC_OK then (st, Some s2, k2)
                               else (case k_setcrtc ops fd (ds_crtc s2) (db_fb (ds_bufs s2 ! 0)) conn mode k2 of
                                  (False, k3) \<Rightarrow> (VMC_ERR_IO, Some (s2\<lparr>ds_fd := - 1\<rparr>), k_close ops fd k3)
                                | (True, k3) \<Rightarrow>
                                    (VMC_OK, Some (s2\<lparr>ds_on_screen := Some 0, ds_crtc_set := True,
                                       ds_next := 1\<rparr>), k3))))))"

section \<open>Buffers and flips\<close>

definition buf_free :: "vmc_drm_scanout \<Rightarrow> nat \<Rightarrow> bool" where
  "buf_free s idx \<longleftrightarrow> \<not> db_busy (ds_bufs s ! idx) \<and> Some idx \<noteq> ds_on_screen s \<and> Some idx \<noteq> ds_flip_pending s"

text \<open>The index handed out, and \<open>None\<close> when every buffer is busy.\<close>

definition vmc_drm_scanout_next_idx :: "vmc_drm_scanout \<Rightarrow> nat option \<times> vmc_drm_scanout" where
  "vmc_drm_scanout_next_idx s =
     (case first_index (buf_free s) (map (\<lambda>i. (ds_next s + i) mod ds_nbufs s) [0..<ds_nbufs s]) of
        None \<Rightarrow> (None, s)
      | Some i \<Rightarrow>
          let idx = (ds_next s + i) mod ds_nbufs s
          in (Some idx, set_buf idx (\<lambda>b. b\<lparr>db_busy := True\<rparr>)
                (s\<lparr>ds_next := (idx + 1) mod ds_nbufs s, ds_last_presented := of_nat idx\<rparr>)))"

definition vmc_drm_scanout_next :: "vmc_drm_scanout \<Rightarrow> u64 \<times> vmc_drm_scanout" where
  "vmc_drm_scanout_next s =
     (case vmc_drm_scanout_next_idx s of
        (None, s1) \<Rightarrow> (0, s1) | (Some idx, s1) \<Rightarrow> (db_map (ds_bufs s1 ! idx), s1))"

definition drain_events :: "'k drm_ops \<Rightarrow> int \<Rightarrow> vmc_drm_scanout \<Rightarrow> 'k \<Rightarrow> int \<times> vmc_drm_scanout \<times> 'k" where
  "drain_events ops timeout_ms s k =
     (case k_now_us ops k of (t0, k1) \<Rightarrow>
      case k_now_us ops k1 of (t1, k2) \<Rightarrow>
        let deadline_ms = t0 div 1000 + of_int (if timeout_ms > 0 then timeout_ms else 0);
            rem0 = sint (ucast (deadline_ms - t1 div 1000) :: 32 word);
            rem1 = (if rem0 < 0 then 0 else rem0);
            rem2 = (if rem1 > timeout_ms then timeout_ms else rem1)
        in case k_poll ops (ds_fd s) rem2 k2 of
             (False, k3) \<Rightarrow> (0, s, k3)
           | (True, k3) \<Rightarrow>
               (case k_events ops (ds_fd s) k3 of
                  (evs, k4) \<Rightarrow> (1, fold (\<lambda>(sec, usec). flip_handler sec usec) evs s, k4)))"

definition vmc_drm_scanout_wait_flip ::
  "'k drm_ops \<Rightarrow> int \<Rightarrow> vmc_drm_scanout \<Rightarrow> 'k \<Rightarrow> int \<times> vmc_drm_scanout \<times> 'k" where
  "vmc_drm_scanout_wait_flip ops timeout_ms s k = drain_events ops timeout_ms s k"

definition vmc_drm_scanout_drain :: "'k drm_ops \<Rightarrow> vmc_drm_scanout \<Rightarrow> 'k \<Rightarrow> int \<times> vmc_drm_scanout \<times> 'k" where
  "vmc_drm_scanout_drain ops s k = drain_events ops 0 s k"

text \<open>A flip accepted by the kernel: the buffer and the FIFO of submitted flips.\<close>

definition record_flip :: "nat \<Rightarrow> u64 \<Rightarrow> vmc_drm_scanout \<Rightarrow> vmc_drm_scanout" where
  "record_flip idx now s =
     (let s1 = (set_buf idx (\<lambda>b. b\<lparr>db_busy := True, db_submit_wall_us := now\<rparr>) s)\<lparr>ds_flip_pending := Some idx\<rparr>;
          tl = (if (ds_flip_h_head s1 + 1) mod VMC_DRM_FLIP_HISTORY = ds_flip_h_tail s1
                then (ds_flip_h_tail s1 + 1) mod VMC_DRM_FLIP_HISTORY else ds_flip_h_tail s1)
      in s1\<lparr>ds_flip_h_tail := tl,
            ds_flip_history := (ds_flip_history s1)[ds_flip_h_head s1 := \<lparr>fr_buf_idx = idx, fr_submit_us = now\<rparr>],
            ds_flip_h_head := (ds_flip_h_head s1 + 1) mod VMC_DRM_FLIP_HISTORY\<rparr>)"

fun flip_tries :: "'k drm_ops \<Rightarrow> nat \<Rightarrow> nat \<Rightarrow> vmc_drm_scanout \<Rightarrow> 'k \<Rightarrow> vmc_status \<times> vmc_drm_scanout \<times> 'k" where
  "flip_tries ops 0 idx s k = (VMC_ERR_AGAIN, s, k)"
| "flip_tries ops (Suc n) idx s k =
     (case k_page_flip ops (ds_fd s) (ds_crtc s) (db_fb (ds_bufs s ! idx)) k of
        (Flip_Ok, k1) \<Rightarrow> (case k_now_us ops k1 of (now, k2) \<Rightarrow> (VMC_OK, record_flip idx now s, k2))
      | (Flip_Busy, k1) \<Rightarrow>
          (case vmc_drm_scanout_wait_flip ops (uint ((ds_vblank_period_us s + 999) div 1000)) s k1 of
             (_, s1, k2) \<Rightarrow> flip_tries ops n idx s1 k2)
      | (Flip_Error, k1) \<Rightarrow> (VMC_ERR_IO, s, k1))"

definition vmc_drm_scanout_present ::
  "'k drm_ops \<Rightarrow> vmc_drm_scanout \<Rightarrow> int \<Rightarrow> 'k \<Rightarrow> vmc_status \<times> vmc_drm_scanout \<times> 'k" where
  "vmc_drm_scanout_present ops s idx k =
     (let i = (if idx < 0 then sint (ds_last_presented s) else idx)
      in if i < 0 \<or> i \<ge> int (ds_nbufs s) then (VMC_ERR_INVALID_ARG, s, k)
         else flip_tries ops 3 (nat i) s k)"

definition close_buf :: "'k drm_ops \<Rightarrow> int \<Rightarrow> vmc_drm_buffer \<Rightarrow> 'k \<Rightarrow> 'k" where
  "close_buf ops fd b k =
     (let k1 = (if db_map b \<noteq> 0 then k_unmap ops (db_map b) (db_size b) k else k);
          k2 = (if db_fb b \<noteq> 0 then k_rmfb ops fd (db_fb b) k1 else k1);
          k3 = (if db_prime_fd b \<ge> 0 then k_close ops (db_prime_fd b) k2 else k2)
      in if db_handle b \<noteq> 0 then k_destroy ops fd (db_handle b) k3 else k3)"

definition vmc_drm_scanout_close :: "'k drm_ops \<Rightarrow> vmc_drm_scanout \<Rightarrow> 'k \<Rightarrow> vmc_drm_scanout \<times> 'k" where
  "vmc_drm_scanout_close ops s k =
     (if ds_fd s \<ge> 0
      then (s\<lparr>ds_fd := - 1, ds_mode := None\<rparr>,
            k_close ops (ds_fd s) (fold (close_buf ops (ds_fd s)) (take (ds_nbufs s) (ds_bufs s)) k))
      else (s\<lparr>ds_mode := None\<rparr>, k))"

section \<open>Mode choice\<close>

text \<open>Modes are ordered by preference first and area second.\<close>

definition mode_rank :: "drm_mode \<Rightarrow> nat \<times> nat" where
  "mode_rank m = ((if dm_preferred m then 1 else 0), mode_area m)"

definition mode_le :: "drm_mode \<Rightarrow> drm_mode \<Rightarrow> bool" where
  "mode_le a b \<longleftrightarrow> fst (mode_rank a) < fst (mode_rank b) \<or>
     fst (mode_rank a) = fst (mode_rank b) \<and> snd (mode_rank a) \<le> snd (mode_rank b)"

lemma better_mode_iff: "better_mode n b \<longleftrightarrow> \<not> mode_le n b"
  by (auto simp: better_mode_def mode_le_def mode_rank_def)

lemma mode_le_trans: "mode_le a b \<Longrightarrow> mode_le b c \<Longrightarrow> mode_le a c"
  by (auto simp: mode_le_def)

lemma mode_le_total: "mode_le a b \<or> mode_le b a"
  by (auto simp: mode_le_def)

lemma best_mode_spec:
  "best_mode b ms \<in> set (b # ms) \<and> (\<forall>m \<in> set (b # ms). mode_le m (best_mode b ms))"
proof (induction ms arbitrary: b)
  case Nil
  then show ?case using mode_le_total by auto
next
  case (Cons n ms)
  show ?case
  proof (cases "better_mode n b")
    case True
    then have "mode_le b n" using mode_le_total better_mode_iff by blast
    with Cons [of n] True show ?thesis by (auto intro: mode_le_trans)
  next
    case False
    then have "mode_le n b" by (simp add: better_mode_iff)
    with Cons [of b] False show ?thesis by (auto intro: mode_le_trans)
  qed
qed

section \<open>The pool of buffers as a contract\<close>

text \<open>
  What the decode and present workers rely on: a buffer acquired for writing is neither held
  by someone else, nor queued for a flip, nor on screen; flips complete in the order of their
  submission. \<open>inv s H Q c\<close> says that in state \<open>s\<close> the buffers \<open>H\<close> are held by the client, \<open>Q\<close>
  are submitted in that order, and \<open>c\<close> is on screen.
\<close>

datatype pool_op = Acquire | Submit nat u64 | Complete u32 u32

type_synonym 's pool = "'s \<times> nat set \<times> nat list \<times> nat list"

fun pool_exec ::
  "('s \<Rightarrow> nat option \<times> 's) \<Rightarrow> (nat \<Rightarrow> u64 \<Rightarrow> 's \<Rightarrow> 's) \<Rightarrow> (u32 \<Rightarrow> u32 \<Rightarrow> 's \<Rightarrow> 's) \<Rightarrow> pool_op \<Rightarrow> 's pool \<Rightarrow> 's pool" where
  "pool_exec acquire submit complete Acquire (s, H, Q, sh) =
     (case acquire s of (None, s') \<Rightarrow> (s', H, Q, sh) | (Some i, s') \<Rightarrow> (s', insert i H, Q, sh))"
| "pool_exec acquire submit complete (Submit i now) (s, H, Q, sh) =
     (if i \<in> H then (submit i now s, H - {i}, Q @ [i], sh) else (s, H, Q, sh))"
| "pool_exec acquire submit complete (Complete a b) (s, H, Q, sh) =
     (complete a b s, H, tl Q, sh @ take 1 Q)"

locale scanout_pool =
  fixes inv :: "'s \<Rightarrow> nat set \<Rightarrow> nat list \<Rightarrow> nat \<Rightarrow> bool"
    and acquire :: "'s \<Rightarrow> nat option \<times> 's"
    and submit :: "nat \<Rightarrow> u64 \<Rightarrow> 's \<Rightarrow> 's"
    and complete :: "u32 \<Rightarrow> u32 \<Rightarrow> 's \<Rightarrow> 's"
  assumes acquire_Some: "inv s H Q c \<Longrightarrow> acquire s = (Some i, s') \<Longrightarrow>
      i \<notin> H \<and> i \<notin> set Q \<and> i \<noteq> c \<and> inv s' (insert i H) Q c"
    and acquire_None: "inv s H Q c \<Longrightarrow> acquire s = (None, s') \<Longrightarrow> inv s' H Q c"
    and submit_held: "inv s H Q c \<Longrightarrow> i \<in> H \<Longrightarrow> inv (submit i now s) (H - {i}) (Q @ [i]) c"
    and complete_first: "inv s H (q # Q) c \<Longrightarrow> inv (complete a b s) H Q q"
    and complete_none: "inv s H [] c \<Longrightarrow> inv (complete a b s) H [] c"
begin

definition pool_ok :: "nat \<Rightarrow> 's pool \<Rightarrow> bool" where
  "pool_ok c0 p = (case p of (s, H, Q, sh) \<Rightarrow> inv s H Q (last (c0 # sh)))"

lemma pool_ok_exec: "pool_ok c0 p \<Longrightarrow> pool_ok c0 (pool_exec acquire submit complete op p)"
proof (cases op)
  case Acquire
  assume p: "pool_ok c0 p"
  obtain s H Q sh where [simp]: "p = (s, H, Q, sh)" by (rule prod_cases4)
  obtain r s' where "acquire s = (r, s')" by (rule prod.exhaust)
  moreover have "inv s H Q (last (c0 # sh))" using p by (simp add: pool_ok_def del: last.simps)
  ultimately show ?thesis
    using acquire_Some [of s H Q "last (c0 # sh)"] acquire_None [of s H Q "last (c0 # sh)"] Acquire
    by (cases r) (simp_all add: pool_ok_def del: last.simps)
next
  case (Submit i now)
  assume "pool_ok c0 p"
  with Submit show ?thesis using submit_held by (cases p) (auto simp: pool_ok_def)
next
  case (Complete a b)
  assume p: "pool_ok c0 p"
  obtain s H Q sh where [simp]: "p = (s, H, Q, sh)" by (rule prod_cases4)
  show ?thesis
    using p Complete complete_first complete_none by (cases Q) (auto simp: pool_ok_def)
qed

lemma pool_ok_run: "pool_ok c0 p \<Longrightarrow> pool_ok c0 (fold (pool_exec acquire submit complete) ops p)"
  by (induction ops arbitrary: p) (simp_all add: pool_ok_exec)

lemma run_exclusive:
  assumes "inv s0 H0 Q0 c0" and "fold (pool_exec acquire submit complete) ops (s0, H0, Q0, []) = (s, H, Q, sh)"
  shows "inv s H Q (last (c0 # sh))"
    and "acquire s = (Some i, s') \<Longrightarrow> i \<notin> H \<and> i \<notin> set Q \<and> i \<noteq> last (c0 # sh)"
proof -
  have "pool_ok c0 (s0, H0, Q0, [])" using assms(1) by (simp add: pool_ok_def)
  from pool_ok_run [OF this, of ops] show i: "inv s H Q (last (c0 # sh))"
    by (simp add: assms(2) pool_ok_def del: last.simps)
  show "acquire s = (Some i, s') \<Longrightarrow> i \<notin> H \<and> i \<notin> set Q \<and> i \<noteq> last (c0 # sh)"
    using acquire_Some [OF i] by blast
qed

text \<open>The buffers shown and then those still queued are the ones submitted, in order.\<close>

lemma run_in_order:
  "fold (pool_exec acquire submit complete) ops (s0, H0, Q0, sh0) = (s, H, Q, sh) \<Longrightarrow>
    \<exists>subs. sh @ Q = sh0 @ Q0 @ subs \<and> set subs \<subseteq> {i. \<exists>now. Submit i now \<in> set ops}"
proof (induction ops arbitrary: s0 H0 Q0 sh0)
  case (Cons op ops)
  obtain s1 H1 Q1 sh1 where e: "pool_exec acquire submit complete op (s0, H0, Q0, sh0) = (s1, H1, Q1, sh1)"
    by (rule prod_cases4)
  with Cons.prems have "fold (pool_exec acquire submit complete) ops (s1, H1, Q1, sh1) = (s, H, Q, sh)"
    by simp
  from Cons.IH [OF this] obtain subs where
    subs: "sh @ Q = sh1 @ Q1 @ subs" "set subs \<subseteq> {i. \<exists>now. Submit i now \<in> set ops}" by blast
  have "\<exists>new. sh1 @ Q1 = sh0 @ Q0 @ new \<and> set new \<subseteq> {i. \<exists>now. Submit i now = op}"
    using e by (cases op; cases Q0) (auto split: prod.splits option.splits if_splits)
  then obtain new where "sh1 @ Q1 = sh0 @ Q0 @ new" "set new \<subseteq> {i. \<exists>now. Submit i now = op}" by blast
  with subs show ?case by (intro exI [of _ "new @ subs"]) auto
qed simp

text \<open>A held buffer that is not submitted stays held.\<close>

lemma run_keeps_held:
  "fold (pool_exec acquire submit complete) ops (s0, H0, Q0, sh0) = (s, H, Q, sh) \<Longrightarrow>
    i \<in> H0 \<Longrightarrow> \<forall>now. Submit i now \<notin> set ops \<Longrightarrow> i \<in> H"
proof (induction ops arbitrary: s0 H0 Q0 sh0)
  case (Cons op ops)
  obtain s1 H1 Q1 sh1 where e: "pool_exec acquire submit complete op (s0, H0, Q0, sh0) = (s1, H1, Q1, sh1)"
    by (rule prod_cases4)
  then have "i \<in> H1" using Cons.prems(2,3) by (cases op) (auto split: prod.splits option.splits if_splits)
  with Cons e show ?case by simp
qed simp

end

section \<open>The pool of the scanout\<close>

definition fifo_len :: "vmc_drm_scanout \<Rightarrow> nat" where
  "fifo_len s = (ds_flip_h_head s + VMC_DRM_FLIP_HISTORY - ds_flip_h_tail s) mod VMC_DRM_FLIP_HISTORY"

definition fifo :: "vmc_drm_scanout \<Rightarrow> nat list" where
  "fifo s = map (\<lambda>j. fr_buf_idx (ds_flip_history s ! ((ds_flip_h_tail s + j) mod VMC_DRM_FLIP_HISTORY)))
     [0..<fifo_len s]"

definition drm_inv :: "vmc_drm_scanout \<Rightarrow> nat set \<Rightarrow> nat list \<Rightarrow> nat \<Rightarrow> bool" where
  "drm_inv s H Q c \<longleftrightarrow>
     0 < ds_nbufs s \<and> ds_nbufs s \<le> VMC_DRM_MAX_BUFS \<and> length (ds_bufs s) = VMC_DRM_MAX_BUFS \<and>
     length (ds_flip_history s) = VMC_DRM_FLIP_HISTORY \<and>
     ds_flip_h_head s < VMC_DRM_FLIP_HISTORY \<and> ds_flip_h_tail s < VMC_DRM_FLIP_HISTORY \<and>
     fifo s = Q \<and> ds_on_screen s = Some c \<and> c < ds_nbufs s \<and>
     distinct Q \<and> set Q \<subseteq> {..<ds_nbufs s} \<and> H \<subseteq> {..<ds_nbufs s} \<and>
     H \<inter> set Q = {} \<and> c \<notin> set Q \<and> c \<notin> H \<and>
     (\<forall>i < ds_nbufs s. i \<in> H \<union> set Q \<longrightarrow> db_busy (ds_bufs s ! i)) \<and>
     (\<forall>i < ds_nbufs s. db_busy (ds_bufs s ! i) \<longrightarrow> i \<in> H \<union> set Q \<union> {c}) \<and>
     (\<forall>p. ds_flip_pending s = Some p \<longrightarrow> Q \<noteq> [] \<and> p = last Q)"

lemma drm_inv_fifo_short: "drm_inv s H Q c \<Longrightarrow> length Q < 8 \<and> fifo_len s = length Q"
proof -
  assume i: "drm_inv s H Q c"
  then have "set Q \<subseteq> {..<ds_nbufs s} - {c}" by (auto simp: drm_inv_def)
  then have "card (set Q) \<le> card ({..<ds_nbufs s} - {c})" by (intro card_mono) auto
  also have "\<dots> = ds_nbufs s - 1" using i by (subst card_Diff_singleton) (auto simp: drm_inv_def)
  finally have "length Q \<le> ds_nbufs s - 1" using i by (simp add: drm_inv_def distinct_card)
  then show ?thesis using i by (auto simp: drm_inv_def const_defs fifo_def)
qed

lemma fifo_unchanged:
  "ds_flip_h_head t = ds_flip_h_head s \<Longrightarrow> ds_flip_h_tail t = ds_flip_h_tail s \<Longrightarrow>
    ds_flip_history t = ds_flip_history s \<Longrightarrow> fifo t = fifo s"
  by (simp add: fifo_def fifo_len_def)

lemma next_idx_cases:
  assumes "vmc_drm_scanout_next_idx s = (r, s')" "0 < ds_nbufs s"
  shows "(case r of None \<Rightarrow> s' = s
     | Some idx \<Rightarrow> idx < ds_nbufs s \<and> buf_free s idx \<and>
         s' = set_buf idx (\<lambda>b. b\<lparr>db_busy := True\<rparr>)
           (s\<lparr>ds_next := (idx + 1) mod ds_nbufs s, ds_last_presented := of_nat idx\<rparr>))"
proof (cases "first_index (buf_free s) (map (\<lambda>i. (ds_next s + i) mod ds_nbufs s) [0..<ds_nbufs s])")
  case (Some i)
  then show ?thesis
    using assms first_index_Some [OF Some] by (auto simp: vmc_drm_scanout_next_idx_def Let_def)
next
  case None
  from assms(1) have "(None, s) = (r, s')"
    unfolding vmc_drm_scanout_next_idx_def None by simp
  then show ?thesis by auto
qed

lemma drm_acquire:
  assumes i: "drm_inv s H Q c" and "vmc_drm_scanout_next_idx s = (Some i, s')"
  shows "i \<notin> H \<and> i \<notin> set Q \<and> i \<noteq> c \<and> drm_inv s' (insert i H) Q c"
proof -
  have n: "i < ds_nbufs s" "buf_free s i"
      "s' = set_buf i (\<lambda>b. b\<lparr>db_busy := True\<rparr>)
         (s\<lparr>ds_next := (i + 1) mod ds_nbufs s, ds_last_presented := of_nat i\<rparr>)"
    using next_idx_cases [OF assms(2)] i by (auto simp: drm_inv_def)
  have f: "i \<notin> H" "i \<notin> set Q" "i \<noteq> c" using n(1,2) i by (auto simp: drm_inv_def buf_free_def)
  have "fifo s' = fifo s" by (rule fifo_unchanged) (simp_all add: n(3) set_buf_def)
  then have "drm_inv s' (insert i H) Q c"
    using i n(1) f by (auto simp: drm_inv_def n(3) set_buf_def nth_list_update const_defs)
  with f show ?thesis by blast
qed

lemma fifo_record_flip:
  assumes "ds_flip_h_head s < 16" "ds_flip_h_tail s < 16" "fifo_len s < 8" "length (ds_flip_history s) = 16"
  shows "fifo (record_flip i now s) = fifo s @ [i]"
proof -
  let ?h = "ds_flip_h_head s" and ?t = "ds_flip_h_tail s" and ?r = "record_flip i now s"
  have n: "fifo_len s = (?h + 16 - ?t) mod 16" by (simp add: fifo_len_def const_defs)
  have full: "(?h + 1) mod 16 \<noteq> ?t"
    using ring_push [of ?h 16 ?t] assms n by auto
  have r: "ds_flip_h_head ?r = (?h + 1) mod 16" "ds_flip_h_tail ?r = ?t"
      "ds_flip_history ?r = (ds_flip_history s)[?h := \<lparr>fr_buf_idx = i, fr_submit_us = now\<rparr>]"
    using full by (simp_all add: record_flip_def Let_def set_buf_def const_defs)
  have len: "fifo_len ?r = Suc (fifo_len s)"
    using ring_push [of ?h 16 ?t] assms n by (simp add: fifo_len_def r const_defs)
  have at_head: "(?t + j) mod 16 = ?h \<longleftrightarrow> j = fifo_len s" if "j \<le> fifo_len s" for j
    using ring_back [of ?h 16 ?t j] assms that n by simp
  have "ds_flip_history ?r ! ((?t + j) mod 16) = ds_flip_history s ! ((?t + j) mod 16)" if "j < fifo_len s" for j
    using at_head [of j] that unfolding r(3) by (intro nth_list_update_neq) auto
  moreover have "ds_flip_history ?r ! ((?t + fifo_len s) mod 16) = \<lparr>fr_buf_idx = i, fr_submit_us = now\<rparr>"
    using at_head [of "fifo_len s"] assms(1,4) unfolding r(3) by simp
  ultimately show ?thesis by (simp add: fifo_def len r(1,2) const_defs)
qed

lemma drm_submit:
  assumes i: "drm_inv s H Q c" and h: "i \<in> H"
  shows "drm_inv (record_flip i now s) (H - {i}) (Q @ [i]) c"
proof -
  have f: "fifo (record_flip i now s) = Q @ [i]"
    using fifo_record_flip [of s i now] drm_inv_fifo_short [OF i] i by (simp add: drm_inv_def const_defs)
  have "i < ds_nbufs s" using i h by (auto simp: drm_inv_def)
  then show ?thesis
    using i h f by (auto simp: drm_inv_def record_flip_def Let_def set_buf_def nth_list_update const_defs)
qed

lemma fifo_flip_handler:
  assumes "ds_flip_h_head s < 16" "ds_flip_h_tail s < 16" "ds_flip_h_head s \<noteq> ds_flip_h_tail s"
  shows "fifo s = fr_buf_idx (ds_flip_history s ! ds_flip_h_tail s) # fifo (flip_handler a b s)"
proof -
  have "fifo_len s = Suc (fifo_len (flip_handler a b s))"
    using ring_pop [OF assms] assms(3) by (simp add: fifo_len_def flip_handler_def Let_def const_defs)
  then show ?thesis
    using assms by (simp add: fifo_def map_upt_Suc flip_handler_def Let_def const_defs mod_simps add.commute
        del: upt_Suc)
qed

lemma fifo_empty_iff:
  "ds_flip_h_head s < 16 \<Longrightarrow> ds_flip_h_tail s < 16 \<Longrightarrow> fifo s = [] \<longleftrightarrow> ds_flip_h_head s = ds_flip_h_tail s"
  by (auto simp: fifo_def fifo_len_def const_defs ring_dist split: if_splits)

lemma drm_complete_first:
  assumes i: "drm_inv s H (q # Q) c"
  shows "drm_inv (flip_handler a b s) H Q q"
proof -
  have b: "ds_flip_h_head s < 16" "ds_flip_h_tail s < 16" "fifo s = q # Q"
    using i by (auto simp: drm_inv_def const_defs)
  then have ne: "ds_flip_h_head s \<noteq> ds_flip_h_tail s" using fifo_empty_iff [of s] by auto
  from fifo_flip_handler [OF b(1,2) this, of a b] b(3)
  have f: "fr_buf_idx (ds_flip_history s ! ds_flip_h_tail s) = q" "fifo (flip_handler a b s) = Q"
    by auto
  let ?t = "flip_handler a b s" and ?ts = "ucast a * 1000000 + ucast b :: u64"
  have r: "ds_on_screen ?t = Some q" "ds_flip_pending ?t = None" "ds_nbufs ?t = ds_nbufs s"
      "ds_flip_h_head ?t = ds_flip_h_head s" "ds_flip_h_tail ?t < VMC_DRM_FLIP_HISTORY"
      "ds_flip_history ?t = ds_flip_history s"
      "ds_bufs ?t = (ds_bufs s)[c := (ds_bufs s ! c)\<lparr>db_busy := False, db_last_flip_ts := ?ts\<rparr>]"
    using ne f(1) i by (simp_all add: flip_handler_def Let_def free_buf_def drm_inv_def const_defs)
  have busy: "db_busy (ds_bufs ?t ! j) \<longleftrightarrow> j \<noteq> c \<and> db_busy (ds_bufs s ! j)" if "j < ds_nbufs s" for j
    using that i by (auto simp: r(7) nth_list_update drm_inv_def)
  show ?thesis
    using i by (auto simp: drm_inv_def r(1-6) f(2) busy) (simp add: r(7))
qed

lemma drm_complete_none:
  assumes i: "drm_inv s H [] c"
  shows "drm_inv (flip_handler a b s) H [] c"
proof -
  have "ds_flip_h_head s = ds_flip_h_tail s" using i fifo_empty_iff [of s] by (auto simp: drm_inv_def const_defs)
  moreover have "ds_flip_pending s = None" using i by (auto simp: drm_inv_def)
  ultimately have e: "flip_handler a b s =
      s\<lparr>ds_flips_done := ds_flips_done s + 1, ds_last_flip_ts_us := ucast a * 1000000 + ucast b\<rparr>"
    by (simp add: flip_handler_def)
  have "fifo (flip_handler a b s) = fifo s" by (rule fifo_unchanged) (simp_all add: e)
  then show ?thesis using i by (simp add: drm_inv_def e)
qed

interpretation drm: scanout_pool drm_inv vmc_drm_scanout_next_idx record_flip flip_handler
proof unfold_locales
  fix s H Q c s'
  assume "drm_inv s H Q c" "vmc_drm_scanout_next_idx s = (None, s')"
  then show "drm_inv s' H Q c"
    using next_idx_cases [of s None s'] by (auto simp: drm_inv_def)
qed (rule drm_acquire drm_submit drm_complete_first drm_complete_none, assumption+)+

section \<open>Initialisation\<close>

definition same_pool :: "vmc_drm_scanout \<Rightarrow> vmc_drm_scanout \<Rightarrow> bool" where
  "same_pool s t \<longleftrightarrow> ds_nbufs t = ds_nbufs s \<and> ds_flip_history t = ds_flip_history s \<and>
     ds_flip_h_head t = ds_flip_h_head s \<and> ds_flip_h_tail t = ds_flip_h_tail s \<and>
     ds_flip_pending t = ds_flip_pending s \<and> ds_on_screen t = ds_on_screen s \<and>
     ds_last_completed t = ds_last_completed s \<and>
     map db_busy (ds_bufs t) = map db_busy (ds_bufs s)"

lemma same_pool_refl [simp]: "same_pool s s"
  by (simp add: same_pool_def)

lemma same_pool_trans: "same_pool s t \<Longrightarrow> same_pool t u \<Longrightarrow> same_pool s u"
  by (simp add: same_pool_def)

lemma busy_set_buf:
  assumes "\<And>b. db_busy (f b) = db_busy b"
  shows "map db_busy (ds_bufs (set_buf i f s)) = map db_busy (ds_bufs s)"
proof (cases "i < length (ds_bufs s)")
  case True
  then show ?thesis using assms by (simp add: set_buf_def map_update list_update_same_conv)
next
  case False
  then show ?thesis by (simp add: set_buf_def not_less list_update_beyond)
qed

lemma same_pool_set_buf:
  assumes "\<And>b. db_busy (f b) = db_busy b"
  shows "same_pool s (set_buf i f t) \<longleftrightarrow> same_pool s t"
    and "same_pool (set_buf i f s) t \<longleftrightarrow> same_pool s t"
  using busy_set_buf [of f i, OF assms] by (auto simp: same_pool_def) (auto simp: set_buf_def)

lemma same_pool_fail: "fail_close ops s k = (st, t, k') \<Longrightarrow> same_pool s t"
  by (auto simp: fail_close_def same_pool_def)

lemma make_buf_pool: "make_buf ops i s k = (st, t, k') \<Longrightarrow> same_pool s t"
  by (auto simp: make_buf_def Let_def same_pool_set_buf split: prod.splits option.splits if_splits
      dest!: same_pool_fail)

lemma make_bufs_pool: "make_bufs ops i n s k = (st, t, k') \<Longrightarrow> same_pool s t"
proof (induction ops i n s k rule: make_bufs.induct)
  case (2 ops i n s k)
  obtain st1 s1 k1 where m: "make_buf ops i s k = (st1, s1, k1)" by (rule prod_cases3)
  then have "same_pool s s1" by (rule make_buf_pool)
  with 2 m show ?case by (auto split: if_splits intro: same_pool_trans)
qed simp

lemma drm_init_inv:
  assumes "vmc_drm_scanout_init ops so dev n k = (VMC_OK, Some s, k')"
  shows "drm_inv s {} [] 0 \<and> ds_last_completed s = Some 0 \<and> ds_nbufs s = nat n"
proof -
  define s0 where "s0 fd = zero_scanout\<lparr>ds_nbufs := nat n, ds_fd := fd\<rparr>" for fd
  have "1 \<le> n \<and> n \<le> 8 \<and> (\<exists>fd conn crtc mode k1 s2 k2.
      make_bufs ops 0 (nat n) (scanout_start (s0 fd) conn crtc mode) k1 = (VMC_OK, s2, k2) \<and>
      s = s2\<lparr>ds_on_screen := Some 0, ds_crtc_set := True, ds_next := 1\<rparr>)"
    using assms
    by (auto simp: vmc_drm_scanout_init_def Let_def status_defs const_defs s0_def [symmetric]
        split: if_splits prod.splits option.splits bool.splits) blast+
  then obtain fd conn crtc mode k1 s1 s2 k2 where n: "1 \<le> n" "n \<le> 8"
      and m: "s1 = scanout_start (s0 fd) conn crtc mode"
        "make_bufs ops 0 (nat n) s1 k1 = (VMC_OK, s2, k2)"
        "s = s2\<lparr>ds_on_screen := Some 0, ds_crtc_set := True, ds_next := 1\<rparr>" by blast
  have f: "ds_nbufs s1 = nat n" "ds_flip_history s1 = ds_flip_history zero_scanout"
      "ds_flip_h_head s1 = 0" "ds_flip_h_tail s1 = 0" "ds_flip_pending s1 = None"
      "ds_last_completed s1 = Some 0" "ds_bufs s1 = ds_bufs zero_scanout"
    by (simp_all add: m(1) scanout_start_def s0_def zero_scanout_def)
  have p: "same_pool s1 s2" using m(2) by (rule make_bufs_pool)
  then have busy: "map db_busy (ds_bufs s2) = replicate 8 False"
    by (simp add: same_pool_def f(7) zero_scanout_def zero_buf_def const_defs)
  then have len: "length (ds_bufs s2) = 8" by (metis length_map length_replicate)
  have idle: "\<not> db_busy (ds_bufs s2 ! i)" if "i < 8" for i
    using that busy len by (metis nth_map nth_replicate)
  have "fifo s = []" using p f by (simp add: m(3) same_pool_def fifo_def fifo_len_def)
  then show ?thesis
    using n p f m(3) len idle by (simp add: drm_inv_def same_pool_def const_defs zero_scanout_def)
qed

lemma drain_events_run:
  assumes "drain_events ops timeout s k = (r, s', k')"
  shows "\<exists>evs. s' = fold (\<lambda>(a, b). flip_handler a b) evs s"
proof -
  obtain t0 k1 where 1: "k_now_us ops k = (t0, k1)" by (rule prod.exhaust)
  obtain t1 k2 where 2: "k_now_us ops k1 = (t1, k2)" by (rule prod.exhaust)
  show ?thesis
    using assms
    by (auto simp: drain_events_def Let_def 1 2 split: prod.splits bool.splits intro: exI [of _ "[]"])
qed

lemma drm_inv_events:
  "drm_inv s H Q c \<Longrightarrow> \<exists>Q' c'. drm_inv (fold (\<lambda>(a, b). flip_handler a b) evs s) H Q' c'"
proof (induction evs arbitrary: s Q c)
  case (Cons e evs)
  obtain a b where "e = (a, b)" by (rule prod.exhaust)
  moreover have "\<exists>Q1 c1. drm_inv (flip_handler a b s) H Q1 c1"
    using Cons.prems drm_complete_first [of s H "hd Q" "tl Q" c a b] drm_complete_none [of s H c a b]
    by (cases Q) auto
  ultimately show ?case using Cons.IH by auto
qed auto

lemma flip_tries_error:
  "flip_tries ops n i s k = (VMC_ERR_IO, s', k') \<Longrightarrow> drm_inv s H Q c \<Longrightarrow> \<exists>Q' c'. drm_inv s' H Q' c'"
proof (induction ops n i s k arbitrary: Q c rule: flip_tries.induct)
  case (1 ops idx s k)
  then show ?case by (simp add: status_defs)
next
  case (2 ops n idx s k)
  obtain r k1 where f: "k_page_flip ops (ds_fd s) (ds_crtc s) (db_fb (ds_bufs s ! idx)) k = (r, k1)"
    by (rule prod.exhaust)
  show ?case
  proof (cases r)
    case Flip_Ok
    then show ?thesis using 2(2) f by (auto simp: status_defs split: prod.splits)
  next
    case Flip_Error
    then show ?thesis using 2(2,3) f by auto
  next
    case Flip_Busy
    obtain d s1 k2 where w:
      "vmc_drm_scanout_wait_flip ops (uint ((ds_vblank_period_us s + 999) div 1000)) s k1 = (d, s1, k2)"
      by (rule prod_cases3)
    from drain_events_run [OF w [unfolded vmc_drm_scanout_wait_flip_def]]
    obtain evs where "s1 = fold (\<lambda>(a, b). flip_handler a b) evs s" ..
    with 2(3) obtain Q1 c1 where "drm_inv s1 H Q1 c1" using drm_inv_events by blast
    with 2(1) [OF f [symmetric] Flip_Busy w [symmetric] refl] 2(2) f w Flip_Busy show ?thesis by simp
  qed
qed

section \<open>Properties\<close>

text \<open>
  C16: No tearing. From a successful initialisation on, under any sequence of buffer
  acquisitions, accepted page flips of acquired buffers and flip-complete events, the buffer
  handed out for writing is never the one on screen, never one queued for a flip and never one
  already handed out; the buffers reach the screen in the order in which they were submitted,
  and the FIFO of flips holds exactly the submitted ones that have not yet been shown.
\<close>

theorem scanout_exclusive:
  assumes "vmc_drm_scanout_init ops so dev n k = (VMC_OK, Some s0, k')"
    and "fold (pool_exec vmc_drm_scanout_next_idx record_flip flip_handler) os (s0, {}, [], [])
           = (s, held, queued, shown)"
  shows "fifo s = queued \<and> ds_on_screen s = Some (last (0 # shown)) \<and>
    (\<forall>i s'. vmc_drm_scanout_next_idx s = (Some i, s') \<longrightarrow>
       i < nat n \<and> i \<notin> held \<and> i \<notin> set queued \<and> Some i \<noteq> ds_on_screen s)"
proof -
  have i0: "drm_inv s0 {} [] 0" and n: "ds_nbufs s0 = nat n" using drm_init_inv [OF assms(1)] by auto
  note run = drm.run_exclusive [OF i0 assms(2)]
  have i: "drm_inv s held queued (last (0 # shown))" by (rule run(1))
  have nb: "ds_nbufs (fst p) = nat n \<Longrightarrow>
      ds_nbufs (fst (fold (pool_exec vmc_drm_scanout_next_idx record_flip flip_handler) os p)) = nat n" for p
  proof (induction os arbitrary: p)
    case (Cons op os)
    have "ds_nbufs (fst (pool_exec vmc_drm_scanout_next_idx record_flip flip_handler op p)) = nat n"
      using Cons.prems
      by (cases p; cases op)
        (auto simp: vmc_drm_scanout_next_idx_def record_flip_def flip_handler_def set_buf_def Let_def
          split: option.splits)
    then show ?case using Cons.IH by simp
  qed simp
  have "ds_nbufs s = nat n" using nb [of "(s0, {}, [], [])"] n assms(2) by simp
  moreover have "i < ds_nbufs s" if "vmc_drm_scanout_next_idx s = (Some i, s')" for i s'
    using next_idx_cases [OF that] i by (auto simp: drm_inv_def)
  ultimately show ?thesis
    using run(2) i unfolding drm_inv_def by (auto simp del: last.simps)
qed

lemma drm_inv_idle: "drm_inv s {} [] 0 \<Longrightarrow> i < ds_nbufs s \<Longrightarrow> i \<noteq> 0 \<Longrightarrow> buf_free s i"
  by (auto simp: drm_inv_def buf_free_def)

text \<open>A kernel whose calls succeed, and one that refuses every page flip.\<close>

definition good_drm :: "flip_result \<Rightarrow> nat drm_ops" where
  "good_drm flip = \<lparr>k_open = (\<lambda>_ k. (3, k)), k_close = (\<lambda>_ k. k), k_resources = (\<lambda>_ _. Some ([7], [9])),
     k_connector = (\<lambda>_ c _. Some \<lparr>dc_id = c, dc_connected = True,
       dc_modes = [\<lparr>dm_hdisplay = 640, dm_vdisplay = 480, dm_vrefresh = 60, dm_preferred = True\<rparr>]\<rparr>),
     k_create_dumb = (\<lambda>_ _ _ k. (Some (5, 2560, 1228800), k)),
     k_map_dumb = (\<lambda>_ _ _. Some 0), k_mmap = (\<lambda>_ _ _ k. (4096, k)), k_zero = (\<lambda>_ _ k. k),
     k_addfb2 = (\<lambda>_ _ _ h _ k. (Some h, k)), k_prime = (\<lambda>_ _ k. (None, k)),
     k_setcrtc = (\<lambda>_ _ _ _ _ k. (True, k)), k_page_flip = (\<lambda>_ _ _ k. (flip, k)),
     k_poll = (\<lambda>_ _ k. (False, k)), k_events = (\<lambda>_ k. ([], k)), k_now_us = (\<lambda>k. (of_nat k, k)),
     k_unmap = (\<lambda>_ _ k. k), k_rmfb = (\<lambda>_ _ k. k), k_destroy = (\<lambda>_ _ k. k)\<rparr>"

lemma good_make_buf: "\<exists>t. make_buf (good_drm flip) i s k = (VMC_OK, t, k)"
  by (simp add: make_buf_def good_drm_def map_dumb_def Let_def)

lemma good_make_bufs: "\<exists>t. make_bufs (good_drm flip) i n s k = (VMC_OK, t, k)"
proof (induction n arbitrary: i s)
  case (Suc n)
  obtain t where "make_buf (good_drm flip) i s k = (VMC_OK, t, k)" using good_make_buf by blast
  then show ?case using Suc by simp
qed simp

lemma good_drm_init:
  "\<exists>s. vmc_drm_scanout_init (good_drm flip) (Some zero_scanout) None 2 0 = (VMC_OK, Some s, 0) \<and>
     fst (vmc_drm_scanout_next_idx s) = Some 1"
proof -
  define s1 where "s1 = scanout_start (zero_scanout\<lparr>ds_nbufs := 2, ds_fd := 3\<rparr>) 7 9
      \<lparr>dm_hdisplay = 640, dm_vdisplay = 480, dm_vrefresh = 60, dm_preferred = True\<rparr>"
  obtain t where t: "make_bufs (good_drm flip) 0 2 s1 0 = (VMC_OK, t, 0)" using good_make_bufs by blast
  have ops: "k_open (good_drm flip) = (\<lambda>_ k. (3, k))" "k_resources (good_drm flip) = (\<lambda>_ _. Some ([7], [9]))"
      "k_setcrtc (good_drm flip) = (\<lambda>_ _ _ _ _ k. (True, k))"
      "find_connected (good_drm flip) [7] 3 0 = Some (7,
         \<lparr>dm_hdisplay = 640, dm_vdisplay = 480, dm_vrefresh = 60, dm_preferred = True\<rparr>)"
    by (simp_all add: good_drm_def)
  let ?s = "t\<lparr>ds_on_screen := Some 0, ds_crtc_set := True, ds_next := 1\<rparr>"
  have i: "vmc_drm_scanout_init (good_drm flip) (Some zero_scanout) None 2 0 = (VMC_OK, Some ?s, 0)"
    using t by (simp add: vmc_drm_scanout_init_def ops const_defs s1_def Let_def del: find_connected.simps)
  have inv: "drm_inv ?s {} [] 0" "ds_nbufs ?s = 2" using drm_init_inv [OF i] by simp_all
  then have "buf_free ?s 1" by (intro drm_inv_idle) simp_all
  then have "fst (vmc_drm_scanout_next_idx ?s) = Some 1"
    using inv(2) by (simp add: vmc_drm_scanout_next_idx_def numeral_2_eq_2 Let_def)
  with i show ?thesis by blast
qed

theorem scanout_exclusive_witness:
  "\<exists>s0 k s. vmc_drm_scanout_init (good_drm Flip_Ok) (Some zero_scanout) None 2 0 = (VMC_OK, Some s0, k) \<and>
     pool_exec vmc_drm_scanout_next_idx record_flip flip_handler Acquire (s0, {}, [], []) = (s, {1}, [], []) \<and>
     fifo s = [] \<and> ds_on_screen s = Some 0"
proof -
  obtain s0 where i: "vmc_drm_scanout_init (good_drm Flip_Ok) (Some zero_scanout) None 2 0 = (VMC_OK, Some s0, 0)"
      "fst (vmc_drm_scanout_next_idx s0) = Some 1"
    using good_drm_init by blast
  then obtain s where n: "vmc_drm_scanout_next_idx s0 = (Some 1, s)" by (cases "vmc_drm_scanout_next_idx s0") auto
  have "fold (pool_exec vmc_drm_scanout_next_idx record_flip flip_handler) [Acquire] (s0, {}, [], [])
      = (s, {1}, [], [])" by (simp add: n)
  from scanout_exclusive [OF i(1) this] i(1) show ?thesis by (auto simp: n)
qed

text \<open>
  A failed page flip loses its buffer. When presenting a held buffer ends in an I/O error,
  the buffer stays marked busy, and whatever is acquired, submitted or completed afterwards, it
  is never handed out again unless the failed buffer itself is submitted once more, which the
  present worker does not do.
\<close>

theorem scanout_io_error_leaks:
  assumes "drm_inv s H Q c" and "i \<in> H" and "i < ds_nbufs s"
    and "vmc_drm_scanout_present ops s (int i) k = (VMC_ERR_IO, s1, k1)"
    and "\<forall>now. Submit i now \<notin> set os"
  shows "\<exists>Q1. \<forall>s2 H2 Q2 sh.
    fold (pool_exec vmc_drm_scanout_next_idx record_flip flip_handler) os (s1, H, Q1, []) = (s2, H2, Q2, sh)
      \<longrightarrow> fst (vmc_drm_scanout_next_idx s2) \<noteq> Some i"
proof -
  have "flip_tries ops 3 i s k = (VMC_ERR_IO, s1, k1)"
    using assms(3,4) by (simp add: vmc_drm_scanout_present_def)
  from flip_tries_error [OF this assms(1)] obtain Q1 c1 where i1: "drm_inv s1 H Q1 c1" by blast
  have "fst (vmc_drm_scanout_next_idx s2) \<noteq> Some i"
    if run: "fold (pool_exec vmc_drm_scanout_next_idx record_flip flip_handler) os (s1, H, Q1, []) = (s2, H2, Q2, sh)"
    for s2 H2 Q2 sh
  proof
    assume a: "fst (vmc_drm_scanout_next_idx s2) = Some i"
    then have "vmc_drm_scanout_next_idx s2 = (Some i, snd (vmc_drm_scanout_next_idx s2))"
      by (metis prod.collapse)
    then have "i \<notin> H2" using drm.run_exclusive(2) [OF i1 run] by blast
    moreover have "i \<in> H2" using drm.run_keeps_held [OF run assms(2,5)] .
    ultimately show False ..
  qed
  then show ?thesis by blast
qed

theorem scanout_io_error_leaks_witness:
  "\<exists>s0 k s k1. vmc_drm_scanout_init (good_drm Flip_Error) (Some zero_scanout) None 2 0 = (VMC_OK, Some s0, k) \<and>
     vmc_drm_scanout_present (good_drm Flip_Error) (snd (vmc_drm_scanout_next_idx s0)) 1 k = (VMC_ERR_IO, s, k1) \<and>
     fst (vmc_drm_scanout_next_idx s) \<noteq> Some 1"
proof -
  obtain s0 where i: "vmc_drm_scanout_init (good_drm Flip_Error) (Some zero_scanout) None 2 0 = (VMC_OK, Some s0, 0)"
      "fst (vmc_drm_scanout_next_idx s0) = Some 1"
    using good_drm_init by blast
  let ?s = "snd (vmc_drm_scanout_next_idx s0)"
  have inv0: "drm_inv s0 {} [] 0" "ds_nbufs s0 = 2" using drm_init_inv [OF i(1)] by auto
  have n: "vmc_drm_scanout_next_idx s0 = (Some 1, ?s)" using i(2) by (metis prod.collapse)
  have inv: "drm_inv ?s {1} [] 0" using drm_acquire [OF inv0(1) n] by simp
  have nb: "ds_nbufs ?s = 2" using next_idx_cases [OF n] inv0(2) by (auto simp: set_buf_def)
  have p: "vmc_drm_scanout_present (good_drm Flip_Error) ?s (int 1) 0 = (VMC_ERR_IO, ?s, 0)"
    by (simp add: vmc_drm_scanout_present_def nb numeral_3_eq_3 good_drm_def)
  from scanout_io_error_leaks [OF inv _ _ p, of "[]"] have "fst (vmc_drm_scanout_next_idx ?s) \<noteq> Some 1"
    by (simp add: nb)
  with i(1) p show ?thesis by auto
qed

text \<open>
  A failed \<^verbatim>\<open>mmap\<close> returns \<^verbatim>\<open>MAP_FAILED\<close>, which the null test of the initialisation does not
  recognise: the buffer is accepted with the address \<open>- 1\<close>.
\<close>

lemma make_buf_accepts_map_failed:
  assumes "k_create_dumb ops (ds_fd s) (ds_w s) (ds_h s) k = (Some (handle, pitch, sz), k1)" "handle \<noteq> 0"
    "k_map_dumb ops (ds_fd s) handle k1 = Some off" "k_mmap ops sz (ds_fd s) off k1 = (- 1, k2)"
    "k_addfb2 ops (ds_fd s) (ds_w s) (ds_h s) handle pitch (k_zero ops (- 1) sz k2) = (Some fb, k3)"
    "i < length (ds_bufs s)"
  shows "fst (make_buf ops i s k) = VMC_OK \<and> db_map (ds_bufs (fst (snd (make_buf ops i s k))) ! i) = - 1"
  using assms by (simp add: make_buf_def map_dumb_def Let_def set_buf_def split: prod.splits)

end
