(* ===== verification/Present_Queue.thy ===== *)
theory Present_Queue
  imports Vmc_Prelude
begin

text \<open>
  The queue between the decode worker and the present worker (\<^verbatim>\<open>apps/thinclient/main.c\<close>): a ring
  of 128 entries under one mutex. Waiting on a condition variable is the result \<open>None\<close>. The
  contract of a bounded queue is the locale \<open>entry_queue\<close>; the ring is shown to implement it
  while the program runs.
\<close>

section \<open>State and operations\<close>

definition VMC_PRESENT_QUEUE_SIZE :: nat where [const_defs]: "VMC_PRESENT_QUEUE_SIZE = 128"

record present_entry =
  pe_buf_idx :: nat
  pe_deadline_us :: u64
  pe_pts_us :: int

record present_queue =
  g_present_queue :: "present_entry list"
  g_present_qhead :: nat
  g_present_qtail :: nat
  g_present_qcount :: nat

definition present_push :: "bool \<Rightarrow> nat \<Rightarrow> u64 \<Rightarrow> int \<Rightarrow> present_queue \<Rightarrow> present_queue option" where
  "present_push g_run buf_idx deadline_us pts_us q =
     (if g_present_qcount q \<ge> VMC_PRESENT_QUEUE_SIZE \<and> g_run then None
      else Some (q\<lparr>g_present_queue := (g_present_queue q)[g_present_qtail q :=
                      \<lparr>pe_buf_idx = buf_idx, pe_deadline_us = deadline_us, pe_pts_us = pts_us\<rparr>],
                   g_present_qtail := (g_present_qtail q + 1) mod VMC_PRESENT_QUEUE_SIZE,
                   g_present_qcount := g_present_qcount q + 1\<rparr>))"

text \<open>The result \<open>Some (None, q)\<close> is the return value \<^verbatim>\<open>false\<close>: the queue is empty at shutdown.\<close>

definition present_pop :: "bool \<Rightarrow> present_queue \<Rightarrow> (present_entry option \<times> present_queue) option" where
  "present_pop g_run q =
     (if g_present_qcount q = 0 \<and> g_run then None
      else if g_present_qcount q = 0 then Some (None, q)
      else Some (Some (g_present_queue q ! g_present_qhead q),
                 q\<lparr>g_present_qhead := (g_present_qhead q + 1) mod VMC_PRESENT_QUEUE_SIZE,
                   g_present_qcount := g_present_qcount q - 1\<rparr>))"

definition present_empty :: "present_entry list \<Rightarrow> present_queue" where
  "present_empty store = \<lparr>g_present_queue = store, g_present_qhead = 0, g_present_qtail = 0, g_present_qcount = 0\<rparr>"

section \<open>A bounded queue as a contract\<close>

datatype 'e queue_op = Put 'e | Get

fun queue_exec :: "('e \<Rightarrow> 's \<Rightarrow> 's option) \<Rightarrow> ('s \<Rightarrow> ('e \<times> 's) option) \<Rightarrow> 'e queue_op
    \<Rightarrow> 's \<times> 'e list \<times> 'e list \<Rightarrow> 's \<times> 'e list \<times> 'e list" where
  "queue_exec put get (Put e) (s, ins, outs) =
     (case put e s of None \<Rightarrow> (s, ins, outs) | Some s' \<Rightarrow> (s', ins @ [e], outs))"
| "queue_exec put get Get (s, ins, outs) =
     (case get s of None \<Rightarrow> (s, ins, outs) | Some (e, s') \<Rightarrow> (s', ins, outs @ [e]))"

locale entry_queue =
  fixes inv :: "'s \<Rightarrow> bool"
    and items :: "'s \<Rightarrow> 'e list"
    and cap :: nat
    and put :: "'e \<Rightarrow> 's \<Rightarrow> 's option"
    and get :: "'s \<Rightarrow> ('e \<times> 's) option"
  assumes items_cap: "inv s \<Longrightarrow> length (items s) \<le> cap"
    and put_None: "inv s \<Longrightarrow> put e s = None \<longleftrightarrow> length (items s) = cap"
    and put_Some: "inv s \<Longrightarrow> put e s = Some s' \<Longrightarrow> inv s' \<and> items s' = items s @ [e]"
    and get_None: "inv s \<Longrightarrow> get s = None \<longleftrightarrow> items s = []"
    and get_Some: "inv s \<Longrightarrow> get s = Some (e, s') \<Longrightarrow> inv s' \<and> items s = e # items s'"
begin

lemma exec_fifo:
  assumes "inv s" "queue_exec put get op (s, ins, outs) = (s', ins', outs')" "ins = outs @ items s"
  shows "inv s' \<and> ins' = outs' @ items s'"
proof (cases op)
  case (Put e)
  with assms show ?thesis using put_Some [of s e] by (auto split: option.splits)
next
  case Get
  with assms show ?thesis using get_Some [of s] by (auto split: option.splits)
qed

lemma run_fifo:
  assumes "inv s" "fold (queue_exec put get) ops (s, ins, outs) = (s', ins', outs')" "ins = outs @ items s"
  shows "inv s' \<and> ins' = outs' @ items s'"
  using assms
proof (induction ops arbitrary: s ins outs)
  case (Cons op ops)
  obtain s1 ins1 outs1 where e: "queue_exec put get op (s, ins, outs) = (s1, ins1, outs1)" by (rule prod_cases3)
  with exec_fifo [OF Cons.prems(1) e Cons.prems(3)] Cons.IH [of s1 ins1 outs1] Cons.prems(2)
  show ?case by simp
qed simp

end

section \<open>The ring implements the contract\<close>

definition pq_items :: "present_queue \<Rightarrow> present_entry list" where
  "pq_items q = map (\<lambda>j. g_present_queue q ! ((g_present_qhead q + j) mod VMC_PRESENT_QUEUE_SIZE))
     [0..<g_present_qcount q]"

definition pq_inv :: "present_queue \<Rightarrow> bool" where
  "pq_inv q \<longleftrightarrow> length (g_present_queue q) = VMC_PRESENT_QUEUE_SIZE \<and>
     g_present_qhead q < VMC_PRESENT_QUEUE_SIZE \<and> g_present_qcount q \<le> VMC_PRESENT_QUEUE_SIZE \<and>
     g_present_qtail q = (g_present_qhead q + g_present_qcount q) mod VMC_PRESENT_QUEUE_SIZE"

definition pq_put :: "present_entry \<Rightarrow> present_queue \<Rightarrow> present_queue option" where
  "pq_put e q = present_push True (pe_buf_idx e) (pe_deadline_us e) (pe_pts_us e) q"

definition pq_get :: "present_queue \<Rightarrow> (present_entry \<times> present_queue) option" where
  "pq_get q = (case present_pop True q of Some (Some e, q') \<Rightarrow> Some (e, q') | _ \<Rightarrow> None)"

lemma ring_pos_inj:
  assumes "j < N" "k < (N :: nat)" "(h + j) mod N = (h + k) mod N"
  shows "j = k"
proof (cases "j \<le> k")
  case True
  then have "N dvd k - j" using assms(3) by (metis add_diff_cancel_left mod_eq_dvd_iff_nat add_le_cancel_left)
  then show ?thesis using assms True by (auto dest: dvd_imp_le)
next
  case False
  then have "N dvd j - k"
    using assms(3) by (metis add_diff_cancel_left mod_eq_dvd_iff_nat add_le_cancel_left nat_le_linear)
  then show ?thesis using assms False by (auto dest: dvd_imp_le)
qed

lemma pq_push_items:
  assumes "pq_inv q" "g_present_qcount q < VMC_PRESENT_QUEUE_SIZE" "present_push r b d p q = Some q'"
  shows "pq_inv q' \<and> pq_items q' = pq_items q @ [\<lparr>pe_buf_idx = b, pe_deadline_us = d, pe_pts_us = p\<rparr>]"
proof -
  let ?N = VMC_PRESENT_QUEUE_SIZE and ?h = "g_present_qhead q" and ?n = "g_present_qcount q"
  have q': "q' = q\<lparr>g_present_queue := (g_present_queue q)[g_present_qtail q :=
        \<lparr>pe_buf_idx = b, pe_deadline_us = d, pe_pts_us = p\<rparr>],
      g_present_qtail := (g_present_qtail q + 1) mod ?N, g_present_qcount := ?n + 1\<rparr>"
    using assms(2,3) by (simp add: present_push_def)
  have t: "g_present_qtail q = (?h + ?n) mod ?N" "length (g_present_queue q) = ?N" "0 < ?N"
    using assms(1) by (simp_all add: pq_inv_def const_defs)
  have "(?h + ?n) mod ?N \<noteq> (?h + j) mod ?N" if "j < ?n" for j
    using ring_pos_inj [of j ?N ?n ?h] that assms(2) by auto
  then have "pq_items q' = pq_items q @ [\<lparr>pe_buf_idx = b, pe_deadline_us = d, pe_pts_us = p\<rparr>]"
    using t by (simp add: pq_items_def q' nth_list_update_neq)
  moreover have "pq_inv q'" using assms(1,2) by (simp add: q' pq_inv_def mod_simps)
  ultimately show ?thesis by blast
qed

lemma pq_pop_items:
  assumes "pq_inv q" "present_pop r q = Some (Some e, q')"
  shows "pq_inv q' \<and> pq_items q = e # pq_items q'"
proof -
  let ?N = VMC_PRESENT_QUEUE_SIZE and ?h = "g_present_qhead q"
  obtain n where n: "g_present_qcount q = Suc n" using assms(2) by (cases "g_present_qcount q") (auto simp: present_pop_def split: if_splits)
  have q': "e = g_present_queue q ! ?h" "q' = q\<lparr>g_present_qhead := (?h + 1) mod ?N, g_present_qcount := n\<rparr>"
    using assms(2) n by (auto simp: present_pop_def)
  have "pq_items q = e # pq_items q'"
    using assms(1) by (simp add: pq_items_def q' n map_upt_Suc mod_simps pq_inv_def del: upt_Suc)
  moreover have "pq_inv q'" using assms(1) n by (simp add: q'(2) pq_inv_def mod_simps)
  ultimately show ?thesis by blast
qed

interpretation pq: entry_queue pq_inv pq_items VMC_PRESENT_QUEUE_SIZE pq_put pq_get
proof unfold_locales
  fix s e s'
  assume i: "pq_inv s"
  show "length (pq_items s) \<le> VMC_PRESENT_QUEUE_SIZE" using i by (simp add: pq_items_def pq_inv_def)
  show "pq_put e s = None \<longleftrightarrow> length (pq_items s) = VMC_PRESENT_QUEUE_SIZE"
    using i by (auto simp: pq_put_def present_push_def pq_items_def pq_inv_def)
  show "pq_inv s' \<and> pq_items s' = pq_items s @ [e]" if "pq_put e s = Some s'"
    using pq_push_items [OF i, of True] that by (auto simp: pq_put_def present_push_def split: if_splits)
  show "pq_get s = None \<longleftrightarrow> pq_items s = []"
    by (auto simp: pq_get_def present_pop_def pq_items_def split: option.splits)
  show "pq_inv s' \<and> pq_items s = e # pq_items s'" if "pq_get s = Some (e, s')"
    using pq_pop_items [OF i, of True e s'] that by (auto simp: pq_get_def split: option.splits)
qed

section \<open>Properties\<close>

text \<open>
  C21: The present queue is a bounded FIFO. While the program runs, after any sequence of pushes
  and pops on an initially empty queue the entries popped, followed by the entries still
  queued, are exactly the entries pushed, in order, and at most 128 are queued; a push waits
  exactly when 128 entries are queued.
\<close>

theorem present_queue_fifo:
  assumes "length store = 128"
    and "fold (queue_exec pq_put pq_get) ops (present_empty store, [], []) = (q, pushed, popped)"
  shows "pushed = popped @ pq_items q \<and> length (pq_items q) \<le> 128 \<and>
    (present_push True b d p q = None \<longleftrightarrow> length (pq_items q) = 128)"
proof -
  have i: "pq_inv (present_empty store)" using assms(1) by (simp add: pq_inv_def present_empty_def const_defs)
  have "pq_items (present_empty store) = []" by (simp add: pq_items_def present_empty_def)
  then have f: "pq_inv q \<and> pushed = popped @ pq_items q" using pq.run_fifo [OF i assms(2)] by simp
  then show ?thesis
    using pq.put_None [of q "\<lparr>pe_buf_idx = b, pe_deadline_us = d, pe_pts_us = p\<rparr>"] pq.items_cap [of q]
    by (simp add: pq_put_def const_defs)
qed

definition some_entry :: "nat \<Rightarrow> present_entry" where
  "some_entry n = \<lparr>pe_buf_idx = n, pe_deadline_us = of_nat n, pe_pts_us = int n\<rparr>"

theorem present_queue_fifo_witness:
  "\<exists>q. fold (queue_exec pq_put pq_get) [Put (some_entry 1), Put (some_entry 2), Get]
       (present_empty (replicate 128 (some_entry 0)), [], []) = (q, [some_entry 1, some_entry 2], [some_entry 1]) \<and>
     pq_items q = [some_entry 2]"
proof -
  obtain q ins outs where r: "fold (queue_exec pq_put pq_get) [Put (some_entry 1), Put (some_entry 2), Get]
      (present_empty (replicate 128 (some_entry 0)), [], []) = (q, ins, outs)" by (rule prod_cases3)
  moreover have "ins = [some_entry 1, some_entry 2]" "outs = [some_entry 1]"
    using r by (auto simp: pq_put_def pq_get_def present_push_def present_pop_def present_empty_def const_defs
        some_entry_def nth_list_update)
  ultimately show ?thesis using present_queue_fifo [OF _ r] by auto
qed

text \<open>
  At shutdown a push into a full queue does not wait and overwrites the oldest entry: the
  entry to be popped next is then the newest one, and the count exceeds the capacity.
\<close>

theorem present_push_shutdown_overwrites:
  assumes "pq_inv q" "g_present_qcount q = 128" "present_push False b d p q = Some q'"
  shows "g_present_qcount q' = 129 \<and>
    (\<exists>q''. present_pop False q' = Some (Some \<lparr>pe_buf_idx = b, pe_deadline_us = d, pe_pts_us = p\<rparr>, q''))"
  using assms by (auto simp: present_push_def present_pop_def pq_inv_def const_defs)

definition full_queue :: present_queue where
  "full_queue = \<lparr>g_present_queue = replicate 128 (some_entry 0), g_present_qhead = 0, g_present_qtail = 0,
     g_present_qcount = 128\<rparr>"

theorem present_push_shutdown_overwrites_witness:
  "\<exists>q'. present_push False 5 0 0 full_queue = Some q' \<and> g_present_qcount q' = 129"
proof -
  have i: "pq_inv full_queue" by (simp add: pq_inv_def full_queue_def const_defs)
  obtain q' where p: "present_push False 5 0 0 full_queue = Some q'" by (simp add: present_push_def)
  then show ?thesis using present_push_shutdown_overwrites [OF i _ p] by (simp add: full_queue_def)
qed

end
