(* ===== verification/Playout_Clock.thy ===== *)
theory Playout_Clock
  imports Vmc_Prelude
begin

text \<open>
  The clocks that pace the picture (\<^verbatim>\<open>apps/thinclient/main.c\<close>): the map from wall time to the
  audio content heard at that time, the presentation clock with its fallback, the deadline of
  an access unit, the gate and the servo of the present worker, the pacing of the frame-buffer
  path and the size of the live buffer.

  Times are integers of microseconds. The casts of the code between \<^verbatim>\<open>u64\<close> and \<^verbatim>\<open>i64\<close> and its
  unsigned subtractions are written with \<open>U64\<close> and \<open>I64\<close>, so that a wrapped difference is the
  value the code sees; signed additions are exact (overflow there is undefined in C). Each
  reading of a clock is an argument of its own, in the order of the calls.
\<close>

section \<open>Integers of 64 bits\<close>

definition U64 :: "int \<Rightarrow> int" where
  "U64 x = x mod 2 ^ 64"

definition I64 :: "int \<Rightarrow> int" where
  "I64 x = (x + 2 ^ 63) mod 2 ^ 64 - 2 ^ 63"

lemma U64_id [simp]: "0 \<le> x \<Longrightarrow> x < 2 ^ 64 \<Longrightarrow> U64 x = x"
  by (simp add: U64_def)

lemma I64_id [simp]: "- (2 ^ 63) \<le> x \<Longrightarrow> x < 2 ^ 63 \<Longrightarrow> I64 x = x"
  by (simp add: I64_def)

lemma U64_range [simp]: "0 \<le> U64 x" "U64 x < 2 ^ 64"
  by (simp_all add: U64_def)

section \<open>State\<close>

record av_clock =
  g_stream_fps :: int
  g_seg_duration_us :: int
  g_anchor_wall_us :: int
  g_anchor_seg :: int
  g_timeline_adj_us :: int
  g_cadence_shift_us :: int
  g_playout_latency_us :: int
  g_seg_interval_ewma :: int
  g_last_seg_arrival_wall :: int
  g_audio_pos_us :: int
  g_audio_active :: bool
  g_audio_start_wall_us :: int
  g_audio_delay_us :: int
  g_audio_bytes_consumed :: int
  g_audio_last_advance_wall :: int
  g_last_video_deadline_us :: int

section \<open>Clocks\<close>

definition tlm_audio_content_at_wall :: "av_clock \<Rightarrow> int \<Rightarrow> int" where
  "tlm_audio_content_at_wall c wall_us =
     (if g_anchor_wall_us c = 0 then - 1
      else if g_audio_start_wall_us c = 0 \<or> g_audio_delay_us c = 0
      then (let x = I64 wall_us - I64 (g_anchor_wall_us c) - I64 (g_playout_latency_us c) - g_timeline_adj_us c
            in if x < 0 then 0 else x)
      else (let x = I64 wall_us - I64 (g_audio_start_wall_us c) - I64 (g_audio_delay_us c) - g_timeline_adj_us c
            in if x < 0 then 0 else x))"

text \<open>
  The presentation clock: the audio position while audio is active, advanced within the last
  second and not more than 200 ms ahead of the wall clock; else the wall clock.
\<close>

definition audio_clock_usable :: "av_clock \<Rightarrow> int \<Rightarrow> int \<Rightarrow> bool" where
  "audio_clock_usable c wall1 wall2 \<longleftrightarrow> g_audio_active c \<and> g_audio_pos_us c \<noteq> 0 \<and>
     U64 (wall1 - g_audio_last_advance_wall c) \<le> 1000000 \<and> g_audio_pos_us c \<le> U64 (U64 wall2 + 200000)"

definition dash_pres_clock :: "av_clock \<Rightarrow> int \<Rightarrow> int \<Rightarrow> int \<Rightarrow> int" where
  "dash_pres_clock c wall1 wall2 wall3 =
     (if audio_clock_usable c wall1 wall2 then g_audio_pos_us c else U64 wall3)"

text \<open>The fallback is reported at most once per second of the monotonic clock.\<close>

definition clock_fallback_emit :: "bool \<Rightarrow> av_clock \<Rightarrow> int \<Rightarrow> int \<Rightarrow> int \<Rightarrow> int \<Rightarrow> bool \<times> int" where
  "clock_fallback_emit tlm_enabled c wall1 wall2 now_us emit_s =
     (if audio_clock_usable c wall1 wall2 then (False, emit_s)
      else if tlm_enabled \<and> now_us div 1000000 \<noteq> emit_s then (True, (now_us div 1000000) mod 2 ^ 32)
      else (False, emit_s))"

definition frame_period :: "av_clock \<Rightarrow> int" where
  "frame_period c = (if g_stream_fps c > 0 then 1000000 div g_stream_fps c else 1000000 div 24)"

definition dash_au_deadline :: "av_clock \<Rightarrow> int \<Rightarrow> int \<Rightarrow> int" where
  "dash_au_deadline c seg_num k =
     (let off = (seg_num - g_anchor_seg c) * I64 (g_seg_duration_us c);
          seg_off = (if off < 0 then 0 else off);
          base = (if I64 (g_audio_start_wall_us c) = 0
                  then I64 (g_anchor_wall_us c) + I64 (g_playout_latency_us c)
                  else I64 (g_audio_start_wall_us c) + I64 (g_audio_delay_us c) - I64 (g_playout_latency_us c));
          d = base + (seg_off + k * frame_period c + g_timeline_adj_us c)
      in if d < 0 then 0 else d)"

text \<open>The content time stamp that the demuxer gives to frame \<open>k\<close> of a segment.\<close>

definition content_pts :: "av_clock \<Rightarrow> int \<Rightarrow> int \<Rightarrow> int" where
  "content_pts c seg_num k =
     (let fp = (if g_stream_fps c > 0 then 1000000 div g_stream_fps c else 16667)
      in (seg_num - 1) * I64 (g_seg_duration_us c) + k * fp)"

section \<open>The gate of the present worker\<close>

text \<open>
  What the worker reads in one round of the gate: the shared state, the five readings of the
  wall clock and the run flag at the end of the round.
\<close>

record gate_view =
  gv_clock :: av_clock
  gv_wall :: int
  gv_wall_stall :: int
  gv_wall1 :: int
  gv_wall2 :: int
  gv_wall3 :: int
  gv_run :: bool

datatype gate_exit = Crossed nat | Fallback nat | Stopped nat | Expired

definition present_lead :: "int \<Rightarrow> int" where
  "present_lead vblank_period_us = (if vblank_period_us > 0 then vblank_period_us else 16667) * 2"

definition gate_pts :: "int \<Rightarrow> int \<Rightarrow> int \<Rightarrow> int" where
  "gate_pts pts_us lead shift = pts_us - lead - shift"

definition gate_crossed :: "gate_view \<Rightarrow> int \<Rightarrow> bool" where
  "gate_crossed v gp \<longleftrightarrow>
     (let ac = tlm_audio_content_at_wall (gv_clock v) (U64 (gv_wall v)) in ac \<ge> 0 \<and> ac \<ge> gp)"

definition audio_unavailable :: "gate_view \<Rightarrow> bool" where
  "audio_unavailable v \<longleftrightarrow> tlm_audio_content_at_wall (gv_clock v) (U64 (gv_wall v)) < 0 \<or>
     U64 (gv_wall_stall v - g_audio_last_advance_wall (gv_clock v)) > 1000000"

definition gate_fallback :: "gate_view \<Rightarrow> int \<Rightarrow> bool" where
  "gate_fallback v deadline_us \<longleftrightarrow> audio_unavailable v \<and>
     dash_pres_clock (gv_clock v) (gv_wall1 v) (gv_wall2 v) (gv_wall3 v) \<ge> deadline_us"

fun gate_loop :: "(nat \<Rightarrow> gate_view) \<Rightarrow> int \<Rightarrow> int \<Rightarrow> nat \<Rightarrow> nat \<Rightarrow> gate_exit" where
  "gate_loop view gp deadline_us i 0 = Expired"
| "gate_loop view gp deadline_us i (Suc n) =
     (if gate_crossed (view i) gp then Crossed i
      else if gate_fallback (view i) deadline_us then Fallback i
      else if \<not> gv_run (view i) then Stopped i
      else gate_loop view gp deadline_us (Suc i) n)"

definition present_gate :: "(nat \<Rightarrow> gate_view) \<Rightarrow> int \<Rightarrow> int \<Rightarrow> int \<Rightarrow> int \<Rightarrow> gate_exit" where
  "present_gate view pts_us lead shift deadline_us =
     gate_loop view (gate_pts pts_us lead shift) deadline_us 0 600"

definition servo_shift :: "int \<Rightarrow> int \<Rightarrow> int \<Rightarrow> int" where
  "servo_shift shift pts_us apos =
     (let off = pts_us - apos
      in if off > - 500000 \<and> off < 500000 then
           (let s1 = shift - c_div off 8;
                s2 = (if s1 < - 200000 then - 200000 else s1)
            in if s2 > 200000 then 200000 else s2)
         else shift)"

definition vsync_missed :: "av_clock \<Rightarrow> int \<Rightarrow> int \<Rightarrow> int \<Rightarrow> bool" where
  "vsync_missed c apos wall_now deadline_us \<longleftrightarrow> apos \<ge> 0 \<and>
     I64 wall_now - I64 deadline_us > I64 (g_playout_latency_us c) + frame_period c * 3 div 2"

section \<open>Pacing of the frame-buffer path\<close>

definition VMC_FB_PRESENT_SPIN_US :: int where [const_defs]: "VMC_FB_PRESENT_SPIN_US = 3500"
definition VMC_FB_PRESENT_STALL_MS :: int where [const_defs]: "VMC_FB_PRESENT_STALL_MS = 120"

text \<open>The cadence floor: the later of the deadline and one frame period after the previous deadline.\<close>

definition fb_target :: "int \<Rightarrow> int \<Rightarrow> int \<Rightarrow> int" where
  "fb_target s_last deadline_us period =
     (if s_last \<noteq> 0 \<and> U64 (s_last + period) > deadline_us then U64 (s_last + period) else deadline_us)"

definition fb_present_at :: "av_clock \<Rightarrow> int \<Rightarrow> int \<Rightarrow> int \<Rightarrow> int" where
  "fb_present_at c now0 pts_us target =
     (let cnow = tlm_audio_content_at_wall c now0; ahead = pts_us - cnow
      in if cnow \<ge> 0 \<and> ahead > 0 \<and> U64 (now0 + ahead) > target then U64 (now0 + ahead) else target)"

text \<open>The instant until which the worker sleeps, \<open>None\<close> when it goes straight to the busy wait.\<close>

definition fb_sleep_until :: "int \<Rightarrow> int \<Rightarrow> int option" where
  "fb_sleep_until present_at now0 =
     (if present_at > U64 (now0 + VMC_FB_PRESENT_SPIN_US) then Some (present_at - VMC_FB_PRESENT_SPIN_US) else None)"

definition fb_released :: "av_clock \<Rightarrow> int \<Rightarrow> int \<Rightarrow> int \<Rightarrow> bool" where
  "fb_released c wall target pts_us \<longleftrightarrow> wall \<ge> target \<and> tlm_audio_content_at_wall c wall \<ge> pts_us"

text \<open>
  The coarse guard loop after the busy wait: up to 600 polls, each with the shared state, two
  wall clock readings and the run flag; it ends with the release or when the 120 ms are over.
\<close>

datatype fb_exit = Released nat | Gave_Up nat | Polls_Over

fun fb_stall_loop :: "(nat \<Rightarrow> av_clock \<times> int \<times> int \<times> bool) \<Rightarrow> int \<Rightarrow> int \<Rightarrow> int \<Rightarrow> nat \<Rightarrow> nat \<Rightarrow> fb_exit" where
  "fb_stall_loop view target pts_us until i 0 = Polls_Over"
| "fb_stall_loop view target pts_us until i (Suc n) =
     (case view i of (c, wall, wall', run) \<Rightarrow>
        if fb_released c wall target pts_us then Released i
        else if \<not> run \<or> wall' \<ge> until then Gave_Up i
        else fb_stall_loop view target pts_us until (Suc i) n)"

section \<open>Live buffer\<close>

definition dash_buffer_grow :: "int \<Rightarrow> int \<Rightarrow> int \<Rightarrow> int \<Rightarrow> int \<Rightarrow> int" where
  "dash_buffer_grow base mx prefetch fetch_ewma seg_duration_us =
     (let sd = U64 seg_duration_us;
          d1 = base + (if fetch_ewma > sd div 2 then 1000000 else 0);
          d2 = d1 + (if fetch_ewma > sd then 2000000 else 0);
          d3 = d2 + (if fetch_ewma > U64 (sd * 2) then 3000000 else 0);
          d4 = d3 + (if fetch_ewma > U64 (sd * 4) then 5000000 else 0);
          d5 = (if d4 > mx then mx else d4)
      in if d5 < prefetch then prefetch else d5)"

record live_buffer =
  g_seg_fetch_ewma_us :: int
  g_video_live_buffer_us :: int
  g_audio_live_buffer_us :: int

definition VMC_VIDEO_TARGET_US :: int where [const_defs]: "VMC_VIDEO_TARGET_US = 2000000"
definition VMC_VIDEO_MAX_US :: int where [const_defs]: "VMC_VIDEO_MAX_US = 3000000"
definition VMC_VIDEO_PREFETCH_US :: int where [const_defs]: "VMC_VIDEO_PREFETCH_US = 1000000"
definition VMC_AUDIO_TARGET_US :: int where [const_defs]: "VMC_AUDIO_TARGET_US = 2000000"
definition VMC_AUDIO_MAX_US :: int where [const_defs]: "VMC_AUDIO_MAX_US = 3000000"
definition VMC_AUDIO_PREFETCH_US :: int where [const_defs]: "VMC_AUDIO_PREFETCH_US = 1000000"

definition dash_update_live_buffer :: "int \<Rightarrow> int \<Rightarrow> live_buffer \<Rightarrow> live_buffer" where
  "dash_update_live_buffer fetch_us seg_duration_us b =
     (let e = (if g_seg_fetch_ewma_us b = 0 then fetch_us
               else U64 (15 * g_seg_fetch_ewma_us b + fetch_us) div 16);
          grown = dash_buffer_grow VMC_VIDEO_TARGET_US VMC_VIDEO_MAX_US VMC_VIDEO_PREFETCH_US e seg_duration_us;
          v = g_video_live_buffer_us b;
          vdesired = (if e < U64 seg_duration_us div 4 \<and> v > VMC_VIDEO_TARGET_US
                      then (if v > VMC_VIDEO_TARGET_US + 1000000 then v - 1000000 else VMC_VIDEO_TARGET_US)
                      else grown)
      in b\<lparr>g_seg_fetch_ewma_us := e, g_video_live_buffer_us := vdesired,
           g_audio_live_buffer_us :=
             dash_buffer_grow VMC_AUDIO_TARGET_US VMC_AUDIO_MAX_US VMC_AUDIO_PREFETCH_US e seg_duration_us\<rparr>)"

section \<open>Deadlines and the audio clock\<close>

text \<open>
  A playing state: audio has started, all times are non-negative and far from the 64-bit
  limits, and the frame rate is known.
\<close>

definition small_time :: "int \<Rightarrow> bool" where
  "small_time x \<longleftrightarrow> 0 \<le> x \<and> x < 2 ^ 61"

definition playing :: "av_clock \<Rightarrow> bool" where
  "playing c \<longleftrightarrow> g_anchor_wall_us c \<noteq> 0 \<and> 0 < g_audio_start_wall_us c \<and> 0 < g_audio_delay_us c \<and>
     small_time (g_anchor_wall_us c) \<and> small_time (g_audio_start_wall_us c) \<and> small_time (g_audio_delay_us c) \<and>
     small_time (g_playout_latency_us c) \<and> small_time (g_seg_duration_us c) \<and> 0 < g_stream_fps c"

lemma I64_small [simp]: "small_time x \<Longrightarrow> I64 x = x"
  by (rule I64_id) (simp_all add: small_time_def)

lemma playing_small:
  assumes "playing c"
  shows "small_time (g_anchor_wall_us c)" "small_time (g_audio_start_wall_us c)" "small_time (g_audio_delay_us c)"
    "small_time (g_playout_latency_us c)" "small_time (g_seg_duration_us c)"
  using assms by (simp_all add: playing_def)

lemma content_playing:
  assumes "playing c" "small_time w"
  shows "tlm_audio_content_at_wall c w =
    max 0 (w - g_audio_start_wall_us c - g_audio_delay_us c - g_timeline_adj_us c)"
  using assms by (auto simp: tlm_audio_content_at_wall_def playing_def Let_def)

lemma deadline_playing:
  assumes "playing c" "g_anchor_seg c \<le> seg"
  shows "dash_au_deadline c seg k = max 0 (g_audio_start_wall_us c + g_audio_delay_us c - g_playout_latency_us c +
      ((seg - g_anchor_seg c) * g_seg_duration_us c + k * (1000000 div g_stream_fps c) + g_timeline_adj_us c))"
proof -
  have "0 \<le> (seg - g_anchor_seg c) * g_seg_duration_us c"
    using assms by (simp add: playing_def small_time_def)
  then show ?thesis
    using assms by (auto simp: dash_au_deadline_def playing_def Let_def frame_period_def)
qed

lemma pts_playing:
  "playing c \<Longrightarrow> content_pts c seg k = (seg - 1) * g_seg_duration_us c + k * (1000000 div g_stream_fps c)"
  by (simp add: content_pts_def playing_def)

definition joined_at :: "int \<Rightarrow> av_clock" where
  "joined_at seg = \<lparr>g_stream_fps = 25, g_seg_duration_us = 1000000, g_anchor_wall_us = 900000000,
     g_anchor_seg = seg, g_timeline_adj_us = 0, g_cadence_shift_us = 0, g_playout_latency_us = 85000,
     g_seg_interval_ewma = 0, g_last_seg_arrival_wall = 0, g_audio_pos_us = 901000000,
     g_audio_active = True, g_audio_start_wall_us = 900000000, g_audio_delay_us = 100000,
     g_audio_bytes_consumed = 0, g_audio_last_advance_wall = 901000000, g_last_video_deadline_us = 0\<rparr>"

text \<open>
  C19: Deadlines follow the frames. In a playing state the deadlines of the frames of one
  segment are exactly one frame period apart and the same frame of the next segment is due
  exactly one segment duration later, as long as the deadline has not been clamped at zero.
  Clamped or not, deadlines increase with the frame, and frames that fit into the duration of
  their segment come no later than the first frame of the next one, so that the decode
  worker's choice of the least deadline keeps the stream in order.
\<close>

theorem deadlines_ordered:
  assumes "playing c" and "g_anchor_seg c \<le> seg" and "k \<le> k'"
    and "k' * (1000000 div g_stream_fps c) \<le> g_seg_duration_us c"
  shows "dash_au_deadline c seg k \<le> dash_au_deadline c seg k' \<and>
    dash_au_deadline c seg k' \<le> dash_au_deadline c (seg + 1) 0 \<and>
    (0 < dash_au_deadline c seg k \<longrightarrow>
       dash_au_deadline c seg k' = dash_au_deadline c seg k + (k' - k) * (1000000 div g_stream_fps c) \<and>
       dash_au_deadline c (seg + 1) k = dash_au_deadline c seg k + g_seg_duration_us c)"
proof -
  let ?p = "1000000 div g_stream_fps c"
  have p: "0 \<le> ?p" and dur: "0 \<le> g_seg_duration_us c"
    using assms(1) by (simp_all add: playing_def small_time_def pos_imp_zdiv_nonneg_iff)
  have "k' * ?p = k * ?p + (k' - k) * ?p" by (simp add: algebra_simps)
  moreover have "0 \<le> (k' - k) * ?p" using assms(3) p by simp
  moreover have "(seg + 1 - g_anchor_seg c) * g_seg_duration_us c =
      (seg - g_anchor_seg c) * g_seg_duration_us c + g_seg_duration_us c" by (simp add: algebra_simps)
  ultimately show ?thesis
    using assms(4) dur deadline_playing [OF assms(1,2)] deadline_playing [OF assms(1), of "seg + 1"] assms(2)
    by auto
qed

theorem deadlines_ordered_witness:
  "dash_au_deadline (joined_at 1) 3 24 = dash_au_deadline (joined_at 1) 3 5 + 19 * 40000 \<and>
   dash_au_deadline (joined_at 1) (3 + 1) 5 = dash_au_deadline (joined_at 1) 3 5 + 1000000 \<and>
   dash_au_deadline (joined_at 1) 3 5 = 902215000"
proof -
  have d: "dash_au_deadline (joined_at 1) 3 5 = 902215000"
    by (simp add: dash_au_deadline_def joined_at_def frame_period_def I64_def)
  with deadlines_ordered [of "joined_at 1" 3 5 24] show ?thesis
    by (simp add: playing_def joined_at_def small_time_def)
qed

section \<open>The presentation clock\<close>

lemma pres_clock_bounds:
  "dash_pres_clock c w1 w2 w3 \<le> max (U64 (U64 w2 + 200000)) (U64 w3)"
  by (auto simp: dash_pres_clock_def audio_clock_usable_def)

lemma pres_clock_stalled:
  "U64 (w1 - g_audio_last_advance_wall c) > 1000000 \<Longrightarrow> dash_pres_clock c w1 w2 w3 = U64 w3"
  by (simp add: dash_pres_clock_def audio_clock_usable_def)

section \<open>The servo\<close>

text \<open>
  The loop closed by the present worker: with the shift \<open>s\<close> a frame of content time \<open>p\<close> is
  released when the audio reaches \<open>p - lead - s\<close> and is on screen \<open>latency\<close> later, so the measured
  offset is \<open>lead + s - latency\<close>.
\<close>

definition closed_loop :: "int \<Rightarrow> int \<Rightarrow> int \<Rightarrow> int" where
  "closed_loop lead latency s = servo_shift s (lead + s) latency"

lemma servo_shift_range:
  "\<bar>s\<bar> \<le> 200000 \<Longrightarrow> \<bar>servo_shift s pts apos\<bar> \<le> 200000"
  by (auto simp: servo_shift_def Let_def)

lemma c_div8_step:
  shows "\<bar>x - c_div x 8\<bar> \<le> \<bar>x\<bar>" and "8 \<le> \<bar>x\<bar> \<Longrightarrow> \<bar>x - c_div x 8\<bar> < \<bar>x\<bar>"
    and "0 \<le> x \<Longrightarrow> 0 \<le> x - c_div x 8" and "x \<le> 0 \<Longrightarrow> x - c_div x 8 \<le> 0"
  by (cases "x < 0"; simp add: c_div_neg)+

lemma closed_loop_offset:
  assumes "\<bar>latency - lead\<bar> \<le> 200000" "\<bar>s\<bar> \<le> 200000"
  shows "lead + closed_loop lead latency s - latency =
    (lead + s - latency) - c_div (lead + s - latency) 8"
proof -
  let ?x = "lead + s - latency"
  have "\<bar>?x\<bar> < 500000" using assms by linarith
  moreover have "\<bar>s - c_div ?x 8\<bar> \<le> 200000"
  proof (cases "0 \<le> ?x")
    case True
    then have "0 \<le> ?x - c_div ?x 8" "0 \<le> c_div ?x 8" using c_div8_step(3) by simp_all
    then show ?thesis using assms by linarith
  next
    case False
    then have "?x - c_div ?x 8 \<le> 0" "c_div ?x 8 \<le> 0" using c_div8_step(4) [of ?x] by (simp_all add: c_div_neg)
    then show ?thesis using assms by linarith
  qed
  ultimately show ?thesis
    by (simp add: closed_loop_def servo_shift_def Let_def abs_le_iff abs_less_iff not_less)
qed

lemma closed_loop_range: "\<bar>s\<bar> \<le> 200000 \<Longrightarrow> \<bar>closed_loop lead latency s\<bar> \<le> 200000"
  by (simp add: closed_loop_def servo_shift_range)

lemma closed_loop_iterate:
  assumes "\<bar>latency - lead\<bar> \<le> 200000" "\<bar>s\<bar> \<le> 200000"
  shows "\<bar>(closed_loop lead latency ^^ n) s\<bar> \<le> 200000 \<and>
    (\<bar>lead + (closed_loop lead latency ^^ n) s - latency\<bar> < 8 \<or>
     \<bar>lead + (closed_loop lead latency ^^ n) s - latency\<bar> + int n \<le> \<bar>lead + s - latency\<bar>)"
proof (induction n)
  case (Suc n)
  let ?t = "(closed_loop lead latency ^^ n) s"
  have o: "lead + closed_loop lead latency ?t - latency = (lead + ?t - latency) - c_div (lead + ?t - latency) 8"
    using closed_loop_offset [OF assms(1)] Suc by blast
  have "\<bar>closed_loop lead latency ?t\<bar> \<le> 200000" using Suc by (simp add: closed_loop_range)
  moreover have "\<bar>lead + closed_loop lead latency ?t - latency\<bar> < 8 \<or>
      \<bar>lead + closed_loop lead latency ?t - latency\<bar> + int (Suc n) \<le> \<bar>lead + s - latency\<bar>"
    unfolding o using Suc c_div8_step(1,2) [of "lead + ?t - latency"] by linarith
  ultimately show ?case by simp
qed (use assms in simp)

text \<open>
  C20: The A/V servo converges and stays bounded. If the latency from release to screen is
  constant and within 200 ms of the fixed lead, then from any admissible shift the measured
  offset is below 8 microseconds after at most as many frames as its initial size, it never
  grows, and the shift stays within its clamp of 200 ms for ever.
\<close>

theorem servo_converges:
  assumes "\<bar>latency - lead\<bar> \<le> 200000" and "\<bar>s\<bar> \<le> 200000"
  shows "\<bar>(closed_loop lead latency ^^ n) s\<bar> \<le> 200000 \<and>
    \<bar>lead + (closed_loop lead latency ^^ Suc n) s - latency\<bar> \<le> \<bar>lead + (closed_loop lead latency ^^ n) s - latency\<bar> \<and>
    (int n \<ge> \<bar>lead + s - latency\<bar> \<longrightarrow> \<bar>lead + (closed_loop lead latency ^^ n) s - latency\<bar> < 8)"
proof -
  let ?t = "(closed_loop lead latency ^^ n) s"
  have i: "\<bar>?t\<bar> \<le> 200000 \<and> (\<bar>lead + ?t - latency\<bar> < 8 \<or> \<bar>lead + ?t - latency\<bar> + int n \<le> \<bar>lead + s - latency\<bar>)"
    using closed_loop_iterate [OF assms] .
  have "lead + (closed_loop lead latency ^^ Suc n) s - latency =
      (lead + ?t - latency) - c_div (lead + ?t - latency) 8"
    using closed_loop_offset [OF assms(1)] i by simp
  then show ?thesis using i c_div8_step(1) [of "lead + ?t - latency"] by auto
qed

theorem servo_converges_witness:
  "\<bar>33334 + (closed_loop 33334 68334 ^^ 35000) 0 - 68334\<bar> < 8"
  using servo_converges [of 68334 33334 0 35000] by simp

section \<open>The gate of the present worker: properties\<close>

lemma gate_loop_spec:
  "(case gate_loop view gp dl i n of
      Crossed j \<Rightarrow> i \<le> j \<and> j < i + n \<and> gate_crossed (view j) gp \<and>
        (\<forall>m. i \<le> m \<longrightarrow> m < j \<longrightarrow> \<not> gate_crossed (view m) gp \<and> \<not> gate_fallback (view m) dl)
    | Fallback j \<Rightarrow> i \<le> j \<and> j < i + n \<and> \<not> gate_crossed (view j) gp \<and> gate_fallback (view j) dl \<and>
        (\<forall>m. i \<le> m \<longrightarrow> m < j \<longrightarrow> \<not> gate_crossed (view m) gp \<and> \<not> gate_fallback (view m) dl)
    | Stopped j \<Rightarrow> i \<le> j \<and> j < i + n \<and> \<not> gv_run (view j)
    | Expired \<Rightarrow> \<forall>m. i \<le> m \<longrightarrow> m < i + n \<longrightarrow> \<not> gate_crossed (view m) gp \<and> \<not> gate_fallback (view m) dl)"
proof (induction view gp dl i n rule: gate_loop.induct)
  case (2 view gp dl i n)
  consider "gate_crossed (view i) gp" | "\<not> gate_crossed (view i) gp" "gate_fallback (view i) dl"
    | "\<not> gate_crossed (view i) gp" "\<not> gate_fallback (view i) dl" "\<not> gv_run (view i)"
    | "\<not> gate_crossed (view i) gp" "\<not> gate_fallback (view i) dl" "gv_run (view i)" by blast
  then show ?case
  proof cases
    case 4
    have e: "gate_loop view gp dl i (Suc n) = gate_loop view gp dl (Suc i) n" using 4 by simp
    have split: "i \<le> m \<longleftrightarrow> m = i \<or> Suc i \<le> m" for m by auto
    have "\<not> \<not> gv_run (view i)" using 4 by simp
    from 2 [OF 4(1,2) this] show ?thesis unfolding e by (cases "gate_loop view gp dl (Suc i) n") (auto simp: split 4)
  qed auto
qed simp

text \<open>
  The present worker never flips ahead of the audio without cause. Over the 600 rounds of
  the gate, with the shared state changing arbitrarily between rounds, the worker proceeds at
  the first round in which the audio content heard has reached the frame's time less lead and
  shift, or in which the audio clock is absent or stalled for more than a second and the
  presentation clock has reached the deadline; without either it waits until the program stops
  or all 600 rounds have passed.
\<close>

theorem present_gate_first_round:
  "(case present_gate view pts lead shift dl of
      Crossed j \<Rightarrow> j < 600 \<and>
        tlm_audio_content_at_wall (gv_clock (view j)) (U64 (gv_wall (view j))) \<ge> pts - lead - shift \<and>
        (\<forall>m. m < j \<longrightarrow> \<not> gate_crossed (view m) (pts - lead - shift) \<and> \<not> gate_fallback (view m) dl)
    | Fallback j \<Rightarrow> j < 600 \<and> audio_unavailable (view j) \<and>
        dash_pres_clock (gv_clock (view j)) (gv_wall1 (view j)) (gv_wall2 (view j)) (gv_wall3 (view j)) \<ge> dl \<and>
        (\<forall>m. m < j \<longrightarrow> \<not> gate_crossed (view m) (pts - lead - shift) \<and> \<not> gate_fallback (view m) dl)
    | Stopped j \<Rightarrow> j < 600 \<and> \<not> gv_run (view j)
    | Expired \<Rightarrow> \<forall>m. m < 600 \<longrightarrow>
        \<not> gate_crossed (view m) (pts - lead - shift) \<and> \<not> gate_fallback (view m) dl)"
  using gate_loop_spec [where view = view and gp = "pts - lead - shift" and dl = dl and i = 0 and n = 600]
  by (cases "present_gate view pts lead shift dl")
    (auto simp: present_gate_def gate_pts_def gate_crossed_def gate_fallback_def Let_def)

definition steady_view :: "nat \<Rightarrow> gate_view" where
  "steady_view i = \<lparr>gv_clock = joined_at 1, gv_wall = 900200000 + 3000 * int i, gv_wall_stall = 901000000,
     gv_wall1 = 901000000, gv_wall2 = 901000000, gv_wall3 = 901000000, gv_run = True\<rparr>"

theorem present_gate_first_round_witness:
  "present_gate steady_view 133334 33334 0 900100000 = Crossed 0 \<and>
   tlm_audio_content_at_wall (gv_clock (steady_view 0)) (U64 (gv_wall (steady_view 0))) \<ge> 133334 - 33334 - 0"
proof -
  have e: "present_gate steady_view 133334 33334 0 900100000 = Crossed 0"
    by (simp add: present_gate_def numeral_eq_Suc gate_crossed_def gate_pts_def tlm_audio_content_at_wall_def
        steady_view_def joined_at_def I64_def U64_def)
  then show ?thesis using present_gate_first_round [where view = steady_view and pts = 133334 and lead = 33334 and
        shift = 0 and dl = 900100000] by simp
qed

text \<open>
  What holds in the rounds of the gate while audio plays: the state is a playing one that has
  joined no later than the frame's segment and maps the frame to the queued time, its deadline
  is not clamped, the audio position has advanced within the last second, the program runs.
\<close>

definition heard_round :: "gate_view \<Rightarrow> int \<Rightarrow> int \<Rightarrow> int \<Rightarrow> bool" where
  "heard_round v seg k pts \<longleftrightarrow> playing (gv_clock v) \<and> g_anchor_seg (gv_clock v) \<le> seg \<and>
     content_pts (gv_clock v) seg k = pts \<and> 0 < dash_au_deadline (gv_clock v) seg k \<and> small_time (gv_wall v) \<and>
     U64 (gv_wall_stall v - g_audio_last_advance_wall (gv_clock v)) \<le> 1000000 \<and> gv_run v"

text \<open>The wall time from which a round with the clock \<open>c\<close> lets frame \<open>k\<close> of a segment pass.\<close>

definition opening_wall :: "av_clock \<Rightarrow> int \<Rightarrow> int \<Rightarrow> int \<Rightarrow> int \<Rightarrow> int" where
  "opening_wall c seg k vblank_period_us shift =
     dash_au_deadline c seg k + g_playout_latency_us c + (g_anchor_seg c - 1) * g_seg_duration_us c
       - 2 * (if vblank_period_us > 0 then vblank_period_us else 16667) - shift"

lemma small_time_U64: "small_time w \<Longrightarrow> U64 w = w"
  by (rule U64_id) (simp_all add: small_time_def)

lemma heard_round_no_fallback: "heard_round v seg k pts \<Longrightarrow> \<not> gate_fallback v dl \<and> gv_run v"
  by (auto simp: heard_round_def gate_fallback_def audio_unavailable_def small_time_U64 content_playing)

lemma heard_round_crossed:
  assumes "heard_round v seg k pts" and "0 < gate_pts pts (present_lead vb) shift"
  shows "gate_crossed v (gate_pts pts (present_lead vb) shift) \<longleftrightarrow>
    gv_wall v \<ge> opening_wall (gv_clock v) seg k vb shift"
proof -
  let ?c = "gv_clock v" and ?dur = "g_seg_duration_us (gv_clock v)"
  have h: "playing ?c" "g_anchor_seg ?c \<le> seg" "small_time (gv_wall v)" "0 < dash_au_deadline ?c seg k"
    and pts: "pts = (seg - 1) * ?dur + k * (1000000 div g_stream_fps ?c)"
    using assms(1) pts_playing by (auto simp: heard_round_def)
  have d: "dash_au_deadline ?c seg k = g_audio_start_wall_us ?c + g_audio_delay_us ?c - g_playout_latency_us ?c +
      ((seg - g_anchor_seg ?c) * ?dur + k * (1000000 div g_stream_fps ?c) + g_timeline_adj_us ?c)"
    using h(4) deadline_playing [OF h(1,2), of k] by simp
  have "(seg - 1) * ?dur = (seg - g_anchor_seg ?c) * ?dur + (g_anchor_seg ?c - 1) * ?dur"
    by (simp add: algebra_simps)
  then show ?thesis
    using assms(2) pts d h(3)
    by (auto simp: gate_crossed_def gate_pts_def present_lead_def opening_wall_def Let_def small_time_U64
        content_playing [OF h(1)])
qed

lemma gate_loop_undisturbed:
  assumes "\<And>m. i \<le> m \<Longrightarrow> m < i + n \<Longrightarrow> \<not> gate_fallback (view m) dl \<and> gv_run (view m)"
  shows "(gate_loop view gp dl i n = Crossed j \<longleftrightarrow>
      i \<le> j \<and> j < i + n \<and> gate_crossed (view j) gp \<and> (\<forall>m. i \<le> m \<and> m < j \<longrightarrow> \<not> gate_crossed (view m) gp)) \<and>
    (gate_loop view gp dl i n = Expired \<longleftrightarrow> (\<forall>m. i \<le> m \<and> m < i + n \<longrightarrow> \<not> gate_crossed (view m) gp))"
  using assms
proof (induction n arbitrary: i)
  case (Suc n)
  have here: "\<not> gate_fallback (view i) dl" "gv_run (view i)" using Suc.prems [of i] by auto
  have later: "\<And>m. Suc i \<le> m \<Longrightarrow> m < Suc i + n \<Longrightarrow> \<not> gate_fallback (view m) dl \<and> gv_run (view m)"
    using Suc.prems by auto
  have split: "i \<le> m \<longleftrightarrow> m = i \<or> Suc i \<le> m" for m by auto
  show ?case using here Suc.IH [OF later] by (auto simp: split)
qed auto



section \<open>Frame-buffer pacing: properties\<close>

text \<open>A worker that wakes no earlier than it asked to sleeps within the busy-wait window of the release.\<close>

lemma fb_spin_covers_release:
  "fb_sleep_until present_at now0 = Some u \<Longrightarrow> u \<le> wake \<Longrightarrow> present_at \<le> wake + VMC_FB_PRESENT_SPIN_US"
  by (auto simp: fb_sleep_until_def split: if_splits)

lemma fb_target_floor:
  "0 \<le> s_last \<Longrightarrow> 0 \<le> period \<Longrightarrow> s_last + period < 2 ^ 64 \<Longrightarrow> s_last \<noteq> 0 \<Longrightarrow>
    fb_target s_last deadline period = max deadline (s_last + period)"
  by (auto simp: fb_target_def)

text \<open>The instant aimed at is the crossing itself: the audio content there equals the frame's time.\<close>

lemma fb_present_at_crossing:
  assumes "playing c" "small_time now0" "small_time pts" "0 < tlm_audio_content_at_wall c now0"
    "tlm_audio_content_at_wall c now0 < pts"
    "target \<le> now0 + (pts - tlm_audio_content_at_wall c now0)"
    "small_time (fb_present_at c now0 pts target)"
  shows "tlm_audio_content_at_wall c (fb_present_at c now0 pts target) = pts"
proof -
  let ?cn = "tlm_audio_content_at_wall c now0"
  have cn: "?cn = now0 - g_audio_start_wall_us c - g_audio_delay_us c - g_timeline_adj_us c"
    using assms(4) content_playing [OF assms(1,2)] by simp
  have "U64 (now0 + (pts - ?cn)) = now0 + (pts - ?cn)"
    using assms(2-5) by (intro U64_id) (simp_all add: small_time_def)
  then have "fb_present_at c now0 pts target = now0 + (pts - ?cn)"
    using assms(4-6) by (auto simp: fb_present_at_def Let_def)
  with content_playing [OF assms(1,7)] cn assms(4,5) show ?thesis by simp
qed

section \<open>Live buffer: properties\<close>

lemma buffer_grow_range: "prefetch \<le> mx \<Longrightarrow> prefetch \<le> dash_buffer_grow base mx prefetch e sd \<and> dash_buffer_grow base mx prefetch e sd \<le> mx"
  by (simp add: dash_buffer_grow_def Let_def)

text \<open>
  The live buffers stay within their limits. Whatever the measured fetch times and segment
  durations, an update of the buffer sizes keeps the video and the audio buffer between the
  one second of the prefetch and the three seconds of the maximum, and a run of any number of
  updates from the initial targets does so too.
\<close>

theorem live_buffer_bounded:
  assumes "1000000 \<le> g_video_live_buffer_us b" "g_video_live_buffer_us b \<le> 3000000"
    and "1000000 \<le> g_audio_live_buffer_us b" "g_audio_live_buffer_us b \<le> 3000000"
  shows "1000000 \<le> g_video_live_buffer_us (fold (\<lambda>(f, d). dash_update_live_buffer f d) fs b) \<and>
    g_video_live_buffer_us (fold (\<lambda>(f, d). dash_update_live_buffer f d) fs b) \<le> 3000000 \<and>
    1000000 \<le> g_audio_live_buffer_us (fold (\<lambda>(f, d). dash_update_live_buffer f d) fs b) \<and>
    g_audio_live_buffer_us (fold (\<lambda>(f, d). dash_update_live_buffer f d) fs b) \<le> 3000000"
  using assms
proof (induction fs arbitrary: b)
  case (Cons x fs)
  obtain f d where x: "x = (f, d)" by (rule prod.exhaust)
  let ?b = "dash_update_live_buffer f d b"
  have "1000000 \<le> g_video_live_buffer_us ?b \<and> g_video_live_buffer_us ?b \<le> 3000000 \<and>
      1000000 \<le> g_audio_live_buffer_us ?b \<and> g_audio_live_buffer_us ?b \<le> 3000000"
    using Cons.prems buffer_grow_range [of 1000000 3000000 2000000]
    by (simp add: dash_update_live_buffer_def Let_def const_defs)
  with Cons.IH [of ?b] show ?case by (simp add: x)
qed simp

definition initial_buffer :: live_buffer where
  "initial_buffer = \<lparr>g_seg_fetch_ewma_us = 0, g_video_live_buffer_us = 2000000, g_audio_live_buffer_us = 2000000\<rparr>"

theorem live_buffer_bounded_witness:
  "g_video_live_buffer_us (fold (\<lambda>(f, d). dash_update_live_buffer f d) [(900000, 1000000), (5000, 1000000)]
     initial_buffer) \<le> 3000000"
  using live_buffer_bounded [of initial_buffer "[(900000, 1000000), (5000, 1000000)]"]
  by (simp add: initial_buffer_def)

end
