(* ===== verification/Video_Workers.thy ===== *)
theory Video_Workers
  imports Frame_Slots Drm_Scanout Present_Queue Playout_Clock Latency_Stats
begin

text \<open>
  The decode worker and the present worker of \<^verbatim>\<open>apps/thinclient/main.c\<close>: how one picked access
  unit goes through the decoder into a scanout buffer and the present queue (the DRM path) or
  onto the frame buffer, and how the present worker takes an entry to the screen. The decoder,
  the CUDA converter and the clock readings are arguments.
\<close>

section \<open>Sender time stamps by decoder time stamp\<close>

text \<open>
  The decoder may return a frame later than it was fed. Two tables of 128 entries, indexed by
  the decoder's time stamp, remember which sender time stamp belongs to it.
\<close>

record pts_table =
  pts_seen :: "int list"
  send_by_pts :: "u32 list"

definition remember_pts :: "int \<Rightarrow> u32 \<Rightarrow> pts_table \<Rightarrow> pts_table" where
  "remember_pts p ts t =
     t\<lparr>pts_seen := (pts_seen t)[nat (p mod 128) := p], send_by_pts := (send_by_pts t)[nat (p mod 128) := ts]\<rparr>"

definition real_send_ts :: "int \<Rightarrow> u32 \<Rightarrow> pts_table \<Rightarrow> u32" where
  "real_send_ts last_frame_pts send_ts t =
     (if last_frame_pts \<ge> 0 \<and> pts_seen t ! nat (last_frame_pts mod 128) = last_frame_pts
      then send_by_pts t ! nat (last_frame_pts mod 128) else send_ts)"

text \<open>Feeding the units \<open>0, 1, 2, \<dots>\<close> with the sender time stamps \<open>ts\<close>.\<close>

fun feed_pts :: "nat \<Rightarrow> (nat \<Rightarrow> u32) \<Rightarrow> pts_table \<Rightarrow> pts_table" where
  "feed_pts 0 ts t = t"
| "feed_pts (Suc n) ts t = remember_pts (int n) (ts n) (feed_pts n ts t)"

definition pts_table_ok :: "nat \<Rightarrow> (nat \<Rightarrow> u32) \<Rightarrow> pts_table \<Rightarrow> bool" where
  "pts_table_ok n ts t \<longleftrightarrow> length (pts_seen t) = 128 \<and> length (send_by_pts t) = 128 \<and>
     (\<forall>p < n. n \<le> p + 128 \<longrightarrow> pts_seen t ! (p mod 128) = int p \<and> send_by_pts t ! (p mod 128) = ts p)"

lemma pts_table_step:
  assumes "pts_table_ok n ts t" shows "pts_table_ok (Suc n) ts (remember_pts (int n) (ts n) t)"
proof -
  have ix: "nat (int n mod 128) = n mod 128" by (simp add: nat_mod_distrib)
  have "n mod 128 \<noteq> p mod 128" if "p < n" "Suc n \<le> p + 128" for p
  proof
    assume "n mod 128 = p mod 128"
    then have "128 dvd n - p" using that(1) by (metis less_imp_le mod_eq_dvd_iff_nat)
    then show False using that by (auto dest: dvd_imp_le)
  qed
  then show ?thesis
    using assms by (auto simp: pts_table_ok_def remember_pts_def ix less_Suc_eq nth_list_update)
qed

lemma feed_pts_ok: "pts_table_ok 0 ts t \<Longrightarrow> pts_table_ok n ts (feed_pts n ts t)"
  by (induction n) (auto intro: pts_table_step)

section \<open>The decode worker, DRM path\<close>

record vmc_vmeta =
  vm_fidx :: u32
  vm_seg :: int
  vm_pts_us :: int
  vm_deadline_us :: u64
  vm_decode_us :: u64
  vm_conv_us :: u64

text \<open>
  The frame whose conversion is in flight. \<open>g_pending_ev\<close> says whether a conversion event is
  outstanding; the identity fields are those of the last frame that found one.
\<close>

record drm_pending =
  g_pending_ev :: bool
  g_pending_deadline_us :: u64
  g_prev_stage :: nat
  g_stage_idx :: nat
  g_pending_buf_idx :: "nat option"
  g_pending_map :: u64
  g_pending_pitch :: u32
  g_pending_fidx :: u32
  g_pending_seg :: int
  g_pending_pts :: int
  g_pending_decode_us :: u64

record drm_worker =
  dw_frames :: frame_slots
  dw_drm :: vmc_drm_scanout
  dw_queue :: present_queue
  dw_pend :: drm_pending
  dw_vmeta :: "vmc_vmeta list"
  dw_latency :: latency
  dw_first_video_ready :: bool
  dw_copies :: "(nat \<times> nat) list"

text \<open>The pending frame's identity goes to the buffer it was converted into.\<close>

definition attach_vmeta :: "drm_pending \<Rightarrow> u64 \<Rightarrow> vmc_vmeta list \<Rightarrow> vmc_vmeta list" where
  "attach_vmeta p conv_us vm =
     (case g_pending_buf_idx p of
        None \<Rightarrow> vm
      | Some b \<Rightarrow>
          if b < VMC_DRM_MAX_BUFS
          then vm[b := \<lparr>vm_fidx = g_pending_fidx p, vm_seg = g_pending_seg p, vm_pts_us = g_pending_pts p,
                  vm_deadline_us = g_pending_deadline_us p, vm_decode_us = g_pending_decode_us p,
                  vm_conv_us = conv_us\<rparr>]
          else vm)"

definition capture_identity :: "vmc_frame_slot \<Rightarrow> u64 \<Rightarrow> drm_pending \<Rightarrow> drm_pending" where
  "capture_identity sl decode_us p =
     p\<lparr>g_pending_fidx := fs_fidx sl, g_pending_seg := fs_seg sl, g_pending_pts := fs_pts_us sl,
       g_pending_decode_us := decode_us\<rparr>"

definition set_pending :: "bool \<Rightarrow> nat \<Rightarrow> u64 \<Rightarrow> u32 \<Rightarrow> u64 \<Rightarrow> drm_pending \<Rightarrow> drm_pending" where
  "set_pending ev buf map_addr pitch deadline_us p =
     p\<lparr>g_pending_ev := ev, g_prev_stage := g_stage_idx p mod 3, g_stage_idx := g_stage_idx p + 1,
       g_pending_buf_idx := Some buf, g_pending_map := map_addr, g_pending_pitch := pitch,
       g_pending_deadline_us := deadline_us\<rparr>"

text \<open>
  One decoded frame of slot \<open>idx\<close>. \<open>ev\<close> tells whether the converter returned an event; \<open>lat\<close> is
  the sample recorded at hand-off (latency, decode, queue and hand-off time). A scanout with
  no free buffer drops the frame; a full present queue blocks (\<open>None\<close>).
\<close>

definition decode_drm_frame ::
  "bool \<Rightarrow> nat \<Rightarrow> u64 \<Rightarrow> bool \<Rightarrow> u64 \<Rightarrow> u64 \<Rightarrow> (u64 \<times> u64 \<times> u64) \<Rightarrow> drm_worker \<Rightarrow> drm_worker option" where
  "decode_drm_frame g_run idx deadline_us ev decode_us conv_us lat w =
     (case vmc_drm_scanout_next_idx (dw_drm w) of
        (None, drm1) \<Rightarrow> Some (w\<lparr>dw_drm := drm1, dw_frames := slot_release idx (dw_frames w)\<rparr>)
      | (Some buf, drm1) \<Rightarrow>
          let p = dw_pend w;
              b = ds_bufs drm1 ! buf
          in if g_pending_ev p then
               (let prev = the (g_pending_buf_idx p);
                    lat1 = (case lat of (e2e, queue_us, handoff_us) \<Rightarrow>
                              latency_record e2e decode_us queue_us handoff_us (dw_latency w));
                    vm1 = attach_vmeta p conv_us (dw_vmeta w);
                    p1 = capture_identity (dw_frames w ! idx) decode_us p
                in (case present_push g_run prev (g_pending_deadline_us p1) (g_pending_pts p1) (dw_queue w) of
                      None \<Rightarrow> None
                    | Some q1 \<Rightarrow>
                        Some (w\<lparr>dw_drm := drm1, dw_copies := dw_copies w @ [(prev, g_prev_stage p)],
                          dw_latency := lat1, dw_vmeta := vm1, dw_frames := slot_release idx (dw_frames w),
                          dw_queue := q1, dw_first_video_ready := True,
                          dw_pend := set_pending ev buf (db_map b) (db_pitch b) deadline_us p1\<rparr>)))
             else Some (w\<lparr>dw_drm := drm1, dw_pend := set_pending ev buf (db_map b) (db_pitch b) deadline_us p\<rparr>))"

text \<open>A unit the decoder does not turn into a frame: the slot is released.\<close>

definition decode_failed :: "nat \<Rightarrow> drm_worker \<Rightarrow> drm_worker" where
  "decode_failed idx w = w\<lparr>dw_frames := slot_release idx (dw_frames w)\<rparr>"

section \<open>The decode worker, frame-buffer path\<close>

record fb_worker =
  fw_frames :: frame_slots
  fw_latency :: latency
  fw_clock :: av_clock
  fw_last_present_wall :: int
  fw_presented :: nat
  fw_av_armed :: bool

text \<open>The cadence restarts when the anchor was re-based; the pending flag is consumed.\<close>

definition take_cadence_shift :: "fb_worker \<Rightarrow> fb_worker" where
  "take_cadence_shift w =
     (let w1 = (if g_cadence_shift_us (fw_clock w) \<noteq> 0 then w\<lparr>fw_last_present_wall := 0\<rparr> else w)
      in w1\<lparr>fw_clock := (fw_clock w1)\<lparr>g_cadence_shift_us := 0\<rparr>\<rparr>)"

definition decode_fb_frame :: "nat \<Rightarrow> int \<Rightarrow> (u64 \<times> u64 \<times> u64 \<times> u64) \<Rightarrow> fb_worker \<Rightarrow> fb_worker" where
  "decode_fb_frame idx deadline_us lat w =
     (let w1 = (case lat of (e2e, decode_us, queue_us, handoff_us) \<Rightarrow>
                  w\<lparr>fw_latency := latency_record e2e decode_us queue_us handoff_us (fw_latency w)\<rparr>);
          w2 = take_cadence_shift w1;
          w3 = (if frame_period (fw_clock w2) > 0 \<and> deadline_us \<noteq> 0
                then w2\<lparr>fw_last_present_wall := deadline_us\<rparr> else w2)
      in w3\<lparr>fw_presented := fw_presented w3 + 1, fw_av_armed := True,
            fw_clock := (fw_clock w3)\<lparr>g_last_video_deadline_us :=
              U64 (deadline_us - g_playout_latency_us (fw_clock w3))\<rparr>,
            fw_frames := slot_release idx (fw_frames w3)\<rparr>)"

text \<open>The release instant aimed at for the frame, from the state before it is decoded.\<close>

definition fb_frame_target :: "int \<Rightarrow> fb_worker \<Rightarrow> int" where
  "fb_frame_target deadline_us w =
     fb_target (fw_last_present_wall (take_cadence_shift w)) deadline_us (frame_period (fw_clock w))"

section \<open>The present worker\<close>

text \<open>
  Submission of the flip: up to 50 attempts while the program runs, each after a wait when the
  previous flip is still pending. The result says whether a flip error is reported.
\<close>

fun present_tries :: "'k drm_ops \<Rightarrow> nat \<Rightarrow> nat \<Rightarrow> vmc_drm_scanout \<Rightarrow> 'k \<Rightarrow> bool \<times> vmc_drm_scanout \<times> 'k" where
  "present_tries ops 0 buf s k = (False, s, k)"
| "present_tries ops (Suc n) buf s k =
     (case vmc_drm_scanout_present ops s (int buf) k of
        (st, s1, k1) \<Rightarrow>
          if st = VMC_OK then (False, s1, k1)
          else if st = VMC_ERR_AGAIN then
            (case vmc_drm_scanout_wait_flip ops 20 s1 k1 of
               (r, s2, k2) \<Rightarrow> if r < 0 then (False, s2, k2) else present_tries ops n buf s2 k2)
          else (True, s1, k1))"

record present_state =
  ps_drm :: vmc_drm_scanout
  ps_sync_shift_us :: int
  ps_last_presented_buf :: "nat option"
  ps_vrender :: "(nat \<times> vmc_vmeta \<times> bool) list"
  ps_flip_errors :: nat
  ps_presented :: nat

text \<open>
  The completed flip is reported once: the buffer's frame identity, whether the same buffer
  was shown before, and the servo step from the measured offset.
\<close>

definition report_flip :: "vmc_vmeta list \<Rightarrow> int \<Rightarrow> present_state \<Rightarrow> present_state" where
  "report_flip vmeta apos ps =
     (case ds_last_completed (ps_drm ps) of
        Some cb \<Rightarrow>
          if cb < VMC_DRM_MAX_BUFS then
            ps\<lparr>ps_drm := (ps_drm ps)\<lparr>ds_last_completed := None\<rparr>,
               ps_last_presented_buf := Some cb,
               ps_sync_shift_us := servo_shift (ps_sync_shift_us ps) (vm_pts_us (vmeta ! cb)) apos,
               ps_vrender := ps_vrender ps @ [(cb, vmeta ! cb, ps_last_presented_buf ps = Some cb)]\<rparr>
          else ps
      | None \<Rightarrow> ps)"

definition present_one ::
  "'k drm_ops \<Rightarrow> vmc_vmeta list \<Rightarrow> present_entry \<Rightarrow> int \<Rightarrow> present_state \<Rightarrow> 'k \<Rightarrow> present_state \<times> 'k" where
  "present_one ops vmeta e apos ps k =
     (case vmc_drm_scanout_drain ops (ps_drm ps) k of
        (_, s1, k1) \<Rightarrow>
          (case present_tries ops 50 (pe_buf_idx e) s1 k1 of
             (err, s2, k2) \<Rightarrow>
               (case vmc_drm_scanout_drain ops s2 k2 of
                  (_, s3, k3) \<Rightarrow>
                    let ps1 = ps\<lparr>ps_drm := s3, ps_flip_errors := ps_flip_errors ps + (if err then 1 else 0)\<rparr>;
                        ps2 = report_flip vmeta apos ps1
                    in (ps2\<lparr>ps_presented := ps_presented ps2 + 1\<rparr>, k3))))"

lemma frame_period_clock [simp]:
  "frame_period (c\<lparr>g_cadence_shift_us := x\<rparr>) = frame_period c"
  "frame_period (c\<lparr>g_last_video_deadline_us := x\<rparr>) = frame_period c"
  by (simp_all add: frame_period_def)

lemma take_cadence_shift_simps [simp]:
  "frame_period (fw_clock (take_cadence_shift w)) = frame_period (fw_clock w)"
  "g_cadence_shift_us (fw_clock (take_cadence_shift w)) = 0"
  by (simp_all add: take_cadence_shift_def Let_def)

section \<open>Lost slots\<close>

text \<open>A slot in state \<open>SLOT_DECODING\<close> that neither the decode worker nor a publisher owns.\<close>

definition lost_slot :: "nat \<Rightarrow> slots_cfg \<Rightarrow> bool" where
  "lost_slot i c \<longleftrightarrow> i < length (frames c) \<and> fs_state (frames c ! i) = SLOT_DECODING \<and>
     \<not> decoder_owns (decoder c) i \<and> slots_inv c"

lemma lost_slot_step: "slot_step c c' \<Longrightarrow> lost_slot i c \<Longrightarrow> lost_slot i c'"
proof (induction rule: slot_step.induct)
  case (take c t j fs)
  note w = slot_take_write_Some [OF take(2)]
  have "slots_inv (c\<lparr>frames := fs, writer := (writer c)(t := Some j)\<rparr>)"
    using slot_step.take [OF take(1,2)] take(3) slot_step_inv lost_slot_def by blast
  moreover have "j \<noteq> i" using w(2) take(3) by (auto simp: lost_slot_def)
  ultimately show ?case using take(3) w by (auto simp: lost_slot_def)
next
  case (fill c t j data)
  have "slots_inv (c\<lparr>frames := slot_fill j data (frames c)\<rparr>)"
    using slot_step.fill [OF fill(1,2)] fill(3) slot_step_inv lost_slot_def by blast
  moreover have "j \<noteq> i" using fill by (auto simp: lost_slot_def slots_inv_def)
  ultimately show ?case using fill(3) by (auto simp: lost_slot_def slot_fill_def)
next
  case (publish c t j len fidx send_ts deadline pts seg now)
  let ?c = "c\<lparr>frames := slot_publish j len send_ts deadline fidx pts seg now (frames c),
      writer := (writer c)(t := None), published := published c @ [(fidx, List.take len (fs_buf (frames c ! j)))]\<rparr>"
  have "slots_inv ?c" using slot_step.publish [OF publish(1,2)] publish(3) slot_step_inv lost_slot_def by blast
  moreover have "j \<noteq> i" using publish by (auto simp: lost_slot_def slots_inv_def)
  ultimately show ?case using publish(3) by (auto simp: lost_slot_def slot_publish_def)
next
  case (abandon c t j)
  have "slots_inv (c\<lparr>frames := slot_release j (frames c), writer := (writer c)(t := None)\<rparr>)"
    using slot_step.abandon [OF abandon(1)] abandon(2) slot_step_inv lost_slot_def by blast
  moreover have "j \<noteq> i" using abandon by (auto simp: lost_slot_def slots_inv_def)
  ultimately show ?case using abandon(2) by (auto simp: lost_slot_def slot_release_def)
next
  case (pick c j)
  then show ?case using slot_step_inv [OF slot_step.pick [OF pick(1,2)]] by (auto simp: lost_slot_def)
next
  case (mark c j)
  have "j \<noteq> i" using mark by (auto simp: lost_slot_def slots_inv_def)
  then show ?case
    using mark(2) slot_step_inv [OF slot_step.mark [OF mark(1)]] by (auto simp: lost_slot_def slot_mark_decoding_def)
next
  case (decode c j)
  then show ?case using slot_step_inv [OF slot_step.decode [OF decode(1)]] by (auto simp: lost_slot_def)
next
  case (release c j)
  have "j \<noteq> i" using release by (auto simp: lost_slot_def)
  then show ?case
    using release(2) slot_step_inv [OF slot_step.release [OF release(1)]] by (auto simp: lost_slot_def slot_release_def)
qed

lemma lost_slot_for_ever: "slot_step\<^sup>*\<^sup>* c c' \<Longrightarrow> lost_slot i c \<Longrightarrow> lost_slot i c'"
  by (induction rule: rtranclp_induct) (auto intro: lost_slot_step)

section \<open>Properties\<close>

text \<open>
  C0: The latency of a frame is measured against its own sender time stamp. If the decoder
  returns the frame of unit \<open>p\<close> when \<open>n\<close> units have been fed, at most 128 of them since \<open>p\<close>, the
  table yields the sender time stamp that was stored with \<open>p\<close>, however late the frame comes.
\<close>

theorem send_ts_recovered:
  assumes "length (pts_seen t) = 128" "length (send_by_pts t) = 128" "p < n" "n \<le> p + 128"
  shows "real_send_ts (int p) x (feed_pts n ts t) = ts p"
proof -
  have "pts_table_ok n ts (feed_pts n ts t)" using assms(1,2) by (intro feed_pts_ok) (simp add: pts_table_ok_def)
  moreover have "nat (int p mod 128) = p mod 128" by (simp add: nat_mod_distrib)
  ultimately show ?thesis using assms(3,4) by (simp add: real_send_ts_def pts_table_ok_def)
qed

definition zero_table :: pts_table where
  "zero_table = \<lparr>pts_seen = replicate 128 0, send_by_pts = replicate 128 0\<rparr>"

theorem send_ts_recovered_witness: "real_send_ts 3 0 (feed_pts 5 (\<lambda>n. of_nat (100 * n)) zero_table) = 300"
  using send_ts_recovered [of zero_table 3 5 0 "\<lambda>n. of_nat (100 * n)"] by (simp add: zero_table_def)

text \<open>
  C0: What the decode worker hands to the present worker. With a conversion in flight, a free
  scanout buffer and room in the queue, decoding the frame of slot \<open>idx\<close> appends one entry: the
  buffer and the deadline of the frame in flight, but the content time stamp of the frame just
  decoded, that is of its successor. The identity attached to the buffer is the right one, the
  slot is released and the new frame is the one in flight.
\<close>

theorem present_entry_has_successor_pts:
  assumes "g_pending_ev (dw_pend w)" "g_pending_buf_idx (dw_pend w) = Some prev" "prev < 8"
    "length (dw_vmeta w) = 8" "idx < length (dw_frames w)"
    "vmc_drm_scanout_next_idx (dw_drm w) = (Some buf, drm1)"
    "pq_inv (dw_queue w)" "length (pq_items (dw_queue w)) < 128"
  shows "\<exists>w'. decode_drm_frame run idx deadline ev decode_us conv_us lat w = Some w' \<and>
    pq_items (dw_queue w') = pq_items (dw_queue w) @
      [\<lparr>pe_buf_idx = prev, pe_deadline_us = g_pending_deadline_us (dw_pend w),
        pe_pts_us = fs_pts_us (dw_frames w ! idx)\<rparr>] \<and>
    vm_pts_us (dw_vmeta w' ! prev) = g_pending_pts (dw_pend w) \<and>
    fs_state (dw_frames w' ! idx) = SLOT_FREE \<and>
    g_pending_buf_idx (dw_pend w') = Some buf \<and> g_pending_pts (dw_pend w') = fs_pts_us (dw_frames w ! idx)"
proof -
  let ?p1 = "capture_identity (dw_frames w ! idx) decode_us (dw_pend w)"
  have c: "g_present_qcount (dw_queue w) < VMC_PRESENT_QUEUE_SIZE"
    using assms(8) by (simp add: pq_items_def const_defs)
  then obtain q1 where q: "present_push run prev (g_pending_deadline_us ?p1) (g_pending_pts ?p1) (dw_queue w) = Some q1"
    by (simp add: present_push_def)
  then have "pq_items q1 = pq_items (dw_queue w) @ [\<lparr>pe_buf_idx = prev,
      pe_deadline_us = g_pending_deadline_us (dw_pend w), pe_pts_us = fs_pts_us (dw_frames w ! idx)\<rparr>]"
    using pq_push_items [OF assms(7) c] by (simp add: capture_identity_def)
  with q show ?thesis
    using assms(1-6)
    by (simp add: decode_drm_frame_def Let_def attach_vmeta_def set_pending_def slot_release_def set_state_def
        const_defs) (simp add: capture_identity_def)
qed

text \<open>
  A frame that meets no conversion in flight loses its slot. This happens to the first
  frame, and to the frame after every conversion that returned no event. The slot stays in
  the decoding state although the worker goes on, and no later step of the publishers or of
  the worker ever makes it free or ready again.
\<close>

theorem drm_frame_loses_slot:
  assumes "slots_inv c" "decoder c = D_Done idx" "frames c = dw_frames w" "\<not> g_pending_ev (dw_pend w)"
    "vmc_drm_scanout_next_idx (dw_drm w) = (Some buf, drm1)"
  shows "\<exists>w'. decode_drm_frame run idx deadline ev decode_us conv_us lat w = Some w' \<and>
    (\<forall>c'. slot_step\<^sup>*\<^sup>* (c\<lparr>frames := dw_frames w', decoder := D_Idle\<rparr>) c' \<longrightarrow>
       fs_state (frames c' ! idx) = SLOT_DECODING)"
proof -
  obtain w' where w': "decode_drm_frame run idx deadline ev decode_us conv_us lat w = Some w'"
      "dw_frames w' = dw_frames w"
    using assms(4,5) by (auto simp: decode_drm_frame_def Let_def)
  let ?c = "c\<lparr>frames := dw_frames w', decoder := D_Idle\<rparr>"
  have "lost_slot idx ?c"
    using assms(1,2,3) w'(2) by (auto simp: lost_slot_def slots_inv_def)
  then have "fs_state (frames c' ! idx) = SLOT_DECODING" if "slot_step\<^sup>*\<^sup>* ?c c'" for c'
    using lost_slot_for_ever [OF that] by (simp add: lost_slot_def)
  with w'(1) show ?thesis by blast
qed

text \<open>
  C0: Cadence of the frame-buffer path. After a frame with deadline \<open>d\<close> was presented, the next
  frame is aimed at the later of its own deadline and one frame period after \<open>d\<close>; when the
  anchor was re-based in between, it is aimed at its own deadline alone.
\<close>

theorem fb_cadence:
  assumes "0 < frame_period (fw_clock w)" "0 < d" "d + frame_period (fw_clock w) < 2 ^ 64"
    and "w1 = decode_fb_frame idx d lat w"
  shows "fb_frame_target d' w1 = max d' (d + frame_period (fw_clock w)) \<and>
    fb_frame_target d' (w1\<lparr>fw_clock := (fw_clock w1)\<lparr>g_cadence_shift_us := 1\<rparr>\<rparr>) = d'"
proof -
  obtain e2e dus qus hus where lat: "lat = (e2e, dus, qus, hus)" by (rule prod_cases4)
  have p: "frame_period (fw_clock w1) = frame_period (fw_clock w)" "fw_last_present_wall w1 = d"
      "g_cadence_shift_us (fw_clock w1) = 0"
    using assms(1,2) by (simp_all add: assms(4) decode_fb_frame_def Let_def lat)
  then have "fb_frame_target d' w1 = max d' (d + frame_period (fw_clock w))"
    using assms(1-3) fb_target_floor [of d "frame_period (fw_clock w)" d']
    by (simp add: fb_frame_target_def take_cadence_shift_def)
  moreover have "fb_frame_target d' (w1\<lparr>fw_clock := (fw_clock w1)\<lparr>g_cadence_shift_us := 1\<rparr>\<rparr>) = d'"
    by (simp add: fb_frame_target_def take_cadence_shift_def fb_target_def)
  ultimately show ?thesis ..
qed

definition decoding_slot :: vmc_frame_slot where
  "decoding_slot = \<lparr>fs_buf = [], fs_len = 0, fs_send_ts = 0, fs_pub_us = 0, fs_deadline_us = 9000, fs_fidx = 1,
     fs_pts_us = 40000, fs_seg = 1, fs_state = SLOT_DECODING\<rparr>"

definition worker_at :: "bool \<Rightarrow> vmc_drm_scanout \<Rightarrow> drm_worker" where
  "worker_at ev s = \<lparr>dw_frames = [decoding_slot], dw_drm = s,
     dw_queue = present_empty (replicate 128 (some_entry 0)),
     dw_pend = \<lparr>g_pending_ev = ev, g_pending_deadline_us = 5000, g_prev_stage = 0, g_stage_idx = 1,
       g_pending_buf_idx = Some 0, g_pending_map = 0, g_pending_pitch = 0, g_pending_fidx = 0,
       g_pending_seg = 1, g_pending_pts = 0, g_pending_decode_us = 0\<rparr>,
     dw_vmeta = replicate 8 \<lparr>vm_fidx = 0, vm_seg = 0, vm_pts_us = 0, vm_deadline_us = 0, vm_decode_us = 0,
       vm_conv_us = 0\<rparr>, dw_latency = latency_start, dw_first_video_ready = False, dw_copies = []\<rparr>"

theorem present_entry_has_successor_pts_witness:
  "\<exists>s0 w'. vmc_drm_scanout_init (good_drm Flip_Ok) (Some zero_scanout) None 2 0 = (VMC_OK, Some s0, 0) \<and>
     decode_drm_frame True 0 9000 True 1 1 (0, 0, 0) (worker_at True s0) = Some w' \<and>
     pq_items (dw_queue w') = [\<lparr>pe_buf_idx = 0, pe_deadline_us = 5000, pe_pts_us = 40000\<rparr>]"
proof -
  obtain s0 where i: "vmc_drm_scanout_init (good_drm Flip_Ok) (Some zero_scanout) None 2 0 = (VMC_OK, Some s0, 0)"
      "fst (vmc_drm_scanout_next_idx s0) = Some 1"
    using good_drm_init by blast
  then obtain s1 where n: "vmc_drm_scanout_next_idx s0 = (Some 1, s1)" by (cases "vmc_drm_scanout_next_idx s0") auto
  have q: "pq_inv (present_empty (replicate 128 (some_entry 0)))"
    by (simp add: pq_inv_def present_empty_def const_defs)
  have e: "pq_items (present_empty (replicate 128 (some_entry 0))) = []" by (simp add: pq_items_def present_empty_def)
  from present_entry_has_successor_pts [of "worker_at True s0" 0 0 1 s1 True 9000 True 1 1 "(0, 0, 0)"] n q e
  obtain w' where "decode_drm_frame True 0 9000 True 1 1 (0, 0, 0) (worker_at True s0) = Some w'"
      "pq_items (dw_queue w') = [\<lparr>pe_buf_idx = 0, pe_deadline_us = 5000, pe_pts_us = 40000\<rparr>]"
    by (auto simp: worker_at_def decoding_slot_def)
  with i(1) show ?thesis by blast
qed

definition done_cfg :: slots_cfg where
  "done_cfg = \<lparr>frames = [decoding_slot], writer = (\<lambda>_. None), decoder = D_Done 0, published = [], decoded = []\<rparr>"

theorem drm_frame_loses_slot_witness:
  "\<exists>s0 w'. vmc_drm_scanout_init (good_drm Flip_Ok) (Some zero_scanout) None 2 0 = (VMC_OK, Some s0, 0) \<and>
     decode_drm_frame True 0 9000 True 1 1 (0, 0, 0) (worker_at False s0) = Some w' \<and>
     fs_state (frames (done_cfg\<lparr>frames := dw_frames w', decoder := D_Idle\<rparr>) ! 0) = SLOT_DECODING"
proof -
  obtain s0 where i: "vmc_drm_scanout_init (good_drm Flip_Ok) (Some zero_scanout) None 2 0 = (VMC_OK, Some s0, 0)"
      "fst (vmc_drm_scanout_next_idx s0) = Some 1"
    using good_drm_init by blast
  then obtain s1 where n: "vmc_drm_scanout_next_idx s0 = (Some 1, s1)" by (cases "vmc_drm_scanout_next_idx s0") auto
  have "slots_inv done_cfg" by (simp add: slots_inv_def done_cfg_def decoding_slot_def)
  from drm_frame_loses_slot [OF this, of 0 "worker_at False s0" 1 s1 True 9000 True 1 1 "(0, 0, 0)"] n
  obtain w' where w: "decode_drm_frame True 0 9000 True 1 1 (0, 0, 0) (worker_at False s0) = Some w'"
      "\<forall>c'. slot_step\<^sup>*\<^sup>* (done_cfg\<lparr>frames := dw_frames w', decoder := D_Idle\<rparr>) c' \<longrightarrow>
         fs_state (frames c' ! 0) = SLOT_DECODING"
    by (auto simp: done_cfg_def worker_at_def)
  with i(1) show ?thesis by blast
qed

definition fb_start :: fb_worker where
  "fb_start = \<lparr>fw_frames = [decoding_slot], fw_latency = latency_start, fw_clock = joined_at 1,
     fw_last_present_wall = 0, fw_presented = 0, fw_av_armed = False\<rparr>"

theorem fb_cadence_witness:
  "fb_frame_target 900060000 (decode_fb_frame 0 900055000 (0, 0, 0, 0) fb_start) = 900095000"
  using fb_cadence [of fb_start 900055000 "decode_fb_frame 0 900055000 (0, 0, 0, 0) fb_start" 0 "(0, 0, 0, 0)" 900060000]
  by (simp add: fb_start_def frame_period_def joined_at_def)

text \<open>
  The first report of the present worker is spurious: after initialisation the field for the
  last completed flip denotes buffer 0, so a frame is reported as rendered although no flip
  has completed.
\<close>

lemma first_report_spurious:
  assumes "vmc_drm_scanout_init ops so dev n k = (VMC_OK, Some s, k')" "ps_drm ps = s"
  shows "ps_vrender (report_flip vm apos ps) = ps_vrender ps @ [(0, vm ! 0, ps_last_presented_buf ps = Some 0)]"
  using drm_init_inv [OF assms(1)] assms(2) by (simp add: report_flip_def const_defs)

text \<open>A completed flip is reported once: right after a report there is nothing to report.\<close>

lemma report_flip_once:
  "ds_last_completed (ps_drm (report_flip vm apos ps)) = None \<or>
    (\<exists>cb. ds_last_completed (ps_drm ps) = Some cb \<and> cb \<ge> VMC_DRM_MAX_BUFS)"
  by (auto simp: report_flip_def split: option.splits)

text \<open>The servo's shift stays within its clamp over every frame presented.\<close>

lemma present_one_shift:
  assumes "\<bar>ps_sync_shift_us ps\<bar> \<le> 200000"
  shows "\<bar>ps_sync_shift_us (fst (present_one ops vm e apos ps k))\<bar> \<le> 200000"
  using assms
  by (auto simp: present_one_def report_flip_def Let_def servo_shift_range split: prod.splits option.splits)

end
