(* ===== verification/Render_Copy.thy ===== *)
theory Render_Copy
  imports Vmc_Prelude "HOL-Library.Monad_Syntax"
begin

unbundle bit_operations_syntax

text \<open>
  Pixels of \<^verbatim>\<open>apps/thinclient/main.c\<close>: the copy of a converted image into a scanout buffer with
  16-byte streaming stores (\<^verbatim>\<open>copy_stage_to_drm_wc\<close>), which is shown to be a plain row-by-row
  copy, and the synthetic test pattern (\<^verbatim>\<open>render_pattern\<close>).
\<close>

section \<open>Copy with streaming stores\<close>

text \<open>
  A plain copy of \<open>n\<close> bytes between byte offsets \<open>s\<close> and \<open>d\<close>; \<^term>\<open>None\<close> is an access outside a buffer.
  A 16-byte streaming store (with an unaligned load) also faults when its destination is not a
  multiple of 16; \<open>base\<close> is the address at which the destination is mapped.
\<close>

definition copy_bytes :: "bytes \<Rightarrow> nat \<Rightarrow> nat \<Rightarrow> nat \<Rightarrow> bytes \<Rightarrow> bytes option" where
  "copy_bytes src s d n dst =
     (if s + n \<le> length src \<and> d + n \<le> length dst then Some (mem_write dst d (mem_read src s n)) else None)"

definition store16 :: "nat \<Rightarrow> bytes \<Rightarrow> nat \<Rightarrow> nat \<Rightarrow> bytes \<Rightarrow> bytes option" where
  "store16 base src s d dst = (if (base + d) mod 16 = 0 then copy_bytes src s d 16 dst else None)"

fun copy64 :: "nat \<Rightarrow> bytes \<Rightarrow> nat \<Rightarrow> nat \<Rightarrow> nat \<Rightarrow> bytes \<Rightarrow> (nat \<times> nat \<times> nat \<times> bytes) option" where
  "copy64 base src s d n dst =
     (if n \<ge> 64
      then do {
        d0 \<leftarrow> store16 base src s d dst;
        d1 \<leftarrow> store16 base src (s + 16) (d + 16) d0;
        d2 \<leftarrow> store16 base src (s + 32) (d + 32) d1;
        d3 \<leftarrow> store16 base src (s + 48) (d + 48) d2;
        copy64 base src (s + 64) (d + 64) (n - 64) d3
      }
      else Some (s, d, n, dst))"

fun copy16 :: "nat \<Rightarrow> bytes \<Rightarrow> nat \<Rightarrow> nat \<Rightarrow> nat \<Rightarrow> bytes \<Rightarrow> (nat \<times> nat \<times> nat \<times> bytes) option" where
  "copy16 base src s d n dst =
     (if n \<ge> 16
      then do { dst1 \<leftarrow> store16 base src s d dst; copy16 base src (s + 16) (d + 16) (n - 16) dst1 }
      else Some (s, d, n, dst))"

declare copy64.simps [simp del] copy16.simps [simp del]

definition copy_row :: "nat \<Rightarrow> bytes \<Rightarrow> nat \<Rightarrow> nat \<Rightarrow> nat \<Rightarrow> bytes \<Rightarrow> bytes option" where
  "copy_row base src s d row_bytes dst =
     do {
       (s1, d1, n1, dst1) \<leftarrow> copy64 base src s d row_bytes dst;
       (s2, d2, n2, dst2) \<leftarrow> copy16 base src s1 d1 n1 dst1;
       if n2 > 0 then copy_bytes src s2 d2 n2 dst2 else Some dst2
     }"

definition copy_stage_to_drm_wc :: "nat \<Rightarrow> bytes \<Rightarrow> nat \<Rightarrow> nat \<Rightarrow> u32 \<Rightarrow> u32 \<Rightarrow> bytes \<Rightarrow> bytes option" where
  "copy_stage_to_drm_wc base src src_pitch dst_pitch w h dst =
     fold (\<lambda>r b. b \<bind> copy_row base src (r * src_pitch) (r * dst_pitch) (unat w * 4)) [0..<unat h] (Some dst)"

text \<open>The reference: one \<^verbatim>\<open>memcpy\<close> per row, which is also the code of the other platforms.\<close>

definition copy_rows_ref :: "bytes \<Rightarrow> nat \<Rightarrow> nat \<Rightarrow> nat \<Rightarrow> nat \<Rightarrow> bytes \<Rightarrow> bytes" where
  "copy_rows_ref src src_pitch dst_pitch row_bytes h dst =
     fold (\<lambda>r b. mem_write b (r * dst_pitch) (mem_read src (r * src_pitch) row_bytes)) [0..<h] dst"

lemma mem_write_adjacent:
  assumes "d + length a \<le> length dst"
  shows "mem_write (mem_write dst d a) (d + length a) b = mem_write dst d (a @ b)"
  using assms by (simp add: mem_write_def ac_simps)

lemma mem_read_append: "mem_read src s n @ mem_read src (s + n) m = mem_read src s (n + m)"
  unfolding mem_read_def take_add drop_drop by (simp add: add.commute)

lemma copy_step:
  assumes "s + n + m \<le> length src" "d + n \<le> length dst"
  shows "mem_write (mem_write dst d (mem_read src s n)) (d + n) (mem_read src (s + n) m)
       = mem_write dst d (mem_read src s (n + m))"
  using assms mem_write_adjacent [of d "mem_read src s n" dst "mem_read src (s + n) m"]
  by (simp add: mem_read_append)

lemma copy_bytes_fits:
  "s + n \<le> length src \<Longrightarrow> d + n \<le> length dst \<Longrightarrow> copy_bytes src s d n dst = Some (mem_write dst d (mem_read src s n))"
  by (simp add: copy_bytes_def)

lemma store16_aligned:
  "(base + d) mod 16 = 0 \<Longrightarrow> s + 16 \<le> length src \<Longrightarrow> d + 16 \<le> length dst \<Longrightarrow>
    store16 base src s d dst = Some (mem_write dst d (mem_read src s 16))"
  by (simp add: store16_def copy_bytes_fits)

lemma aligned_shift: "(base + d) mod 16 = 0 \<Longrightarrow> (base + (d + 16 * k)) mod 16 = (0 :: nat)"
  by (simp add: add.assoc [symmetric])

lemma copy64_block:
  assumes "(base + d) mod 16 = 0" "s + 64 \<le> length src" "d + 64 \<le> length dst" "64 \<le> n"
  shows "copy64 base src s d n dst =
    copy64 base src (s + 64) (d + 64) (n - 64) (mem_write dst d (mem_read src s 64))"
  using assms aligned_shift [OF assms(1), of 1] aligned_shift [OF assms(1), of 2] aligned_shift [OF assms(1), of 3]
    copy_step [of s 16 16 src d dst] copy_step [of s 32 16 src d dst] copy_step [of s 48 16 src d dst]
  by (subst copy64.simps) (simp add: store16_aligned)

lemma copy64_spec:
  "(base + d) mod 16 = 0 \<Longrightarrow> s + n \<le> length src \<Longrightarrow> d + n \<le> length dst \<Longrightarrow>
    \<exists>k. copy64 base src s d n dst = Some (s + 16 * k, d + 16 * k, n - 16 * k, mem_write dst d (mem_read src s (16 * k))) \<and>
      16 * k \<le> n"
proof (induction n arbitrary: s d dst rule: less_induct)
  case (less n)
  show ?case
  proof (cases "n \<ge> 64")
    case False
    then show ?thesis
      using less.prems by (intro exI [of _ 0]) (simp add: copy64.simps [of base src s d n dst] mem_read_def)
  next
    case True
    let ?dst = "mem_write dst d (mem_read src s 64)"
    have len: "length ?dst = length dst" using less.prems True by simp
    have "(base + (d + 64)) mod 16 = 0" using aligned_shift [OF less.prems(1), of 4] by simp
    then obtain k where
      k: "copy64 base src (s + 64) (d + 64) (n - 64) ?dst = Some (s + 64 + 16 * k, d + 64 + 16 * k, n - 64 - 16 * k,
          mem_write ?dst (d + 64) (mem_read src (s + 64) (16 * k)))" "16 * k \<le> n - 64"
      using less.IH [of "n - 64" "d + 64" "s + 64" ?dst] less.prems True len by auto
    have "mem_write ?dst (d + 64) (mem_read src (s + 64) (16 * k)) = mem_write dst d (mem_read src s (64 + 16 * k))"
      using less.prems True k(2) by (intro copy_step) simp_all
    then show ?thesis
      using True k less.prems by (intro exI [of _ "4 + k"]) (simp add: copy64_block add.assoc)
  qed
qed

lemma copy16_spec:
  "(base + d) mod 16 = 0 \<Longrightarrow> s + n \<le> length src \<Longrightarrow> d + n \<le> length dst \<Longrightarrow>
    \<exists>k. copy16 base src s d n dst = Some (s + k, d + k, n - k, mem_write dst d (mem_read src s k)) \<and> k \<le> n"
proof (induction n arbitrary: s d dst rule: less_induct)
  case (less n)
  show ?case
  proof (cases "n \<ge> 16")
    case False
    then show ?thesis
      using less.prems by (intro exI [of _ 0]) (simp add: copy16.simps [of base src s d n dst] mem_read_def)
  next
    case True
    let ?dst = "mem_write dst d (mem_read src s 16)"
    have len: "length ?dst = length dst" using less.prems True by simp
    have "(base + (d + 16)) mod 16 = 0" using aligned_shift [OF less.prems(1), of 1] by simp
    then obtain k where
      k: "copy16 base src (s + 16) (d + 16) (n - 16) ?dst =
          Some (s + 16 + k, d + 16 + k, n - 16 - k, mem_write ?dst (d + 16) (mem_read src (s + 16) k))" "k \<le> n - 16"
      using less.IH [of "n - 16" "d + 16" "s + 16" ?dst] less.prems True len by auto
    have "mem_write ?dst (d + 16) (mem_read src (s + 16) k) = mem_write dst d (mem_read src s (16 + k))"
      using less.prems True k(2) by (intro copy_step) simp_all
    then show ?thesis
      using True k less.prems
      by (intro exI [of _ "16 + k"]) (simp add: copy16.simps [of base src s d n dst] store16_aligned add.assoc)
  qed
qed

lemma copy_row_aligned:
  assumes "(base + d) mod 16 = 0" "s + n \<le> length src" "d + n \<le> length dst"
  shows "copy_row base src s d n dst = Some (mem_write dst d (mem_read src s n))"
proof -
  obtain i where i: "copy64 base src s d n dst =
      Some (s + 16 * i, d + 16 * i, n - 16 * i, mem_write dst d (mem_read src s (16 * i)))" "16 * i \<le> n"
    using copy64_spec [OF assms] by blast
  define k where "k = 16 * i"
  let ?dst1 = "mem_write dst d (mem_read src s k)"
  have k: "copy64 base src s d n dst = Some (s + k, d + k, n - k, ?dst1)" "k \<le> n" using i by (simp_all add: k_def)
  have "(base + (d + k)) mod 16 = 0" unfolding k_def using aligned_shift [OF assms(1)] .
  moreover have "d + k + (n - k) \<le> length ?dst1" "s + k + (n - k) \<le> length src" using assms k(2) by simp_all
  ultimately obtain j where
    j: "copy16 base src (s + k) (d + k) (n - k) ?dst1 =
        Some (s + k + j, d + k + j, n - k - j, mem_write ?dst1 (d + k) (mem_read src (s + k) j))" "j \<le> n - k"
    using copy16_spec [of base "d + k" "s + k" "n - k" src ?dst1] by auto
  let ?dst2 = "mem_write dst d (mem_read src s (k + j))"
  have e1: "mem_write ?dst1 (d + k) (mem_read src (s + k) j) = ?dst2"
    using assms k(2) j(2) by (intro copy_step) simp_all
  have "mem_write ?dst2 (d + (k + j)) (mem_read src (s + (k + j)) (n - k - j))
      = mem_write dst d (mem_read src s (k + j + (n - k - j)))"
    using assms k(2) j(2) by (intro copy_step) simp_all
  moreover have "copy_bytes src (s + (k + j)) (d + (k + j)) (n - k - j) ?dst2 =
      Some (mem_write ?dst2 (d + (k + j)) (mem_read src (s + (k + j)) (n - k - j)))"
    using assms k(2) j(2) by (intro copy_bytes_fits) simp_all
  moreover have "k + j + (n - k - j) = n" using k(2) j(2) by simp
  ultimately have rest: "copy_bytes src (s + (k + j)) (d + (k + j)) (n - k - j) ?dst2 =
      Some (mem_write dst d (mem_read src s n))" by simp
  show ?thesis
  proof (cases "n - k - j > 0")
    case True
    then show ?thesis using k(1) j(1) e1 rest by (simp add: copy_row_def add.assoc)
  next
    case False
    then have "k + j = n" using k(2) j(2) by simp
    then show ?thesis using k(1) j(1) e1 False by (simp add: copy_row_def add.assoc)
  qed
qed

lemma copy_row_spec:
  assumes "s + n \<le> length src" "d + n \<le> length dst"
  shows "copy_row base src s d n dst =
    (if n < 16 \<or> (base + d) mod 16 = 0 then Some (mem_write dst d (mem_read src s n)) else None)"
proof (cases "(base + d) mod 16 = 0")
  case True
  then show ?thesis using copy_row_aligned [OF _ assms] by simp
next
  case False
  have c64: "copy64 base src s d n dst = (if 64 \<le> n then None else Some (s, d, n, dst))"
    using False by (subst copy64.simps) (simp add: store16_def)
  have c16: "copy16 base src s d n dst = (if 16 \<le> n then None else Some (s, d, n, dst))"
    using False by (subst copy16.simps) (simp add: store16_def)
  have z: "mem_write dst d (mem_read src s 0) = dst" using assms(2) by (simp add: mem_read_def)
  show ?thesis
  proof (cases "n < 16")
    case True
    then have "copy64 base src s d n dst = Some (s, d, n, dst)" "copy16 base src s d n dst = Some (s, d, n, dst)"
      by (simp_all add: c64 c16)
    then show ?thesis using True z assms by (cases "n = 0") (simp_all add: copy_row_def copy_bytes_fits)
  next
    case long: False
    then have "copy64 base src s d n dst = None \<or>
        copy64 base src s d n dst = Some (s, d, n, dst) \<and> copy16 base src s d n dst = None"
      by (simp add: c64 c16)
    then show ?thesis using False long by (auto simp: copy_row_def)
  qed
qed

lemma length_copy_rows:
  "\<forall>r < k. r * dp + n \<le> length dst \<and> r * sp + n \<le> length src \<Longrightarrow>
    length (copy_rows_ref src sp dp n k dst) = length dst"
proof (induction k)
  case (Suc k)
  then have "length (copy_rows_ref src sp dp n k dst) = length dst" "k * dp + n \<le> length dst" "k * sp + n \<le> length src"
    by simp_all
  then show ?case by (simp add: copy_rows_ref_def)
qed (simp add: copy_rows_ref_def)

lemma copy_rows_spec:
  assumes "\<forall>r < k. r * sp + n \<le> length src" "\<forall>r < k. r * dp + n \<le> length dst"
  shows "fold (\<lambda>r b. b \<bind> copy_row base src (r * sp) (r * dp) n) [0..<k] (Some dst) =
    (if n < 16 \<or> (\<forall>r < k. (base + r * dp) mod 16 = 0) then Some (copy_rows_ref src sp dp n k dst) else None)"
  using assms
proof (induction k)
  case (Suc k)
  have "length (copy_rows_ref src sp dp n k dst) = length dst" using Suc.prems by (intro length_copy_rows) auto
  then have "copy_row base src (k * sp) (k * dp) n (copy_rows_ref src sp dp n k dst) =
      (if n < 16 \<or> (base + k * dp) mod 16 = 0 then Some (copy_rows_ref src sp dp n (Suc k) dst) else None)"
    using Suc.prems by (subst copy_row_spec) (auto simp: copy_rows_ref_def)
  then show ?case using Suc by (auto simp: All_less_Suc)
qed (simp add: copy_rows_ref_def)

text \<open>
  C0: The copy with streaming stores is a plain copy, provided its rows are aligned. For any
  image and pitches for which every row lies inside both buffers, copying in blocks of 64 bytes,
  then of 16 bytes and then the rest gives the same destination as one \<^verbatim>\<open>memcpy\<close> per row exactly
  when every row of the destination starts at a multiple of 16 (or rows are shorter than one
  store); in every other case a streaming store faults, while the plain copy of the other
  platforms does not. Nothing in the code checks the alignment: it rests on the page-aligned
  mapping and on the driver choosing a pitch that is a multiple of 16.
\<close>

theorem copy_stage_is_memcpy:
  assumes "\<forall>r < unat h. r * src_pitch + unat w * 4 \<le> length src"
    and "\<forall>r < unat h. r * dst_pitch + unat w * 4 \<le> length dst"
  shows "copy_stage_to_drm_wc base src src_pitch dst_pitch w h dst =
    (if unat w * 4 < 16 \<or> (\<forall>r < unat h. (base + r * dst_pitch) mod 16 = 0)
     then Some (copy_rows_ref src src_pitch dst_pitch (unat w * 4) (unat h) dst) else None)"
  using copy_rows_spec [OF assms] by (simp add: copy_stage_to_drm_wc_def)

theorem copy_stage_is_memcpy_witness:
  "copy_stage_to_drm_wc 4096 (replicate 40 7) 20 32 5 2 (replicate 64 0) =
     Some (copy_rows_ref (replicate 40 7) 20 32 20 2 (replicate 64 0)) \<and>
   copy_stage_to_drm_wc 4096 (replicate 40 7) 20 24 5 2 (replicate 64 0) = None"
proof -
  have u: "unat (5 :: u32) = 5" "unat (2 :: u32) = 2" by simp_all
  have rows: "(\<forall>r < 2. P r) \<longleftrightarrow> P 0 \<and> P (Suc 0)" for P :: "nat \<Rightarrow> bool"
    by (auto simp: less_2_cases_iff)
  show ?thesis
    using copy_stage_is_memcpy [of 2 20 5 "replicate 40 7" 32 "replicate 64 0" 4096]
      copy_stage_is_memcpy [of 2 20 5 "replicate 40 7" 24 "replicate 64 0" 4096]
    by (simp add: u rows)
qed

section \<open>Test pattern\<close>

text \<open>The bytes of the pixel at column \<open>x\<close> and row \<open>y\<close>, in memory order.\<close>

definition pattern_pixel :: "u32 \<Rightarrow> u32 \<Rightarrow> u32 \<Rightarrow> u32 \<Rightarrow> bytes" where
  "pattern_pixel w seq x y =
     (let offset = seq * 8;
          band = (y div 64) mod 2;
          p = (x + offset) mod 96;
          v = (p * 255) div 96;
          marker = (x = offset mod w)
      in if marker then [255, 255, 255, 0]
         else [ucast (v XOR band), ucast (255 - v), ucast v, 0])"

definition pattern_row :: "u32 \<Rightarrow> u32 \<Rightarrow> nat \<Rightarrow> bytes" where
  "pattern_row w seq y = concat (map (\<lambda>x. pattern_pixel w seq (of_nat x) (of_nat y)) [0..<unat w])"

definition render_pattern :: "u32 \<Rightarrow> u32 \<Rightarrow> u32 \<Rightarrow> bytes \<Rightarrow> bytes" where
  "render_pattern w h seq rgb =
     fold (\<lambda>y b. mem_write b (y * unat w * 4) (pattern_row w seq y)) [0..<unat h] rgb"

lemma length_pattern_row: "length (pattern_row w seq y) = unat w * 4"
proof -
  have "length (pattern_pixel w seq x y') = 4" for x y' by (simp add: pattern_pixel_def Let_def)
  then have "map (\<lambda>x. length (pattern_pixel w seq (of_nat x) (of_nat y))) [0..<unat w] = replicate (unat w) 4"
    by (simp add: list_eq_iff_nth_eq)
  then show ?thesis by (simp add: pattern_row_def length_concat comp_def sum_list_replicate)
qed

text \<open>The pattern fills exactly the \<open>w * h * 4\<close> bytes of the image.\<close>

lemma render_pattern_rows:
  assumes "n * unat w * 4 \<le> length rgb"
  shows "fold (\<lambda>y b. mem_write b (y * unat w * 4) (pattern_row w seq y)) [0..<n] rgb =
    concat (map (pattern_row w seq) [0..<n]) @ drop (n * unat w * 4) rgb"
  using assms
proof (induction n)
  case (Suc n)
  let ?done = "concat (map (pattern_row w seq) [0..<n])"
  have len: "length ?done = n * unat w * 4"
    by (induction n) (simp_all add: length_pattern_row)
  have "mem_write (?done @ drop (n * unat w * 4) rgb) (n * unat w * 4) (pattern_row w seq n) =
      ?done @ pattern_row w seq n @ drop (Suc n * unat w * 4) rgb"
    using Suc.prems by (simp add: mem_write_def len length_pattern_row)
  then show ?case using Suc by simp
qed simp

lemma render_pattern_fills:
  assumes "length rgb = unat h * unat w * 4"
  shows "render_pattern w h seq rgb = concat (map (pattern_row w seq) [0..<unat h])"
  using render_pattern_rows [of "unat h" w rgb seq] assms by (simp add: render_pattern_def)

end
