(* ===== verification/Http_Client.thy ===== *)
theory Http_Client
  imports Telemetry "HOL-Library.Monad_Syntax"
begin

text \<open>
  The HTTP fetcher of the stream client (\<open>http_get\<close>, \<open>dash_tlm_net\<close> in
  \<open>apps/thinclient/main.c\<close>): the URL, the request, the non-blocking connect, send and receive
  loops with the deadline that every progress resets, and the response: status line, header
  scan, plain and chunked bodies. Resolver, socket and allocator are parameters; each round of a
  polling loop reads the next entry of a script of what the clock, the run flag and the socket
  say. A loop whose script ends is still waiting, which is the value \<^term>\<open>None\<close>.
\<close>

section \<open>Capacity of a growing buffer\<close>

text \<open>\<open>while (new_cap < need) new_cap *= 2\<close> on \<open>size_t\<close>.\<close>

partial_function (option) grow_cap :: "u64 \<Rightarrow> u64 \<Rightarrow> u64 option" where
  "grow_cap need c = (if c < need then grow_cap need (c * 2) else Some c)"

text \<open>
  The capacity after making room for \<open>need\<close> bytes: \<^term>\<open>Some None\<close> when the allocator refuses,
  \<^term>\<open>None\<close> when the doubling loop does not end.
\<close>

definition ensure_cap :: "(u64 \<Rightarrow> bool) \<Rightarrow> u64 \<Rightarrow> u64 \<Rightarrow> u64 option option" where
  "ensure_cap realloc_ok need cap =
     (if need > cap
      then case grow_cap need (if cap \<noteq> 0 then cap * 2 else 262144) of
             None \<Rightarrow> None
           | Some c \<Rightarrow> Some (if realloc_ok c then Some c else None)
      else Some (Some cap))"

section \<open>The URL and the request\<close>

text \<open>Host, port and path; \<^term>\<open>None\<close> when there is no scheme. The host is cut at 255 bytes.\<close>

definition parse_url :: "string \<Rightarrow> (string \<times> int \<times> string) option" where
  "parse_url url =
     (case strstr url ''://'' of
        None \<Rightarrow> None
      | Some q \<Rightarrow>
          let p = drop 3 q;
              host_port = take 255 (takeWhile (\<lambda>c. c \<noteq> CHR ''/'') p);
              path = (if CHR ''/'' \<in> set p then dropWhile (\<lambda>c. c \<noteq> CHR ''/'') p else ''/'');
              host = takeWhile (\<lambda>c. c \<noteq> CHR '':'') host_port;
              port = (if CHR '':'' \<in> set host_port
                      then atoi (drop 1 (dropWhile (\<lambda>c. c \<noteq> CHR '':'') host_port)) else 80)
          in Some (host, port, path))"

definition http_request :: "string \<Rightarrow> string \<Rightarrow> string" where
  "http_request path host =
     ''GET '' @ path @ '' HTTP/1.1'' @ [CHR 0x0D, CHR 0x0A] @ ''Host: '' @ host
     @ [CHR 0x0D, CHR 0x0A] @ ''Connection: close'' @ [CHR 0x0D, CHR 0x0A, CHR 0x0D, CHR 0x0A]"

section \<open>Polling loops\<close>

definition poll_wait :: "u64 \<Rightarrow> u64 \<Rightarrow> int" where
  "poll_wait deadline now =
     (let w = sint (ucast ((deadline - now) div 1000) :: 32 word)
      in if w < 1 then 1 else if w > 500 then 500 else w)"

datatype poll_result = Poll_Error bool | Poll_Timeout | Poll_Ready

text \<open>
  One round of a polling loop: the run flag and the clock at its head, the answer of \<open>poll\<close> for
  a given time-out (a failed poll says whether it was only interrupted), the answer of the call
  on the ready socket, and the clock after it.
\<close>

record 'a round =
  rd_run :: bool
  rd_now :: u64
  rd_poll :: "int \<Rightarrow> poll_result"
  rd_call :: 'a
  rd_after :: u64

definition span_us :: "int \<Rightarrow> u64" where
  "span_us timeout_ms = of_int timeout_ms * 1000"

text \<open>
  Waiting for the connection: \<^term>\<open>Some True\<close> when it is established. The call asks for the
  socket's error; its second part is the run flag after the loop.
\<close>

fun connect_loop :: "u64 \<Rightarrow> (bool \<times> bool) round list \<Rightarrow> bool option" where
  "connect_loop deadline [] = None"
| "connect_loop deadline (r # rs) =
     (if \<not> rd_run r \<or> rd_now r \<ge> deadline then Some False
      else case rd_poll r (poll_wait deadline (rd_now r)) of
             Poll_Error eintr \<Rightarrow> if eintr then connect_loop deadline rs else Some False
           | Poll_Timeout \<Rightarrow> connect_loop deadline rs
           | Poll_Ready \<Rightarrow>
               if \<not> fst (rd_call r) then Some False
               else Some (snd (rd_call r) \<and> rd_after r < deadline))"

text \<open>Sending: the call returns the bytes taken, or \<^term>\<open>Inl\<close> whether it would only block.\<close>

fun send_loop :: "int \<Rightarrow> string \<Rightarrow> u64 \<Rightarrow> (bool + nat) round list \<Rightarrow> bool option" where
  "send_loop timeout_ms [] deadline rs = Some True"
| "send_loop timeout_ms wr deadline [] = None"
| "send_loop timeout_ms wr deadline (r # rs) =
     (if \<not> rd_run r then Some False
      else if rd_now r \<ge> deadline then Some False
      else case rd_poll r (poll_wait deadline (rd_now r)) of
             Poll_Error eintr \<Rightarrow> if eintr then send_loop timeout_ms wr deadline rs else Some False
           | Poll_Timeout \<Rightarrow> send_loop timeout_ms wr deadline rs
           | Poll_Ready \<Rightarrow>
               (case rd_call r of
                  Inl again \<Rightarrow> if again then send_loop timeout_ms wr deadline rs else Some False
                | Inr n \<Rightarrow> send_loop timeout_ms (drop n wr) (rd_after r + span_us timeout_ms) rs))"

text \<open>
  Receiving: what is accumulated, the time of the first byte and the capacity. The loop ends at
  the end of the stream, on an error or at the deadline; it fails when the client stops or when
  the buffer cannot grow.
\<close>

record recv_state =
  rv_raw :: string
  rv_cap :: u64
  rv_ttfb :: u64

definition recv_store :: "(u64 \<Rightarrow> bool) \<Rightarrow> u64 \<Rightarrow> u64 \<Rightarrow> string \<Rightarrow> recv_state \<Rightarrow> recv_state option option" where
  "recv_store realloc_ok t_start now bs s =
     (case ensure_cap realloc_ok (of_nat (length (rv_raw s)) + of_nat (length bs)) (rv_cap s) of
        None \<Rightarrow> None
      | Some None \<Rightarrow> Some None
      | Some (Some c) \<Rightarrow>
          Some (Some (s\<lparr>rv_raw := rv_raw s @ bs, rv_cap := c,
                        rv_ttfb := (if rv_ttfb s = 0 then now - t_start else rv_ttfb s)\<rparr>)))"

fun recv_loop ::
  "(u64 \<Rightarrow> bool) \<Rightarrow> u64 \<Rightarrow> int \<Rightarrow> u64 \<Rightarrow> recv_state \<Rightarrow> (bool + string) round list \<Rightarrow> recv_state option option"
where
  "recv_loop realloc_ok t_start timeout_ms deadline s [] = None"
| "recv_loop realloc_ok t_start timeout_ms deadline s (r # rs) =
     (if \<not> rd_run r then Some None
      else if rd_now r \<ge> deadline then Some (Some s)
      else case rd_poll r (poll_wait deadline (rd_now r)) of
             Poll_Error eintr \<Rightarrow>
               if eintr then recv_loop realloc_ok t_start timeout_ms deadline s rs else Some (Some s)
           | Poll_Timeout \<Rightarrow> recv_loop realloc_ok t_start timeout_ms deadline s rs
           | Poll_Ready \<Rightarrow>
               (case rd_call r of
                  Inl again \<Rightarrow>
                    if again then recv_loop realloc_ok t_start timeout_ms deadline s rs
                    else Some (Some s)
                | Inr bs \<Rightarrow>
                    if bs = [] then Some (Some s)
                    else case recv_store realloc_ok t_start (rd_after r) bs s of
                           Some (Some s') \<Rightarrow>
                             recv_loop realloc_ok t_start timeout_ms (rd_after r + span_us timeout_ms) s' rs
                         | r' \<Rightarrow> r'))"

section \<open>The response head\<close>

text \<open>
  The response is the received text \<open>raw\<close>; \<open>junk\<close> is what the memory behind it holds, which the
  C conversions may look at.
\<close>

definition http_status :: "string \<Rightarrow> string \<Rightarrow> int" where
  "http_status raw junk =
     (if length raw \<ge> 12 \<and> (prefix ''HTTP/1.1 '' raw \<or> prefix ''HTTP/1.0 '' raw)
      then atoi (drop 9 (raw @ junk)) else 0)"

text \<open>The length of the head with its empty line; 0 when there is none.\<close>

fun header_end :: "nat \<Rightarrow> string \<Rightarrow> nat" where
  "header_end i (a # b # c # d # s) =
     (if a = CHR 0x0D \<and> b = CHR 0x0A \<and> c = CHR 0x0D \<and> d = CHR 0x0A then i + 4
      else header_end (i + 1) (b # c # d # s))"
| "header_end i s = 0"

definition to_lower :: "char \<Rightarrow> char" where
  "to_lower c = (if 65 \<le> (of_char c :: nat) \<and> (of_char c :: nat) \<le> 90
                 then char_of ((of_char c :: nat) + 32) else c)"

text \<open>\<open>strncasecmp(s, pat, strlen(pat)) == 0\<close>.\<close>

definition case_prefix :: "string \<Rightarrow> string \<Rightarrow> bool" where
  "case_prefix pat s \<longleftrightarrow> map to_lower pat = map to_lower (take (length pat) s)"

fun skip_sep :: "nat \<Rightarrow> string \<Rightarrow> string" where
  "skip_sep (Suc n) (c # s) =
     (if c = CHR '' '' \<or> c = CHR 0x09 \<or> c = CHR '':'' then skip_sep n s else c # s)"
| "skip_sep n s = s"

definition long_clamp :: "int \<Rightarrow> int" where
  "long_clamp z = max (- (2 ^ 63)) (min (2 ^ 63 - 1) z)"

definition strtol10 :: "string \<Rightarrow> int" where
  "strtol10 s = long_clamp (atoi s)"

text \<open>One offset of the header scan; \<open>r\<close> is the distance to the end of the head.\<close>

definition header_at :: "nat \<Rightarrow> string \<Rightarrow> bool \<times> int \<Rightarrow> bool \<times> int" where
  "header_at r s = (\<lambda>(chunked, len).
     (if case_prefix ''Transfer-Encoding:'' s
         \<and> case_prefix ''chunked'' (skip_sep (r - 18) (drop 18 s)) then True else chunked,
      if case_prefix ''Content-Length:'' s then strtol10 (skip_sep (r - 15) (drop 15 s)) else len))"

fun scan_headers :: "nat \<Rightarrow> string \<Rightarrow> bool \<times> int \<Rightarrow> bool \<times> int" where
  "scan_headers r s h = (if r \<le> 18 then h else scan_headers (r - 1) (tl s) (header_at r s h))"

declare scan_headers.simps [simp del]

section \<open>Bodies\<close>

definition hex_val :: "char \<Rightarrow> nat option" where
  "hex_val c =
     (let n = of_char c :: nat in
      if 48 \<le> n \<and> n \<le> 57 then Some (n - 48)
      else if 97 \<le> n \<and> n \<le> 102 then Some (n - 87)
      else if 65 \<le> n \<and> n \<le> 70 then Some (n - 55) else None)"

definition is_hex :: "char \<Rightarrow> bool" where
  "is_hex c \<longleftrightarrow> hex_val c \<noteq> None"

definition strtol16 :: "string \<Rightarrow> int" where
  "strtol16 s = long_clamp (int (foldl (\<lambda>a c. 16 * a + the (hex_val c)) 0 s))"

definition is_crlf :: "char \<Rightarrow> bool" where
  "is_crlf c \<longleftrightarrow> c = CHR 0x0D \<or> c = CHR 0x0A"

text \<open>At most 31 hexadecimal digits, then everything to the end of the line.\<close>

definition size_digits :: "string \<Rightarrow> string" where
  "size_digits s = take 31 (takeWhile is_hex s)"

definition size_line :: "string \<Rightarrow> int \<times> string" where
  "size_line s =
     (strtol16 (size_digits s),
      drop 1 (dropWhile (\<lambda>c. c \<noteq> CHR 0x0A) (drop (length (size_digits s)) s)))"

definition skip_one :: "char \<Rightarrow> string \<Rightarrow> string" where
  "skip_one c s = (if s \<noteq> [] \<and> hd s = c then tl s else s)"

lemma size_line_progress:
  assumes "size_line s = (n, t)" "n \<noteq> 0"
  shows "length t < length s"
proof -
  let ?d = "size_digits s"
  have "?d \<noteq> []" using assms by (auto simp: size_line_def strtol16_def long_clamp_def)
  moreover have "length ?d \<le> length s"
    using length_takeWhile_le [of is_hex s] by (simp add: size_digits_def min.coboundedI1)
  moreover have "length t \<le> length s - length ?d"
  proof -
    have "t = drop 1 (dropWhile (\<lambda>c. c \<noteq> CHR 0x0A) (drop (length ?d) s))"
      using assms by (simp add: size_line_def)
    then show ?thesis
      using length_dropWhile_le [of "\<lambda>c. c \<noteq> CHR 0x0A" "drop (length ?d) s"] by simp
  qed
  ultimately show ?thesis by (cases "?d") auto
qed

lemma length_skip_one: "length (skip_one c s) \<le> length s"
  by (simp add: skip_one_def)

text \<open>
  The chunk loop on what is left of the response: \<open>buf\<close> is the body so far, \<open>cap\<close> its capacity.
  A result of \<^term>\<open>Some None\<close> is the error return; \<^term>\<open>None\<close> means that growing the buffer
  does not end.
\<close>

function decode_chunks :: "(u64 \<Rightarrow> bool) \<Rightarrow> string \<Rightarrow> string \<Rightarrow> u64 \<Rightarrow> string option option" where
  "decode_chunks realloc_ok s buf cap =
     (let s1 = dropWhile is_crlf s in
      if s1 = [] then Some None
      else let (n, s2) = size_line s1 in
      if n = 0 then Some (Some buf)
      else if n < 0 then Some None
      else case ensure_cap realloc_ok (of_nat (length buf) + of_int n) cap of
             None \<Rightarrow> None
           | Some None \<Rightarrow> Some None
           | Some (Some cap') \<Rightarrow>
               if nat n > length s2 then Some None
               else decode_chunks realloc_ok (skip_one (CHR 0x0A) (skip_one (CHR 0x0D) (drop (nat n) s2)))
                      (buf @ take (nat n) s2) cap')"
  by pat_completeness auto
termination
proof (relation "measure (\<lambda>(_, s, _, _). length s)", goal_cases)
  case 1
  then show ?case by simp
next
  case (2 ok s buf cap s1 x n s2 a cap')
  have "length s2 < length s1" using 2 size_line_progress [of s1 n s2] by auto
  moreover have "length s1 \<le> length s" using 2 by (simp add: length_dropWhile_le)
  moreover have "length (skip_one (CHR 0x0A) (skip_one (CHR 0x0D) (drop (nat n) s2))) \<le> length s2"
    using length_skip_one [of "CHR 0x0A" "skip_one (CHR 0x0D) (drop (nat n) s2)"]
      length_skip_one [of "CHR 0x0D" "drop (nat n) s2"] by simp
  ultimately show ?case by simp
qed

declare decode_chunks.simps [simp del]

definition plain_body :: "int \<Rightarrow> string \<Rightarrow> string" where
  "plain_body content_length rest =
     (if content_length \<ge> 0 \<and> nat content_length < length rest then take (nat content_length) rest
      else rest)"

section \<open>The fetch\<close>

record http_fetch_stats =
  st_status :: int
  st_ttfb_us :: u64
  st_total_us :: u64
  st_bytes :: u64
  st_rtt_us :: u64

definition http_stats_init :: http_fetch_stats where
  "http_stats_init = \<lparr>st_status = 0, st_ttfb_us = 0, st_total_us = 0, st_bytes = 0, st_rtt_us = 0\<rparr>"

text \<open>
  What the caller sees: the body when the call returned 0, the status code, and the statistics on
  the paths that write them.
\<close>

record http_result =
  hr_body :: "string option"
  hr_status :: int
  hr_stats :: "http_fetch_stats option"

definition http_fail :: "int \<Rightarrow> http_fetch_stats option \<Rightarrow> http_result" where
  "http_fail status st = \<lparr>hr_body = None, hr_status = status, hr_stats = st\<rparr>"

definition http_ok :: "http_fetch_stats \<Rightarrow> string \<Rightarrow> http_result" where
  "http_ok st b = \<lparr>hr_body = Some b, hr_status = 200, hr_stats = Some (st\<lparr>st_bytes := of_nat (length b)\<rparr>)\<rparr>"

text \<open>The parser of a complete response; the status code is stored before it is judged.\<close>

definition http_parse ::
  "(u64 \<Rightarrow> bool) \<Rightarrow> (nat \<Rightarrow> bool) \<Rightarrow> http_fetch_stats \<Rightarrow> string \<Rightarrow> string \<Rightarrow> http_result option"
where
  "http_parse realloc_ok malloc_ok st raw junk =
     (if length raw < 12 then Some (http_fail 0 (Some st))
      else if http_status raw junk \<noteq> 200 then Some (http_fail (http_status raw junk) (Some st))
      else let hdr_end = header_end 0 raw in
      if hdr_end = 0 then Some (http_fail 200 None)
      else let (chunked, content_length) = scan_headers hdr_end (raw @ junk) (False, -1);
               rest = drop hdr_end raw
      in if \<not> chunked
         then let b = plain_body content_length rest
              in if b \<noteq> [] \<and> \<not> malloc_ok (length b) then Some (http_fail 200 (Some st))
                 else Some (http_ok st b)
         else case decode_chunks realloc_ok rest [] 0 of
                None \<Rightarrow> None
              | Some None \<Rightarrow> Some (http_fail 200 None)
              | Some (Some b) \<Rightarrow> Some (http_ok st b))"

text \<open>Everything outside the program that one fetch meets.\<close>

record http_env =
  he_resolve :: "string \<Rightarrow> int \<Rightarrow> bool"
  he_socket :: bool
  he_connect :: int
  he_in_progress :: bool
  he_conn0 :: u64
  he_conn :: "(bool \<times> bool) round list"
  he_send0 :: u64
  he_send :: "(bool + nat) round list"
  he_recv0 :: u64
  he_recv :: "(bool + string) round list"
  he_realloc :: "u64 \<Rightarrow> bool"
  he_malloc :: "nat \<Rightarrow> bool"
  he_rtt :: "u64 option"
  he_start :: u64
  he_end :: u64
  he_junk :: string

definition connected :: "http_env \<Rightarrow> int \<Rightarrow> bool option" where
  "connected e timeout_ms =
     (if he_connect e < 0 \<and> \<not> he_in_progress e then Some False
      else if he_connect e \<noteq> 0 then connect_loop (he_conn0 e + span_us timeout_ms) (he_conn e)
      else Some True)"

definition recv_start :: recv_state where
  "recv_start = \<lparr>rv_raw = [], rv_cap = 0, rv_ttfb = 0\<rparr>"

definition fetch_stats :: "http_env \<Rightarrow> recv_state \<Rightarrow> http_fetch_stats" where
  "fetch_stats e s = http_stats_init\<lparr>st_ttfb_us := rv_ttfb s, st_total_us := he_end e - he_start e,
     st_rtt_us := (case he_rtt e of Some t \<Rightarrow> t | None \<Rightarrow> 0)\<rparr>"

definition http_get :: "http_env \<Rightarrow> string \<Rightarrow> int \<Rightarrow> http_result option" where
  "http_get e url timeout_ms =
     (case parse_url url of
        None \<Rightarrow> Some (http_fail 0 None)
      | Some (host, port, path) \<Rightarrow>
          if \<not> he_resolve e host port \<or> \<not> he_socket e then Some (http_fail 0 None)
          else do {
            up \<leftarrow> connected e timeout_ms;
            if \<not> up \<or> length (http_request path host) \<ge> 2048 then Some (http_fail 0 None)
            else do {
              sent \<leftarrow> send_loop timeout_ms (http_request path host) (he_send0 e + span_us timeout_ms)
                       (he_send e);
              if \<not> sent then Some (http_fail 0 None)
              else do {
                r \<leftarrow> recv_loop (he_realloc e) (he_start e) timeout_ms (he_recv0 e + span_us timeout_ms)
                      recv_start (he_recv e);
                case r of
                  None \<Rightarrow> Some (http_fail 0 None)
                | Some s \<Rightarrow> http_parse (he_realloc e) (he_malloc e) (fetch_stats e s) (rv_raw s) (he_junk e)
              }
            }
          })"

text \<open>The telemetry record of one fetch names the last component of the URL.\<close>

definition url_base :: "string \<Rightarrow> string" where
  "url_base url = rev (takeWhile (\<lambda>c. c \<noteq> CHR ''/'') (rev url))"

definition u64_string :: "u64 \<Rightarrow> string" where
  "u64_string w = dec_string (unat w)"

definition quoted :: "string \<Rightarrow> string" where
  "quoted s = CHR 0x22 # s @ [CHR 0x22]"

definition net_fields :: "string \<Rightarrow> int \<Rightarrow> string \<Rightarrow> int \<Rightarrow> http_fetch_stats option \<Rightarrow> string" where
  "net_fields kind seg url status st =
     (let f = (\<lambda>g. u64_string (case st of Some x \<Rightarrow> g x | None \<Rightarrow> 0)) in
      quoted ''kind'' @ '':'' @ quoted kind @ '','' @ quoted ''seg'' @ '':'' @ int_string seg
      @ '','' @ quoted ''url'' @ '':'' @ quoted (url_base url) @ '','' @ quoted ''status'' @ '':''
      @ int_string status @ '','' @ quoted ''ttfb_us'' @ '':'' @ f st_ttfb_us
      @ '','' @ quoted ''total_us'' @ '':'' @ f st_total_us @ '','' @ quoted ''bytes'' @ '':''
      @ f st_bytes @ '','' @ quoted ''retries'' @ '':0,'' @ quoted ''rtt_us'' @ '':'' @ f st_rtt_us
      @ '','' @ quoted ''stall_us'' @ '':0'')"

definition dash_tlm_net :: "string \<Rightarrow> int \<Rightarrow> string \<Rightarrow> int \<Rightarrow> http_fetch_stats option \<Rightarrow> u64 \<Rightarrow> tlm \<Rightarrow> tlm" where
  "dash_tlm_net kind seg url status st now t =
     (if \<not> vmc_tlm_enabled t then t else vmc_tlm_emit (Some ''net'') (net_fields kind seg url status st) now t)"

section \<open>Growing\<close>

lemma grow_cap_enough:
  assumes ret: "grow_cap need c = Some r"
  shows "need \<le> r"
proof (rule grow_cap.raw_induct [where P = "\<lambda>need _ r. need \<le> r", OF _ ret])
  fix g :: "u64 \<Rightarrow> u64 \<Rightarrow> u64 option" and need c r
  assume "\<And>need c r. g need c = Some r \<Longrightarrow> need \<le> r"
    and "(if c < need then g need (c * 2) else Some c) = Some r"
  then show "need \<le> r" by (cases "c < need") auto
qed

lemma grow_cap_ends:
  "k \<le> 63 \<Longrightarrow> unat need \<le> 2 ^ 63 \<Longrightarrow> \<exists>j \<le> 63. grow_cap need (2 ^ k) = Some (2 ^ j)"
proof (induction "63 - k" arbitrary: k)
  case 0
  then have "k = 63" by simp
  moreover have "\<not> (2 ^ 63 :: u64) < need" using 0 unat_pow_word64 [of 63] by (simp add: word_less_nat_alt)
  ultimately show ?case by (auto simp: grow_cap.simps [of need])
next
  case (Suc m)
  show ?case
  proof (cases "(2 ^ k :: u64) < need")
    case True
    then show ?thesis using Suc.hyps(1) [of "Suc k"] Suc.hyps(2) Suc.prems
      by (subst grow_cap.simps) (simp add: mult.commute)
  next
    case False
    then show ?thesis using Suc.prems by (auto simp: grow_cap.simps [of need])
  qed
qed

text \<open>Doubling reaches 0 and then stays there.\<close>

lemma grow_cap_stuck:
  assumes "2 ^ 63 < need" and "c = 0 \<or> (\<exists>k \<le> 63. c = 2 ^ k)"
  shows "grow_cap need c = None"
proof -
  have below: "c < need \<and> (c * 2 = 0 \<or> (\<exists>k \<le> 63. c * 2 = 2 ^ k))"
    if "2 ^ 63 < need" "c = 0 \<or> (\<exists>k \<le> 63. c = 2 ^ k)" for need c :: u64
  proof (cases "\<exists>k \<le> 63. c = 2 ^ k")
    case True
    then obtain k where k: "k \<le> 63" "c = 2 ^ k" by blast
    have "(2 :: nat) ^ k \<le> 2 ^ 63" using k(1) by (rule power_increasing) simp
    then have "c \<le> 2 ^ 63" using k unat_pow_word64 [of k] unat_pow_word64 [of 63] by (simp add: word_le_nat_alt)
    then have "c < need" using that(1) by (rule le_less_trans)
    moreover have "c * 2 = 0 \<or> (\<exists>k \<le> 63. c * 2 = 2 ^ k)"
    proof (cases "k = 63")
      case True
      then show ?thesis using k by simp
    next
      case False
      then show ?thesis using k by (intro disjI2 exI [of _ "Suc k"]) (simp add: mult.commute)
    qed
    ultimately show ?thesis by blast
  next
    case False
    then have "c = 0" using that(2) by blast
    moreover have "(0 :: u64) < need" using that(1) by (metis not_less_zero word_gt_0_no word_not_simps(1) word_gt_0)
    ultimately show ?thesis by simp
  qed
  let ?P = "\<lambda>(need :: u64) (c :: u64) (r :: u64). \<not> (2 ^ 63 < need \<and> (c = 0 \<or> (\<exists>k \<le> 63. c = 2 ^ k)))"
  have "?P need c r" if ret: "grow_cap need c = Some r" for r
  proof (rule grow_cap.raw_induct [where P = "?P", OF _ ret])
    fix g :: "u64 \<Rightarrow> u64 \<Rightarrow> u64 option" and need c r
    assume IH: "\<And>need c r. g need c = Some r \<Longrightarrow> ?P need c r"
      and eq: "(if c < need then g need (c * 2) else Some c) = Some r"
    show "?P need c r"
    proof
      assume a: "2 ^ 63 < need \<and> (c = 0 \<or> (\<exists>k \<le> 63. c = 2 ^ k))"
      have step: "c < need" "c * 2 = 0 \<or> (\<exists>k \<le> 63. c * 2 = 2 ^ k)" using below a by blast+
      then have "g need (c * 2) = Some r" using eq by simp
      then show False using IH [of need "c * 2" r] a step(2) by blast
    qed
  qed
  then show ?thesis using assms by (cases "grow_cap need c") blast+
qed

definition cap_ok :: "u64 \<Rightarrow> bool" where
  "cap_ok c \<longleftrightarrow> c = 0 \<or> (\<exists>k \<le> 63. c = 2 ^ k)"

lemma ensure_cap_room:
  assumes "\<forall>n. realloc_ok n" "cap_ok cap" "unat need \<le> 2 ^ 63"
  shows "\<exists>c. ensure_cap realloc_ok need cap = Some (Some c) \<and> cap_ok c"
proof (cases "need > cap")
  case False
  then show ?thesis using assms by (simp add: ensure_cap_def)
next
  case True
  have start: "\<exists>k \<le> 63. (if cap \<noteq> 0 then cap * 2 else 262144) = 2 ^ k"
  proof (cases "cap = 0")
    case True
    then show ?thesis by (intro exI [of _ 18]) simp
  next
    case False
    then obtain k where k: "k \<le> 63" "cap = 2 ^ k" using assms(2) by (auto simp: cap_ok_def)
    have "k \<noteq> 63"
    proof
      assume "k = 63"
      then have "unat need \<le> unat cap" using k(2) assms(3) unat_pow_word64 [of 63] by simp
      then show False using True by (simp add: word_less_nat_alt)
    qed
    then show ?thesis using k by (intro exI [of _ "Suc k"]) (simp add: mult.commute)
  qed
  then obtain k where k: "k \<le> 63" "(if cap \<noteq> 0 then cap * 2 else 262144) = (2 ^ k :: u64)" by blast
  then obtain j where "j \<le> 63" "grow_cap need (2 ^ k) = Some (2 ^ j)"
    using grow_cap_ends assms(3) by blast
  then show ?thesis using True k assms(1) by (auto simp: ensure_cap_def cap_ok_def)
qed

lemma ensure_cap_stuck:
  assumes "cap_ok cap" and need: "2 ^ 63 < need"
  shows "ensure_cap realloc_ok need cap = None"
proof (cases "cap = 0")
  case True
  have "grow_cap need 262144 = None"
    using need by (rule grow_cap_stuck) (intro disjI2 exI [of _ 18], simp)
  moreover have "0 < need" using need by (metis word_gt_0 word_not_simps(1))
  ultimately show ?thesis using True by (simp add: ensure_cap_def)
next
  case False
  then obtain k where k: "k \<le> 63" "cap = 2 ^ k" using assms(1) by (auto simp: cap_ok_def)
  have "(2 :: nat) ^ k \<le> 2 ^ 63" using k(1) by (rule power_increasing) simp
  then have "cap \<le> 2 ^ 63" using k unat_pow_word64 [of k] unat_pow_word64 [of 63] by (simp add: word_le_nat_alt)
  then have "cap < need" using need by (rule le_less_trans)
  moreover have "cap * 2 = 0 \<or> (\<exists>k \<le> 63. cap * 2 = 2 ^ k)"
  proof (cases "k = 63")
    case False
    then show ?thesis using k by (intro disjI2 exI [of _ "Suc k"]) (simp add: mult.commute)
  qed (use k in simp)
  then have "grow_cap need (cap * 2) = None" using need by (intro grow_cap_stuck)
  ultimately show ?thesis using False by (simp add: ensure_cap_def)
qed

section \<open>Chunked bodies\<close>

text \<open>A sender's side of the chunked coding, as the reference for the decoder.\<close>

definition crlf :: string where
  "crlf = [CHR 0x0D, CHR 0x0A]"

definition hex_char :: "nat \<Rightarrow> char" where
  "hex_char d = char_of (if d < 10 then 48 + d else 87 + d)"

fun hex_string :: "nat \<Rightarrow> string" where
  "hex_string n = (if n < 16 then [hex_char n] else hex_string (n div 16) @ [hex_char (n mod 16)])"

declare hex_string.simps [simp del]

definition encode_chunk :: "string \<Rightarrow> string" where
  "encode_chunk c = hex_string (length c) @ crlf @ c @ crlf"

definition encode_chunks :: "string list \<Rightarrow> string" where
  "encode_chunks cs = concat (map encode_chunk cs) @ ''0'' @ crlf @ crlf"

lemma hex_val_char: "d < 16 \<Longrightarrow> hex_val (hex_char d) = Some d"
  by (auto simp: hex_val_def hex_char_def Let_def)

lemma hex_string_hex: "c \<in> set (hex_string n) \<Longrightarrow> is_hex c"
proof (induction n rule: hex_string.induct)
  case (1 n)
  then show ?case
    using hex_val_char [of n] hex_val_char [of "n mod 16"]
    by (auto simp: hex_string.simps [of n] is_hex_def split: if_splits)
qed

lemma hex_string_value: "foldl (\<lambda>a c. 16 * a + the (hex_val c)) 0 (hex_string n) = n"
proof (induction n rule: hex_string.induct)
  case (1 n)
  then show ?case by (cases "n < 16") (simp_all add: hex_string.simps [of n] hex_val_char)
qed

lemma hex_string_length: "n < 16 ^ Suc k \<Longrightarrow> length (hex_string n) \<le> Suc k"
proof (induction k arbitrary: n)
  case 0
  then show ?case by (simp add: hex_string.simps [of n])
next
  case (Suc k)
  have "n div 16 < 16 ^ Suc k" using Suc.prems by (simp add: less_mult_imp_div_less mult.commute)
  then show ?case using Suc.IH [of "n div 16"] by (subst hex_string.simps) simp
qed

lemma hex_string_not_Nil: "hex_string n \<noteq> []"
  by (simp add: hex_string.simps [of n])

lemma size_line_hex:
  assumes "n < 2 ^ 63"
  shows "size_line (hex_string n @ crlf @ t) = (int n, t)"
proof -
  have "takeWhile is_hex (hex_string n @ crlf @ t) = hex_string n"
    using hex_string_hex [of _ n] by (subst takeWhile_append2) (auto simp: crlf_def is_hex_def hex_val_def)
  moreover have "length (hex_string n) \<le> 31" using hex_string_length [of n 15] assms by simp
  ultimately have "size_digits (hex_string n @ crlf @ t) = hex_string n" by (simp add: size_digits_def)
  then show ?thesis
    using assms by (simp add: size_line_def strtol16_def hex_string_value long_clamp_def crlf_def)
qed

lemma hex_not_crlf: "is_hex c \<Longrightarrow> \<not> is_crlf c"
  by (auto simp: is_hex_def is_crlf_def hex_val_def)

lemma skip_crlf_hex: "dropWhile is_crlf (hex_string n @ t) = hex_string n @ t"
  using hex_string_not_Nil [of n] hex_string_hex [of "hd (hex_string n)" n]
  by (cases "hex_string n") (auto dest: hex_not_crlf)

text \<open>One chunk of a well-formed body.\<close>

lemma decode_chunk:
  assumes "c \<noteq> []" "length buf + length c < 2 ^ 63" "cap_ok cap" "\<forall>n. realloc_ok n"
  shows "\<exists>cap'. cap_ok cap' \<and>
    decode_chunks realloc_ok (encode_chunk c @ t) buf cap = decode_chunks realloc_ok t (buf @ c) cap'"
proof -
  let ?s = "hex_string (length c) @ crlf @ (c @ crlf @ t)"
  have s: "encode_chunk c @ t = ?s" by (simp add: encode_chunk_def)
  have line: "size_line ?s = (int (length c), c @ crlf @ t)" using assms(2) by (intro size_line_hex) simp
  have "unat (of_nat (length buf) + of_int (int (length c)) :: u64) = length buf + length c"
    using assms(2) unat_of_nat [of "length buf + length c", where ?'a = 64]
    by (simp add: take_bit_nat_eq_self)
  then obtain cap' where cap': "cap_ok cap'"
      "ensure_cap realloc_ok (of_nat (length buf) + of_int (int (length c))) cap = Some (Some cap')"
    using ensure_cap_room [OF assms(4,3)] assms(2) by (metis less_imp_le)
  have "decode_chunks realloc_ok ?s buf cap = decode_chunks realloc_ok t (buf @ c) cap'"
    using assms(1) cap'(2) hex_string_not_Nil [of "length c"]
    by (subst decode_chunks.simps) (simp add: Let_def skip_crlf_hex line del: of_int_of_nat_eq, simp add: crlf_def skip_one_def)
  then show ?thesis using cap'(1) s by auto
qed

lemma decode_chunk_prefix:
  assumes "\<forall>c \<in> set cs. c \<noteq> []" "length buf + length (concat cs) < 2 ^ 63" "cap_ok cap" "\<forall>n. realloc_ok n"
  shows "\<exists>cap'. cap_ok cap' \<and> decode_chunks realloc_ok (concat (map encode_chunk cs) @ t) buf cap
    = decode_chunks realloc_ok t (buf @ concat cs) cap'"
  using assms(1-3)
proof (induction cs arbitrary: buf cap)
  case Nil
  then show ?case by auto
next
  case (Cons c cs)
  obtain cap' where "cap_ok cap'"
      "decode_chunks realloc_ok (encode_chunk c @ (concat (map encode_chunk cs) @ t)) buf cap
        = decode_chunks realloc_ok (concat (map encode_chunk cs) @ t) (buf @ c) cap'"
    using decode_chunk [of c buf cap realloc_ok "concat (map encode_chunk cs) @ t"] Cons.prems assms(4) by auto
  then show ?case using Cons.IH [of "buf @ c" cap'] Cons.prems by simp
qed

lemma decode_encoded:
  assumes "\<forall>c \<in> set cs. c \<noteq> []" "length (concat cs) < 2 ^ 63" "\<forall>n. realloc_ok n"
  shows "decode_chunks realloc_ok (encode_chunks cs) [] 0 = Some (Some (concat cs))"
proof -
  have zero: "''0'' @ crlf @ crlf = hex_string 0 @ crlf @ crlf"
    by (simp add: hex_string.simps [of 0] hex_char_def) code_simp
  obtain cap where "decode_chunks realloc_ok (encode_chunks cs) [] 0
      = decode_chunks realloc_ok (''0'' @ crlf @ crlf) (concat cs) cap"
    using decode_chunk_prefix [OF assms(1), of "[]" 0 realloc_ok "''0'' @ crlf @ crlf"] assms(2,3)
    by (auto simp: cap_ok_def encode_chunks_def)
  also have "\<dots> = Some (Some (concat cs))"
    unfolding zero using size_line_hex [of 0 crlf] hex_string_not_Nil [of 0]
    by (subst decode_chunks.simps) (simp add: Let_def skip_crlf_hex)
  finally show ?thesis .
qed

section \<open>Heads\<close>

text \<open>
  Text in which no header name that the scan looks for can begin: neither \<open>tra\<close> nor \<open>con\<close>,
  in either case, occurs.
\<close>

fun quiet :: "string \<Rightarrow> bool" where
  "quiet [] = True"
| "quiet (c # s) \<longleftrightarrow> \<not> case_prefix ''transfer-e'' (c # s) \<and> \<not> case_prefix ''content-le'' (c # s) \<and> quiet s"

lemma case_prefix_appendD: "case_prefix (p @ q) s \<Longrightarrow> case_prefix p s"
proof -
  assume "case_prefix (p @ q) s"
  then have "take (length p) (map to_lower (p @ q)) = take (length p) (map to_lower (take (length (p @ q)) s))"
    by (simp only: case_prefix_def)
  then show ?thesis by (simp add: case_prefix_def take_map min_def)
qed

lemma case_prefix_names:
  "case_prefix ''Transfer-Encoding:'' s \<Longrightarrow> case_prefix ''transfer-e'' s"
  "case_prefix ''Content-Length:'' s \<Longrightarrow> case_prefix ''content-le'' s"
proof -
  have *: "case_prefix ''transfer-e'' s = case_prefix ''Transfer-E'' s" "case_prefix ''content-le'' s = case_prefix ''Content-Le'' s"
  proof -
    have "map to_lower ''transfer-e'' = map to_lower ''Transfer-E''" "map to_lower ''content-le'' = map to_lower ''Content-Le''"
      by code_simp+
    then show "case_prefix ''transfer-e'' s = case_prefix ''Transfer-E'' s" "case_prefix ''content-le'' s = case_prefix ''Content-Le'' s"
      unfolding case_prefix_def by simp_all
  qed
  show "case_prefix ''Transfer-Encoding:'' s \<Longrightarrow> case_prefix ''transfer-e'' s"
    using case_prefix_appendD [of "''Transfer-E''" "''ncoding:''" s] * by simp
  show "case_prefix ''Content-Length:'' s \<Longrightarrow> case_prefix ''content-le'' s"
    using case_prefix_appendD [of "''Content-Le''" "''ngth:''" s] * by simp
qed

lemma case_prefix_ext: "length p \<le> length s \<Longrightarrow> case_prefix p (s @ t) = case_prefix p s"
  by (simp add: case_prefix_def)

lemma header_at_quiet:
  assumes "quiet (c # s)" "9 \<le> length s"
  shows "header_at r (c # s @ t) h = h"
  using assms case_prefix_names [of "c # s @ t"] case_prefix_ext [of "''transfer-e''" "c # s" t]
    case_prefix_ext [of "''content-le''" "c # s" t]
  by (cases h) (auto simp: header_at_def)

lemma scan_quiet: "quiet s \<Longrightarrow> r \<le> length s \<Longrightarrow> scan_headers r (s @ t) h = h"
proof (induction s arbitrary: r)
  case Nil
  then show ?case by (simp add: scan_headers.simps)
next
  case (Cons c s)
  show ?case
  proof (cases "r \<le> 18")
    case True
    then show ?thesis by (simp add: scan_headers.simps)
  next
    case False
    then have "header_at r (c # s @ t) h = h" using Cons.prems by (intro header_at_quiet) simp_all
    then show ?thesis using False Cons.IH [of "r - 1"] Cons.prems
      by (subst scan_headers.simps) simp
  qed
qed

lemma scan_skip:
  "quiet (a @ b) \<Longrightarrow> 9 \<le> length b \<Longrightarrow> length a + 18 \<le> r \<Longrightarrow>
   scan_headers r (a @ b @ t) h = scan_headers (r - length a) (b @ t) h"
proof (induction a arbitrary: r)
  case Nil
  then show ?case by simp
next
  case (Cons c a)
  have "header_at r (c # (a @ b) @ t) h = h" using Cons.prems by (intro header_at_quiet) simp_all
  then have "scan_headers r ((c # a) @ b @ t) h = scan_headers (r - 1) (a @ b @ t) h"
    using Cons.prems by (subst scan_headers.simps) simp
  then show ?case using Cons.IH [of "r - 1"] Cons.prems by simp
qed

text \<open>Digits and line ends are quiet after any quiet text.\<close>

lemma case_prefix_within:
  assumes "case_prefix p (x @ b)" and "\<forall>c \<in> set b. to_lower c \<notin> to_lower ` set p"
  shows "case_prefix p x"
proof (cases "length p \<le> length x")
  case True
  then show ?thesis using assms(1) by (simp add: case_prefix_def)
next
  case False
  have eq: "map to_lower p = map to_lower (take (length p) (x @ b))" using assms(1) by (simp add: case_prefix_def)
  then have "length p \<le> length (x @ b)" using False by (metis length_map length_take min.absorb_iff2 min.commute)
  then obtain c b' where b: "b = c # b'" using False by (cases b) simp_all
  have "to_lower (p ! length x) = map to_lower (take (length p) (x @ b)) ! length x"
    using eq False by (metis not_le nth_map)
  also have "\<dots> = to_lower c" using False b by (simp add: nth_append nth_Cons')
  finally have "to_lower c \<in> to_lower ` set p" using False by (metis imageI not_le nth_mem)
  then show ?thesis using assms(2) b by simp
qed

lemma quiet_append_gen:
  assumes sub: "to_lower ` set ''transfer-e'' \<subseteq> V" "to_lower ` set ''content-le'' \<subseteq> V"
    and b: "\<forall>c \<in> set b. to_lower c \<notin> V" and a: "quiet a"
  shows "quiet (a @ b)"
proof -
  have cross: "case_prefix ''transfer-e'' x" if "case_prefix ''transfer-e'' (x @ b')" "set b' \<subseteq> set b" for x b'
    using that(1) by (rule case_prefix_within) (use sub(1) b that(2) in blast)
  have cross': "case_prefix ''content-le'' x" if "case_prefix ''content-le'' (x @ b')" "set b' \<subseteq> set b" for x b'
    using that(1) by (rule case_prefix_within) (use sub(2) b that(2) in blast)
  have none: "\<not> case_prefix ''transfer-e'' []" "\<not> case_prefix ''content-le'' []" by (simp_all add: case_prefix_def)
  have "quiet b'" if "set b' \<subseteq> set b" for b'
    using that
  proof (induction b')
    case (Cons c b')
    then show ?case using cross [of "[]" "c # b'"] cross' [of "[]" "c # b'"] none by auto
  qed simp
  then have "quiet b" by blast
  then show ?thesis using a
  proof (induction a)
    case (Cons x a)
    then show ?case using cross [of "x # a" b] cross' [of "x # a" b] by auto
  qed simp
qed

lemmas quiet_append = quiet_append_gen [where V = "set ''transfer-contl''"]

text \<open>Evaluation of quiet texts: the first characters rule out most positions.\<close>

lemma case_prefix_Cons: "case_prefix (d # p) (x # s) \<longleftrightarrow> to_lower d = to_lower x \<and> case_prefix p s"
  by (simp add: case_prefix_def)

lemma case_prefix_Nil: "case_prefix [] s" "\<not> case_prefix (d # p) []"
  by (simp_all add: case_prefix_def)

lemma lower_names:
  "to_lower (CHR ''t'') = CHR ''t''" "to_lower (CHR ''r'') = CHR ''r''" "to_lower (CHR ''a'') = CHR ''a''" "to_lower (CHR ''n'') = CHR ''n''"
  "to_lower (CHR ''c'') = CHR ''c''" "to_lower (CHR ''o'') = CHR ''o''" "to_lower (CHR ''e'') = CHR ''e''" "to_lower (CHR ''l'') = CHR ''l''"
  "to_lower (CHR ''s'') = CHR ''s''" "to_lower (CHR ''f'') = CHR ''f''" "to_lower (CHR ''-'') = CHR ''-''"
  by (simp_all add: to_lower_def)

lemma quiet_short: "length s < 10 \<Longrightarrow> quiet s"
proof (induction s)
  case (Cons c s)
  have "\<not> case_prefix p (c # s)" if "length p = 10" for p
  proof
    assume "case_prefix p (c # s)"
    then have "length p = length (take (length p) (c # s))" unfolding case_prefix_def by (metis length_map)
    then show False using that Cons.prems by simp
  qed
  then have "\<not> case_prefix ''transfer-e'' (c # s)" "\<not> case_prefix ''content-le'' (c # s)" by simp_all
  then show ?case using Cons by simp
qed simp

lemma quiet_first:
  "to_lower x \<noteq> CHR ''t'' \<Longrightarrow> to_lower x \<noteq> CHR ''c'' \<Longrightarrow> quiet (x # s) = quiet s"
  by (simp add: lower_names case_prefix_Cons)

lemma quiet_second:
  "to_lower y \<noteq> CHR ''r'' \<Longrightarrow> to_lower y \<noteq> CHR ''o'' \<Longrightarrow> quiet (x # y # s) = quiet (y # s)"
  by (subst quiet.simps(2)) (auto simp: lower_names case_prefix_Cons)

lemma quiet_third:
  "to_lower z \<noteq> CHR ''a'' \<Longrightarrow> to_lower z \<noteq> CHR ''n'' \<Longrightarrow> quiet (x # y # z # s) = quiet (y # z # s)"
  by (subst quiet.simps(2)) (auto simp: lower_names case_prefix_Cons)

lemma quiet_fourth:
  "to_lower w \<noteq> CHR ''n'' \<Longrightarrow> to_lower w \<noteq> CHR ''t'' \<Longrightarrow> quiet (x # y # z # w # s) = quiet (y # z # w # s)"
  by (subst quiet.simps(2)) (auto simp: lower_names case_prefix_Cons)

lemma quiet_conn: "to_lower x = CHR ''c'' \<Longrightarrow> to_lower w \<noteq> CHR ''t'' \<Longrightarrow> quiet (x # y # z # w # s) = quiet (y # z # w # s)"
  by (subst quiet.simps(2)) (auto simp: lower_names case_prefix_Cons)

lemma quiet_fifth: "to_lower x = CHR ''c'' \<Longrightarrow> to_lower v \<noteq> CHR ''e'' \<Longrightarrow> quiet (x # y # z # w # v # s) = quiet (y # z # w # v # s)"
  by (subst quiet.simps(2)) (auto simp: lower_names case_prefix_Cons)

lemma quiet_content:
  "to_lower x = CHR ''c'' \<Longrightarrow> to_lower l \<noteq> CHR ''l'' \<Longrightarrow> quiet (x # y # z # w # v # u # t # h # l # s) = quiet (y # z # w # v # u # t # h # l # s)"
  by (subst quiet.simps(2)) (auto simp: lower_names case_prefix_Cons)

lemma lower_upper:
  "to_lower (CHR ''A'') = CHR ''a''" "to_lower (CHR ''B'') = CHR ''b''" "to_lower (CHR ''C'') = CHR ''c''" "to_lower (CHR ''D'') = CHR ''d''"
  "to_lower (CHR ''E'') = CHR ''e''" "to_lower (CHR ''F'') = CHR ''f''" "to_lower (CHR ''G'') = CHR ''g''" "to_lower (CHR ''H'') = CHR ''h''"
  "to_lower (CHR ''I'') = CHR ''i''" "to_lower (CHR ''J'') = CHR ''j''" "to_lower (CHR ''K'') = CHR ''k''" "to_lower (CHR ''L'') = CHR ''l''"
  "to_lower (CHR ''M'') = CHR ''m''" "to_lower (CHR ''N'') = CHR ''n''" "to_lower (CHR ''O'') = CHR ''o''" "to_lower (CHR ''P'') = CHR ''p''"
  "to_lower (CHR ''Q'') = CHR ''q''" "to_lower (CHR ''R'') = CHR ''r''" "to_lower (CHR ''S'') = CHR ''s''" "to_lower (CHR ''T'') = CHR ''t''"
  "to_lower (CHR ''U'') = CHR ''u''" "to_lower (CHR ''V'') = CHR ''v''" "to_lower (CHR ''W'') = CHR ''w''" "to_lower (CHR ''X'') = CHR ''x''"
  "to_lower (CHR ''Y'') = CHR ''y''" "to_lower (CHR ''Z'') = CHR ''z''"
  by code_simp+

lemma lower_other: "of_char c < (65 :: nat) \<or> 90 < (of_char c :: nat) \<Longrightarrow> to_lower c = c"
  by (auto simp: to_lower_def)

lemmas quiet_eval = quiet_short quiet_first quiet_second quiet_third quiet_fourth quiet_conn quiet_fifth quiet_content lower_upper lower_other

lemma header_end_skip:
  "CHR 0x0D \<notin> set d \<Longrightarrow> 3 \<le> length s \<Longrightarrow> header_end i (d @ s) = header_end (i + length d) s"
proof (induction d arbitrary: i)
  case (Cons c d)
  have "Suc (Suc (Suc 0)) \<le> length (d @ s)" using Cons.prems(2) by simp
  then obtain x y z t where "d @ s = x # y # z # t" by (auto simp: Suc_le_length_iff simp del: length_append)
  then show ?case using Cons by (auto simp: add.commute)
qed simp

text \<open>The two heads a media server answers with.\<close>

definition status_line :: string where
  "status_line = ''HTTP/1.1 200 OK'' @ crlf"

definition chunked_head :: string where
  "chunked_head = status_line @ ''Transfer-Encoding: chunked'' @ crlf @ crlf"

definition length_head :: "nat \<Rightarrow> string" where
  "length_head n = status_line @ ''Content-Length: '' @ dec_string n @ crlf @ crlf"

lemma status_line_ok: "length (status_line @ t) \<ge> 12" "http_status (status_line @ t) junk = 200"
proof -
  show "length (status_line @ t) \<ge> 12" by (simp add: status_line_def)
  have "digit_val (CHR ''2'') = Some 2" "digit_val (CHR ''0'') = Some 0" "digit_val (CHR '' '') = None"
    by code_simp+
  then show "http_status (status_line @ t) junk = 200"
    by (simp add: http_status_def status_line_def atoi_def is_c_space_def)
qed


lemma length_status_line: "length status_line = 17"
  by code_simp

lemma chunked_head_end: "header_end 0 (chunked_head @ t) = 47" "length chunked_head = 47"
  by (simp_all add: chunked_head_def status_line_def crlf_def)

text \<open>A chunked head in which the lines before and after the declaration name nothing else.\<close>

lemma chunked_scan:
  assumes "quiet (a @ ''Transfer-'')" "quiet (''ransfer-Encoding: chunked'' @ b)"
  shows "scan_headers (length a + 26 + length b) (a @ ''Transfer-Encoding: chunked'' @ b @ t) h = (True, snd h)"
proof -
  let ?n = "''ransfer-Encoding: chunked'' @ b"
  have "scan_headers (length a + 26 + length b) (a @ ''Transfer-Encoding: chunked'' @ b @ t) h
      = scan_headers (26 + length b) (CHR ''T'' # ?n @ t) h"
    using scan_skip [of a "''Transfer-''" "length a + 26 + length b" "''Encoding: chunked'' @ b @ t" h] assms(1) by simp
  also have "\<dots> = scan_headers (25 + length b) (?n @ t) (header_at (26 + length b) (CHR ''T'' # ?n @ t) h)"
    by (subst scan_headers.simps) simp
  also have "header_at (26 + length b) (CHR ''T'' # ?n @ t) h = (True, snd h)"
  proof -
    have "\<not> case_prefix ''Content-Length:'' (CHR ''T'' # ?n @ t)"
      using case_prefix_names(2) [of "CHR ''T'' # ?n @ t"] by (auto simp: case_prefix_def to_lower_def)
    moreover have "case_prefix ''Transfer-Encoding:'' (CHR ''T'' # ?n @ t)" by (simp add: case_prefix_def)
    moreover have "case_prefix ''chunked'' (skip_sep (8 + length b) (drop 18 (CHR ''T'' # ?n @ t)))"
      by (simp add: case_prefix_def numeral_eq_Suc)
    ultimately show ?thesis by (cases h) (simp add: header_at_def)
  qed
  also have "scan_headers (25 + length b) (?n @ t) (True, snd h) = (True, snd h)"
    using scan_quiet [OF assms(2), of "25 + length b" t] by simp
  finally show ?thesis .
qed

lemma chunked_head_scan: "scan_headers 47 (chunked_head @ t) h = (True, snd h)"
proof -
  have "quiet (status_line @ ''Transfer-'')" "quiet (''ransfer-Encoding: chunked'' @ crlf @ crlf)"
    by (simp_all add: status_line_def crlf_def quiet_eval del: quiet.simps)
  then show ?thesis using chunked_scan [of status_line "crlf @ crlf" t h]
    by (simp add: chunked_head_def length_status_line crlf_def)
qed

lemma http_parse_chunked:
  "http_parse realloc_ok malloc_ok st (chunked_head @ s) junk =
     (case decode_chunks realloc_ok s [] 0 of
        None \<Rightarrow> None
      | Some None \<Rightarrow> Some (http_fail 200 None)
      | Some (Some b) \<Rightarrow> Some (http_ok st b))"
proof -
  have "chunked_head @ s = status_line @ (''Transfer-Encoding: chunked'' @ crlf @ crlf @ s)"
    by (simp add: chunked_head_def)
  then have "length (chunked_head @ s) \<ge> 12" "http_status (chunked_head @ s) junk = 200"
    using status_line_ok by metis+
  then show ?thesis
    using chunked_head_scan [of "s @ junk" "(False, -1)"]
    by (simp add: http_parse_def chunked_head_end not_less del: length_append split: option.split)
qed

lemma length_head_end: "header_end 0 (length_head n @ t) = length (length_head n)"
proof -
  have d: "CHR 0x0D \<notin> set (dec_string n)"
    using dec_string_digits [of "CHR 0x0D" n] by (auto simp: digit_val_def)
  have "header_end 0 (length_head n @ t)
     = header_end 17 ((''Content-Length: '' @ dec_string n) @ crlf @ crlf @ t)"
    by (simp add: length_head_def status_line_def crlf_def numeral_eq_Suc)
  also have "\<dots> = header_end (33 + length (dec_string n)) (crlf @ crlf @ t)"
    using d by (subst header_end_skip) (auto simp: crlf_def)
  finally show ?thesis by (simp add: crlf_def length_head_def status_line_def)
qed

lemma strtol10_dec:
  assumes "n < 2 ^ 63"
  shows "strtol10 (dec_string n @ crlf @ t) = int n"
proof -
  obtain c s where cs: "dec_string n = c # s" using dec_string_Cons by blast
  have "digit_val c \<noteq> None" using dec_string_digits [of c n] cs by simp
  note c = digit_facts [OF this]
  have "scan_digits 0 (dec_string n @ crlf @ t) = n"
    using dec_string_digits [of _ n]
    by (subst scan_digits_append) (auto simp: scan_dec_string crlf_def digit_val_def)
  then show ?thesis using c cs assms by (simp add: strtol10_def atoi_def long_clamp_def)
qed

text \<open>A head that declares a length, in which the lines before and after name nothing else.\<close>

lemma length_scan:
  assumes "n < 2 ^ 63" "quiet (a @ ''Content-L'')" "quiet (''ontent-Length: '' @ dec_string n @ crlf @ b)" "2 \<le> length b"
  shows "scan_headers (length a + 18 + length (dec_string n) + length b) (a @ ''Content-Length: '' @ dec_string n @ crlf @ b @ t) h = (fst h, int n)"
proof -
  let ?d = "dec_string n" and ?m = "''ontent-Length: '' @ dec_string n @ crlf @ b"
  let ?r = "18 + length ?d + length b"
  obtain c ds where cs: "?d = c # ds" using dec_string_Cons by blast
  have dig: "digit_val c \<noteq> None" using dec_string_digits [of c n] cs by simp
  have "scan_headers (length a + ?r) (a @ ''Content-Length: '' @ ?d @ crlf @ b @ t) h = scan_headers ?r (CHR ''C'' # ?m @ t) h"
    using scan_skip [of a "''Content-L''" "length a + ?r" "''ength: '' @ ?d @ crlf @ b @ t" h] assms(2) by simp
  also have "\<dots> = scan_headers (?r - 1) (?m @ t) (header_at ?r (CHR ''C'' # ?m @ t) h)"
    using cs by (subst scan_headers.simps) simp
  also have "header_at ?r (CHR ''C'' # ?m @ t) h = (fst h, int n)"
  proof -
    have no: "\<not> case_prefix ''Transfer-Encoding:'' (CHR ''C'' # ?m @ t)"
      using case_prefix_names(1) [of "CHR ''C'' # ?m @ t"] by (auto simp: case_prefix_def to_lower_def)
    have yes: "case_prefix ''Content-Length:'' (CHR ''C'' # ?m @ t)"
      by (simp add: case_prefix_def)
    have "skip_sep (?r - 15) (drop 15 (CHR ''C'' # ?m @ t)) = ?d @ crlf @ b @ t"
    proof -
      have "c \<noteq> CHR '' ''" "c \<noteq> CHR 0x09" "c \<noteq> CHR '':''" using dig by (auto simp: digit_val_def)
      then show ?thesis using cs by (simp add: numeral_eq_Suc)
    qed
    then show ?thesis using no yes strtol10_dec [OF assms(1), of "b @ t"] by (cases h) (simp add: header_at_def)
  qed
  also have "scan_headers (?r - 1) (?m @ t) (fst h, int n) = (fst h, int n)"
    using scan_quiet [OF assms(3), of "?r - 1" t] by (simp add: crlf_def)
  finally show ?thesis by (simp add: ac_simps)
qed

lemma quiet_digits:
  assumes "quiet a"
  shows "quiet (a @ dec_string n)"
proof (rule quiet_append)
  show "to_lower ` set ''transfer-e'' \<subseteq> set ''transfer-contl''" "to_lower ` set ''content-le'' \<subseteq> set ''transfer-contl''" by code_simp+
  have "of_char x < (65 :: nat) \<and> x \<noteq> CHR ''-''" if "x \<in> set (dec_string n)" for x
    using that dec_string_digits [of x n] by (auto simp: digit_val_def Let_def split: if_splits)
  then show "\<forall>c \<in> set (dec_string n). to_lower c \<notin> set ''transfer-contl''" by (fastforce simp: to_lower_def)
qed (fact assms)

text \<open>A quiet text may be cut where no name can begin.\<close>

lemma quiet_break:
  assumes "quiet a" "quiet b" "to_lower c \<notin> set ''transfer-contl''"
  shows "quiet (a @ c # b)"
  using assms(1)
proof (induction a)
  case Nil
  have "to_lower (CHR ''t'') \<in> set ''transfer-contl''" "to_lower (CHR ''c'') \<in> set ''transfer-contl''" by code_simp+
  moreover have "to_lower d = to_lower c" if "case_prefix (d # p) (c # b)" for d p
    using that by (simp add: case_prefix_def)
  ultimately have "\<not> case_prefix ''transfer-e'' (c # b)" "\<not> case_prefix ''content-le'' (c # b)"
    using assms(3) by metis+
  then show ?case using assms(2) by simp
next
  case (Cons x a)
  have cut: "case_prefix p (x # a)" if p: "case_prefix p (x # a @ c # b)" "to_lower ` set p \<subseteq> set ''transfer-contl''" for p
  proof (cases "length p \<le> length (x # a)")
    case True
    then show ?thesis using p(1) case_prefix_ext [of p "x # a" "c # b"] by simp
  next
    case False
    have "map to_lower p ! length (x # a) = map to_lower (take (length p) ((x # a) @ c # b)) ! length (x # a)"
      using p(1) by (simp add: case_prefix_def)
    also have "\<dots> = to_lower c" using False by (simp add: nth_append)
    finally have "to_lower (p ! length (x # a)) = to_lower c" using False by (metis not_le nth_map)
    then have "to_lower c \<in> to_lower ` set p" using False by (metis imageI not_le nth_mem)
    then show ?thesis using p(2) assms(3) by blast
  qed
  have v: "to_lower ` set ''transfer-e'' \<subseteq> set ''transfer-contl''" "to_lower ` set ''content-le'' \<subseteq> set ''transfer-contl''" by code_simp+
  have q: "\<not> case_prefix ''transfer-e'' (x # a)" "\<not> case_prefix ''content-le'' (x # a)" "quiet a"
    using Cons.prems unfolding quiet.simps by blast+
  have "\<not> case_prefix ''transfer-e'' (x # a @ c # b)" "\<not> case_prefix ''content-le'' (x # a @ c # b)"
    using cut v q(1,2) by blast+
  then show ?case unfolding append_Cons quiet.simps using Cons.IH q(3) by blast
qed

text \<open>A length line after which quiet lines follow.\<close>

lemma quiet_length_line:
  assumes "quiet b"
  shows "quiet (''ontent-Length: '' @ dec_string n @ crlf @ b)"
proof -
  have q: "quiet ''ontent-Length: ''" "to_lower (CHR 0x0D) \<notin> set ''transfer-contl''" "to_lower (CHR 0x0A) \<notin> set ''transfer-contl''"
    by (simp_all add: quiet_eval del: quiet.simps)
  have "quiet ([] @ CHR 0x0A # b)" using quiet_break [of "[]" b "CHR 0x0A"] assms q(3) by simp
  then have "quiet ((''ontent-Length: '' @ dec_string n) @ CHR 0x0D # CHR 0x0A # b)"
    using quiet_break [OF quiet_digits [OF q(1)] _ q(2), of "CHR 0x0A # b" n] by simp
  then show ?thesis by (simp add: crlf_def)
qed

lemma length_head_scan:
  assumes "n < 2 ^ 63"
  shows "scan_headers (length (length_head n)) (length_head n @ t) h = (fst h, int n)"
proof -
  have q: "quiet (status_line @ ''Content-L'')" "quiet crlf"
    by (simp_all add: status_line_def crlf_def quiet_eval del: quiet.simps)
  show ?thesis using length_scan [OF assms q(1) quiet_length_line [OF q(2)], of t h]
    by (simp add: length_head_def length_status_line crlf_def)
qed

lemma http_parse_length:
  assumes "n < 2 ^ 63" "\<forall>k. malloc_ok k"
  shows "http_parse realloc_ok malloc_ok st (length_head n @ s) junk = Some (http_ok st (take n s))"
proof -
  have "length_head n @ s = status_line @ (''Content-Length: '' @ dec_string n @ crlf @ crlf @ s)"
    by (simp add: length_head_def)
  then have ok: "length (length_head n @ s) \<ge> 12" "http_status (length_head n @ s) junk = 200"
    using status_line_ok by metis+
  have "length_head n \<noteq> []" by (simp add: length_head_def status_line_def)
  then show ?thesis
    using ok length_head_scan [OF assms(1), of "s @ junk" "(False, -1)"] assms(2)
    by (simp add: http_parse_def length_head_end not_less plain_body_def del: length_append)
qed

section \<open>Receiving\<close>

text \<open>
  A script of rounds in which the transfer never stalls for the time-out: every round starts
  before the deadline, and every delivery moves the deadline.
\<close>

fun progressive :: "int \<Rightarrow> u64 \<Rightarrow> (bool + string) round list \<Rightarrow> bool" where
  "progressive timeout_ms deadline [] = True"
| "progressive timeout_ms deadline (r # rs) =
     (rd_run r \<and> rd_now r < deadline \<and>
      (case rd_poll r (poll_wait deadline (rd_now r)) of
         Poll_Error eintr \<Rightarrow> eintr \<and> progressive timeout_ms deadline rs
       | Poll_Timeout \<Rightarrow> progressive timeout_ms deadline rs
       | Poll_Ready \<Rightarrow>
           (case rd_call r of
              Inl again \<Rightarrow> again \<and> progressive timeout_ms deadline rs
            | Inr bs \<Rightarrow> bs \<noteq> [] \<and> progressive timeout_ms (rd_after r + span_us timeout_ms) rs)))"

fun delivered :: "int \<Rightarrow> u64 \<Rightarrow> (bool + string) round list \<Rightarrow> u64 \<times> string" where
  "delivered timeout_ms deadline [] = (deadline, [])"
| "delivered timeout_ms deadline (r # rs) =
     (case rd_poll r (poll_wait deadline (rd_now r)) of
        Poll_Ready \<Rightarrow>
          (case rd_call r of
             Inr bs \<Rightarrow> (case delivered timeout_ms (rd_after r + span_us timeout_ms) rs of (d, s) \<Rightarrow> (d, bs @ s))
           | Inl _ \<Rightarrow> delivered timeout_ms deadline rs)
      | _ \<Rightarrow> delivered timeout_ms deadline rs)"

lemma recv_store_room:
  assumes "\<forall>n. realloc_ok n" "cap_ok (rv_cap s)" "length (rv_raw s) + length bs < 2 ^ 63"
  shows "\<exists>s'. recv_store realloc_ok t0 now bs s = Some (Some s') \<and> rv_raw s' = rv_raw s @ bs \<and> cap_ok (rv_cap s')"
proof -
  have "unat (of_nat (length (rv_raw s)) + of_nat (length bs) :: u64) = length (rv_raw s) + length bs"
    using assms(3) unat_of_nat [of "length (rv_raw s) + length bs", where ?'a = 64]
    by (simp add: take_bit_nat_eq_self)
  then obtain c where "cap_ok c"
      "ensure_cap realloc_ok (of_nat (length (rv_raw s)) + of_nat (length bs)) (rv_cap s) = Some (Some c)"
    using ensure_cap_room [OF assms(1,2)] assms(3) by (metis less_imp_le)
  then show ?thesis by (simp add: recv_store_def)
qed

lemma recv_progressive:
  assumes "\<forall>n. realloc_ok n"
  shows "progressive timeout_ms deadline rs \<Longrightarrow> delivered timeout_ms deadline rs = (d, bs) \<Longrightarrow>
    cap_ok (rv_cap s) \<Longrightarrow> length (rv_raw s) + length bs < 2 ^ 63 \<Longrightarrow>
    \<exists>s'. recv_loop realloc_ok t0 timeout_ms deadline s (rs @ rest) = recv_loop realloc_ok t0 timeout_ms d s' rest
       \<and> rv_raw s' = rv_raw s @ bs"
proof (induction timeout_ms deadline rs arbitrary: s bs rule: progressive.induct)
  case (1 timeout_ms deadline)
  then show ?case by auto
next
  case (2 timeout_ms deadline r rs)
  show ?case
  proof (cases "\<exists>b. rd_poll r (poll_wait deadline (rd_now r)) = Poll_Ready \<and> rd_call r = Inr b")
    case False
    then show ?thesis using 2 by (auto split: poll_result.splits sum.splits)
  next
    case True
    then obtain b where b: "rd_poll r (poll_wait deadline (rd_now r)) = Poll_Ready" "rd_call r = Inr b" by blast
    obtain bs' where bs': "delivered timeout_ms (rd_after r + span_us timeout_ms) rs = (d, bs')" "bs = b @ bs'"
      using 2(6) b by (auto split: prod.splits)
    obtain s' where s': "recv_store realloc_ok t0 (rd_after r) b s = Some (Some s')"
        "rv_raw s' = rv_raw s @ b" "cap_ok (rv_cap s')"
      using recv_store_room [OF assms, of s b t0 "rd_after r"] 2(7,8) bs'(2) by auto
    have "progressive timeout_ms (rd_after r + span_us timeout_ms) rs" using 2(5) b by simp
    then obtain s'' where
      "recv_loop realloc_ok t0 timeout_ms (rd_after r + span_us timeout_ms) s' (rs @ rest)
         = recv_loop realloc_ok t0 timeout_ms d s'' rest" "rv_raw s'' = rv_raw s' @ bs'"
      using 2(4) [OF b _ bs'(1) s'(3)] 2(8) bs'(2) s'(2) by auto
    then show ?thesis using 2(5) b s' bs'(2) by auto
  qed
qed

section \<open>What a fetch delivers\<close>

text \<open>
  The script of a receive loop: rounds that make progress and then the end of the stream, seen
  before the deadline.
\<close>

definition complete_stream :: "int \<Rightarrow> u64 \<Rightarrow> (bool + string) round list \<Rightarrow> string \<Rightarrow> bool" where
  "complete_stream timeout_ms deadline script text \<longleftrightarrow>
     script \<noteq> [] \<and> progressive timeout_ms deadline (butlast script) \<and>
     (case delivered timeout_ms deadline (butlast script) of
        (d, bs) \<Rightarrow> bs = text \<and> rd_run (List.last script) \<and>
          (rd_now (List.last script) < d \<longrightarrow>
             rd_poll (List.last script) (poll_wait d (rd_now (List.last script))) = Poll_Ready \<and>
             rd_call (List.last script) = Inr []))"

lemma recv_complete:
  assumes "complete_stream timeout_ms deadline script text" "\<forall>n. realloc_ok n" "length text < 2 ^ 63"
  shows "\<exists>s. recv_loop realloc_ok t0 timeout_ms deadline recv_start script = Some (Some s) \<and> rv_raw s = text"
proof -
  obtain d bs where d: "delivered timeout_ms deadline (butlast script) = (d, bs)" by fastforce
  have prog: "progressive timeout_ms deadline (butlast script)" and "bs = text" "script \<noteq> []"
    using assms(1) d by (auto simp: complete_stream_def)
  obtain s where s: "recv_loop realloc_ok t0 timeout_ms deadline recv_start (butlast script @ [List.last script])
       = recv_loop realloc_ok t0 timeout_ms d s [List.last script]" "rv_raw s = text"
    using recv_progressive [OF assms(2) prog d, of recv_start t0 "[List.last script]"] assms(3) \<open>bs = text\<close>
    by (auto simp: recv_start_def cap_ok_def simp del: recv_loop.simps)
  have "recv_loop realloc_ok t0 timeout_ms d s [List.last script] = Some (Some s)"
    using assms(1) d by (auto simp: complete_stream_def not_le)
  then show ?thesis using s \<open>script \<noteq> []\<close> by auto
qed

text \<open>The fetch reduces to the parser on what the stream delivered.\<close>

definition reaches_server :: "http_env \<Rightarrow> string \<Rightarrow> int \<Rightarrow> bool" where
  "reaches_server e url timeout_ms \<longleftrightarrow>
     (case parse_url url of
        None \<Rightarrow> False
      | Some (host, port, path) \<Rightarrow>
          he_resolve e host port \<and> he_socket e \<and> connected e timeout_ms = Some True \<and>
          length (http_request path host) < 2048 \<and>
          send_loop timeout_ms (http_request path host) (he_send0 e + span_us timeout_ms) (he_send e) = Some True)"

lemma http_get_complete:
  assumes "reaches_server e url timeout_ms"
    and "complete_stream timeout_ms (he_recv0 e + span_us timeout_ms) (he_recv e) text"
    and "\<forall>n. he_realloc e n" "length text < 2 ^ 63"
  shows "\<exists>s. http_get e url timeout_ms = http_parse (he_realloc e) (he_malloc e) (fetch_stats e s) text (he_junk e)"
proof -
  obtain s where "recv_loop (he_realloc e) (he_start e) timeout_ms (he_recv0 e + span_us timeout_ms) recv_start (he_recv e)
      = Some (Some s)" "rv_raw s = text"
    using recv_complete [OF assms(2-4)] by blast
  then show ?thesis using assms(1) by (auto simp: reaches_server_def http_get_def split: option.splits)
qed

text \<open>
  A fetch whose server answers with a chunked body returns exactly the concatenation of the
  chunks, however the network cuts the stream into pieces and however slowly they come, as long
  as no gap between two pieces reaches the time-out and memory lasts; the capacity loops end.
\<close>

theorem http_get_chunked:
  assumes "reaches_server e url timeout_ms"
    and "complete_stream timeout_ms (he_recv0 e + span_us timeout_ms) (he_recv e) (chunked_head @ encode_chunks cs)"
    and "\<forall>c \<in> set cs. c \<noteq> []" and "\<forall>n. he_realloc e n"
    and "length (chunked_head @ encode_chunks cs) < 2 ^ 63"
  shows "\<exists>r. http_get e url timeout_ms = Some r \<and> hr_body r = Some (concat cs) \<and> hr_status r = 200"
proof -
  have "length (concat cs) \<le> length (concat (map encode_chunk cs))"
    by (induction cs) (auto simp: encode_chunk_def)
  then have len: "length (concat cs) < 2 ^ 63" using assms(5) by (simp add: encode_chunks_def)
  obtain s where "http_get e url timeout_ms
      = http_parse (he_realloc e) (he_malloc e) (fetch_stats e s) (chunked_head @ encode_chunks cs) (he_junk e)"
    using http_get_complete [OF assms(1,2,4,5)] by blast
  moreover have "decode_chunks (he_realloc e) (encode_chunks cs) [] 0 = Some (Some (concat cs))"
    using assms(3) len assms(4) by (rule decode_encoded)
  ultimately show ?thesis by (auto simp: http_parse_chunked http_ok_def)
qed

definition ready_round :: "u64 \<Rightarrow> 'a \<Rightarrow> 'a round" where
  "ready_round t x = \<lparr>rd_run = True, rd_now = t, rd_poll = (\<lambda>_. Poll_Ready), rd_call = x, rd_after = t\<rparr>"

definition sample_env :: "(bool + string) round list \<Rightarrow> http_env" where
  "sample_env rs =
     \<lparr>he_resolve = (\<lambda>_ _. True), he_socket = True, he_connect = 0, he_in_progress = False, he_conn0 = 0,
      he_conn = [], he_send0 = 0, he_send = [ready_round 0 (Inr 60)], he_recv0 = 0, he_recv = rs,
      he_realloc = (\<lambda>_. True), he_malloc = (\<lambda>_. True), he_rtt = None, he_start = 0, he_end = 0, he_junk = []\<rparr>"

lemma sample_reaches: "reaches_server (sample_env rs) ''http://h/a'' 5000"
  by (simp add: reaches_server_def sample_env_def parse_url_def connected_def http_request_def
      ready_round_def span_us_def)

theorem http_get_chunked_witness:
  "\<exists>r. http_get (sample_env
       [ready_round 0 (Inr chunked_head), ready_round 4000000 (Inr (encode_chunks [''abc'', ''de''])), ready_round 8000000 (Inr [])])
     ''http://h/a'' 5000 = Some r \<and> hr_body r = Some ''abcde'' \<and> hr_status r = 200"
proof -
  let ?rs = "[ready_round 0 (Inr chunked_head), ready_round 4000000 (Inr (encode_chunks [''abc'', ''de''])),
      ready_round 8000000 (Inr [])] :: (bool + string) round list"
  have "complete_stream 5000 (he_recv0 (sample_env ?rs) + span_us 5000) (he_recv (sample_env ?rs))
      (chunked_head @ encode_chunks [''abc'', ''de''])"
    by (simp add: complete_stream_def sample_env_def ready_round_def span_us_def chunked_head_def
        status_line_def encode_chunks_def)
  moreover have "length (chunked_head @ encode_chunks [''abc'', ''de'']) < 2 ^ 63"
    by (simp add: chunked_head_def status_line_def encode_chunks_def encode_chunk_def crlf_def hex_string.simps)
  moreover have "\<forall>n. he_realloc (sample_env ?rs) n" by (simp add: sample_env_def)
  ultimately have "\<exists>r. http_get (sample_env ?rs) ''http://h/a'' 5000 = Some r
      \<and> hr_body r = Some (concat [''abc'', ''de'']) \<and> hr_status r = 200"
    by (intro http_get_chunked [OF sample_reaches]) simp_all
  then show ?thesis by simp
qed

text \<open>
  With a declared content length the fetch returns the first that many bytes of what arrived.
  A stream that ends or stalls early is therefore returned as a success: the body is then what
  was received, shorter than declared, with status 200.
\<close>

theorem http_get_content_length:
  assumes "reaches_server e url timeout_ms"
    and "complete_stream timeout_ms (he_recv0 e + span_us timeout_ms) (he_recv e) (length_head n @ received)"
    and "n < 2 ^ 63" and "\<forall>k. he_realloc e k" and "\<forall>k. he_malloc e k"
    and "length (length_head n @ received) < 2 ^ 63"
  shows "\<exists>r. http_get e url timeout_ms = Some r \<and> hr_body r = Some (take n received) \<and> hr_status r = 200"
proof -
  obtain s where "http_get e url timeout_ms
      = http_parse (he_realloc e) (he_malloc e) (fetch_stats e s) (length_head n @ received) (he_junk e)"
    using http_get_complete [OF assms(1,2,4,6)] by blast
  then show ?thesis using http_parse_length [OF assms(3,5)] by (auto simp: http_ok_def)
qed

text \<open>Ten bytes were declared, the peer stalls after three, and the fetch succeeds with three.\<close>

theorem http_get_content_length_witness:
  "\<exists>r. http_get (sample_env [ready_round 0 (Inr (length_head 10 @ ''abc'')), ready_round 6000000 (Inl True)])
     ''http://h/a'' 5000 = Some r \<and> hr_body r = Some ''abc'' \<and> hr_status r = 200"
proof -
  let ?rs = "[ready_round 0 (Inr (length_head 10 @ ''abc'')), ready_round 6000000 (Inl True)] :: (bool + string) round list"
  have "complete_stream 5000 (he_recv0 (sample_env ?rs) + span_us 5000) (he_recv (sample_env ?rs))
      (length_head 10 @ ''abc'')"
    by (simp add: complete_stream_def sample_env_def ready_round_def span_us_def)
  moreover have "length (length_head 10 @ ''abc'') < 2 ^ 63"
    by (simp add: length_head_def status_line_def crlf_def dec_string.simps)
  moreover have "\<forall>n. he_realloc (sample_env ?rs) n" "\<forall>n. he_malloc (sample_env ?rs) n" by (simp_all add: sample_env_def)
  ultimately have "\<exists>r. http_get (sample_env ?rs) ''http://h/a'' 5000 = Some r
      \<and> hr_body r = Some (take 10 ''abc'') \<and> hr_status r = 200"
    by (intro http_get_content_length [OF sample_reaches]) simp_all
  then show ?thesis by simp
qed

text \<open>
  A chunk whose size line does not begin with a hexadecimal digit is taken for the last chunk:
  whatever was decoded before it is returned as a complete body, and the rest is dropped.
\<close>

theorem http_malformed_chunk_is_end:
  assumes "\<forall>c \<in> set cs. c \<noteq> []" "length (concat cs) < 2 ^ 63" "\<forall>n. realloc_ok n"
    and "\<not> is_hex x" "\<not> is_crlf x"
  shows "http_parse realloc_ok malloc_ok st (chunked_head @ concat (map encode_chunk cs) @ x # garbage) junk
    = Some (http_ok st (concat cs))"
proof -
  obtain cap' where "decode_chunks realloc_ok (concat (map encode_chunk cs) @ x # garbage) [] 0
      = decode_chunks realloc_ok (x # garbage) (concat cs) cap'"
    using decode_chunk_prefix [OF assms(1), of "[]" 0 realloc_ok "x # garbage"] assms(2,3)
    by (auto simp: cap_ok_def)
  also have "\<dots> = Some (Some (concat cs))"
    using assms(4,5) by (subst decode_chunks.simps)
      (simp add: Let_def size_line_def size_digits_def strtol16_def long_clamp_def)
  finally show ?thesis by (simp add: http_parse_chunked)
qed

theorem http_malformed_chunk_is_end_witness:
  "http_parse (\<lambda>_. True) (\<lambda>_. True) http_stats_init
     (chunked_head @ concat (map encode_chunk [''abc'']) @ CHR ''g'' # ''00'') []
   = Some (http_ok http_stats_init ''abc'')"
  using http_malformed_chunk_is_end [of "[''abc'']" "\<lambda>_. True" "CHR ''g''" "\<lambda>_. True" http_stats_init "''00''" "[]"]
  by (simp add: is_hex_def hex_val_def is_crlf_def)

text \<open>
  C0: A chunk size of \<open>ffffffffffffffff\<close> after at least two bytes of body hangs the client: the
  size is clamped to the largest \<open>long\<close>, the capacity doubles until it wraps to 0, and the
  doubling loop never ends. The check that the chunk is present comes only after it.
\<close>

theorem http_huge_chunk_hangs:
  assumes "2 \<le> length c" "length c < 2 ^ 62" "\<forall>n. realloc_ok n"
  shows "http_parse realloc_ok malloc_ok st
    (chunked_head @ encode_chunk c @ ''ffffffffffffffff'' @ crlf @ rest) junk = None"
proof -
  let ?f = "''ffffffffffffffff'' @ crlf @ rest"
  obtain cap where cap: "cap_ok cap" "decode_chunks realloc_ok (encode_chunk c @ ?f) [] 0 = decode_chunks realloc_ok ?f c cap"
  proof -
    have "c \<noteq> []" "cap_ok 0" "length [] + length c < 2 ^ 63" using assms(1,2) by (auto simp: cap_ok_def)
    then show ?thesis using decode_chunk [of c "[]" 0 realloc_ok ?f] assms(3) that unfolding append_Nil by blast
  qed
  have f: "hex_val (CHR ''f'') = Some 15" "is_hex (CHR ''f'')" "\<not> is_hex (CHR 0x0D)" "\<not> is_crlf (CHR ''f'')"
    by code_simp+
  have line: "size_line ?f = (2 ^ 63 - 1, rest)"
    using f by (simp add: size_line_def size_digits_def strtol16_def long_clamp_def crlf_def)
  let ?need = "of_nat (length c) + of_int (2 ^ 63 - 1) :: u64"
  have "?need = of_nat (length c + (2 ^ 63 - 1))" by simp
  then have need: "unat ?need = length c + (2 ^ 63 - 1)"
    using assms(2) by (simp only: unat_of_nat) (simp add: take_bit_nat_eq_self)
  have big: "2 ^ 63 < ?need" using need assms(1) unat_pow_word64 [of 63] by (simp add: word_less_nat_alt)
  have "ensure_cap realloc_ok ?need cap = None" using cap(1) big by (rule ensure_cap_stuck)
  then have "decode_chunks realloc_ok ?f c cap = None"
    using f line by (subst decode_chunks.simps) (simp add: Let_def)
  then show ?thesis using cap(2) by (simp add: http_parse_chunked)
qed

theorem http_huge_chunk_hangs_witness:
  "http_parse (\<lambda>_. True) (\<lambda>_. True) http_stats_init
     (chunked_head @ encode_chunk ''ab'' @ ''ffffffffffffffff'' @ crlf @ []) [] = None"
  by (rule http_huge_chunk_hangs) simp_all

end
