(* ===== verification/Dash_Manifest.thy ===== *)
theory Dash_Manifest
  imports Ascii_Text Playout_Clock "HOL-Library.Monad_Syntax"
begin

text \<open>
  The manifest of a live stream (\<open>parse_iso8601\<close>, \<open>parse_duration_us\<close>, \<open>dash_load_manifest\<close> in
  \<open>apps/thinclient/main.c\<close>): attributes are found by substring search in the text of the body.
  The text ends at the first null byte, which the body need not contain; \<open>junk\<close> is what the
  memory behind it holds. Reading a decimal number as a \<open>double\<close> and scaling it is the parameter
  \<open>float_ops\<close>, applied to the digits as an integer and the number of decimals. Two statements of
  the loader are undefined in C for some manifests: a division by zero and a write behind a
  buffer; they are the outcome \<open>Manifest_Fault\<close>.
\<close>

section \<open>Numbers and times\<close>

text \<open>
  For the number \<open>m / 10\<^sup>e\<close> as a \<open>double\<close> \<open>d\<close>: \<open>fl_mul m e k\<close> is \<open>(int64_t)(d * k)\<close>, \<open>fl_int m e\<close>
  is \<open>(int)d\<close> and \<open>fl_frac m e\<close> is \<open>(int64_t)((d - (int)d) * 1e6)\<close>.
\<close>

record float_ops =
  fl_mul :: "int \<Rightarrow> nat \<Rightarrow> int \<Rightarrow> int"
  fl_int :: "int \<Rightarrow> nat \<Rightarrow> int"
  fl_frac :: "int \<Rightarrow> nat \<Rightarrow> int"

text \<open>\<open>%lf\<close> and \<open>strtod\<close> on decimal notation: the digits as an integer and the number of decimals.\<close>

definition scan_decimal :: "string \<Rightarrow> (int \<times> nat \<times> string) option" where
  "scan_decimal s =
     (case read_sign (dropWhile is_c_space s) of (sg, t) \<Rightarrow>
        (case digits t of (d, r) \<Rightarrow>
           (case (if r \<noteq> [] \<and> hd r = CHR ''.'' then digits (tl r) else ([], r)) of (f, r') \<Rightarrow>
              if d = [] \<and> f = [] then None
              else Some (sg * int (scan_digits 0 (d @ f)), length f, r'))))"

definition expect :: "char \<Rightarrow> string \<Rightarrow> string option" where
  "expect c s = (if s \<noteq> [] \<and> hd s = c then Some (tl s) else None)"

text \<open>\<open>timegm\<close> of the proleptic Gregorian calendar; the month may lie outside the year.\<close>

definition leap :: "int \<Rightarrow> bool" where
  "leap y \<longleftrightarrow> y mod 4 = 0 \<and> (y mod 100 \<noteq> 0 \<or> y mod 400 = 0)"

definition days_before_year :: "int \<Rightarrow> int" where
  "days_before_year y = 365 * (y - 1) + (y - 1) div 4 - (y - 1) div 100 + (y - 1) div 400"

definition days_before_month :: "int \<Rightarrow> nat \<Rightarrow> int" where
  "days_before_month y m =
     sum_list (take m [31, if leap y then 29 else 28, 31, 30, 31, 30, 31, 31, 30, 31, 30, 31])"

definition timegm :: "int \<Rightarrow> int \<Rightarrow> int \<Rightarrow> int \<Rightarrow> int \<Rightarrow> int \<Rightarrow> int" where
  "timegm y mon d h mi s =
     (let y' = y + mon div 12;
          days = days_before_year y' - days_before_year 1970 + days_before_month y' (nat (mon mod 12)) + (d - 1)
      in 86400 * days + 3600 * h + 60 * mi + s)"

definition parse_iso8601 :: "float_ops \<Rightarrow> string \<Rightarrow> int" where
  "parse_iso8601 fl s =
     (case do { (y, s) \<leftarrow> scan_int s; s \<leftarrow> expect (CHR ''-'') s;
                (mo, s) \<leftarrow> scan_int s; s \<leftarrow> expect (CHR ''-'') s;
                (d, s) \<leftarrow> scan_int s; s \<leftarrow> expect (CHR ''T'') s;
                (h, s) \<leftarrow> scan_int s; s \<leftarrow> expect (CHR '':'') s;
                (mi, s) \<leftarrow> scan_int s; s \<leftarrow> expect (CHR '':'') s;
                (m, e, _) \<leftarrow> scan_decimal s;
                Some (y, mo, d, h, mi, m, e) } of
        None \<Rightarrow> - 1
      | Some (y, mo, d, h, mi, m, e) \<Rightarrow>
          let epoch = timegm y (mo - 1) d h mi (fl_int fl m e)
          in if epoch < 0 then - 1 else epoch * 1000000 + fl_frac fl m e)"

text \<open>One number of a duration after the other, each with its unit; every round consumes text.\<close>

definition unit_us :: "char \<Rightarrow> int option" where
  "unit_us c =
     (if c \<in> {CHR ''H'', CHR ''h''} then Some 3600000000
      else if c \<in> {CHR ''M'', CHR ''m''} then Some 60000000
      else if c \<in> {CHR ''S'', CHR ''s''} then Some 1000000 else None)"

fun duration_parts :: "float_ops \<Rightarrow> nat \<Rightarrow> string \<Rightarrow> int \<Rightarrow> int" where
  "duration_parts fl 0 p us = us"
| "duration_parts fl (Suc n) p us =
     (if p = [] then us
      else case scan_decimal p of
             None \<Rightarrow> us
           | Some (m, e, q) \<Rightarrow>
               duration_parts fl n (tl q)
                 (case q of [] \<Rightarrow> us
                  | c # _ \<Rightarrow> (case unit_us c of Some k \<Rightarrow> us + fl_mul fl m e k | None \<Rightarrow> us)))"

definition skip_letter :: "char set \<Rightarrow> string \<Rightarrow> string" where
  "skip_letter cs p = (if p \<noteq> [] \<and> hd p \<in> cs then tl p else p)"

definition parse_duration_us :: "float_ops \<Rightarrow> string \<Rightarrow> int" where
  "parse_duration_us fl s =
     (let p = skip_letter {CHR ''T'', CHR ''t''} (skip_letter {CHR ''P'', CHR ''p''} s)
      in duration_parts fl (length p) p 0)"

section \<open>The loader\<close>

record dash_manifest =
  mf_base :: string
  mf_start_number :: int
  mf_avail_start_us :: int
  mf_seg_duration_us :: int
  mf_publish_time_us :: int
  mf_timeshift_depth_us :: int
  mf_duration_us :: int
  mf_static :: bool
  mf_window_segments :: int
  mf_frame_rate :: int

definition manifest_zero :: dash_manifest where
  "manifest_zero = \<lparr>mf_base = [], mf_start_number = 0, mf_avail_start_us = 0, mf_seg_duration_us = 0,
     mf_publish_time_us = 0, mf_timeshift_depth_us = 0, mf_duration_us = 0, mf_static = False,
     mf_window_segments = 0, mf_frame_rate = 0\<rparr>"

datatype load_result = Manifest_Fail | Manifest_Fault | Manifest dash_manifest

text \<open>
  What follows the first occurrence of an attribute, and its value: up to the closing quote, at
  most 63 bytes, \<^term>\<open>None\<close> without one.
\<close>

definition quote :: char where
  "quote = CHR 0x22"

definition after_attr :: "string \<Rightarrow> string \<Rightarrow> string option" where
  "after_attr name s = map_option (drop (length name + 2)) (strstr s (name @ ''='' @ [quote]))"

definition attr_value :: "string \<Rightarrow> string \<Rightarrow> string option" where
  "attr_value name s =
     (case after_attr name s of
        None \<Rightarrow> None
      | Some v \<Rightarrow> if quote \<in> set v then Some (take 63 (takeWhile (\<lambda>c. c \<noteq> quote) v)) else None)"

definition attr_num :: "(string \<Rightarrow> int) \<Rightarrow> string \<Rightarrow> string \<Rightarrow> int" where
  "attr_num conv name s = (case attr_value name s of None \<Rightarrow> 0 | Some v \<Rightarrow> conv v)"

text \<open>The segment duration: the first \<open>d\<close> after the first \<open><S\<close> after the first \<open>timescale\<close>.\<close>

definition segment_duration :: "string \<Rightarrow> int" where
  "segment_duration s =
     (case strstr s (''timescale='' @ [quote]) of
        None \<Rightarrow> 1000000
      | Some ts \<Rightarrow>
          let timescale = atoi (drop 11 ts);
              d = (case strstr ts ''<S '' of None \<Rightarrow> None | Some stl \<Rightarrow> strstr stl (''d='' @ [quote]))
          in (case d of
                None \<Rightarrow> 1000000
              | Some dv \<Rightarrow>
                  let dd = atoi (drop 3 dv)
                  in if timescale > 0 \<and> dd > 0 then (dd * 1000000) div timescale else 1000000))"

definition frame_rate_of :: "string \<Rightarrow> int" where
  "frame_rate_of s =
     (case after_attr ''frameRate'' s of
        None \<Rightarrow> 0
      | Some fr \<Rightarrow>
          let fnum = atoi fr;
              fden = dropWhile (\<lambda>c. c \<noteq> CHR ''/'') fr;
              fdenv = (if length fden \<ge> 2 then atoi (tl fden) else 1)
          in if fnum > 0 \<and> fdenv > 0 then fnum div fdenv else 0)"

text \<open>
  The base of the URL: the scheme and the host, the host cut at 255 bytes. The scheme is copied
  in front of it, into a buffer of 256 bytes.
\<close>

definition url_root :: "string \<Rightarrow> (nat \<times> string) option" where
  "url_root url =
     (case strstr url ''://'' of
        None \<Rightarrow> None
      | Some q \<Rightarrow>
          let b = length url - length q + 3;
              host = takeWhile (\<lambda>c. c \<noteq> CHR ''/'') (drop 3 q);
              n = b + min (length host) 255
          in Some (n, take n url))"

definition window_of :: "int \<Rightarrow> int \<Rightarrow> int" where
  "window_of depth dur =
     (let w = (U64 (depth + dur - 1) div dur + 2 ^ 31) mod 2 ^ 32 - 2 ^ 31 in if w < 1 then 1 else w)"

definition manifest_fields :: "float_ops \<Rightarrow> string \<Rightarrow> dash_manifest" where
  "manifest_fields fl s = manifest_zero
     \<lparr>mf_static := strstr s (''type='' @ [quote] @ ''static'' @ [quote]) \<noteq> None,
      mf_duration_us := attr_num (parse_duration_us fl) ''mediaPresentationDuration'' s,
      mf_avail_start_us := attr_num (parse_iso8601 fl) ''availabilityStartTime'' s,
      mf_publish_time_us := attr_num (parse_iso8601 fl) ''publishTime'' s,
      mf_timeshift_depth_us := attr_num (parse_duration_us fl) ''timeShiftBufferDepth'' s,
      mf_start_number := (case after_attr ''startNumber'' s of None \<Rightarrow> 0 | Some v \<Rightarrow> atoi v),
      mf_seg_duration_us := segment_duration s,
      mf_frame_rate := frame_rate_of s\<rparr>"

text \<open>
  The defaults and the window, computed by dividing by the segment duration before it is checked.
\<close>

definition manifest_finish :: "dash_manifest \<Rightarrow> load_result" where
  "manifest_finish m =
     (if mf_seg_duration_us m = 0 then Manifest_Fault
      else let pt = (if mf_publish_time_us m \<le> 0 then mf_avail_start_us m else mf_publish_time_us m);
               td = (if mf_timeshift_depth_us m \<le> 0 then 10000000 else mf_timeshift_depth_us m);
               m' = m\<lparr>mf_publish_time_us := pt, mf_timeshift_depth_us := td,
                      mf_window_segments := window_of td (mf_seg_duration_us m)\<rparr>
           in if mf_seg_duration_us m' \<le> 0 then Manifest_Fail
              else if mf_static m' then Manifest m'
              else if mf_avail_start_us m' \<le> 0 then Manifest_Fail
              else Manifest m')"

definition dash_load_manifest :: "float_ops \<Rightarrow> string option \<Rightarrow> string \<Rightarrow> string \<Rightarrow> load_result" where
  "dash_load_manifest fl body junk mpd_url =
     (case body of
        None \<Rightarrow> Manifest_Fail
      | Some b \<Rightarrow>
          if b = [] then Manifest_Fail
          else let s = c_string (b @ junk); m = manifest_fields fl s in
          if strstr s (''availabilityStartTime='' @ [quote]) = None \<and> \<not> mf_static m then Manifest_Fail
          else case url_root mpd_url of
                 None \<Rightarrow> Manifest_Fail
               | Some (n, base) \<Rightarrow>
                   if n \<ge> 256 then Manifest_Fault else manifest_finish (m\<lparr>mf_base := base\<rparr>))"

section \<open>Well-formed manifests\<close>

lemma segment_duration_nonneg: "0 \<le> segment_duration s"
  by (simp add: segment_duration_def Let_def pos_imp_zdiv_nonneg_iff split: option.split)

lemma frame_rate_nonneg: "0 \<le> frame_rate_of s"
  by (simp add: frame_rate_of_def Let_def pos_imp_zdiv_nonneg_iff split: option.split)

lemma window_of_pos: "1 \<le> window_of depth dur"
  by (simp add: window_of_def Let_def)

definition manifest_ok :: "string \<Rightarrow> dash_manifest \<Rightarrow> bool" where
  "manifest_ok url m \<longleftrightarrow> 0 < mf_seg_duration_us m \<and> 1 \<le> mf_window_segments m \<and> 0 < mf_timeshift_depth_us m \<and>
     0 \<le> mf_frame_rate m \<and> (mf_static m \<or> 0 < mf_avail_start_us m \<and> 0 < mf_publish_time_us m) \<and>
     prefix (mf_base m) url \<and> length (mf_base m) < 256"

lemma manifest_finish_ok:
  assumes "manifest_finish m = Manifest m'"
  shows "m' = m\<lparr>mf_publish_time_us := (if mf_publish_time_us m \<le> 0 then mf_avail_start_us m else mf_publish_time_us m),
      mf_timeshift_depth_us := (if mf_timeshift_depth_us m \<le> 0 then 10000000 else mf_timeshift_depth_us m),
      mf_window_segments := window_of (if mf_timeshift_depth_us m \<le> 0 then 10000000 else mf_timeshift_depth_us m)
        (mf_seg_duration_us m)\<rparr>
    \<and> 0 < mf_seg_duration_us m \<and> (mf_static m \<or> 0 < mf_avail_start_us m)"
  using assms unfolding manifest_finish_def Let_def by (auto split: if_splits)

text \<open>
  C23: A manifest that the loader accepts is usable: positive segment duration and window, a
  positive time-shift depth, a known start for a live stream, and a base URL that is a prefix of
  the manifest's and fits its buffer.
\<close>

theorem manifest_wellformed:
  assumes "dash_load_manifest fl body junk url = Manifest m"
  shows "manifest_ok url m"
proof -
  obtain b where b: "body = Some b" "b \<noteq> []"
    using assms by (auto simp: dash_load_manifest_def split: option.splits if_splits)
  let ?m = "manifest_fields fl (c_string (b @ junk))"
  obtain n base where r: "url_root url = Some (n, base)" "n < 256" "manifest_finish (?m\<lparr>mf_base := base\<rparr>) = Manifest m"
    using assms b by (auto simp: dash_load_manifest_def Let_def split: option.splits if_splits)
  have "prefix base url" "length base < 256"
    using r(1,2) by (auto simp: url_root_def Let_def take_is_prefix split: option.splits)
  then show ?thesis
    using manifest_finish_ok [OF r(3)] window_of_pos frame_rate_nonneg [of "c_string (b @ junk)"]
    by (auto simp: manifest_ok_def manifest_fields_def)
qed

text \<open>A small live manifest; the scaling of decimals is done with exact truncation.\<close>

definition exact_ops :: float_ops where
  "exact_ops = \<lparr>fl_mul = (\<lambda>m e k. c_div (m * k) (10 ^ e)), fl_int = (\<lambda>m e. c_div m (10 ^ e)),
     fl_frac = (\<lambda>m e. c_div ((m - c_div m (10 ^ e) * 10 ^ e) * 1000000) (10 ^ e))\<rparr>"

definition sample_body :: "string \<Rightarrow> string \<Rightarrow> string" where
  "sample_body timescale d =
     ''availabilityStartTime='' @ [quote] @ ''2024-02-29T12:00:01.5Z'' @ [quote] @ '' startNumber='' @ [quote]
     @ ''7'' @ [quote] @ '' timescale='' @ [quote] @ timescale @ [quote] @ ''<S d='' @ [quote] @ d @ [quote]
     @ '' frameRate='' @ [quote] @ ''24/1'' @ [quote, CHR 0x00]"

definition sample_manifest :: dash_manifest where
  "sample_manifest = \<lparr>mf_base = ''http://h'', mf_start_number = 7, mf_avail_start_us = 1709208001500000,
     mf_seg_duration_us = 2000000, mf_publish_time_us = 1709208001500000, mf_timeshift_depth_us = 10000000,
     mf_duration_us = 0, mf_static = False, mf_window_segments = 5, mf_frame_rate = 24\<rparr>"

lemma sample_loads:
  "dash_load_manifest exact_ops (Some (sample_body ''1000'' ''2000'')) [] ''http://h/live.mpd'' = Manifest sample_manifest"
  by code_simp

theorem manifest_wellformed_witness: "manifest_ok ''http://h/live.mpd'' sample_manifest"
  using sample_loads by (rule manifest_wellformed)

text \<open>
  A segment of less than a microsecond makes the loader divide by zero: the window is computed
  before the duration is checked. Nothing else in the manifest matters.
\<close>

theorem manifest_zero_duration_faults:
  assumes "b \<noteq> []" and "segment_duration (c_string (b @ junk)) = 0"
    and "strstr (c_string (b @ junk)) (''availabilityStartTime='' @ [quote]) \<noteq> None"
    and "url_root url = Some (n, base)" and "n < 256"
  shows "dash_load_manifest fl (Some b) junk url = Manifest_Fault"
  using assms by (simp add: dash_load_manifest_def Let_def manifest_finish_def manifest_fields_def)

theorem manifest_zero_duration_faults_witness:
  "dash_load_manifest exact_ops (Some (sample_body ''2000000'' ''1'')) [] ''http://h/live.mpd'' = Manifest_Fault"
proof (rule manifest_zero_duration_faults [where n = 8 and base = "''http://h''"])
  let ?s = "c_string (sample_body ''2000000'' ''1'' @ [])"
  let ?rest = "[quote] @ '' frameRate='' @ [quote] @ ''24/1'' @ [quote]"
  have d: "strstr ?s (''timescale='' @ [quote])
      = Some (''timescale='' @ [quote] @ ''2000000'' @ [quote] @ ''<S d='' @ [quote] @ ''1'' @ ?rest)"
    "strstr (''timescale='' @ [quote] @ ''2000000'' @ [quote] @ ''<S d='' @ [quote] @ ''1'' @ ?rest) ''<S ''
      = Some (''<S d='' @ [quote] @ ''1'' @ ?rest)"
    "strstr (''<S d='' @ [quote] @ ''1'' @ ?rest) (''d='' @ [quote]) = Some (''d='' @ [quote] @ ''1'' @ ?rest)"
    by code_simp+
  have v: "digit_val (CHR ''2'') = Some 2" "digit_val (CHR ''0'') = Some 0" "digit_val (CHR ''1'') = Some 1" "digit_val quote = None"
    by code_simp+
  show "segment_duration ?s = 0"
    unfolding segment_duration_def d using v by (simp add: d atoi_def is_c_space_def)
  show "strstr ?s (''availabilityStartTime='' @ [quote]) \<noteq> None" by code_simp
  show "url_root ''http://h/live.mpd'' = Some (8, ''http://h'')" by code_simp
qed (simp_all add: sample_body_def)

section \<open>Durations\<close>

lemma scan_decimal_dec:
  assumes "digit_val c = None" "c \<noteq> CHR ''.''"
  shows "scan_decimal (dec_string n @ c # s) = Some (int n, 0, c # s)"
  using dec_string_Cons [of n] assms(2)
  by (auto simp: scan_decimal_def dec_string_head digits_dec [OF assms(1)] scan_dec_string)

lemma digits_length: "digits s = (d, r) \<Longrightarrow> length d + length r = length s"
  by (induction s arbitrary: d) (auto split: if_splits prod.splits)

lemma read_sign_length: "read_sign s = (sg, t) \<Longrightarrow> length t \<le> length s"
  by (cases s) (auto simp: read_sign_def split: if_splits)

lemma scan_decimal_shrinks: "scan_decimal p = Some (m, e, q) \<Longrightarrow> length q < length p"
proof -
  assume a: "scan_decimal p = Some (m, e, q)"
  obtain sg t where t: "read_sign (dropWhile is_c_space p) = (sg, t)" by fastforce
  have lt: "length t \<le> length p"
    using read_sign_length [OF t] length_dropWhile_le le_trans by blast
  obtain d r where d: "digits t = (d, r)" by fastforce
  obtain f r' where f: "(if r \<noteq> [] \<and> hd r = CHR ''.'' then digits (tl r) else ([], r)) = (f, r')" by fastforce
  have "q = r'" "d \<noteq> [] \<or> f \<noteq> []" using a t d f by (auto simp: scan_decimal_def split: if_splits)
  moreover have "length f + length r' \<le> length r"
    using f digits_length [of "tl r" f r'] by (auto split: if_splits)
  moreover have "length d + length r = length t" using d by (rule digits_length)
  ultimately show ?thesis using lt f by (cases d; cases f) auto
qed

text \<open>The rounds allowed are enough: with as many as there are characters the loop ends by itself.\<close>

lemma duration_fuel: "length p \<le> n \<Longrightarrow> duration_parts fl (n + k) p us = duration_parts fl n p us"
proof (induction n arbitrary: p us)
  case 0
  then show ?case by (cases k) simp_all
next
  case (Suc n)
  show ?case
  proof (cases "scan_decimal p")
    case None
    then show ?thesis by simp
  next
    case (Some x)
    obtain m e q where x: "x = (m, e, q)" by (cases x)
    have "length (tl q) \<le> n" using scan_decimal_shrinks [of p m e q] Some x Suc.prems by simp
    then show ?thesis using Some x Suc.IH by simp
  qed
qed

lemma duration_step:
  assumes "unit_us c = Some k" "length (dec_string v @ c # s) \<le> n"
  shows "duration_parts fl n (dec_string v @ c # s) us = duration_parts fl (n - 1) s (us + fl_mul fl (int v) 0 k)"
proof -
  have "c \<in> set ''HhMmSs''" using assms(1) by (simp add: unit_us_def split: if_splits) blast+
  moreover have "\<forall>c \<in> set ''HhMmSs''. digit_val c = None \<and> c \<noteq> CHR ''.''" by code_simp
  ultimately have "digit_val c = None" "c \<noteq> CHR ''.''" by blast+
  then have "scan_decimal (dec_string v @ c # s) = Some (int v, 0, c # s)" by (rule scan_decimal_dec)
  then show ?thesis using assms by (cases n) simp_all
qed

text \<open>
  The scaling in double precision is exact on whole numbers whose product stays below \<open>2\<^sup>5\<^sup>3\<close>.
\<close>

definition doubles_exact :: "float_ops \<Rightarrow> bool" where
  "doubles_exact fl \<longleftrightarrow> (\<forall>m k. 0 \<le> m \<longrightarrow> 0 \<le> k \<longrightarrow> m * k < 2 ^ 53 \<longrightarrow> fl_mul fl m 0 k = m * k) \<and>
     (\<forall>m. 0 \<le> m \<longrightarrow> m < 2 ^ 31 \<longrightarrow> fl_int fl m 0 = m \<and> fl_frac fl m 0 = 0)"

definition duration_text :: "nat \<Rightarrow> nat \<Rightarrow> nat \<Rightarrow> string" where
  "duration_text h m s = ''PT'' @ dec_string h @ ''H'' @ dec_string m @ ''M'' @ dec_string s @ ''S''"

text \<open>
  A duration written in whole hours, minutes and seconds is read back to the microsecond.
\<close>

theorem duration_roundtrip:
  assumes "doubles_exact fl" and "h < 2000000" "m < 60" "s < 60"
  shows "parse_duration_us fl (duration_text h m s) = 1000000 * (3600 * int h + 60 * int m + int s)"
proof -
  let ?S = "dec_string s @ CHR ''S'' # []"
  let ?M = "dec_string m @ CHR ''M'' # ?S"
  let ?H = "dec_string h @ CHR ''H'' # ?M"
  have u: "unit_us (CHR ''H'') = Some 3600000000" "unit_us (CHR ''M'') = Some 60000000" "unit_us (CHR ''S'') = Some 1000000"
    by code_simp+
  have x: "fl_mul fl (int h) 0 3600000000 = int h * 3600000000" "fl_mul fl (int m) 0 60000000 = int m * 60000000"
    "fl_mul fl (int s) 0 1000000 = int s * 1000000"
    using assms by (auto simp: doubles_exact_def)
  have start: "skip_letter {CHR ''T'', CHR ''t''} (skip_letter {CHR ''P'', CHR ''p''} (duration_text h m s)) = ?H"
    by (simp add: duration_text_def skip_letter_def)
  have "parse_duration_us fl (duration_text h m s) = duration_parts fl (length ?H) ?H 0"
    by (simp only: parse_duration_us_def start Let_def)
  also have "\<dots> = duration_parts fl (length ?H - 1) ?M (int h * 3600000000)"
    using duration_step [OF u(1), of h ?M "length ?H" fl 0] x by simp
  also have "\<dots> = duration_parts fl (length ?H - 1 - 1) ?S (int h * 3600000000 + int m * 60000000)"
    using duration_step [OF u(2), of m ?S "length ?H - 1" fl] x dec_string_Cons [of h] by auto
  also have "\<dots> = duration_parts fl (length ?H - 1 - 1 - 1) [] (int h * 3600000000 + int m * 60000000 + int s * 1000000)"
    using duration_step [OF u(3), of s "[]" "length ?H - 1 - 1" fl] x dec_string_Cons [of h] dec_string_Cons [of m] by auto
  also have "\<dots> = int h * 3600000000 + int m * 60000000 + int s * 1000000"
    by (cases "length ?H - 1 - 1 - 1") simp_all
  finally show ?thesis by simp
qed

lemma exact_ops_exact: "doubles_exact exact_ops"
  by (simp add: doubles_exact_def exact_ops_def)

theorem duration_roundtrip_witness:
  "parse_duration_us exact_ops (duration_text 1 21 34) = 4894000000"
  using duration_roundtrip [OF exact_ops_exact, of 1 21 34] by simp

section \<open>Time stamps\<close>

text \<open>Two digits, as the server prints the parts of a time stamp.\<close>

definition two_digits :: "nat \<Rightarrow> string" where
  "two_digits n = (if n < 10 then ''0'' @ dec_string n else dec_string n)"

definition iso8601_text :: "nat \<Rightarrow> nat \<Rightarrow> nat \<Rightarrow> nat \<Rightarrow> nat \<Rightarrow> nat \<Rightarrow> string" where
  "iso8601_text y mo d h mi s = dec_string y @ ''-'' @ two_digits mo @ ''-'' @ two_digits d @ ''T''
     @ two_digits h @ '':'' @ two_digits mi @ '':'' @ two_digits s @ ''Z''"

lemma zero_digit: "digit_val (CHR ''0'') = Some 0" "\<not> is_c_space (CHR ''0'')"
  by code_simp+

lemma scan_int_two:
  assumes "digit_val c = None"
  shows "scan_int (two_digits n @ c # s) = Some (int n, c # s)"
  using scan_int_dec [OF assms] digits_dec [OF assms, of n s]
  by (simp add: two_digits_def scan_int_def read_sign_def zero_digit scan_dec_string)

lemma scan_decimal_two:
  assumes "digit_val c = None" "c \<noteq> CHR ''.''"
  shows "scan_decimal (two_digits n @ c # s) = Some (int n, 0, c # s)"
  using scan_decimal_dec [OF assms] digits_dec [OF assms(1), of n s] assms(2)
  by (simp add: two_digits_def scan_decimal_def read_sign_def zero_digit scan_dec_string)

text \<open>
  A time stamp of whole seconds since 1970 is read as its calendar time in microseconds.
\<close>

theorem iso8601_roundtrip:
  assumes "doubles_exact fl" and "s < 60" and "0 \<le> timegm (int y) (int mo - 1) (int d) (int h) (int mi) (int s)"
  shows "parse_iso8601 fl (iso8601_text y mo d h mi s)
    = 1000000 * timegm (int y) (int mo - 1) (int d) (int h) (int mi) (int s)"
proof -
  have sep: "digit_val (CHR ''-'') = None" "digit_val (CHR ''T'') = None" "digit_val (CHR '':'') = None"
      "digit_val (CHR ''Z'') = None"
    by code_simp+
  have "fl_int fl (int s) 0 = int s" "fl_frac fl (int s) 0 = 0" using assms(1,2) by (simp_all add: doubles_exact_def)
  then show ?thesis
    using assms(3) sep by (simp add: parse_iso8601_def iso8601_text_def scan_int_dec scan_int_two scan_decimal_two expect_def)
qed

theorem iso8601_roundtrip_witness:
  "parse_iso8601 exact_ops (iso8601_text 2024 2 29 12 0 1) = 1709208001000000"
proof -
  have "timegm 2024 1 29 12 0 1 = 1709208001" by code_simp
  then show ?thesis using iso8601_roundtrip [OF exact_ops_exact, of 1 2024 2 29 12 0] by simp
qed

end
