(* ===== verification/Dash_Reader.thy ===== *)
theory Dash_Reader
  imports Dash_Manifest Frame_Slots Present_Queue Playout_Clock Ring_Buffer
begin

text \<open>
  The reader thread of the stream client (\<open>dash_resync\<close>, \<open>dash_demux_segment\<close> and
  \<open>dash_reader_direct\<close> in \<open>apps/thinclient/main.c\<close>): re-anchoring of the timeline, demultiplexing
  of a segment, and one round of the reader: live edge, windows, audio and video fetches, end of
  stream, pause. What the reader does to the structures it shares with the workers is a list of
  operations \<open>shared_op\<close>, one critical section each, in order; \<open>do_op\<close> is their effect. The
  demultiplexer, the codecs and the fetches are parameters.
\<close>

section \<open>Operations on the shared structures\<close>

definition VMC_AUDIO_FIFO_BYTES :: int where [const_defs]: "VMC_AUDIO_FIFO_BYTES = 2097152"
definition VMC_AUDIO_PREFILL_US :: int where [const_defs]: "VMC_AUDIO_PREFILL_US = VMC_AUDIO_PREFETCH_US"

datatype shared_op =
    Publish bytes int u32 int int
  | Shift int
  | Audio_Write bytes
  | Audio_Flush

record shared =
  sh_slots :: frame_slots
  sh_queue :: present_queue
  sh_audio :: vmc_ringbuf

definition shifted :: "int \<Rightarrow> u64 \<Rightarrow> u64" where
  "shifted delta d = (let x = sint d + delta in if x < 0 then 0 else of_int x)"

definition shift_slot :: "int \<Rightarrow> vmc_frame_slot \<Rightarrow> vmc_frame_slot" where
  "shift_slot delta sl =
     (if fs_state sl \<noteq> SLOT_FREE then sl\<lparr>fs_deadline_us := shifted delta (fs_deadline_us sl)\<rparr> else sl)"

definition shift_entry :: "int \<Rightarrow> present_entry \<Rightarrow> present_entry" where
  "shift_entry delta e =
     (if pe_deadline_us e \<noteq> 0 then e\<lparr>pe_deadline_us := shifted delta (pe_deadline_us e)\<rparr> else e)"

definition audio_fifo_write_raw :: "bytes \<Rightarrow> vmc_ringbuf \<Rightarrow> bool \<times> vmc_ringbuf" where
  "audio_fifo_write_raw pcm rb =
     (case vmc_ringbuf_write rb pcm (of_nat (length pcm)) of
        (wr, rb') \<Rightarrow> (wr < of_nat (length pcm), rb'))"

text \<open>The effect; \<^term>\<open>None\<close> while the thread waits for a free slot. \<open>now\<close> stamps a publication.\<close>

definition do_op :: "u64 \<Rightarrow> shared_op \<Rightarrow> shared \<Rightarrow> shared option" where
  "do_op now op sh =
     (case op of
        Publish data deadline fidx pts seg \<Rightarrow>
          map_option (\<lambda>fs. sh\<lparr>sh_slots := fs\<rparr>)
            (dash_publish_au data (of_int deadline) fidx pts seg now (sh_slots sh))
      | Shift delta \<Rightarrow>
          Some (sh\<lparr>sh_slots := map (shift_slot delta) (sh_slots sh),
                   sh_queue := (sh_queue sh)\<lparr>g_present_queue :=
                      map (shift_entry delta) (g_present_queue (sh_queue sh))\<rparr>\<rparr>)
      | Audio_Write pcm \<Rightarrow> Some (sh\<lparr>sh_audio := snd (audio_fifo_write_raw pcm (sh_audio sh))\<rparr>)
      | Audio_Flush \<Rightarrow> Some (sh\<lparr>sh_audio := vmc_ringbuf_reset (sh_audio sh)\<rparr>))"

section \<open>Re-anchoring\<close>

definition resync_anchor :: "int \<Rightarrow> av_clock \<Rightarrow> int" where
  "resync_anchor wall_now c =
     (if g_audio_start_wall_us c \<noteq> 0
      then U64 (g_audio_start_wall_us c
                + (if g_audio_delay_us c \<noteq> 0 then g_audio_delay_us c else VMC_AUDIO_PREFILL_US)
                - g_playout_latency_us c)
      else U64 (U64 wall_now + VMC_AUDIO_PREFILL_US - g_playout_latency_us c))"

definition dash_resync :: "int \<Rightarrow> int \<Rightarrow> av_clock \<Rightarrow> av_clock \<times> shared_op list" where
  "dash_resync next_seg wall_now c =
     (let anchor = resync_anchor wall_now c;
          c1 = c\<lparr>g_anchor_wall_us := anchor, g_anchor_seg := next_seg, g_timeline_adj_us := 0,
                 g_seg_interval_ewma := 0, g_last_seg_arrival_wall := 0\<rparr>;
          delta = I64 anchor - I64 (g_anchor_wall_us c)
      in if g_anchor_wall_us c \<noteq> 0 \<and> g_anchor_seg c = next_seg \<and> delta \<noteq> 0
         then (c1\<lparr>g_cadence_shift_us := 1\<rparr>, [Shift delta]) else (c1, []))"

section \<open>Demultiplexing\<close>

text \<open>
  A packet of the demultiplexer. For video: its time stamp if it has one, the units that the
  bitstream filter makes of it, and the shared clock as it is when they are published. For audio:
  the converted PCM of each frame that the decoder returned, also when the packet had to be sent
  twice. The parameter \<open>rescale\<close> turns a distance in the stream's time base into frames.
\<close>

datatype packet =
    Video "int option" "bytes list" av_clock
  | Audio "bytes list"
  | Other

text \<open>The session's counters over one segment, and the global frame count.\<close>

record demux_state =
  dm_first_pts :: "int option"
  dm_video_au_k :: int
  dm_last_frame_idx :: int
  dm_frame_count :: u32
  dm_audio_pts :: int
  dm_au_k :: "int option"

definition count_index :: "demux_state \<Rightarrow> int" where
  "count_index s = (case dm_au_k s of Some a \<Rightarrow> a | None \<Rightarrow> dm_video_au_k s)"

definition frame_index :: "(int \<Rightarrow> int \<Rightarrow> int) \<Rightarrow> av_clock \<Rightarrow> int option \<Rightarrow> demux_state \<Rightarrow> int \<times> demux_state" where
  "frame_index rescale c pts s =
     (case pts of
        Some t \<Rightarrow>
          if g_stream_fps c > 0
          then let first = (case dm_first_pts s of Some f \<Rightarrow> f | None \<Rightarrow> t);
                   s1 = s\<lparr>dm_first_pts := Some first\<rparr>;
                   k = (if t - first \<ge> 0 then rescale (t - first) (g_stream_fps c) else - 1)
               in (if k < 0 then count_index s1 else k, s1)
          else (count_index s, s)
      | None \<Rightarrow> (count_index s, s))"

definition identity :: "av_clock \<Rightarrow> int \<Rightarrow> int \<Rightarrow> demux_state \<Rightarrow> u32 \<times> int \<times> demux_state" where
  "identity c seg_num k s =
     (if k \<noteq> dm_last_frame_idx s \<or> dm_last_frame_idx s < 0
      then (dm_frame_count s, content_pts c seg_num k,
            s\<lparr>dm_frame_count := dm_frame_count s + 1, dm_last_frame_idx := k\<rparr>)
      else (0, 0, s))"

definition demux_packet ::
  "(int \<Rightarrow> int \<Rightarrow> int) \<Rightarrow> int \<Rightarrow> packet \<Rightarrow> demux_state \<Rightarrow> shared_op list \<times> demux_state" where
  "demux_packet rescale seg_num p s =
     (case p of
        Video t units c \<Rightarrow>
          let (k, s0) = frame_index rescale c t s;
              (fidx, pts, s1) = identity c seg_num k s0
          in (map (\<lambda>u. Publish u (dash_au_deadline c seg_num k) fidx pts seg_num)
                (filter (\<lambda>u. u \<noteq> []) units),
              s1\<lparr>dm_video_au_k := dm_video_au_k s1 + 1, dm_au_k := map_option (\<lambda>a. a + 1) (dm_au_k s1)\<rparr>)
      | Audio pcm \<Rightarrow>
          (map Audio_Write (filter (\<lambda>b. b \<noteq> []) pcm), s\<lparr>dm_audio_pts := dm_audio_pts s + 1024\<rparr>)
      | Other \<Rightarrow> ([], s))"

fun demux_packets ::
  "(int \<Rightarrow> int \<Rightarrow> int) \<Rightarrow> int \<Rightarrow> packet list \<Rightarrow> demux_state \<Rightarrow> shared_op list \<times> demux_state" where
  "demux_packets rescale seg_num [] s = ([], s)"
| "demux_packets rescale seg_num (p # ps) s =
     (case demux_packet rescale seg_num p s of (ops, s1) \<Rightarrow>
        (case demux_packets rescale seg_num ps s1 of (ops', s2) \<Rightarrow> (ops @ ops', s2)))"

text \<open>
  The outcome of opening: no memory context, a context whose streams cannot be identified, or its
  packets. The counters are reset once there is a context. Data that does not even open as a stream
  ends the program (\<open>demux_heap\<close> in \<open>Dash_Session\<close>).
\<close>

datatype opened = No_Context | Not_A_Stream | Packets "packet list"

definition dash_demux_segment ::
  "(int \<Rightarrow> int \<Rightarrow> int) \<Rightarrow> opened \<Rightarrow> int \<Rightarrow> int option \<Rightarrow> demux_state \<Rightarrow> shared_op list \<times> demux_state" where
  "dash_demux_segment rescale io seg_num au_k s =
     (let s1 = s\<lparr>dm_first_pts := None, dm_video_au_k := 0, dm_last_frame_idx := - 1, dm_au_k := au_k\<rparr>
      in case io of
           No_Context \<Rightarrow> ([], s)
         | Not_A_Stream \<Rightarrow> ([], s1)
         | Packets ps \<Rightarrow> demux_packets rescale seg_num ps s1)"

section \<open>One round of the reader\<close>

definition I32 :: "int \<Rightarrow> int" where
  "I32 x = (x + 2 ^ 31) mod 2 ^ 32 - 2 ^ 31"

text \<open>The windows of a round, computed from the manifest, the buffers and the wall clock.\<close>

record window =
  wn_total :: int
  wn_edge :: int
  wn_video_target :: int
  wn_audio_target :: int
  wn_audio_oldest :: int
  wn_vfetch_hi :: int

definition total_segments :: "dash_manifest \<Rightarrow> int" where
  "total_segments m =
     (if mf_static m \<and> mf_duration_us m > 0 \<and> mf_seg_duration_us m > 0
      then (mf_duration_us m + mf_seg_duration_us m - 1) div mf_seg_duration_us m else 0)"

definition live_edge :: "dash_manifest \<Rightarrow> int \<Rightarrow> int" where
  "live_edge m now =
     (let elapsed = now - mf_avail_start_us m;
          e0 = I32 (if elapsed > 0 then elapsed div mf_seg_duration_us m else 0);
          e1 = (if e0 < mf_start_number m then mf_start_number m else e0)
      in if total_segments m > 0 \<and> e1 > I32 (total_segments m) then I32 (total_segments m) else e1)"

definition buffer_segments :: "int \<Rightarrow> dash_manifest \<Rightarrow> int" where
  "buffer_segments buffer_us m = I32 (U64 (buffer_us + mf_seg_duration_us m - 1) div mf_seg_duration_us m)"

definition at_least :: "int \<Rightarrow> int \<Rightarrow> int" where
  "at_least lo x = (if x < lo then lo else x)"

definition reader_window :: "dash_manifest \<Rightarrow> live_buffer \<Rightarrow> int \<Rightarrow> window" where
  "reader_window m b now =
     (let edge = live_edge m now; total = total_segments m;
          vt = at_least (mf_start_number m) (edge - 1 - buffer_segments (g_video_live_buffer_us b) m);
          hi = at_least vt (edge + 1)
      in \<lparr>wn_total = total, wn_edge = edge, wn_video_target = vt,
          wn_audio_target = at_least (mf_start_number m) edge,
          wn_audio_oldest = at_least (mf_start_number m) (edge - 1 - buffer_segments (g_audio_live_buffer_us b) m),
          wn_vfetch_hi = (if total > 0 \<and> hi > I32 total then I32 total else hi)\<rparr>)"

text \<open>
  The state of the reader. \<open>rs_ops\<close> collects the operations on the shared structures; \<open>rs_got\<close>
  the numbers of the segments delivered, audio and video.
\<close>

record reader =
  rs_clock :: av_clock
  rs_buffer :: live_buffer
  rs_demux :: demux_state
  rs_last_v :: int
  rs_last_a :: int
  rs_work :: bool
  rs_fetched :: nat
  rs_prefetch :: int
  rs_ops :: "shared_op list"
  rs_got_a :: "int list"
  rs_got_v :: "int list"
  rs_resyncs :: nat

text \<open>
  The world of one round: what a fetch of segment \<open>n\<close> yields (demultiplexed, \<^term>\<open>None\<close> when the
  fetch fails or is empty), whether memory for the joined segment was there, the run flag before
  each fetch, the duration of the fetch and the clock readings after it.
\<close>

record reader_env =
  re_audio :: "int \<Rightarrow> opened option"
  re_video :: "int \<Rightarrow> opened option"
  re_alloc_a :: "int \<Rightarrow> bool"
  re_alloc_v :: "int \<Rightarrow> bool"
  re_run :: "int \<Rightarrow> bool"
  re_fetch_us :: "int \<Rightarrow> int"
  re_wall :: "int \<Rightarrow> int"
  re_arrival :: "int \<Rightarrow> int"
  re_rescale :: "int \<Rightarrow> int \<Rightarrow> int"
  re_have_audio :: bool

definition demux_into :: "reader_env \<Rightarrow> opened \<Rightarrow> int \<Rightarrow> int option \<Rightarrow> reader \<Rightarrow> reader" where
  "demux_into e io n au_k r =
     (case dash_demux_segment (re_rescale e) io n au_k (rs_demux r) of
        (ops, d) \<Rightarrow> r\<lparr>rs_ops := rs_ops r @ ops, rs_demux := d\<rparr>)"

function audio_fetches :: "reader_env \<Rightarrow> int \<Rightarrow> int \<Rightarrow> reader \<Rightarrow> reader" where
  "audio_fetches e target at r =
     (if \<not> re_run e at \<or> at > target then r
      else if rs_last_a r \<ge> 0 \<and> at \<le> rs_last_a r then r
      else case re_audio e at of
             None \<Rightarrow> r
           | Some io \<Rightarrow>
               audio_fetches e target (at + 1)
                 (if re_alloc_a e at
                  then (demux_into e io at None r)\<lparr>rs_last_a := at, rs_work := True, rs_got_a := rs_got_a r @ [at]\<rparr>
                  else r))"
  by pat_completeness auto
termination
  by (relation "measure (\<lambda>(_, target, at, _). nat (target + 1 - at))") auto

declare audio_fetches.simps [simp del]

definition audio_round :: "reader_env \<Rightarrow> dash_manifest \<Rightarrow> window \<Rightarrow> reader \<Rightarrow> reader" where
  "audio_round e m w r =
     (if \<not> re_have_audio e then r
      else let at0 = (if rs_last_a r < 0 then wn_audio_oldest w else rs_last_a r + 1);
               behind = at0 < mf_start_number m;
               r1 = (if behind \<and> rs_last_a r \<ge> 0 then r\<lparr>rs_ops := rs_ops r @ [Audio_Flush]\<rparr> else r);
               r2 = (if behind then r1\<lparr>rs_last_a := mf_start_number m - 1\<rparr> else r1);
               at1 = (if behind then mf_start_number m else at0);
               at2 = (if at1 > wn_audio_target w then wn_audio_target w else at1)
           in audio_fetches e (wn_audio_target w) at2 r2)"

definition resync_reader :: "int \<Rightarrow> int \<Rightarrow> reader \<Rightarrow> reader" where
  "resync_reader n wall r =
     (case dash_resync n wall (rs_clock r) of
        (c, ops) \<Rightarrow> r\<lparr>rs_clock := c, rs_ops := rs_ops r @ ops, rs_resyncs := rs_resyncs r + 1\<rparr>)"

text \<open>The measured cadence of the segments.\<close>

definition note_arrival :: "int \<Rightarrow> av_clock \<Rightarrow> av_clock" where
  "note_arrival now_wall c =
     (if g_stream_fps c > 0
      then let interval = I64 (now_wall - g_last_seg_arrival_wall c);
               c1 = (if g_last_seg_arrival_wall c \<noteq> 0 \<and> interval > 50000
                     then c\<lparr>g_seg_interval_ewma :=
                              (if g_seg_interval_ewma c = 0 then interval
                               else c_div (15 * g_seg_interval_ewma c + interval) 16)\<rparr> else c)
           in c1\<lparr>g_last_seg_arrival_wall := now_wall\<rparr>
      else c)"

definition video_segment :: "reader_env \<Rightarrow> dash_manifest \<Rightarrow> opened \<Rightarrow> int \<Rightarrow> reader \<Rightarrow> reader" where
  "video_segment e m io n r =
     (let r1 = r\<lparr>rs_buffer := dash_update_live_buffer (re_fetch_us e n) (I32 (mf_seg_duration_us m)) (rs_buffer r)\<rparr>;
          r2 = (if re_alloc_v e n
                then let r' = (if g_anchor_wall_us (rs_clock r1) = 0 \<or> rs_last_v r1 \<ge> 0 \<and> n \<noteq> rs_last_v r1 + 1
                               then resync_reader n (re_wall e n) r1 else r1);
                         r'' = demux_into e io n (Some 0) r'
                     in r''\<lparr>rs_clock := note_arrival (re_arrival e n) (rs_clock r'')\<rparr>
                else r1)
      in r2\<lparr>rs_last_v := n, rs_work := True, rs_fetched := rs_fetched r2 + 1, rs_got_v := rs_got_v r2 @ [n]\<rparr>)"

function video_fetches :: "reader_env \<Rightarrow> dash_manifest \<Rightarrow> int \<Rightarrow> int \<Rightarrow> reader \<Rightarrow> reader" where
  "video_fetches e m hi n r =
     (if \<not> re_run e n \<or> n > hi then r
      else case re_video e n of
             None \<Rightarrow> r
           | Some io \<Rightarrow> video_fetches e m hi (n + 1) (video_segment e m io n r))"
  by pat_completeness auto
termination
  by (relation "measure (\<lambda>(_, _, hi, n, _). nat (hi + 1 - n))") auto

declare video_fetches.simps [simp del]

definition video_round :: "reader_env \<Rightarrow> dash_manifest \<Rightarrow> window \<Rightarrow> reader \<Rightarrow> reader" where
  "video_round e m w r =
     (let c = rs_clock r;
          r0 = (if mf_frame_rate m > 0 \<and> mf_frame_rate m \<noteq> g_stream_fps c
                then r\<lparr>rs_clock := c\<lparr>g_stream_fps := mf_frame_rate m\<rparr>\<rparr> else r);
          vn0 = (if rs_last_v r0 < 0 then wn_video_target w else rs_last_v r0 + 1);
          r1 = (if vn0 < mf_start_number m then r0\<lparr>rs_last_v := mf_start_number m - 1\<rparr> else r0);
          vn1 = (if vn0 < mf_start_number m then mf_start_number m else vn0);
          reset = (rs_last_v r1 \<ge> 0 \<and> wn_vfetch_hi w < rs_last_v r1);
          r2 = (if reset
                then r1\<lparr>rs_last_v := - 1, rs_last_a := - 1, rs_ops := rs_ops r1 @ [Audio_Flush],
                        rs_clock := (rs_clock r1)\<lparr>g_anchor_wall_us := 0, g_anchor_seg := 0,
                          g_audio_start_wall_us := 0, g_audio_delay_us := 0\<rparr>\<rparr>
                else r1);
          vn2 = (if reset then wn_video_target w else vn1);
          r3 = video_fetches e m (wn_vfetch_hi w) vn2 (r2\<lparr>rs_fetched := 0\<rparr>)
      in if rs_fetched r3 > 0 \<and> rs_prefetch r3 < 3 then r3\<lparr>rs_prefetch := rs_prefetch r3 + 1\<rparr> else r3)"

text \<open>The end of the round: the end of the stream with the time it is played out, or a pause.\<close>

datatype round_end = End_Of_Stream int | Sleep int | Poll | Retry

definition eos_reached :: "dash_manifest \<Rightarrow> window \<Rightarrow> reader \<Rightarrow> bool" where
  "eos_reached m w r \<longleftrightarrow> mf_static m \<and> wn_total w > 0 \<and> rs_last_v r \<ge> I32 (wn_total w) - 1"

definition eos_end_wall :: "dash_manifest \<Rightarrow> window \<Rightarrow> reader \<Rightarrow> int" where
  "eos_end_wall m w r = U64 (g_anchor_wall_us (rs_clock r) + U64 (U64 (wn_total w) * U64 (mf_seg_duration_us m))
     + g_playout_latency_us (rs_clock r) + 500000)"

definition pause_us :: "dash_manifest \<Rightarrow> window \<Rightarrow> int \<Rightarrow> int \<Rightarrow> int \<Rightarrow> int" where
  "pause_us m w prev_work work now =
     (let lead = (if prev_work > 0 then prev_work else work);
          wait = mf_avail_start_us m + (wn_edge w + 1) * mf_seg_duration_us m - now - lead
      in if wait > 0 then wait mod 2 ^ 32 else 0)"

definition round_end :: "reader_env \<Rightarrow> dash_manifest \<Rightarrow> window \<Rightarrow> int \<Rightarrow> int \<Rightarrow> int \<Rightarrow> reader \<Rightarrow> round_end" where
  "round_end e m w prev_work work now r =
     (if eos_reached m w r then End_Of_Stream (eos_end_wall m w r)
      else if rs_work r then Sleep (pause_us m w prev_work work now)
      else if wn_video_target w = rs_last_v r \<and> (\<not> re_have_audio e \<or> wn_video_target w = rs_last_a r)
      then Poll else Retry)"

text \<open>
  A round: the manifest is the reloaded one, or the previous one when the reload failed.
\<close>

definition reader_round ::
  "reader_env \<Rightarrow> load_result \<Rightarrow> dash_manifest \<Rightarrow> int \<Rightarrow> int \<Rightarrow> int \<Rightarrow> int \<Rightarrow> reader
     \<Rightarrow> (dash_manifest \<times> reader \<times> round_end) option" where
  "reader_round e reloaded m0 now prev_work work now2 r =
     (if reloaded = Manifest_Fault then None
      else let m = (case reloaded of Manifest m \<Rightarrow> m | _ \<Rightarrow> m0);
               w = reader_window m (rs_buffer r) now;
               r1 = audio_round e m w (r\<lparr>rs_work := False\<rparr>);
               r2 = video_round e m w r1
           in Some (m, r2, round_end e m w prev_work work now2 r2))"

text \<open>The state at the start of a session.\<close>

definition session_start :: "dash_manifest \<Rightarrow> reader \<Rightarrow> reader" where
  "session_start m r =
     r\<lparr>rs_clock := (rs_clock r)\<lparr>g_seg_duration_us := U64 (mf_seg_duration_us m), g_anchor_wall_us := 0, g_anchor_seg := 0\<rparr>,
       rs_prefetch := 0, rs_last_v := - 1, rs_last_a := - 1,
       rs_buffer := \<lparr>g_seg_fetch_ewma_us = 0, g_video_live_buffer_us = VMC_VIDEO_TARGET_US,
                     g_audio_live_buffer_us = VMC_AUDIO_TARGET_US\<rparr>\<rparr>"

section \<open>Order of delivery\<close>

lemma demux_into_keeps [simp]:
  "rs_clock (demux_into e io n k r) = rs_clock r" "rs_last_v (demux_into e io n k r) = rs_last_v r"
  "rs_last_a (demux_into e io n k r) = rs_last_a r" "rs_got_a (demux_into e io n k r) = rs_got_a r"
  "rs_got_v (demux_into e io n k r) = rs_got_v r" "rs_resyncs (demux_into e io n k r) = rs_resyncs r"
  "rs_fetched (demux_into e io n k r) = rs_fetched r" "rs_buffer (demux_into e io n k r) = rs_buffer r"
  "rs_work (demux_into e io n k r) = rs_work r"
  by (simp_all add: demux_into_def split: prod.split)

lemma note_arrival_keeps [simp]:
  "g_anchor_wall_us (note_arrival t c) = g_anchor_wall_us c" "g_anchor_seg (note_arrival t c) = g_anchor_seg c"
  by (simp_all add: note_arrival_def Let_def)

lemma video_segment_effect:
  "rs_last_v (video_segment e m io n r) = n" "rs_got_v (video_segment e m io n r) = rs_got_v r @ [n]"
  "rs_got_a (video_segment e m io n r) = rs_got_a r" "rs_work (video_segment e m io n r)"
  by (simp_all add: video_segment_def resync_reader_def Let_def split: prod.split)

lemma video_segment_quiet:
  assumes "g_anchor_wall_us (rs_clock r) \<noteq> 0" "rs_last_v r < 0 \<or> n = rs_last_v r + 1"
  shows "rs_resyncs (video_segment e m io n r) = rs_resyncs r"
    "g_anchor_wall_us (rs_clock (video_segment e m io n r)) = g_anchor_wall_us (rs_clock r)"
    "g_anchor_seg (rs_clock (video_segment e m io n r)) = g_anchor_seg (rs_clock r)"
  using assms by (auto simp: video_segment_def Let_def)

lemma video_fetches_quiet:
  assumes "g_anchor_wall_us (rs_clock r) \<noteq> 0" "rs_last_v r < 0 \<or> n = rs_last_v r + 1"
  shows "rs_resyncs (video_fetches e m hi n r) = rs_resyncs r
    \<and> g_anchor_seg (rs_clock (video_fetches e m hi n r)) = g_anchor_seg (rs_clock r)"
  using assms
proof (induction e m hi n r rule: video_fetches.induct)
  case (1 e m hi n r)
  show ?case
  proof (cases "re_run e n \<and> n \<le> hi \<and> re_video e n \<noteq> None")
    case False
    then show ?thesis by (subst (1 2) video_fetches.simps) (auto split: option.split)
  next
    case True
    then obtain io where io: "re_video e n = Some io" by auto
    have "video_fetches e m hi n r = video_fetches e m hi (n + 1) (video_segment e m io n r)"
      using True io by (subst video_fetches.simps) simp
    then show ?thesis
      using 1(1) [of io] True io 1(2,3) video_segment_quiet [OF 1(2,3)] video_segment_effect by simp
  qed
qed

text \<open>
  The timeline is never re-anchored on a jump. When the server's window has rolled past the
  next segment, the reader skips to the window's start but also moves its high-water mark there,
  so that the skipped-to segment counts as the next one: with an anchor set, and unless the live
  edge fell behind what was fetched, a round performs no resync and keeps the old anchor segment,
  however many segments it skipped.
\<close>

theorem reader_jump_keeps_anchor:
  assumes "g_anchor_wall_us (rs_clock r) \<noteq> 0"
    and "rs_last_v r \<le> wn_vfetch_hi w" and "mf_start_number m - 1 \<le> wn_vfetch_hi w"
  shows "rs_resyncs (video_round e m w r) = rs_resyncs r
    \<and> g_anchor_seg (rs_clock (video_round e m w r)) = g_anchor_seg (rs_clock r)"
proof -
  let ?r0 = "if mf_frame_rate m > 0 \<and> mf_frame_rate m \<noteq> g_stream_fps (rs_clock r)
      then r\<lparr>rs_clock := (rs_clock r)\<lparr>g_stream_fps := mf_frame_rate m\<rparr>\<rparr> else r"
  let ?vn0 = "if rs_last_v r < 0 then wn_video_target w else rs_last_v r + 1"
  let ?r1 = "if ?vn0 < mf_start_number m then ?r0\<lparr>rs_last_v := mf_start_number m - 1\<rparr> else ?r0"
  let ?vn1 = "if ?vn0 < mf_start_number m then mf_start_number m else ?vn0"
  let ?r3 = "video_fetches e m (wn_vfetch_hi w) ?vn1 (?r1\<lparr>rs_fetched := 0\<rparr>)"
  have last: "rs_last_v ?r0 = rs_last_v r" by simp
  have noreset: "\<not> (rs_last_v ?r1 \<ge> 0 \<and> wn_vfetch_hi w < rs_last_v ?r1)" using assms(2,3) by simp
  have "video_round e m w r =
     (if rs_fetched ?r3 > 0 \<and> rs_prefetch ?r3 < 3 then ?r3\<lparr>rs_prefetch := rs_prefetch ?r3 + 1\<rparr> else ?r3)"
    unfolding video_round_def Let_def last if_not_P [OF noreset] by (rule refl)
  moreover have "rs_resyncs ?r3 = rs_resyncs (?r1\<lparr>rs_fetched := 0\<rparr>)
      \<and> g_anchor_seg (rs_clock ?r3) = g_anchor_seg (rs_clock (?r1\<lparr>rs_fetched := 0\<rparr>))"
    using assms(1) by (intro video_fetches_quiet) auto
  ultimately show ?thesis by simp
qed

definition started_clock :: av_clock where
  "started_clock = \<lparr>g_stream_fps = 24, g_seg_duration_us = 1000000, g_anchor_wall_us = 5000000, g_anchor_seg = 3,
     g_timeline_adj_us = 0, g_cadence_shift_us = 0, g_playout_latency_us = 85000, g_seg_interval_ewma = 0,
     g_last_seg_arrival_wall = 0, g_audio_pos_us = 0, g_audio_active = False, g_audio_start_wall_us = 0,
     g_audio_delay_us = 0, g_audio_bytes_consumed = 0, g_audio_last_advance_wall = 0, g_last_video_deadline_us = 0\<rparr>"

definition started_reader :: reader where
  "started_reader = \<lparr>rs_clock = started_clock,
     rs_buffer = \<lparr>g_seg_fetch_ewma_us = 0, g_video_live_buffer_us = 2000000, g_audio_live_buffer_us = 2000000\<rparr>,
     rs_demux = \<lparr>dm_first_pts = None, dm_video_au_k = 0, dm_last_frame_idx = - 1, dm_frame_count = 0, dm_audio_pts = 0,
                 dm_au_k = None\<rparr>,
     rs_last_v = 10, rs_last_a = 10, rs_work = False, rs_fetched = 0, rs_prefetch = 3, rs_ops = [], rs_got_a = [],
     rs_got_v = [], rs_resyncs = 0\<rparr>"

text \<open>A server that holds the segments from \<open>lo\<close> to \<open>hi\<close>.\<close>

definition server :: "int \<Rightarrow> int \<Rightarrow> reader_env" where
  "server lo hi =
     (let seg = (\<lambda>n. if lo \<le> n \<and> n \<le> hi then Some (Packets []) else None)
      in \<lparr>re_audio = seg, re_video = seg, re_alloc_a = (\<lambda>_. True), re_alloc_v = (\<lambda>_. True), re_run = (\<lambda>_. True),
          re_fetch_us = (\<lambda>_. 1000), re_wall = (\<lambda>n. 9000000 + n), re_arrival = (\<lambda>n. 9500000 + n),
          re_rescale = (\<lambda>d fps. d), re_have_audio = True\<rparr>)"

text \<open>From segment 10 to segment 50 without a resync, although 39 segments were skipped.\<close>

theorem reader_jump_keeps_anchor_witness:
  "let r = video_round (server 50 52) (sample_manifest\<lparr>mf_start_number := 50\<rparr>)
             \<lparr>wn_total = 0, wn_edge = 52, wn_video_target = 50, wn_audio_target = 52, wn_audio_oldest = 50, wn_vfetch_hi = 53\<rparr>
             started_reader
   in rs_got_v r = [50, 51, 52] \<and> rs_resyncs r = 0 \<and> g_anchor_seg (rs_clock r) = 3"
proof -
  let ?m = "sample_manifest\<lparr>mf_start_number := 50\<rparr>"
  let ?w = "\<lparr>wn_total = 0, wn_edge = 52, wn_video_target = 50, wn_audio_target = 52, wn_audio_oldest = 50, wn_vfetch_hi = 53\<rparr>"
  have "rs_resyncs (video_round (server 50 52) ?m ?w started_reader) = rs_resyncs started_reader
      \<and> g_anchor_seg (rs_clock (video_round (server 50 52) ?m ?w started_reader)) = g_anchor_seg (rs_clock started_reader)"
    by (rule reader_jump_keeps_anchor) (simp_all add: started_reader_def started_clock_def)
  moreover have "rs_got_v (video_round (server 50 52) ?m ?w started_reader) = [50, 51, 52]"
    by (simp add: video_round_def started_reader_def started_clock_def sample_manifest_def Let_def
        video_fetches.simps server_def video_segment_effect)
  ultimately show ?thesis by (simp add: Let_def started_reader_def started_clock_def)
qed

section \<open>Audio\<close>

lemma audio_fetches_order:
  "\<exists>new. rs_got_a (audio_fetches e target at r) = rs_got_a r @ new \<and> sorted_wrt (<) new \<and>
     (\<forall>n \<in> set new. at \<le> n \<and> n \<le> target \<and> (rs_last_a r \<ge> 0 \<longrightarrow> rs_last_a r < n)) \<and>
     rs_last_a (audio_fetches e target at r) = (if new = [] then rs_last_a r else List.last new)"
proof (induction e target at r rule: audio_fetches.induct)
  case (1 e target at r)
  show ?case
  proof (cases "re_run e at \<and> at \<le> target \<and> \<not> (rs_last_a r \<ge> 0 \<and> at \<le> rs_last_a r) \<and> re_audio e at \<noteq> None")
    case False
    then have "audio_fetches e target at r = r" by (subst audio_fetches.simps) (auto split: option.split)
    then show ?thesis by auto
  next
    case True
    then obtain io where io: "re_audio e at = Some io" by auto
    let ?r = "if re_alloc_a e at
        then (demux_into e io at None r)\<lparr>rs_last_a := at, rs_work := True, rs_got_a := rs_got_a r @ [at]\<rparr> else r"
    have step: "audio_fetches e target at r = audio_fetches e target (at + 1) ?r"
      using True io by (subst audio_fetches.simps) auto
    obtain new where new: "rs_got_a (audio_fetches e target (at + 1) ?r) = rs_got_a ?r @ new" "sorted_wrt (<) new"
        "\<forall>n \<in> set new. at + 1 \<le> n \<and> n \<le> target \<and> (rs_last_a ?r \<ge> 0 \<longrightarrow> rs_last_a ?r < n)"
        "rs_last_a (audio_fetches e target (at + 1) ?r) = (if new = [] then rs_last_a ?r else List.last new)"
      using 1 [of io] True io by auto
    show ?thesis
    proof (cases "re_alloc_a e at")
      case True
      then show ?thesis
        using new \<open>re_run e at \<and> _\<close> unfolding step by (intro exI [of _ "at # new"]) force
    next
      case False
      then show ?thesis using new unfolding step by (intro exI [of _ new]) force
    qed
  qed
qed

text \<open>
  C24: Audio is never replayed: in every round the segments delivered are in strictly increasing
  order, none beyond the live edge and none at or before the last one delivered, also when the
  server's window rolled past the reader and the buffer was flushed.
\<close>

theorem audio_never_replayed:
  "\<exists>new. rs_got_a (audio_round e m w r) = rs_got_a r @ new \<and> sorted_wrt (<) new \<and>
     (\<forall>n \<in> set new. n \<le> wn_audio_target w \<and> (rs_last_a r \<ge> 0 \<longrightarrow> rs_last_a r < n)) \<and>
     (new \<noteq> [] \<longrightarrow> rs_last_a (audio_round e m w r) = List.last new)"
proof (cases "re_have_audio e")
  case False
  then show ?thesis by (simp add: audio_round_def)
next
  case True
  let ?at0 = "if rs_last_a r < 0 then wn_audio_oldest w else rs_last_a r + 1"
  let ?b = "?at0 < mf_start_number m"
  let ?r1 = "if ?b \<and> rs_last_a r \<ge> 0 then r\<lparr>rs_ops := rs_ops r @ [Audio_Flush]\<rparr> else r"
  let ?r2 = "if ?b then ?r1\<lparr>rs_last_a := mf_start_number m - 1\<rparr> else ?r1"
  let ?at1 = "if ?b then mf_start_number m else ?at0"
  define at2 where "at2 = (if ?at1 > wn_audio_target w then wn_audio_target w else ?at1)"
  have at2: "audio_round e m w r = audio_fetches e (wn_audio_target w) at2 ?r2"
    using True unfolding at2_def audio_round_def Let_def by (simp only: not_True_eq_False if_False)
  obtain new where new: "rs_got_a (audio_round e m w r) = rs_got_a ?r2 @ new" "sorted_wrt (<) new"
      "\<forall>n \<in> set new. at2 \<le> n \<and> n \<le> wn_audio_target w \<and> (rs_last_a ?r2 \<ge> 0 \<longrightarrow> rs_last_a ?r2 < n)"
      "rs_last_a (audio_round e m w r) = (if new = [] then rs_last_a ?r2 else List.last new)"
    using audio_fetches_order [of e "wn_audio_target w" at2 ?r2] unfolding at2 by auto
  have later: "rs_last_a r \<le> rs_last_a ?r2" if "rs_last_a r \<ge> 0" using that by auto
  have "\<forall>n \<in> set new. rs_last_a r \<ge> 0 \<longrightarrow> rs_last_a r < n" using new(3) later by fastforce
  then show ?thesis using new by (intro exI [of _ new]) auto
qed

theorem audio_never_replayed_witness:
  "rs_got_a (audio_round (server 50 52) (sample_manifest\<lparr>mf_start_number := 50\<rparr>)
     \<lparr>wn_total = 0, wn_edge = 52, wn_video_target = 50, wn_audio_target = 52, wn_audio_oldest = 50, wn_vfetch_hi = 53\<rparr>
     started_reader) = [50, 51, 52] \<and> sorted_wrt (<) [50, 51, 52 :: int]"
  using audio_never_replayed [of "server 50 52" "sample_manifest\<lparr>mf_start_number := 50\<rparr>"
     "\<lparr>wn_total = 0, wn_edge = 52, wn_video_target = 50, wn_audio_target = 52, wn_audio_oldest = 50, wn_vfetch_hi = 53\<rparr>"
     started_reader]
  by (simp add: audio_round_def started_reader_def sample_manifest_def Let_def audio_fetches.simps server_def)

section \<open>The live edge\<close>



section \<open>End of the stream\<close>

text \<open>
  The end of a finished stream is declared one segment early: when the last but one segment has
  been fetched and the fetch of the last one fails, the reader reports the end and stops, although
  the last segment was never delivered.
\<close>

theorem reader_eos_before_last_segment:
  assumes "mf_static m" "wn_total w = t" "1 < t" "t < 2 ^ 31" "wn_vfetch_hi w = t" "rs_last_v r = t - 2"
    and "mf_start_number m \<le> t - 1" and "re_run e (t - 1)" "re_video e (t - 1) = Some io" "re_video e t = None"
    and "t \<notin> set (rs_got_v r)"
  shows "(\<exists>u. round_end e m w p k now (video_round e m w r) = End_Of_Stream u)
    \<and> t \<notin> set (rs_got_v (video_round e m w r))"
proof -
  let ?r0 = "if mf_frame_rate m > 0 \<and> mf_frame_rate m \<noteq> g_stream_fps (rs_clock r)
      then r\<lparr>rs_clock := (rs_clock r)\<lparr>g_stream_fps := mf_frame_rate m\<rparr>\<rparr> else r"
  let ?s = "video_segment e m io (t - 1) (?r0\<lparr>rs_fetched := 0\<rparr>)"
  have f: "video_fetches e m t (t - 1) (?r0\<lparr>rs_fetched := 0\<rparr>) = ?s"
  proof -
    have "video_fetches e m t t ?s = ?s" using assms(10) by (subst video_fetches.simps) simp
    then show ?thesis using assms(8,9) by (subst video_fetches.simps) simp
  qed
  have "video_round e m w r = (if rs_fetched ?s > 0 \<and> rs_prefetch ?s < 3 then ?s\<lparr>rs_prefetch := rs_prefetch ?s + 1\<rparr> else ?s)"
  proof -
    have last: "rs_last_v ?r0 = t - 2" using assms(6) by simp
    have c: "\<not> t - 2 < 0" "\<not> t - 2 + 1 < mf_start_number m" "\<not> (t - 2 \<ge> 0 \<and> t < t - 2)" using assms(3,7) by simp_all
    have "t - 2 + 1 = t - 1" by simp
    then show ?thesis
      unfolding video_round_def Let_def assms(5) last if_not_P [OF c(1)] if_not_P [OF c(2)] last if_not_P [OF c(3)] using f by simp
  qed
  then have v: "rs_last_v (video_round e m w r) = t - 1" "rs_got_v (video_round e m w r) = rs_got_v r @ [t - 1]"
    using video_segment_effect [of e m io "t - 1" "?r0\<lparr>rs_fetched := 0\<rparr>"] by auto
  have "I32 t = t" using assms(3,4) by (simp add: I32_def)
  then have "eos_reached m w (video_round e m w r)" using v assms(1-3) by (simp add: eos_reached_def)
  then show ?thesis using v assms(11) by (simp add: round_end_def)
qed

theorem reader_eos_before_last_segment_witness:
  "\<exists>u. round_end (server 1 11) (sample_manifest\<lparr>mf_static := True\<rparr>)
     \<lparr>wn_total = 12, wn_edge = 12, wn_video_target = 9, wn_audio_target = 12, wn_audio_oldest = 9, wn_vfetch_hi = 12\<rparr> 0 0 0
     (video_round (server 1 11) (sample_manifest\<lparr>mf_static := True\<rparr>)
       \<lparr>wn_total = 12, wn_edge = 12, wn_video_target = 9, wn_audio_target = 12, wn_audio_oldest = 9, wn_vfetch_hi = 12\<rparr>
       started_reader) = End_Of_Stream u"
  using reader_eos_before_last_segment [of "sample_manifest\<lparr>mf_static := True\<rparr>"
      "\<lparr>wn_total = 12, wn_edge = 12, wn_video_target = 9, wn_audio_target = 12, wn_audio_oldest = 9, wn_vfetch_hi = 12\<rparr>"
      12 started_reader "server 1 11" "Packets []"]
  by (simp add: sample_manifest_def started_reader_def server_def Let_def)

section \<open>Re-anchoring when audio starts\<close>

text \<open>
  The audio worker sets the start of audio and its delay and then re-anchors on the same segment.
  \<open>before\<close> is the clock until then.
\<close>

definition audio_starts :: "int \<Rightarrow> int \<Rightarrow> av_clock \<Rightarrow> av_clock" where
  "audio_starts start delay before = before\<lparr>g_audio_start_wall_us := start, g_audio_delay_us := delay\<rparr>"

lemma shifted_exact:
  assumes "0 \<le> d" "d < 2 ^ 63" "0 \<le> d + delta" "d + delta < 2 ^ 64"
  shows "uint (shifted delta (of_int d)) = d + delta"
proof -
  have "sint (of_int d :: u64) = d" using assms(1,2) by (simp add: sint_sbintrunc' signed_take_bit_int_eq_self)
  then have "shifted delta (of_int d) = of_int (d + delta)" using assms(3) by (simp only: shifted_def Let_def) simp
  then show ?thesis using assms(3,4) by (simp only:) (simp add: uint_word_of_int take_bit_int_eq_self del: of_int_add)
qed

text \<open>
  When audio starts, the deadlines of the frames already queued are shifted, and the frames
  demultiplexed later get theirs from the new clock. The two disagree by exactly the playout
  latency: a queued frame is due that much later than the same frame would be if it were
  demultiplexed after the start.
\<close>

theorem resync_skews_queued_frames:
  fixes before :: av_clock and start delay wall seg k :: int
  defines "c \<equiv> audio_starts start delay before"
  defines "c' \<equiv> fst (dash_resync (g_anchor_seg before) wall c)"
  defines "old \<equiv> dash_au_deadline before seg k"
  assumes "g_audio_start_wall_us before = 0" "small_time (g_anchor_wall_us before)" "g_anchor_wall_us before \<noteq> 0"
    and "small_time start" "0 < start" "small_time delay" "0 < delay" "small_time (g_playout_latency_us before)"
    and "g_playout_latency_us before \<le> start" and "g_timeline_adj_us before = 0"
    and "start + delay - g_playout_latency_us before \<noteq> g_anchor_wall_us before"
    and "g_anchor_seg before \<le> seg" "0 \<le> k" "small_time (g_seg_duration_us before)"
    and "(seg - g_anchor_seg before) * g_seg_duration_us before + k * frame_period before < 2 ^ 61" "0 \<le> frame_period before"
  shows "\<exists>delta. snd (dash_resync (g_anchor_seg before) wall c) = [Shift delta]
    \<and> uint (shifted delta (of_int old)) = dash_au_deadline c' seg k + g_playout_latency_us before"
proof -
  let ?p = "g_playout_latency_us before" and ?a = "g_anchor_wall_us before"
  let ?off = "(seg - g_anchor_seg before) * g_seg_duration_us before + k * frame_period before"
  let ?new = "start + delay - ?p"
  have b: "0 \<le> ?a" "?a < 2 ^ 61" "start < 2 ^ 61" "delay < 2 ^ 61" "0 \<le> ?p" "?p < 2 ^ 61"
    using assms(5,7,9,11) by (auto simp: small_time_def)
  have segs: "0 \<le> (seg - g_anchor_seg before) * g_seg_duration_us before" using assms(15,17) by (simp add: small_time_def)
  then have nneg: "\<not> (seg - g_anchor_seg before) * g_seg_duration_us before < 0" by simp
  have off: "0 \<le> ?off" using segs assms(16,19) by simp
  have new: "0 < ?new" "?new < 2 ^ 62" using assms(8,10,12) b by simp_all
  have anchor: "resync_anchor wall c = ?new"
    using new assms(8,10) by (simp add: resync_anchor_def c_def audio_starts_def)
  have I: "I64 ?new = ?new" "I64 ?a = ?a" using new b by (simp_all add: I64_id)
  have resync: "dash_resync (g_anchor_seg before) wall c =
      (c\<lparr>g_anchor_wall_us := ?new, g_anchor_seg := g_anchor_seg before, g_timeline_adj_us := 0, g_seg_interval_ewma := 0,
         g_last_seg_arrival_wall := 0, g_cadence_shift_us := 1\<rparr>, [Shift (?new - ?a)])"
    using anchor I assms(6,14) by (simp add: dash_resync_def Let_def c_def audio_starts_def)
  have old: "old = ?a + ?p + ?off"
    using assms(4,5,11,13,17) nneg off b
    by (simp add: old_def dash_au_deadline_def Let_def small_time_def I64_id)
  have c': "c' = c\<lparr>g_anchor_wall_us := ?new, g_anchor_seg := g_anchor_seg before, g_timeline_adj_us := 0,
      g_seg_interval_ewma := 0, g_last_seg_arrival_wall := 0, g_cadence_shift_us := 1\<rparr>"
    using resync by (simp add: c'_def)
  have period: "frame_period c' = frame_period before" by (simp add: c' c_def audio_starts_def frame_period_def)
  have "dash_au_deadline c' seg k = ?new + ?off"
    using assms(7-11,17) nneg off new b period
    by (simp add: dash_au_deadline_def Let_def) (simp add: c' c_def audio_starts_def I64_id small_time_def)
  moreover have "uint (shifted (?new - ?a) (of_int old)) = ?new + ?p + ?off"
  proof -
    have r: "0 \<le> old" "old < 2 ^ 63" using old b off assms(18) by simp_all
    have "old + (?new - ?a) = ?new + ?p + ?off" using old by simp
    moreover have "0 \<le> ?new + ?p + ?off" "?new + ?p + ?off < 2 ^ 64" using new b off assms(18) by simp_all
    ultimately show ?thesis using shifted_exact [OF r, of "?new - ?a"] by simp
  qed
  ultimately show ?thesis using resync by auto
qed

theorem resync_skews_queued_frames_witness:
  "\<exists>delta. snd (dash_resync 3 0 (audio_starts 6000000 250000 started_clock)) = [Shift delta]
    \<and> uint (shifted delta (of_int (dash_au_deadline started_clock 4 0)))
      = dash_au_deadline (fst (dash_resync 3 0 (audio_starts 6000000 250000 started_clock))) 4 0 + 85000"
  using resync_skews_queued_frames [where before = started_clock and start = 6000000 and delay = 250000 and wall = 0
      and seg = 4 and k = 0]
  by (simp add: started_clock_def small_time_def frame_period_def)

text \<open>
  Shifting the deadlines by an amount that keeps them in range leaves the choice of the decode
  worker as it is.
\<close>

definition shift_safe :: "int \<Rightarrow> u64 \<Rightarrow> bool" where
  "shift_safe delta d \<longleftrightarrow> uint d < 2 ^ 63 \<and> 0 \<le> uint d + delta \<and> uint d + delta < 2 ^ 63"

lemma shift_safe_exact:
  assumes "shift_safe delta d"
  shows "uint (shifted delta d) = uint d + delta"
  using shifted_exact [of "uint d" delta] assms by (simp add: shift_safe_def)

lemma below_max: "uint (d :: u64) < 2 ^ 63 \<Longrightarrow> d < - 1"
proof -
  assume "uint d < 2 ^ 63"
  moreover have "- (2 ^ 63) \<le> uint d" using uint_ge_0 [of d] by (rule order_trans [rotated]) simp
  ultimately have "sint d = uint d" by (simp add: sint_uint signed_take_bit_int_eq_self)
  then have "0 \<le> sint d" using uint_ge_0 [of d] by simp
  then have "d \<noteq> - 1" by auto
  then show "d < - 1" by (simp add: word_order.not_eq_extremum)
qed

lemma pick_scan_shift:
  assumes "\<forall>sl \<in> set fs. fs_state sl = SLOT_READY \<longrightarrow> shift_safe delta (fs_deadline_us sl)"
    and "best = - 1 \<and> best' = - 1 \<or> shift_safe delta best \<and> best' = shifted delta best"
  shows "pick_scan i best' idx (map (shift_slot delta) fs) = pick_scan i best idx fs"
  using assms
proof (induction i best idx fs arbitrary: best' rule: pick_scan.induct)
  case (1 i best idx)
  then show ?case by simp
next
  case (2 i best idx sl fs)
  let ?d = "fs_deadline_us sl"
  show ?case
  proof (cases "fs_state sl = SLOT_READY")
    case False
    then show ?thesis using 2 by (simp add: shift_slot_def)
  next
    case True
    then have safe: "shift_safe delta ?d" using 2(3) by simp
    have "shifted delta ?d < best' \<longleftrightarrow> ?d < best"
      using 2(4)
    proof
      assume "best = - 1 \<and> best' = - 1"
      then show ?thesis using safe shift_safe_exact [OF safe] below_max [of ?d] below_max [of "shifted delta ?d"]
        by (simp add: shift_safe_def)
    next
      assume "shift_safe delta best \<and> best' = shifted delta best"
      then show ?thesis using shift_safe_exact [OF safe] shift_safe_exact [of delta best] by (simp add: word_less_def)
    qed
    then show ?thesis using 2 True safe by (simp add: shift_slot_def)
  qed
qed

text \<open>
  A resync does not change the decode order: as long as no shifted deadline leaves its range,
  the decode worker picks the same slot before and after the shift.
\<close>

theorem resync_keeps_decode_order:
  assumes "\<forall>sl \<in> set (sh_slots sh). fs_state sl = SLOT_READY \<longrightarrow> shift_safe delta (fs_deadline_us sl)"
  shows "\<exists>sh'. do_op now (Shift delta) sh = Some sh' \<and> slot_pick (sh_slots sh') = slot_pick (sh_slots sh)"
  using pick_scan_shift [OF assms, of "- 1" "- 1" 0 None] by (simp add: do_op_def slot_pick_def)

definition ready_at :: "u64 \<Rightarrow> vmc_frame_slot" where
  "ready_at d = \<lparr>fs_buf = [], fs_len = 0, fs_send_ts = 0, fs_pub_us = 0, fs_deadline_us = d, fs_fidx = 0, fs_pts_us = 0,
     fs_seg = 0, fs_state = SLOT_READY\<rparr>"

theorem resync_keeps_decode_order_witness:
  "\<exists>sh'. do_op 0 (Shift 240000) \<lparr>sh_slots = [ready_at 900000, ready_at 500000], sh_queue = present_empty [],
      sh_audio = \<lparr>rb_data = [], rb_cmask = 0, rb_head = 0, rb_tail = 0, rb_count = 0\<rparr>\<rparr> = Some sh' \<and> slot_pick (sh_slots sh') = Some 1"
  using resync_keeps_decode_order [of "\<lparr>sh_slots = [ready_at 900000, ready_at 500000], sh_queue = present_empty [],
      sh_audio = \<lparr>rb_data = [], rb_cmask = 0, rb_head = 0, rb_tail = 0, rb_count = 0\<rparr>\<rparr>" 240000 0]
  by (simp add: ready_at_def shift_safe_def slot_pick_def)

section \<open>Identity of frames\<close>

text \<open>
  A frame that the demultiplexer delivers in two packets is published under two identities:
  the units of the first packet carry its frame number and content time, those of the second
  frame number 0 and time 0; only the deadline is shared, if the clock stands still.
\<close>

theorem demux_second_packet_anonymous:
  assumes "g_stream_fps c > 0" "rescale 0 (g_stream_fps c) = k" "0 \<le> k" "dm_first_pts s = Some t"
    and "dm_last_frame_idx s \<noteq> k" "u \<noteq> []" "v \<noteq> []"
  shows "fst (demux_packets rescale seg [Video (Some t) [u] c, Video (Some t) [v] c] s)
    = [Publish u (dash_au_deadline c seg k) (dm_frame_count s) (content_pts c seg k) seg,
       Publish v (dash_au_deadline c seg k) 0 0 seg]"
  using assms by (simp add: demux_packet_def frame_index_def identity_def Let_def)

theorem demux_second_packet_anonymous_witness:
  "fst (demux_packets (\<lambda>d fps. d) 4 [Video (Some 7) [[1]] started_clock, Video (Some 7) [[2]] started_clock]
     (rs_demux started_reader\<lparr>dm_first_pts := Some 7, dm_frame_count := 72\<rparr>))
   = [Publish [1] (dash_au_deadline started_clock 4 0) 72 3000000 4, Publish [2] (dash_au_deadline started_clock 4 0) 0 0 4]"
  using demux_second_packet_anonymous [of started_clock "\<lambda>d fps. d" 0
      "rs_demux started_reader\<lparr>dm_first_pts := Some 7, dm_frame_count := 72\<rparr>" 7 "[1]" "[2]" 4]
  by (simp add: started_clock_def started_reader_def content_pts_def)

end
