(* ===== verification/Audio_Worker.thy ===== *)
theory Audio_Worker
  imports Dash_Reader Audio_Mixer
begin

text \<open>
  The audio worker of the stream client (\<open>audio_worker\<close> in \<open>apps/thinclient/main.c\<close>): the initial
  fill, one period read from the audio buffer and padded with silence when the buffer is short,
  the audio clock, and the start of audio with its resync. The rendered periods are a log; what
  the sink answers and what the reader does to the buffer while the worker waits are arguments.
\<close>

section \<open>Constants\<close>

definition VMC_AUDIO_FRAME_BYTES :: nat where [const_defs]: "VMC_AUDIO_FRAME_BYTES = 960"

definition VMC_AUDIO_PREFILL_TARGET :: nat where
  "VMC_AUDIO_PREFILL_TARGET = (nat VMC_AUDIO_PREFILL_US * VMC_AUDIO_CHANNELS * 2 * VMC_AUDIO_SAMPLE_RATE) div 1000000"

section \<open>A period\<close>

definition fifo_level :: "vmc_ringbuf \<Rightarrow> nat" where
  "fifo_level rb = unat (vmc_ringbuf_used rb)"

text \<open>The wait before playback ends when the buffer is filled or the worker is stopped.\<close>

definition prefill_done :: "bool \<Rightarrow> vmc_ringbuf \<Rightarrow> bool" where
  "prefill_done g_run_audio rb \<longleftrightarrow> \<not> (g_run_audio \<and> fifo_level rb < VMC_AUDIO_PREFILL_TARGET)"

text \<open>
  Up to 40 waits of 5 ms for a full period. Each entry of the script is one wait: the run flag
  before it and what the reader did to the buffer meanwhile.
\<close>

fun await_period :: "nat \<Rightarrow> (bool \<times> (vmc_ringbuf \<Rightarrow> vmc_ringbuf)) list \<Rightarrow> vmc_ringbuf \<Rightarrow> vmc_ringbuf" where
  "await_period waited [] rb = rb"
| "await_period waited ((run, f) # es) rb =
     (if fifo_level rb < VMC_AUDIO_FRAME_BYTES \<and> run \<and> waited < 40 then await_period (waited + 1) es (f rb) else rb)"

definition zeros :: "nat \<Rightarrow> bytes" where
  "zeros n = replicate n 0"

text \<open>The period, the number of bytes in it that came from the buffer, and the buffer after.\<close>

definition read_period :: "bytes \<Rightarrow> vmc_ringbuf \<Rightarrow> bytes \<times> nat \<times> vmc_ringbuf" where
  "read_period pcm rb =
     (let avail = fifo_level rb in
      if avail \<ge> VMC_AUDIO_FRAME_BYTES
      then (case vmc_ringbuf_read rb (Some pcm) (of_nat VMC_AUDIO_FRAME_BYTES) of
              (n, out, rb') \<Rightarrow> (the out, VMC_AUDIO_FRAME_BYTES, rb'))
      else if avail > 0
      then (case vmc_ringbuf_read rb (Some pcm) (of_nat avail) of
              (n, out, rb') \<Rightarrow>
                (mem_write (the out) (unat n) (zeros (VMC_AUDIO_FRAME_BYTES - unat n)), avail, rb'))
      else (mem_write pcm 0 (zeros VMC_AUDIO_FRAME_BYTES), 0, rb))"

section \<open>The audio clock\<close>

record audio_worker =
  aw_clock :: av_clock
  aw_fifo :: vmc_ringbuf
  aw_pcm :: bytes
  aw_rendered :: "bytes list"
  aw_last_alsa_pos_us :: int
  aw_ewma :: int

text \<open>The position: what the sink reports, or an estimate from the bytes fed to it.\<close>

definition audio_position :: "int option \<Rightarrow> nat \<Rightarrow> int \<Rightarrow> audio_worker \<Rightarrow> audio_worker" where
  "audio_position pos data_n wall w =
     (let c = aw_clock w in
      case pos of
        Some p \<Rightarrow>
          let c1 = c\<lparr>g_audio_pos_us := p, g_audio_active := True\<rparr>
          in if p \<noteq> aw_last_alsa_pos_us w
             then w\<lparr>aw_clock := c1\<lparr>g_audio_last_advance_wall := U64 wall\<rparr>, aw_last_alsa_pos_us := p\<rparr>
             else w\<lparr>aw_clock := c1\<rparr>
      | None \<Rightarrow>
          if data_n > 0
          then let fed = U64 (g_audio_bytes_consumed c + int data_n);
                   c1 = c\<lparr>g_audio_bytes_consumed := fed, g_audio_active := True, g_audio_last_advance_wall := U64 wall\<rparr>
               in w\<lparr>aw_clock :=
                      (if g_audio_start_wall_us c1 \<noteq> 0
                       then c1\<lparr>g_audio_pos_us :=
                              U64 (g_audio_start_wall_us c1 + U64 (fed div 4 * 1000000) div int VMC_AUDIO_SAMPLE_RATE)\<rparr>
                       else c1)\<rparr>
          else w)"

definition audio_delay :: "int option \<Rightarrow> audio_worker \<Rightarrow> audio_worker" where
  "audio_delay delay w =
     (case delay of
        None \<Rightarrow> w
      | Some d \<Rightarrow>
          let e = (if aw_ewma w = 0 then d else U64 (15 * aw_ewma w + d) div 16)
          in w\<lparr>aw_ewma := e, aw_clock := (aw_clock w)\<lparr>g_audio_delay_us := e\<rparr>\<rparr>)"

text \<open>The start of audio: the first period after which the clock is active.\<close>

definition audio_start :: "int \<Rightarrow> int option \<Rightarrow> int \<Rightarrow> audio_worker \<Rightarrow> audio_worker \<times> shared_op list" where
  "audio_start wall delay wall2 w =
     (let c = aw_clock w in
      if g_audio_active c \<and> g_audio_start_wall_us c = 0
      then let c1 = c\<lparr>g_audio_start_wall_us := U64 wall\<rparr>;
               c2 = (case delay of Some d \<Rightarrow> c1\<lparr>g_audio_delay_us := d\<rparr> | None \<Rightarrow> c1)
           in if g_anchor_seg c2 \<noteq> 0
              then (case dash_resync (g_anchor_seg c2) wall2 c2 of (c3, ops) \<Rightarrow> (w\<lparr>aw_clock := c3\<rparr>, ops))
              else (w\<lparr>aw_clock := c2\<rparr>, [])
      else (w, []))"

text \<open>What one round of the worker sees.\<close>

record audio_view =
  av_playing :: bool
  av_video_ready :: bool
  av_waits :: "(bool \<times> (vmc_ringbuf \<Rightarrow> vmc_ringbuf)) list"
  av_position :: "int option"
  av_delay :: "int option"
  av_start_delay :: "int option"
  av_wall :: int
  av_start_wall :: int
  av_resync_wall :: int

definition audio_round_step :: "audio_view \<Rightarrow> audio_worker \<Rightarrow> audio_worker \<times> shared_op list" where
  "audio_round_step v w =
     (if \<not> av_playing v then (w, [])
      else if g_audio_start_wall_us (aw_clock w) = 0 \<and> \<not> av_video_ready v then (w, [])
      else case read_period (aw_pcm w) (await_period 0 (av_waits v) (aw_fifo w)) of
             (pcm, data_n, rb) \<Rightarrow>
               let w1 = w\<lparr>aw_pcm := pcm, aw_fifo := rb, aw_rendered := aw_rendered w @ [pcm]\<rparr>;
                   w2 = audio_position (av_position v) data_n (av_wall v) w1;
                   w3 = audio_delay (av_delay v) w2
               in audio_start (av_start_wall v) (av_start_delay v) (av_resync_wall v) w3)"

section \<open>Periods carry the stream\<close>

lemma read_period_exact:
  assumes inv: "rb_inv rb" and pcm: "length pcm = VMC_AUDIO_FRAME_BYTES"
    and r: "read_period pcm rb = (out, n, rb')"
  shows "rb_inv rb' \<and> n = min VMC_AUDIO_FRAME_BYTES (length (rb_list rb)) \<and> rb_list rb' = drop n (rb_list rb)
    \<and> out = take n (rb_list rb) @ zeros (VMC_AUDIO_FRAME_BYTES - n)"
proof -
  have len: "length (rb_list rb) = fifo_level rb" using inv by (simp add: fifo_level_def vmc_ringbuf_used_def)
  have small: "unat (of_nat (min VMC_AUDIO_FRAME_BYTES (fifo_level rb)) :: sz_t) = min VMC_AUDIO_FRAME_BYTES (fifo_level rb)"
    by (simp add: unat_of_nat take_bit_nat_eq_self const_defs)
  consider (full) "fifo_level rb \<ge> VMC_AUDIO_FRAME_BYTES" | (part) "fifo_level rb < VMC_AUDIO_FRAME_BYTES" "fifo_level rb > 0"
    | (none) "fifo_level rb = 0" by linarith
  then show ?thesis
  proof cases
    case full
    obtain k o1 where k: "vmc_ringbuf_read rb (Some pcm) (of_nat VMC_AUDIO_FRAME_BYTES) = (k, o1, rb')" "out = the o1"
        "n = VMC_AUDIO_FRAME_BYTES"
      using r full by (auto simp: read_period_def Let_def split: prod.splits)
    have u: "unat (of_nat VMC_AUDIO_FRAME_BYTES :: sz_t) = VMC_AUDIO_FRAME_BYTES" using small full by (simp add: min_def)
    note rd = vmc_ringbuf_read_correct [OF inv _ k(1), unfolded u pcm, OF order_refl]
    have "unat k = n" using rd(4) full k(3) by (simp add: fifo_level_def vmc_ringbuf_used_def)
    then show ?thesis using rd k len full pcm
      by (simp add: mem_write_def zeros_def)
  next
    case part
    obtain k o1 where k: "vmc_ringbuf_read rb (Some pcm) (of_nat (fifo_level rb)) = (k, o1, rb')"
        "out = mem_write (the o1) (unat k) (zeros (VMC_AUDIO_FRAME_BYTES - unat k))" "n = fifo_level rb"
      using r part by (auto simp: read_period_def Let_def split: prod.splits)
    have u: "unat (of_nat (fifo_level rb) :: sz_t) = fifo_level rb" using small part by (simp add: min_def)
    have "unat (of_nat (fifo_level rb) :: sz_t) \<le> length pcm" using u part pcm by simp
    note rd = vmc_ringbuf_read_correct [OF inv this k(1), unfolded u]
    have kn: "unat k = n" using rd(4) k(3) by (simp add: fifo_level_def vmc_ringbuf_used_def)
    then show ?thesis using rd k len part pcm by (simp add: mem_write_def zeros_def)
  next
    case none
    then show ?thesis using r inv len pcm by (auto simp: read_period_def Let_def mem_write_def zeros_def const_defs)
  qed
qed

text \<open>A wait in which the reader writes \<open>bs\<close>, and what the buffer accepts over a script of such waits.\<close>

definition write_wait :: "bytes \<Rightarrow> bool \<times> (vmc_ringbuf \<Rightarrow> vmc_ringbuf)" where
  "write_wait bs = (True, \<lambda>rb. snd (audio_fifo_write_raw bs rb))"

fun accepted :: "nat \<Rightarrow> bytes list \<Rightarrow> vmc_ringbuf \<Rightarrow> bytes" where
  "accepted waited [] rb = []"
| "accepted waited (bs # es) rb =
     (if fifo_level rb < VMC_AUDIO_FRAME_BYTES \<and> waited < 40
      then take (length (rb_data rb) - length (rb_list rb)) bs @ accepted (waited + 1) es (snd (audio_fifo_write_raw bs rb))
      else [])"

lemma write_raw_appends:
  assumes "rb_inv rb" "length bs < 2 ^ 64"
  shows "rb_inv (snd (audio_fifo_write_raw bs rb))"
    "rb_list (snd (audio_fifo_write_raw bs rb)) = rb_list rb @ take (length (rb_data rb) - length (rb_list rb)) bs"
proof -
  obtain n rb' where w: "vmc_ringbuf_write rb bs (of_nat (length bs)) = (n, rb')" by fastforce
  have u: "unat (of_nat (length bs) :: sz_t) = length bs" using assms(2) by (simp add: unat_of_nat take_bit_nat_eq_self)
  note wr = vmc_ringbuf_write_correct [OF assms(1) _ w, unfolded u, OF order_refl]
  show "rb_inv (snd (audio_fifo_write_raw bs rb))" using wr(1) w by (simp add: audio_fifo_write_raw_def)
  show "rb_list (snd (audio_fifo_write_raw bs rb)) = rb_list rb @ take (length (rb_data rb) - length (rb_list rb)) bs"
    using wr(2,3) w assms(1) by (simp add: audio_fifo_write_raw_def min_def)
qed

lemma await_period_appends:
  "rb_inv rb \<Longrightarrow> \<forall>bs \<in> set es. length bs < 2 ^ 64 \<Longrightarrow>
   rb_inv (await_period waited (map write_wait es) rb) \<and>
   rb_list (await_period waited (map write_wait es) rb) = rb_list rb @ accepted waited es rb"
proof (induction waited es rb rule: accepted.induct)
  case (2 waited bs es rb)
  then show ?case using write_raw_appends [of rb bs] by (simp add: write_wait_def)
qed simp

text \<open>
  C26: A round of the audio worker hands exactly one period of 960 bytes to the sink, and no byte of
  the stream is lost, repeated or moved: what was buffered and what the reader added while the
  worker waited is the data part of the period followed by what is still buffered. Silence is
  appended only where the buffer ran out.
\<close>

theorem audio_round_conserves:
  assumes "rb_inv (aw_fifo w)" "length (aw_pcm w) = VMC_AUDIO_FRAME_BYTES" "\<forall>bs \<in> set es. length bs < 2 ^ 64"
    and "av_playing v" "g_audio_start_wall_us (aw_clock w) \<noteq> 0 \<or> av_video_ready v" "av_waits v = map write_wait es"
    and "audio_round_step v w = (w', ops)"
  shows "\<exists>data. aw_rendered w' = aw_rendered w @ [data @ zeros (VMC_AUDIO_FRAME_BYTES - length data)]
    \<and> rb_list (aw_fifo w) @ accepted 0 es (aw_fifo w) = data @ rb_list (aw_fifo w')
    \<and> length data = min VMC_AUDIO_FRAME_BYTES (length (rb_list (aw_fifo w) @ accepted 0 es (aw_fifo w)))
    \<and> rb_inv (aw_fifo w') \<and> length (aw_pcm w') = VMC_AUDIO_FRAME_BYTES"
proof -
  let ?rb = "await_period 0 (map write_wait es) (aw_fifo w)"
  obtain pcm n rb' where p: "read_period (aw_pcm w) ?rb = (pcm, n, rb')" by (cases "read_period (aw_pcm w) ?rb")
  have keep: "aw_fifo (audio_position a b c x) = aw_fifo x" "aw_rendered (audio_position a b c x) = aw_rendered x"
    "aw_pcm (audio_position a b c x) = aw_pcm x" "aw_fifo (audio_delay d x) = aw_fifo x"
    "aw_rendered (audio_delay d x) = aw_rendered x" "aw_pcm (audio_delay d x) = aw_pcm x"
    "aw_fifo (fst (audio_start f d g x)) = aw_fifo x" "aw_rendered (fst (audio_start f d g x)) = aw_rendered x"
    "aw_pcm (fst (audio_start f d g x)) = aw_pcm x" for a b c d f g x
    by (simp_all add: audio_position_def audio_delay_def audio_start_def Let_def split: option.split prod.split)
  have w': "aw_fifo w' = rb'" "aw_rendered w' = aw_rendered w @ [pcm]" "aw_pcm w' = pcm"
  proof -
    have "w' = fst (audio_round_step v w)" using assms(7) by simp
    then show "aw_fifo w' = rb'" "aw_rendered w' = aw_rendered w @ [pcm]" "aw_pcm w' = pcm"
      using assms(4-6) p by (auto simp: audio_round_step_def Let_def keep)
  qed
  note aw = await_period_appends [OF assms(1,3), of 0]
  note ex = read_period_exact [OF conjunct1 [OF aw] assms(2) p]
  obtain L where L: "rb_list ?rb = L" "rb_list (aw_fifo w) @ accepted 0 es (aw_fifo w) = L" using aw by simp
  have n: "n = min VMC_AUDIO_FRAME_BYTES (length L)" "rb_list rb' = drop n L" "rb_inv rb'"
      "pcm = take n L @ zeros (VMC_AUDIO_FRAME_BYTES - n)"
    using ex unfolding L(1) by simp_all
  have "length (take n L) = n" "length pcm = VMC_AUDIO_FRAME_BYTES" using n(1,4) by (simp_all add: zeros_def)
  then show ?thesis unfolding L(2) w' using n by (intro exI [of _ "take n L"]) simp
qed

definition idle_worker :: audio_worker where
  "idle_worker = \<lparr>aw_clock = started_clock, aw_fifo = ring4, aw_pcm = zeros VMC_AUDIO_FRAME_BYTES, aw_rendered = [],
     aw_last_alsa_pos_us = 0, aw_ewma = 0\<rparr>"

definition sample_view :: audio_view where
  "sample_view = \<lparr>av_playing = True, av_video_ready = True, av_waits = map write_wait [[5, 6], [7]],
     av_position = Some 6000000, av_delay = Some 250000, av_start_delay = Some 250000, av_wall = 6000000,
     av_start_wall = 6000000, av_resync_wall = 6000100\<rparr>"

theorem audio_round_conserves_witness:
  "\<exists>data. aw_rendered (fst (audio_round_step sample_view idle_worker)) = [data @ zeros (VMC_AUDIO_FRAME_BYTES - length data)]
    \<and> accepted 0 [[5, 6], [7]] ring4 = data @ rb_list (aw_fifo (fst (audio_round_step sample_view idle_worker)))"
proof -
  obtain w' ops where w': "audio_round_step sample_view idle_worker = (w', ops)" by fastforce
  have "\<exists>data. aw_rendered w' = aw_rendered idle_worker @ [data @ zeros (VMC_AUDIO_FRAME_BYTES - length data)]
    \<and> rb_list (aw_fifo idle_worker) @ accepted 0 [[5, 6], [7]] (aw_fifo idle_worker) = data @ rb_list (aw_fifo w')
    \<and> length data = min VMC_AUDIO_FRAME_BYTES (length (rb_list (aw_fifo idle_worker) @ accepted 0 [[5, 6], [7]] (aw_fifo idle_worker)))
    \<and> rb_inv (aw_fifo w') \<and> length (aw_pcm w') = VMC_AUDIO_FRAME_BYTES"
    using w' by (intro audio_round_conserves [where v = sample_view])
      (simp_all add: idle_worker_def sample_view_def ring4_inv zeros_def)
  then show ?thesis using w' by (auto simp: idle_worker_def ring4_list)
qed

section \<open>The start of audio\<close>

text \<open>
  The first active round starts the audio clock and re-anchors the picture on it: the first
  frame of the anchor segment is due when the first audio sample is heard, less the playout
  latency, and at that hearing time the audio content position is 0. Later rounds leave the start
  alone.
\<close>

theorem audio_start_anchors:
  assumes "g_audio_active (aw_clock w)" "g_audio_start_wall_us (aw_clock w) = 0" "g_anchor_seg (aw_clock w) \<noteq> 0"
    and "small_time wall" "0 < wall" "small_time d" "0 < d" "small_time (g_playout_latency_us (aw_clock w))"
    and "g_playout_latency_us (aw_clock w) < wall"
    and "audio_start wall (Some d) wall2 w = (w', ops)"
  shows "dash_au_deadline (aw_clock w') (g_anchor_seg (aw_clock w)) 0 = wall + d - g_playout_latency_us (aw_clock w)
    \<and> tlm_audio_content_at_wall (aw_clock w') (wall + d) = 0
    \<and> (\<forall>x y z. audio_start x y z w' = (w', []))"
proof -
  let ?c = "aw_clock w"
  let ?p = "g_playout_latency_us ?c"
  let ?c2 = "?c\<lparr>g_audio_start_wall_us := wall, g_audio_delay_us := d\<rparr>"
  have b: "0 \<le> ?p" "wall < 2 ^ 61" "d < 2 ^ 61" "0 < wall + d - ?p" "wall + d - ?p < 2 ^ 62"
    using assms(4-9) by (simp_all add: small_time_def)
  have "U64 wall = wall" using b assms(5) by simp
  then have w': "w' = w\<lparr>aw_clock := fst (dash_resync (g_anchor_seg ?c) wall2 ?c2)\<rparr>"
    using assms(1-3,10) by (simp add: audio_start_def Let_def split: prod.splits)
  have anchor: "resync_anchor wall2 ?c2 = wall + d - ?p" using b assms(5,7) by (simp add: resync_anchor_def)
  obtain e where c': "aw_clock w' = ?c2\<lparr>g_anchor_wall_us := wall + d - ?p, g_anchor_seg := g_anchor_seg ?c,
      g_timeline_adj_us := 0, g_seg_interval_ewma := 0, g_last_seg_arrival_wall := 0, g_cadence_shift_us := e\<rparr>"
  proof (cases "snd (dash_resync (g_anchor_seg ?c) wall2 ?c2) = []")
    case True
    then show ?thesis
      using that [of "g_cadence_shift_us ?c"] w' anchor by (simp add: dash_resync_def Let_def split: if_splits)
  next
    case False
    then show ?thesis using that [of 1] w' anchor by (simp add: dash_resync_def Let_def split: if_splits)
  qed
  show ?thesis using b assms(1,4-8) c'
    by (simp add: dash_au_deadline_def tlm_audio_content_at_wall_def audio_start_def I64_id Let_def)
qed

theorem audio_start_anchors_witness:
  "dash_au_deadline (aw_clock (fst (audio_start 6000000 (Some 250000) 0
     (idle_worker\<lparr>aw_clock := started_clock\<lparr>g_audio_active := True\<rparr>\<rparr>)))) 3 0 = 6165000"
proof -
  obtain w' ops where "audio_start 6000000 (Some 250000) 0
     (idle_worker\<lparr>aw_clock := started_clock\<lparr>g_audio_active := True\<rparr>\<rparr>) = (w', ops)" by fastforce
  then show ?thesis
    using audio_start_anchors [where w = "idle_worker\<lparr>aw_clock := started_clock\<lparr>g_audio_active := True\<rparr>\<rparr>"
        and wall = 6000000 and d = 250000 and ?wall2.0 = 0 and w' = w' and ops = ops]
    by (simp add: started_clock_def small_time_def)
qed

end
