(* ===== verification/Sim_Server.thy ===== *)
theory Sim_Server
  imports Wire_Protocol Fragment_Assembler Input_Batch Ascii_Text
begin

unbundle bit_operations_syntax

text \<open>
  The streaming server that stands in for the container and the mapper (\<open>tools/vmc_sim/main.c\<close>):
  cutting an Annex-B byte stream into access units, sending a unit as one datagram or as numbered
  chunks, sending audio periods, answering keep-alives and route requests, and the pacing of
  frames. Whether a datagram is dropped on purpose, the answers of the socket and the clock are
  parameters; what is sent is a list of datagrams. The encoder processes are not modelled.
\<close>

section \<open>Cutting the stream\<close>

definition SIM_CHUNK :: nat where [const_defs]: "SIM_CHUNK = VMC_VIDEO_FRAG_CHUNK"
definition SIM_IBUF_CAP :: nat where [const_defs]: "SIM_IBUF_CAP = 4 * 1024 * 1024"
definition SIM_AUDIO_FRAME_BYTES :: nat where [const_defs]: "SIM_AUDIO_FRAME_BYTES = 48000 div 1000 * 5 * 2 * 2"

text \<open>The two buffers are their contents, each with its capacity.\<close>

record au_asm =
  aa_au :: bytes
  aa_au_cap :: nat
  aa_pend :: bytes
  aa_pend_cap :: nat
  aa_key :: bool
  aa_have :: bool

definition au_asm_reset :: "au_asm \<Rightarrow> au_asm" where
  "au_asm_reset st = st\<lparr>aa_au := [], aa_pend := [], aa_have := False, aa_key := False\<rparr>"

definition au_append :: "bytes \<Rightarrow> nat \<Rightarrow> bytes \<Rightarrow> bytes" where
  "au_append dst cap data = (if length dst + length data > cap then dst else dst @ data)"

definition start_code :: "nat \<Rightarrow> bytes" where
  "start_code slen = (if slen = 3 then [0, 0, 1] else [0, 0, 0, 1])"

definition push_au :: "bytes \<Rightarrow> au_asm \<Rightarrow> au_asm" where
  "push_au bs st = st\<lparr>aa_au := au_append (aa_au st) (aa_au_cap st) bs\<rparr>"

definition push_pend :: "bytes \<Rightarrow> au_asm \<Rightarrow> au_asm" where
  "push_pend bs st = st\<lparr>aa_pend := au_append (aa_pend st) (aa_pend_cap st) bs\<rparr>"

definition is_vcl :: "bytes \<Rightarrow> bool" where
  "is_vcl body \<longleftrightarrow> body \<noteq> [] \<and> 1 \<le> hd body AND 0x1F \<and> hd body AND 0x1F \<le> 5"

text \<open>
  One unit of the stream. A picture slice while a unit is held completes that unit, which is
  returned with its key flag; the slice itself is not taken.
\<close>

definition au_feed :: "nat \<Rightarrow> bytes \<Rightarrow> au_asm \<Rightarrow> (bytes \<times> bool) option \<times> au_asm" where
  "au_feed slen body st =
     (if body = [] then (None, st)
      else if is_vcl body \<and> aa_have st then (Some (aa_au st, aa_key st), au_asm_reset st)
      else if is_vcl body
      then let st1 = st\<lparr>aa_have := True, aa_key := (hd body AND 0x1F = 5)\<rparr>;
               st2 = (if aa_pend st1 \<noteq> [] then (push_au (aa_pend st1) st1)\<lparr>aa_pend := []\<rparr> else st1)
           in (None, push_au body (push_au (start_code slen) st2))
      else if aa_have st then (None, push_au body (push_au (start_code slen) st))
      else (None, push_pend body (push_pend (start_code slen) st)))"

text \<open>The first start code at or after an offset, with its length.\<close>

fun scan_start :: "nat \<Rightarrow> bytes \<Rightarrow> (nat \<times> nat) option" where
  "scan_start i (a # b # c # s) =
     (if a = 0 \<and> b = 0 \<and> c = 1 then Some (i, 3)
      else if s \<noteq> [] \<and> a = 0 \<and> b = 0 \<and> c = 0 \<and> hd s = 1 then Some (i, 4)
      else scan_start (i + 1) (b # c # s))"
| "scan_start i s = None"

definition find_start :: "bytes \<Rightarrow> nat \<Rightarrow> (nat \<times> nat) option" where
  "find_start buf from = scan_start from (drop from buf)"

lemma scan_start_bounds: "scan_start i s = Some (j, n) \<Longrightarrow> i \<le> j \<and> (n = 3 \<or> n = 4) \<and> j + n \<le> i + length s"
proof (induction i s rule: scan_start.induct)
  case (1 i a b c s)
  then show ?case by (cases s) (auto split: if_splits)
qed auto

lemma find_start_bounds:
  assumes "find_start buf from = Some (j, n)"
  shows "from \<le> j \<and> (n = 3 \<or> n = 4) \<and> j + n \<le> length buf"
proof -
  have "from \<le> j \<and> (n = 3 \<or> n = 4) \<and> j + n \<le> from + length (drop from buf)"
    using assms scan_start_bounds [of "from" "drop from buf" j n] by (simp add: find_start_def)
  moreover have "drop from buf \<noteq> []" using assms by (auto simp: find_start_def)
  ultimately show ?thesis by auto
qed

text \<open>
  Feeding every unit that ends before another start code. The result is the completed unit, if
  any, with the number of bytes used up; a unit that completes another is fed again later.
\<close>

function process_nalus :: "bytes \<Rightarrow> nat \<Rightarrow> au_asm \<Rightarrow> (bytes \<times> bool) option \<times> nat \<times> au_asm" where
  "process_nalus buf pos st =
     (if pos + 4 \<le> length buf
      then case find_start buf pos of
             None \<Rightarrow> (None, pos, st)
           | Some (sc, slen) \<Rightarrow>
               (case find_start buf (sc + slen) of
                  None \<Rightarrow> (None, pos, st)
                | Some (nxt, _) \<Rightarrow>
                    (case au_feed slen (take (nxt - (sc + slen)) (drop (sc + slen) buf)) st of
                       (Some au, st1) \<Rightarrow> (Some au, sc, st1)
                     | (None, st1) \<Rightarrow> process_nalus buf nxt st1))
      else (None, pos, st))"
  by pat_completeness auto
termination
proof (relation "measure (\<lambda>(buf, pos, _). length buf - pos)", goal_cases)
  case (2 buf pos st a sc slen b nxt n o1 st1)
  then show ?case using find_start_bounds [of buf pos sc slen] find_start_bounds [of buf "sc + slen" nxt n] by auto
qed simp

declare process_nalus.simps [simp del]

section \<open>Sending\<close>

record sim_ctx =
  sim_have_client :: bool
  sim_client :: nat
  sim_video_seq :: u32
  sim_audio_seq :: u32
  sim_sent :: u64
  sim_control_rx :: u64
  sim_input_rx :: u64
  sim_audio_frames :: u64

datatype sendto_result = Taken | Would_Block | Send_Failed

text \<open>At most 200 attempts while the socket would block; the result says whether it was sent.\<close>

fun udp_tries :: "(nat \<Rightarrow> sendto_result) \<Rightarrow> nat \<Rightarrow> nat \<Rightarrow> bool" where
  "udp_tries answer i 0 = False"
| "udp_tries answer i (Suc n) =
     (case answer i of Taken \<Rightarrow> True | Would_Block \<Rightarrow> udp_tries answer (Suc i) n | Send_Failed \<Rightarrow> False)"

definition udp_send :: "(nat \<Rightarrow> sendto_result) \<Rightarrow> bytes \<Rightarrow> bytes list" where
  "udp_send answer pkt = (if udp_tries answer 0 200 then [pkt] else [])"

definition media_header :: "u8 \<Rightarrow> u8 \<Rightarrow> u16 \<Rightarrow> u32 \<Rightarrow> u32 \<Rightarrow> vmc_proto_header" where
  "media_header flags stream len seq ts =
     zero_header\<lparr>ph_magic := VMC_PROTO_MAGIC, ph_version := VMC_PROTO_VERSION, ph_flags := flags,
       ph_stream := stream, ph_payload_len := len, ph_seq := seq, ph_ts_us := ts\<rparr>"

text \<open>One datagram from the packet buffer \<open>stack\<close>, whose old contents are arbitrary.\<close>

definition send_frame :: "bytes \<Rightarrow> (nat \<Rightarrow> sendto_result) \<Rightarrow> bool \<Rightarrow> vmc_proto_header \<Rightarrow> bytes option \<Rightarrow> bytes list" where
  "send_frame stack answer dropped h payload =
     (case vmc_proto_encode (Some stack) (of_nat (length stack)) (Some h) payload of
        (st, Some pkt) \<Rightarrow> if st > 0 \<and> \<not> dropped then udp_send answer (take (nat st) pkt) else []
      | (st, None) \<Rightarrow> [])"

text \<open>
  The chunks of a unit from offset \<open>off\<close>. \<open>dropped\<close> and \<open>answer\<close> are asked per sequence number.
\<close>

function send_chunks ::
  "bytes \<Rightarrow> (u32 \<Rightarrow> nat \<Rightarrow> sendto_result) \<Rightarrow> (u32 \<Rightarrow> bool) \<Rightarrow> bytes \<Rightarrow> bool \<Rightarrow> u32 \<Rightarrow> u16 \<Rightarrow> nat \<Rightarrow> u16 \<Rightarrow> u32
     \<Rightarrow> bytes list \<times> u32" where
  "send_chunks stack answer dropped data key ts frame_id off idx seq =
     (if off < length data
      then let cl = min (length data - off) SIM_CHUNK;
               lst = (off + cl \<ge> length data);
               fh_idx = idx OR (if lst then VMC_VIDEO_FRAG_LAST else 0);
               fh = vmc_video_frag_hdr_pack [0, 0, 0, 0] frame_id fh_idx;
               h = media_header (VMC_PROTO_FLAG_FRAGMENTED OR (if key then VMC_PROTO_FLAG_KEYFRAME else 0))
                     VMC_PROTO_STREAM_VIDEO (of_nat (4 + cl)) seq ts
           in (case send_chunks stack answer dropped data key ts frame_id (off + cl) (idx + 1) (seq + 1) of
                 (ds, s) \<Rightarrow>
                   (send_frame stack (answer seq) (dropped seq) h (Some (fh @ take cl (drop off data))) @ ds, s))
      else ([], seq))"
  by pat_completeness auto
termination
proof (relation "measure (\<lambda>(_, _, _, data, _, _, _, off, _, _). length data - off)", goal_cases)
  case (2 stack answer dropped data key ts frame_id off idx seq x lst fh_idx fh h)
  then show ?case by (simp add: const_defs)
qed simp

declare send_chunks.simps [simp del]

definition send_au ::
  "bytes \<Rightarrow> (u32 \<Rightarrow> nat \<Rightarrow> sendto_result) \<Rightarrow> (u32 \<Rightarrow> bool) \<Rightarrow> bytes \<Rightarrow> bool \<Rightarrow> u32 \<Rightarrow> sim_ctx \<Rightarrow> bytes list \<times> sim_ctx" where
  "send_au stack answer dropped data key ts c =
     (if \<not> sim_have_client c then ([], c)
      else let seq = sim_video_seq c in
      if length data \<le> SIM_CHUNK
      then (send_frame stack (answer seq) (dropped seq)
              (media_header (if key then VMC_PROTO_FLAG_KEYFRAME else 0) VMC_PROTO_STREAM_VIDEO (of_nat (length data)) seq ts)
              (Some data),
            c\<lparr>sim_video_seq := seq + 1\<rparr>)
      else (case send_chunks stack answer dropped data key ts (ucast seq) 0 0 seq of
              (ds, s) \<Rightarrow> (ds, c\<lparr>sim_video_seq := s\<rparr>)))"

definition send_audio :: "bytes \<Rightarrow> (nat \<Rightarrow> sendto_result) \<Rightarrow> bytes \<Rightarrow> u32 \<Rightarrow> sim_ctx \<Rightarrow> bytes list \<times> sim_ctx" where
  "send_audio stack answer pcm ts c =
     (if \<not> sim_have_client c then ([], c)
      else let h = media_header 0 VMC_PROTO_STREAM_AUDIO (of_nat SIM_AUDIO_FRAME_BYTES) (sim_audio_seq c) ts;
               encoded = fst (vmc_proto_encode (Some stack) (of_nat (length stack)) (Some h) (Some pcm)) > 0
           in (send_frame stack answer False h (Some pcm),
               c\<lparr>sim_audio_seq := sim_audio_seq c + 1,
                 sim_audio_frames := (if encoded then sim_audio_frames c + 1 else sim_audio_frames c)\<rparr>))"

text \<open>
  A datagram from the client: its sender becomes the client, a keep-alive is answered with the
  server's clock, an input batch is counted.
\<close>

definition media_rx :: "bytes \<Rightarrow> (nat \<Rightarrow> sendto_result) \<Rightarrow> nat \<Rightarrow> bytes \<Rightarrow> u32 \<Rightarrow> sim_ctx \<Rightarrow> bytes list \<times> sim_ctx" where
  "media_rx stack answer from pkt now c =
     (let c1 = c\<lparr>sim_client := from, sim_have_client := True\<rparr> in
      case vmc_proto_decode (Some pkt) (of_nat (length pkt)) of
        (st, Some (h, payload)) \<Rightarrow>
          if st \<noteq> VMC_OK then ([], c1)
          else if ph_stream h = VMC_PROTO_STREAM_CONTROL
          then (send_frame stack answer False (media_header 0 VMC_PROTO_STREAM_CONTROL 0 (ph_seq h + 1) now) None,
                c1\<lparr>sim_control_rx := sim_control_rx c1 + 1\<rparr>)
          else if ph_stream h = VMC_PROTO_STREAM_INPUT
          then ([], c1\<lparr>sim_input_rx := sim_input_rx c1 + 1\<rparr>)
          else ([], c1)
      | (st, None) \<Rightarrow> ([], c1))"

text \<open>The answer to a route request, cut at 127 characters.\<close>

definition route_response :: "string \<Rightarrow> u16 \<Rightarrow> string" where
  "route_response bind_host media_port =
     take 127 (''VMC1 ROUTE '' @ bind_host @ '':'' @ dec_string (unat media_port))"

text \<open>The pacing of frames: the next slot after one was due, never in the past.\<close>

definition next_slot :: "u64 \<Rightarrow> u64 \<Rightarrow> u64 \<Rightarrow> u64" where
  "next_slot interval slot now =
     (let s = (if slot \<noteq> 0 then slot + interval else now + interval)
      in if sint (s - now) \<le> 0 then now + interval else s)"

text \<open>
  The next access unit of a raw file. \<open>chunks\<close> is what the reads deliver: bytes, the end of the file
  as an empty read, after which it starts over, or an error. \<^term>\<open>None\<close> is a script that ends.
\<close>

record file_src =
  sr_asm :: au_asm
  sr_inbuf :: bytes

fun src_next_au :: "bytes option list \<Rightarrow> file_src \<Rightarrow> ((bytes \<times> bool) option \<times> bytes option list \<times> file_src) option" where
  "src_next_au chunks s =
     (case process_nalus (sr_inbuf s) 0 (sr_asm s) of
        (Some au, used, st) \<Rightarrow> Some (Some au, chunks, \<lparr>sr_asm = st, sr_inbuf = drop used (sr_inbuf s)\<rparr>)
      | (None, used, st) \<Rightarrow>
          let rest = drop used (sr_inbuf s);
              s1 = (if length rest \<ge> SIM_IBUF_CAP then \<lparr>sr_asm = au_asm_reset st, sr_inbuf = []\<rparr>
                    else \<lparr>sr_asm = st, sr_inbuf = rest\<rparr>)
          in (case chunks of
                [] \<Rightarrow> None
              | None # cs \<Rightarrow> Some (None, cs, s1)
              | Some bs # cs \<Rightarrow>
                  if bs \<noteq> [] then src_next_au cs (s1\<lparr>sr_inbuf := sr_inbuf s1 @ bs\<rparr>)
                  else src_next_au cs \<lparr>sr_asm = au_asm_reset (sr_asm s1), sr_inbuf = []\<rparr>))"

declare src_next_au.simps [simp del]

text \<open>One round of the raw-file server: a unit when its slot is due.\<close>

definition file_round ::
  "bytes \<Rightarrow> (u32 \<Rightarrow> nat \<Rightarrow> sendto_result) \<Rightarrow> (u32 \<Rightarrow> bool) \<Rightarrow> u64 \<Rightarrow> u64 \<Rightarrow> bytes option list \<Rightarrow> u64 \<times> file_src \<times> sim_ctx
     \<Rightarrow> (bytes list \<times> bytes option list \<times> u64 \<times> file_src \<times> sim_ctx) option" where
  "file_round stack answer dropped interval now reads = (\<lambda>(slot, s, c).
     if slot \<le> now
     then (case src_next_au reads s of
             None \<Rightarrow> None
           | Some (None, reads1, s1) \<Rightarrow> Some ([], reads1, next_slot interval slot now, s1, c)
           | Some (Some (au, key), reads1, s1) \<Rightarrow>
               (case send_au stack answer dropped au key (ucast now) c of
                  (ds, c1) \<Rightarrow> Some (ds, reads1, next_slot interval slot now, s1, c1\<lparr>sim_sent := sim_sent c1 + 1\<rparr>)))
     else Some ([], reads, slot, s, c))"

text \<open>All units that the buffered bytes of the encoder pipe complete.\<close>

lemma process_nalus_returns:
  "process_nalus buf pos st = (Some au, used, st') \<Longrightarrow> pos \<le> used \<and> used \<le> length buf \<and> \<not> aa_have st' \<and> (used = pos \<longrightarrow> aa_have st)"
proof (induction buf pos st rule: process_nalus.induct)
  case (1 buf pos st)
  obtain sc n nxt k where f: "find_start buf pos = Some (sc, n)" "find_start buf (sc + n) = Some (nxt, k)"
    and p4: "pos + 4 \<le> length buf"
    using 1(2) by (subst (asm) process_nalus.simps) (auto split: if_splits option.splits)
  obtain o1 st1 where fd: "au_feed n (take (nxt - (sc + n)) (drop (sc + n) buf)) st = (o1, st1)" by fastforce
  note b = find_start_bounds [OF f(1)] find_start_bounds [OF f(2)]
  show ?case
  proof (cases o1)
    case None
    then have "process_nalus buf nxt st1 = (Some au, used, st')"
      using 1(2) f p4 fd by (subst (asm) process_nalus.simps) simp
    then have "nxt \<le> used \<and> used \<le> length buf \<and> \<not> aa_have st'"
      using 1(1) [of "(sc, n)" sc n "(nxt, k)" nxt k o1 st1] f p4 fd None by simp
    then show ?thesis using b by auto
  next
    case (Some x)
    then have "used = sc" "st' = st1" using 1(2) f p4 fd by (subst (asm) process_nalus.simps, simp)+
    moreover have "aa_have st \<and> \<not> aa_have st1"
      using fd Some by (auto simp: au_feed_def au_asm_reset_def Let_def split: if_splits)
    ultimately show ?thesis using b by auto
  qed
qed

function pipe_units :: "bytes \<Rightarrow> au_asm \<Rightarrow> (bytes \<times> bool) list \<times> bytes \<times> au_asm" where
  "pipe_units buf st =
     (case process_nalus buf 0 st of
        (None, used, st1) \<Rightarrow> ([], drop used buf, st1)
      | (Some au, used, st1) \<Rightarrow> (case pipe_units (drop used buf) st1 of (aus, rest, st2) \<Rightarrow> (au # aus, rest, st2)))"
  by pat_completeness auto
termination
proof (relation "measure (\<lambda>(buf, st). 2 * length buf + (if aa_have st then 1 else 0))", goal_cases)
  case (2 buf st o1 p au used st1)
  then show ?case using process_nalus_returns [of buf 0 st au used st1] by (cases "used = 0") auto
qed simp

declare pipe_units.simps [simp del]

definition send_unit ::
  "bytes \<Rightarrow> (u32 \<Rightarrow> nat \<Rightarrow> sendto_result) \<Rightarrow> (u32 \<Rightarrow> bool) \<Rightarrow> (u64 \<Rightarrow> u32) \<Rightarrow> bytes \<times> bool \<Rightarrow> sim_ctx \<Rightarrow> bytes list \<times> sim_ctx" where
  "send_unit stack answer dropped clk = (\<lambda>(au, key) c.
     case send_au stack answer dropped au key (clk (sim_sent c)) c of (ds, c1) \<Rightarrow> (ds, c1\<lparr>sim_sent := sim_sent c1 + 1\<rparr>))"

fun send_units ::
  "bytes \<Rightarrow> (u32 \<Rightarrow> nat \<Rightarrow> sendto_result) \<Rightarrow> (u32 \<Rightarrow> bool) \<Rightarrow> (u64 \<Rightarrow> u32) \<Rightarrow> (bytes \<times> bool) list \<Rightarrow> sim_ctx \<Rightarrow> bytes list \<times> sim_ctx" where
  "send_units stack answer dropped clk [] c = ([], c)"
| "send_units stack answer dropped clk (u # us) c =
     (case send_unit stack answer dropped clk u c of
        (ds, c1) \<Rightarrow> (case send_units stack answer dropped clk us c1 of (ds2, c2) \<Rightarrow> (ds @ ds2, c2)))"

text \<open>
  One readable round of the encoder pipe: bytes, its end (with whether the encoder restarts), no
  data, or an error; \<^term>\<open>None\<close> leaves the server loop.
\<close>

datatype pipe_read = Pipe_Bytes bytes | Pipe_Eof bool | Pipe_Again | Pipe_Error

definition pipe_drain ::
  "bytes \<Rightarrow> (u32 \<Rightarrow> nat \<Rightarrow> sendto_result) \<Rightarrow> (u32 \<Rightarrow> bool) \<Rightarrow> (u64 \<Rightarrow> u32) \<Rightarrow> bytes \<Rightarrow> au_asm \<Rightarrow> sim_ctx
     \<Rightarrow> bytes list \<times> file_src \<times> sim_ctx" where
  "pipe_drain stack answer dropped clk buf st c =
     (case pipe_units buf st of
        (us, rest, st1) \<Rightarrow>
          (case send_units stack answer dropped clk us c of (ds, c1) \<Rightarrow> (ds, \<lparr>sr_asm = st1, sr_inbuf = rest\<rparr>, c1)))"

definition pipe_round ::
  "bytes \<Rightarrow> (u32 \<Rightarrow> nat \<Rightarrow> sendto_result) \<Rightarrow> (u32 \<Rightarrow> bool) \<Rightarrow> (u64 \<Rightarrow> u32) \<Rightarrow> pipe_read \<Rightarrow> file_src \<Rightarrow> sim_ctx
     \<Rightarrow> (bytes list \<times> file_src \<times> sim_ctx) option" where
  "pipe_round stack answer dropped clk r s c =
     (case r of
        Pipe_Bytes bs \<Rightarrow> Some (pipe_drain stack answer dropped clk (sr_inbuf s @ bs) (sr_asm s) c)
      | Pipe_Eof restarted \<Rightarrow>
          let st = sr_asm s;
              (ds, c1) = (if aa_have st then send_unit stack answer dropped clk (aa_au st, aa_key st) c else ([], c));
              st1 = st\<lparr>aa_have := False\<rparr>
          in if restarted
             then (case pipe_drain stack answer dropped clk [] st1 c1 of (ds2, s2, c2) \<Rightarrow> Some (ds @ ds2, s2, c2))
             else None
      | Pipe_Again \<Rightarrow> Some (pipe_drain stack answer dropped clk (sr_inbuf s) (sr_asm s) c)
      | Pipe_Error \<Rightarrow> None)"

text \<open>Everything the two sockets hold: per datagram its sender, the clock and the answers to its reply.\<close>

fun drain_media ::
  "bytes \<Rightarrow> (nat \<times> bytes \<times> u32 \<times> (nat \<Rightarrow> sendto_result)) list \<Rightarrow> sim_ctx \<Rightarrow> (nat \<times> bytes) list \<times> sim_ctx" where
  "drain_media stack [] c = ([], c)"
| "drain_media stack ((from, pkt, now, answer) # rs) c =
     (case media_rx stack answer from pkt now c of
        (ds, c1) \<Rightarrow> (case drain_media stack rs c1 of (es, c2) \<Rightarrow> (map (Pair from) ds @ es, c2)))"

fun drain_mapper :: "string \<Rightarrow> u16 \<Rightarrow> (nat \<times> (nat \<Rightarrow> sendto_result)) list \<Rightarrow> (nat \<times> string) list" where
  "drain_mapper bind_host media_port [] = []"
| "drain_mapper bind_host media_port ((from, answer) # rs) =
     (if udp_tries answer 0 200 then [(from, route_response bind_host media_port)] else [])
     @ drain_mapper bind_host media_port rs"

text \<open>
  One period of PCM: the reads fill it; the end of the file starts it over; \<^term>\<open>None\<close> is a script
  that ends before the period is full.
\<close>

fun pcm_next_frame :: "nat \<Rightarrow> bytes \<Rightarrow> bytes option list \<Rightarrow> (bytes option \<times> bytes option list) option" where
  "pcm_next_frame frame_bytes got reads =
     (if length got < frame_bytes
      then case reads of
             [] \<Rightarrow> None
           | None # rs \<Rightarrow> Some (None, rs)
           | Some bs # rs \<Rightarrow>
               if bs \<noteq> [] then pcm_next_frame frame_bytes (got @ take (frame_bytes - length got) bs) rs
               else pcm_next_frame frame_bytes [] rs
      else Some (Some got, reads))"

declare pcm_next_frame.simps [simp del]

text \<open>One turn of the audio sender; \<open>nxt\<close> is the next due time, zero before the first.\<close>

definition audio_turn ::
  "bytes \<Rightarrow> (nat \<Rightarrow> sendto_result) \<Rightarrow> u64 \<Rightarrow> u64 \<Rightarrow> bytes option list \<Rightarrow> u64 \<Rightarrow> sim_ctx
     \<Rightarrow> (bytes list \<times> bytes option list \<times> u64 \<times> sim_ctx) option" where
  "audio_turn stack answer interval now reads nxt c =
     (if nxt = 0 \<or> now \<ge> nxt
      then if sim_have_client c
           then (case pcm_next_frame SIM_AUDIO_FRAME_BYTES [] reads of
                   None \<Rightarrow> None
                 | Some (None, rs) \<Rightarrow> Some ([], rs, next_slot interval nxt now, c)
                 | Some (Some pcm, rs) \<Rightarrow>
                     (case send_audio stack answer pcm (ucast now) c of
                        (ds, c1) \<Rightarrow> Some (ds, rs, next_slot interval nxt now, c1)))
           else Some ([], reads, next_slot interval nxt now, c)
      else Some ([], reads, nxt, c))"

text \<open>Whether a file is a raw stream: by its extension, else by its first four bytes.\<close>

definition extension :: "string \<Rightarrow> string option" where
  "extension path =
     (if CHR ''.'' \<in> set path then Some (CHR ''.'' # rev (takeWhile (\<lambda>ch. ch \<noteq> CHR ''.'') (rev path))) else None)"

definition looks_raw :: "string \<Rightarrow> bytes option \<Rightarrow> bool" where
  "looks_raw path contents \<longleftrightarrow>
     extension path \<in> {Some ''.h264'', Some ''.264'', Some ''.h265'', Some ''.hevc''} \<or>
     (case contents of
        None \<Rightarrow> False
      | Some bs \<Rightarrow> length bs \<ge> 4 \<and> (take 3 bs = [0, 0, 1] \<or> take 4 bs = [0, 0, 0, 1]))"

text \<open>The encoder's rate and its arguments; the generated picture source and the file source.\<close>

definition encoder_bitrate :: "int \<Rightarrow> int \<Rightarrow> int" where
  "encoder_bitrate width height = (let b = width * height * 3 in if b < 5000000 then 5000000 else b)"

definition rate_args :: "int \<Rightarrow> string list" where
  "rate_args b = [''-rc'', ''vbr'', ''-b:v'', dec_string (nat b), ''-maxrate'', dec_string (nat (b * 12 div 10)),
     ''-bufsize'', dec_string (nat (b div 2)), ''-g'', ''30'', ''-keyint_min'', ''30'', ''-b_ref_mode'', ''0'',
     ''-pix_fmt'', ''yuv420p'']"

definition spawn_args :: "int \<Rightarrow> int \<Rightarrow> string list" where
  "spawn_args width height =
     (let w = (if width \<le> 0 then 1024 else width); h = (if height \<le> 0 then 768 else height)
      in [''ffmpeg'', ''-hide_banner'', ''-loglevel'', ''error'', ''-re'', ''-f'', ''lavfi'', ''-i'',
          ''testsrc2=size='' @ dec_string (nat w) @ ''x'' @ dec_string (nat h) @ '':rate=30'',
          ''-c:v'', ''h264_nvenc'', ''-preset'', ''p1'', ''-tune'', ''ll''] @ rate_args (encoder_bitrate w h)
         @ [''-f'', ''h264'', ''pipe:1''])"

definition transcode_args :: "string \<Rightarrow> string \<Rightarrow> int \<Rightarrow> int \<Rightarrow> string list" where
  "transcode_args inp out width height =
     (let w = (if width \<le> 0 then 1920 else width); h = (if height \<le> 0 then 1080 else height)
      in [''ffmpeg'', ''-y'', ''-hide_banner'', ''-loglevel'', ''error'', ''-i'', inp, ''-map'', ''0:v:0'',
          ''-c:v'', ''h264_nvenc'', ''-preset'', ''p1'', ''-tune'', ''ll''] @ rate_args (encoder_bitrate w h)
         @ [''-vsync'', ''cfr'', ''-f'', ''h264'', out])"

definition transcode_audio_args :: "string \<Rightarrow> string \<Rightarrow> string list" where
  "transcode_audio_args inp out =
     [''ffmpeg'', ''-y'', ''-hide_banner'', ''-loglevel'', ''error'', ''-i'', inp, ''-map'', ''0:a:0'',
      ''-c:a'', ''pcm_s16le'', ''-ar'', ''48000'', ''-ac'', ''2'', ''-f'', ''s16le'', out]"

text \<open>The command line. The drop rate stays text: its number is a floating-point value.\<close>

record sim_args =
  sa_bind_host :: "string option"
  sa_input :: "string option"
  sa_mapper_port :: u16
  sa_media_port :: u16
  sa_width :: int
  sa_height :: int
  sa_fps :: int
  sa_drop_rate :: "string option"

definition default_sim_args :: sim_args where
  "default_sim_args = \<lparr>sa_bind_host = None, sa_input = None, sa_mapper_port = 9999, sa_media_port = 6000,
     sa_width = 0, sa_height = 0, sa_fps = 24, sa_drop_rate = None\<rparr>"

definition positional :: "nat \<Rightarrow> string \<Rightarrow> sim_args \<Rightarrow> sim_args" where
  "positional pos x a =
     (if pos = 0 then a\<lparr>sa_bind_host := Some x\<rparr>
      else if pos = 1 then a\<lparr>sa_mapper_port := of_int (atoi x)\<rparr>
      else if pos = 2 then a\<lparr>sa_media_port := of_int (atoi x)\<rparr>
      else if pos = 3 then a\<lparr>sa_width := atoi x\<rparr>
      else if pos = 4 then a\<lparr>sa_height := atoi x\<rparr>
      else if pos = 5 then a\<lparr>sa_drop_rate := Some x\<rparr> else a)"

fun scan_sim_args :: "nat \<Rightarrow> string list \<Rightarrow> sim_args \<Rightarrow> sim_args" where
  "scan_sim_args pos [] a = a"
| "scan_sim_args pos [x] a = (if x = ''--input'' \<or> x = ''--fps'' then a else positional pos x a)"
| "scan_sim_args pos (x # y # xs) a =
     (if x = ''--input'' then scan_sim_args pos xs (a\<lparr>sa_input := Some y\<rparr>)
      else if x = ''--fps'' then scan_sim_args pos xs (a\<lparr>sa_fps := atoi y\<rparr>)
      else scan_sim_args (pos + 1) (y # xs) (positional pos x a))"

definition parse_sim_args :: "string list \<Rightarrow> sim_args" where
  "parse_sim_args argv =
     (let a = scan_sim_args 0 argv default_sim_args;
          b = (if sa_bind_host a = None then a\<lparr>sa_bind_host := Some ''127.0.0.1''\<rparr> else a);
          c = (if sa_fps b \<le> 0 then b\<lparr>sa_fps := 24\<rparr> else b)
      in if sa_input c \<noteq> None \<and> \<not> (sa_width c > 0 \<and> sa_height c > 0)
         then c\<lparr>sa_width := 1920, sa_height := 1080\<rparr> else c)"

section \<open>The splitter conserves the stream\<close>

definition asm_bytes :: "au_asm \<Rightarrow> bytes" where
  "asm_bytes st = aa_au st @ aa_pend st"

definition asm_ok :: "au_asm \<Rightarrow> bool" where
  "asm_ok st \<longleftrightarrow> (if aa_have st then aa_pend st = [] else aa_au st = [])"

text \<open>No two start codes follow each other directly.\<close>

definition separated :: "bytes \<Rightarrow> bool" where
  "separated buf \<longleftrightarrow> list_all (\<lambda>sc. case find_start buf sc of
       None \<Rightarrow> True
     | Some (j, n) \<Rightarrow> j \<noteq> sc \<or> (case find_start buf (sc + n) of None \<Rightarrow> True | Some (nxt, _) \<Rightarrow> nxt \<noteq> sc + n)) [0..<length buf]"

lemma separatedD:
  assumes "separated buf" "find_start buf sc = Some (sc, n)" "find_start buf (sc + n) = Some (nxt, k)"
  shows "nxt \<noteq> sc + n"
proof -
  have "sc < length buf" using find_start_bounds [OF assms(2)] by auto
  then show ?thesis using assms unfolding separated_def list_all_iff by (force split: option.splits)
qed

definition at_start :: "bytes \<Rightarrow> nat \<Rightarrow> bool" where
  "at_start buf pos \<longleftrightarrow> (case find_start buf pos of None \<Rightarrow> True | Some (j, _) \<Rightarrow> j = pos)"

lemma scan_start_again: "scan_start i s = Some (j, n) \<Longrightarrow> scan_start j (drop (j - i) s) = Some (j, n) \<and> take n (drop (j - i) s) = start_code n"
proof (induction i s rule: scan_start.induct)
  case (1 i a b c s)
  consider "a = 0 \<and> b = 0 \<and> c = 1" | "\<not> (a = 0 \<and> b = 0 \<and> c = 1)" "s \<noteq> [] \<and> a = 0 \<and> b = 0 \<and> c = 0 \<and> hd s = 1"
    | "\<not> (a = 0 \<and> b = 0 \<and> c = 1)" "\<not> (s \<noteq> [] \<and> a = 0 \<and> b = 0 \<and> c = 0 \<and> hd s = 1)" by blast
  then show ?case
  proof cases
    case 2
    then show ?thesis using 1(2) by (cases s) (auto simp: start_code_def)
  next
    case 3
    have r: "scan_start (i + 1) (b # c # s) = Some (j, n)"
      using 1(2) unfolding scan_start.simps if_not_P [OF 3(1)] if_not_P [OF 3(2)] .
    then have "i + 1 \<le> j" using scan_start_bounds by blast
    then have "j - i = Suc (j - (i + 1))" by simp
    then have "drop (j - i) (a # b # c # s) = drop (j - (i + 1)) (b # c # s)" by (simp only: drop_Suc_Cons)
    then show ?thesis using 1(1) 3 r by simp
  qed (use 1(2) in \<open>auto simp: start_code_def\<close>)
qed auto

lemma find_start_again:
  assumes "find_start buf from = Some (j, n)"
  shows "find_start buf j = Some (j, n)" "take n (drop j buf) = start_code n"
proof -
  have s: "scan_start from (drop from buf) = Some (j, n)" using assms by (simp add: find_start_def)
  have "from \<le> j" using find_start_bounds [OF assms] by simp
  then have d: "drop (j - from) (drop from buf) = drop j buf" by simp
  note a = scan_start_again [OF s, unfolded d]
  show "find_start buf j = Some (j, n)" using a by (simp add: find_start_def)
  show "take n (drop j buf) = start_code n" using a by simp
qed

text \<open>Feeding one unit appends it, or hands out all that was held.\<close>

lemma push_au_room: "length (aa_au st) + length bs \<le> aa_au_cap st \<Longrightarrow> push_au bs st = st\<lparr>aa_au := aa_au st @ bs\<rparr>"
  by (simp add: push_au_def au_append_def)

lemma push_pend_room: "length (aa_pend st) + length bs \<le> aa_pend_cap st \<Longrightarrow> push_pend bs st = st\<lparr>aa_pend := aa_pend st @ bs\<rparr>"
  by (simp add: push_pend_def au_append_def)

lemma au_feed_completes:
  "body \<noteq> [] \<Longrightarrow> is_vcl body \<Longrightarrow> aa_have st \<Longrightarrow> au_feed n body st = (Some (aa_au st, aa_key st), au_asm_reset st)"
  by (simp add: au_feed_def)

lemma au_feed_begins:
  "body \<noteq> [] \<Longrightarrow> is_vcl body \<Longrightarrow> \<not> aa_have st \<Longrightarrow>
   length (aa_au st) + length (aa_pend st) + length (start_code n) + length body \<le> aa_au_cap st \<Longrightarrow>
   au_feed n body st = (None, st\<lparr>aa_have := True, aa_key := (hd body AND 0x1F = 5),
     aa_au := aa_au st @ aa_pend st @ start_code n @ body, aa_pend := []\<rparr>)"
  by (cases "aa_pend st = []") (simp_all add: au_feed_def push_au_room)

lemma au_feed_extends:
  "body \<noteq> [] \<Longrightarrow> \<not> is_vcl body \<Longrightarrow> aa_have st \<Longrightarrow>
   length (aa_au st) + length (start_code n) + length body \<le> aa_au_cap st \<Longrightarrow>
   au_feed n body st = (None, st\<lparr>aa_au := aa_au st @ start_code n @ body\<rparr>)"
  by (simp add: au_feed_def push_au_room)

lemma au_feed_waits:
  "body \<noteq> [] \<Longrightarrow> \<not> is_vcl body \<Longrightarrow> \<not> aa_have st \<Longrightarrow>
   length (aa_pend st) + length (start_code n) + length body \<le> aa_pend_cap st \<Longrightarrow>
   au_feed n body st = (None, st\<lparr>aa_pend := aa_pend st @ start_code n @ body\<rparr>)"
  by (simp add: au_feed_def push_pend_room)

lemma au_feed_conserves:
  assumes "asm_ok st" "body \<noteq> []" "au_feed n body st = (out, st')"
    and "length (asm_bytes st) + length (start_code n @ body) \<le> aa_au_cap st"
    and "length (asm_bytes st) + length (start_code n @ body) \<le> aa_pend_cap st"
  shows "asm_ok st' \<and> aa_au_cap st' = aa_au_cap st \<and> aa_pend_cap st' = aa_pend_cap st \<and>
    (case out of None \<Rightarrow> asm_bytes st' = asm_bytes st @ start_code n @ body
     | Some (au, _) \<Rightarrow> au = asm_bytes st \<and> asm_bytes st' = [])"
proof -
  consider "is_vcl body" "aa_have st" | "is_vcl body" "\<not> aa_have st" | "\<not> is_vcl body" "aa_have st"
    | "\<not> is_vcl body" "\<not> aa_have st" by blast
  then show ?thesis
  proof cases
    case 1
    then show ?thesis using assms(1,3) au_feed_completes [OF assms(2) 1] by (auto simp: asm_ok_def asm_bytes_def au_asm_reset_def)
  next
    case 2
    then show ?thesis using assms(1,3,4) au_feed_begins [OF assms(2) 2] by (auto simp: asm_ok_def asm_bytes_def)
  next
    case 3
    then show ?thesis using assms(1,3,4) au_feed_extends [OF assms(2) 3] by (auto simp: asm_ok_def asm_bytes_def)
  next
    case 4
    then show ?thesis using assms(1,3,5) au_feed_waits [OF assms(2) 4] by (auto simp: asm_ok_def asm_bytes_def)
  qed
qed

lemma slice_join: "i \<le> j \<Longrightarrow> j \<le> k \<Longrightarrow> take (j - i) (drop i xs) @ take (k - j) (drop j xs) = take (k - i) (drop i xs)"
  using take_add [of "j - i" "k - j" "drop i xs"] by simp

lemma process_nalus_conserves:
  assumes "separated buf" "process_nalus buf pos st = (out, used, st')" "asm_ok st" "at_start buf pos" "pos \<le> length buf"
    and "length (asm_bytes st) + (length buf - pos) \<le> min (aa_au_cap st) (aa_pend_cap st)"
  shows "pos \<le> used \<and> used \<le> length buf \<and> at_start buf used \<and> asm_ok st' \<and>
    aa_au_cap st' = aa_au_cap st \<and> aa_pend_cap st' = aa_pend_cap st \<and>
    (case out of None \<Rightarrow> asm_bytes st' = asm_bytes st @ take (used - pos) (drop pos buf)
     | Some (au, _) \<Rightarrow> au = asm_bytes st @ take (used - pos) (drop pos buf) \<and> asm_bytes st' = [])"
  using assms
proof (induction buf pos st rule: process_nalus.induct)
  case (1 buf pos st)
  show ?case
  proof (cases "pos + 4 \<le> length buf \<and> find_start buf pos \<noteq> None \<and>
      find_start buf (fst (the (find_start buf pos)) + snd (the (find_start buf pos))) \<noteq> None")
    case False
    then have "process_nalus buf pos st = (None, pos, st)"
      by (subst process_nalus.simps) (auto split: option.splits prod.splits)
    then show ?thesis using 1(3-6) by auto
  next
    case True
    then obtain n nxt k where f: "find_start buf pos = Some (pos, n)" "find_start buf (pos + n) = Some (nxt, k)"
      using 1(5) by (auto simp: at_start_def)
    note b1 = find_start_bounds [OF f(1)] and b2 = find_start_bounds [OF f(2)]
    have "nxt \<noteq> pos + n" using separatedD [OF 1(2) f] .
    then have lt: "pos + n < nxt" "nxt \<le> length buf" using b2 by auto
    let ?body = "take (nxt - (pos + n)) (drop (pos + n) buf)"
    have body: "?body \<noteq> []" using lt by simp
    have unit: "start_code n @ ?body = take (nxt - pos) (drop pos buf)"
      using slice_join [of pos "pos + n" nxt buf] find_start_again(2) [OF f(1)] lt by simp
    have len: "length (start_code n @ ?body) = nxt - pos" unfolding unit using lt by simp
    obtain o1 st1 where fd: "au_feed n ?body st = (o1, st1)" by fastforce
    note c = au_feed_conserves [OF 1(4) body fd]
    have c': "asm_ok st1 \<and> aa_au_cap st1 = aa_au_cap st \<and> aa_pend_cap st1 = aa_pend_cap st \<and>
      (case o1 of None \<Rightarrow> asm_bytes st1 = asm_bytes st @ start_code n @ ?body
       | Some (au, _) \<Rightarrow> au = asm_bytes st \<and> asm_bytes st1 = [])"
      by (rule c; unfold len) (use 1(7) lt in linarith)+
    show ?thesis
    proof (cases o1)
      case (Some x)
      then have "process_nalus buf pos st = (Some x, pos, st1)"
        using True f fd by (subst process_nalus.simps) (simp split: prod.split)
      then show ?thesis using 1(3,5,6) c' Some by (auto split: prod.splits)
    next
      case None
      then have rec: "process_nalus buf pos st = process_nalus buf nxt st1"
        using True f fd by (subst process_nalus.simps) (simp split: prod.split)
      have held: "asm_bytes st1 = asm_bytes st @ take (nxt - pos) (drop pos buf)" using c' None unit by simp
      have "at_start buf nxt" using find_start_again(1) [OF f(2)] by (simp add: at_start_def)
      moreover have "length (asm_bytes st1) + (length buf - nxt) \<le> min (aa_au_cap st1) (aa_pend_cap st1)"
        using 1(7) c' held lt by simp
      ultimately have IH: "nxt \<le> used \<and> used \<le> length buf \<and> at_start buf used \<and> asm_ok st' \<and>
        aa_au_cap st' = aa_au_cap st1 \<and> aa_pend_cap st' = aa_pend_cap st1 \<and>
        (case out of None \<Rightarrow> asm_bytes st' = asm_bytes st1 @ take (used - nxt) (drop nxt buf)
         | Some (au, _) \<Rightarrow> au = asm_bytes st1 @ take (used - nxt) (drop nxt buf) \<and> asm_bytes st' = [])"
        using 1(1) [of "(pos, n)" pos n "(nxt, k)" nxt k o1 st1] True f fd None rec 1(2,3) c' lt by simp
      then have "take (nxt - pos) (drop pos buf) @ take (used - nxt) (drop nxt buf) = take (used - pos) (drop pos buf)"
        using lt by (intro slice_join) auto
      then show ?thesis using IH held lt c' by (auto split: option.splits)
    qed
  qed
qed

lemma scan_start_shift: "scan_start (i + k) s = map_option (\<lambda>(j, n). (j + k, n)) (scan_start i s)"
proof (induction i s rule: scan_start.induct)
  case (1 i a b c s)
  then show ?case by (simp add: ac_simps)
qed simp_all

lemma find_start_drop: "find_start (drop u buf) i = Some (j, n) \<longleftrightarrow> find_start buf (i + u) = Some (j + u, n)"
  using scan_start_shift [of i u "drop (i + u) buf"] by (auto simp: find_start_def ac_simps)

lemma separated_drop:
  assumes "separated buf"
  shows "separated (drop u buf)"
proof -
  have "nxt \<noteq> sc + n" if "find_start (drop u buf) sc = Some (sc, n)" "find_start (drop u buf) (sc + n) = Some (nxt, k)"
    for sc n nxt k
    using separatedD [OF assms, of "sc + u" n "nxt + u" k] that by (simp add: find_start_drop ac_simps)
  then show ?thesis unfolding separated_def list_all_iff by (auto split: option.splits)
qed

lemma at_start_drop: "at_start buf used \<Longrightarrow> at_start (drop used buf) 0"
  using find_start_drop [of used buf 0] by (auto simp: at_start_def split: option.splits)

lemma pipe_units_conserves:
  "pipe_units buf st = (us, rest, st') \<Longrightarrow> separated buf \<Longrightarrow> at_start buf 0 \<Longrightarrow> asm_ok st \<Longrightarrow>
   length (asm_bytes st) + length buf \<le> min (aa_au_cap st) (aa_pend_cap st) \<Longrightarrow>
   asm_bytes st @ buf = concat (map fst us) @ asm_bytes st' @ rest"
proof (induction buf st arbitrary: us rule: pipe_units.induct)
  case (1 buf st)
  obtain out used st1 where p: "process_nalus buf 0 st = (out, used, st1)" by (metis prod_cases3)
  note c = process_nalus_conserves [OF 1(3) p 1(5) 1(4), simplified]
  show ?case
  proof (cases out)
    case None
    then have "us = []" "rest = drop used buf" "st' = st1" using 1(2) p by (auto simp: pipe_units.simps [of buf])
    then show ?thesis using c None 1(6) by simp
  next
    case (Some au)
    then obtain us1 where u: "pipe_units (drop used buf) st1 = (us1, rest, st')" "us = au # us1"
      using 1(2) p by (auto simp: pipe_units.simps [of buf] split: prod.splits)
    have "length buf - used \<le> aa_au_cap st \<and> length buf - used \<le> aa_pend_cap st" using 1(6) by auto
    then have "asm_bytes st1 @ drop used buf = concat (map fst us1) @ asm_bytes st' @ rest"
      using 1(1) [of out "(used, st1)" au used st1 us1] p Some u(1) separated_drop [OF 1(3), of used] at_start_drop c 1(6)
      by (cases au) simp
    then show ?thesis using c Some u(2) 1(6) by (cases au) (simp, metis append_take_drop_id)
  qed
qed

text \<open>
  C27: No byte of the encoder's stream is lost, repeated or reordered between the pipe and the access
  units: when start codes do not touch each other and the units fit their buffers, the units cut
  from the pending bytes, then what the assembler still holds, then the bytes left in the buffer
  are exactly what was held before followed by the buffer.
\<close>

theorem splitter_conserves_stream:
  assumes "asm_ok st" "separated buf" "at_start buf 0"
    and "length (asm_bytes st) + length buf \<le> min (aa_au_cap st) (aa_pend_cap st)"
    and "pipe_units buf st = (us, rest, st')"
  shows "asm_bytes st @ buf = concat (map fst us) @ asm_bytes st' @ rest"
  using pipe_units_conserves [OF assms(5,2,3,1,4)] .

definition demo_stream :: bytes where
  "demo_stream = [0,0,0,1,0x67,1, 0,0,0,1,0x65,2,3, 0,0,1,0x41,4, 0,0,1,0x41,5, 0,0,1,0x41]"

definition demo_asm :: au_asm where
  "demo_asm = \<lparr>aa_au = [], aa_au_cap = 100, aa_pend = [], aa_pend_cap = 100, aa_key = False, aa_have = False\<rparr>"

theorem splitter_conserves_stream_witness:
  "pipe_units demo_stream demo_asm =
     ([([0,0,0,1,0x67,1, 0,0,0,1,0x65,2,3], True), ([0,0,1,0x41,4], False)],
      [0,0,1,0x41], demo_asm\<lparr>aa_have := True, aa_au := [0,0,1,0x41,5]\<rparr>) \<and>
   asm_bytes demo_asm @ demo_stream =
     [0,0,0,1,0x67,1, 0,0,0,1,0x65,2,3] @ [0,0,1,0x41,4] @ [0,0,1,0x41,5] @ [0,0,1,0x41]"
proof -
  have r: "pipe_units demo_stream demo_asm =
     ([([0,0,0,1,0x67,1, 0,0,0,1,0x65,2,3], True), ([0,0,1,0x41,4], False)],
      [0,0,1,0x41], demo_asm\<lparr>aa_have := True, aa_au := [0,0,1,0x41,5]\<rparr>)"
    by code_simp
  have "asm_ok demo_asm" "separated demo_stream" "at_start demo_stream 0" by code_simp+
  moreover have "length (asm_bytes demo_asm) + length demo_stream \<le> min (aa_au_cap demo_asm) (aa_pend_cap demo_asm)"
    by code_simp
  ultimately have "asm_bytes demo_asm @ demo_stream = concat (map fst [([0,0,0,1,0x67,1, 0,0,0,1,0x65,2,3], True), ([0,0,1,0x41,4], False)])
      @ asm_bytes (demo_asm\<lparr>aa_have := True, aa_au := [0,0,1,0x41,5]\<rparr>) @ [0,0,1,0x41]"
    using splitter_conserves_stream r by blast
  then show ?thesis using r by (simp add: asm_bytes_def demo_asm_def)
qed

text \<open>
  The encoder pipe ends while a unit is held: the unit is sent and marked as not held, but its
  bytes stay in the buffer, so the first unit of the restarted encoder begins with them again.
\<close>

lemma pipe_restart_repeats_unit:
  assumes "aa_have st" "sr_asm s = st" "aa_pend st = []" "body \<noteq> []" "is_vcl body"
    and "length (aa_au st) + length (start_code n) + length body \<le> aa_au_cap st"
    and "pipe_round stack answer dropped clk (Pipe_Eof True) s c = Some (ds, s1, c1)"
  shows "\<exists>st2. au_feed n body (sr_asm s1) = (None, st2) \<and> aa_au st2 = aa_au st @ start_code n @ body"
proof -
  have "pipe_units [] (st\<lparr>aa_have := False\<rparr>) = ([], [], st\<lparr>aa_have := False\<rparr>)"
    by (subst pipe_units.simps) (simp add: process_nalus.simps)
  then have "sr_asm s1 = st\<lparr>aa_have := False\<rparr>"
    using assms(1,2,7) by (auto simp: pipe_round_def pipe_drain_def send_unit_def split: prod.splits)
  then show ?thesis using assms by (simp add: au_feed_begins)
qed

text \<open>At the end of a raw file the held unit and the bytes after the final start code are dropped.\<close>

lemma file_end_drops_held:
  assumes "process_nalus (sr_inbuf s) 0 (sr_asm s) = (None, used, st)" "length (sr_inbuf s) - used < SIM_IBUF_CAP"
  shows "src_next_au (Some [] # cs) s = src_next_au cs \<lparr>sr_asm = au_asm_reset st, sr_inbuf = []\<rparr>"
  using assms by (subst src_next_au.simps) simp

text \<open>Frames are never scheduled in the past nor more than an interval ahead.\<close>

lemma sint_diff_u64:
  fixes x y :: u64
  assumes "uint x < 2 ^ 63" "uint y < 2 ^ 63"
  shows "sint (x - y) = uint x - uint y"
proof -
  have self: "signed_take_bit 63 z = z" if "- (2 ^ 63) \<le> z" "z < 2 ^ 63" for z :: int
    using that by (intro signed_take_bit_int_eq_self)
  have p: "0 \<le> uint x" "0 \<le> uint y" by simp_all
  have "signed_take_bit 63 (uint x) = uint x" "signed_take_bit 63 (uint y) = uint y"
    "signed_take_bit 63 (uint x - uint y) = uint x - uint y"
    by (rule self; use assms p in linarith)+
  moreover from this have "sint x = uint x" "sint y = uint y" by (simp_all add: sint_uint)
  ultimately show ?thesis by (simp add: sint_word_ariths)
qed

lemma next_slot_bounds:
  assumes "0 < interval" "slot \<le> now" "uint now + uint interval < 2 ^ 63"
  shows "now < next_slot interval slot now \<and> next_slot interval slot now \<le> now + interval"
proof -
  have sl: "uint slot \<le> uint now" using assms(2) by (simp add: word_le_def)
  have i: "0 < uint interval" using assms(1) by (simp add: word_less_def)
  have n: "uint (now + interval) = uint now + uint interval" "uint (slot + interval) = uint slot + uint interval"
    using assms(3) sl by (simp_all add: uint_add_lem [symmetric])
  have b: "uint now < 2 ^ 63" "uint (slot + interval) < 2 ^ 63" using assms(3) sl i n by linarith+
  have d: "sint (slot + interval - now) = uint slot + uint interval - uint now"
    using sint_diff_u64 [OF b(2,1)] n by simp
  show ?thesis unfolding next_slot_def Let_def word_less_def word_le_def
    using d n sl i by (auto simp: word_less_def word_le_def)
qed

lemma pcm_next_frame_whole:
  "pcm_next_frame n got reads = Some (Some f, rs) \<Longrightarrow> length got \<le> n \<Longrightarrow> length f = n"
proof (induction n got reads rule: pcm_next_frame.induct)
  case (1 n got reads)
  show ?case
  proof (cases "length got < n")
    case True
    then obtain bs rs' where r: "reads = Some bs # rs'" using 1(3)
      by (subst (asm) pcm_next_frame.simps) (auto split: list.splits option.splits)
    show ?thesis
    proof (cases "bs = []")
      case False
      then have "pcm_next_frame n (got @ take (n - length got) bs) rs' = Some (Some f, rs)"
        using 1(3) r True by (subst (asm) pcm_next_frame.simps) simp
      then show ?thesis using 1(1) [of "Some bs" rs' bs] r True False by simp
    next
      case bs: True
      then have "pcm_next_frame n [] rs' = Some (Some f, rs)"
        using 1(3) r True by (subst (asm) pcm_next_frame.simps) simp
      then show ?thesis using 1(2) [of "Some bs" rs' bs] r True bs by simp
    qed
  next
    case False
    then show ?thesis using 1(3,4) by (subst (asm) pcm_next_frame.simps) simp
  qed
qed

end
