(* ===== verification/Client_Loop.thy ===== *)
theory Client_Loop
  imports Jitter_Buffer Frame_Slots Input_Batch Ring_Buffer Latency_Stats Ascii_Text
begin

unbundle bit_operations_syntax

text \<open>
  The main loop of the datagram client (\<open>apps/thinclient/main.c\<close>, \<open>main\<close>): the session start, the
  receive loop that sorts datagrams into the jitter buffer, the audio ring and the session, the
  drain of playable video into the frame slots, and the flush of input events. The decoder, the
  display, the input device and the clock are parameters; what is handed to the display is a log.
\<close>

section \<open>Command line and session start\<close>

record client_args =
  ca_mapper_host :: string
  ca_mapper_port :: u16
  ca_log_level :: int
  ca_dash_url :: "string option"

definition default_args :: client_args where
  "default_args = \<lparr>ca_mapper_host = ''127.0.0.1'', ca_mapper_port = 9999, ca_log_level = 2, ca_dash_url = None\<rparr>"

fun parse_args :: "nat \<Rightarrow> string list \<Rightarrow> client_args \<Rightarrow> client_args" where
  "parse_args pos [] a = a"
| "parse_args pos (x # xs) a =
     (case xs of
        u # ys \<Rightarrow>
          if x = ''--dash'' then parse_args pos ys (a\<lparr>ca_dash_url := Some u\<rparr>)
          else parse_args (pos + 1) xs
            (if pos = 0 then a\<lparr>ca_mapper_host := x\<rparr>
             else if pos = 1 then a\<lparr>ca_mapper_port := of_int (atoi x)\<rparr>
             else if pos = 2 then a\<lparr>ca_log_level := atoi x\<rparr> else a)
      | [] \<Rightarrow>
          (if pos = 0 then a\<lparr>ca_mapper_host := x\<rparr>
           else if pos = 1 then a\<lparr>ca_mapper_port := of_int (atoi x)\<rparr>
           else if pos = 2 then a\<lparr>ca_log_level := atoi x\<rparr> else a))"

text \<open>The session: initialised on the route, its callbacks set, and driven to \<open>ACTIVE\<close>.\<close>

definition client_callbacks :: vmc_session_callbacks where
  "client_callbacks = \<lparr>cb_state_change = True, cb_quality_drop = True, cb_session_lost = True, cb_terminated = False\<rparr>"

definition session_startup :: "vmc_session_ctx \<Rightarrow> 's \<Rightarrow> vmc_session_config \<Rightarrow> u64 \<Rightarrow> vmc_session_ctx option" where
  "session_startup sc0 t route now_ms =
     (let cfg = route\<lparr>cfg_keepalive_ms := 1000, cfg_link_timeout_ms := 4000\<rparr> in
      case vmc_session_ctx_init (Some sc0) (Some t) (Some cfg) 0 now_ms of
        (st, Some sc) \<Rightarrow>
          if st \<noteq> VMC_OK then None
          else let sc1 = sc\<lparr>sc_sm := (sc_sm sc)\<lparr>ss_cb := client_callbacks\<rparr>\<rparr>
               in (case vmc_session_start (Some sc1) of
                     (_, Some sc2) \<Rightarrow>
                       Some (snd (ctx_dispatch (snd (ctx_dispatch sc2 VMC_EVENT_MAPPER_RESP)) VMC_EVENT_TRANSPORT_UP))
                   | (_, None) \<Rightarrow> None)
      | (st, None) \<Rightarrow> None)"

section \<open>State of the loop\<close>

text \<open>What reaches the screen from this thread: a unit decoded in place, or the test pattern.\<close>

datatype shown = Decoded bytes | Pattern u32 u32

record client =
  cl_sess :: vmc_session_ctx
  cl_jb :: vmc_jitter_buffer
  cl_audio :: vmc_ringbuf
  cl_lat :: latency
  cl_frag :: vmc_frag_assembler
  cl_slots :: frame_slots
  cl_write_slot :: nat
  cl_frame_count :: u32
  cl_cur_fid :: u16
  cl_frame_arrival :: u64
  cl_decode_oks :: u64
  cl_presented :: u64
  cl_have_decoder :: bool
  cl_have_display :: bool
  cl_shown :: "shown list"
  cl_last_flush :: u64

section \<open>Receiving\<close>

text \<open>The clock readings taken while one datagram is handled.\<close>

record rx_clock =
  rk_push :: u64
  rk_repush :: u64
  rk_echo :: u64
  rk_ms :: u64

text \<open>A video datagram. A keyframe that the buffer refuses for any reason restarts the buffer at it.\<close>

definition rx_video :: "vmc_proto_header \<Rightarrow> bytes \<Rightarrow> rx_clock \<Rightarrow> vmc_jitter_buffer \<Rightarrow> vmc_jitter_buffer" where
  "rx_video h payload k jb =
     (case vmc_jb_push (Some jb) (ph_seq h) (ph_ts_us h) (ph_stream h) (ucast (ph_flags h)) (Some payload)
             (ph_payload_len h) (rk_push k) of
        (ps, Some jb1) \<Rightarrow>
          if ps \<noteq> VMC_OK \<and> ph_flags h AND VMC_PROTO_FLAG_KEYFRAME \<noteq> 0
          then (case vmc_jb_push (Some (vmc_jb_reset jb1 (ph_seq h))) (ph_seq h) (ph_ts_us h) (ph_stream h)
                       (ucast (ph_flags h)) (Some payload) (ph_payload_len h) (rk_repush k) of
                  (_, Some jb2) \<Rightarrow> jb2
                | (_, None) \<Rightarrow> jb1)
          else jb1
      | (_, None) \<Rightarrow> jb)"

definition client_rx :: "bytes \<times> rx_clock \<Rightarrow> client \<Rightarrow> client" where
  "client_rx = (\<lambda>(pkt, k) c.
     case vmc_proto_decode (Some pkt) (of_nat (length pkt)) of
       (st, Some (h, payload)) \<Rightarrow>
         if st \<noteq> VMC_OK then c
         else let c1 = (if ph_stream h = VMC_PROTO_STREAM_VIDEO then c\<lparr>cl_jb := rx_video h payload k (cl_jb c)\<rparr> else c);
                  c2 = (if ph_stream h = VMC_PROTO_STREAM_CONTROL
                        then c1\<lparr>cl_lat := latency_update_rtt (cl_sess c1) (ph_ts_us h) (rk_echo k) (cl_lat c1)\<rparr> else c1);
                  c3 = (if ph_stream h = VMC_PROTO_STREAM_AUDIO
                        then c2\<lparr>cl_audio := snd (vmc_ringbuf_write (cl_audio c2) payload (ucast (ph_payload_len h)))\<rparr> else c2)
              in (case vmc_session_on_rx (Some (cl_sess c3)) (Some pkt) (of_nat (length pkt)) (rk_ms k) of
                    (_, Some sc) \<Rightarrow> c3\<lparr>cl_sess := sc\<rparr>
                  | (_, None) \<Rightarrow> c3)
     | (st, None) \<Rightarrow> c)"

text \<open>All datagrams that the transport returns before it has no more.\<close>

definition rx_loop :: "(bytes \<times> rx_clock) list \<Rightarrow> client \<Rightarrow> client" where
  "rx_loop ds c = fold client_rx ds c"

section \<open>Draining the jitter buffer\<close>

text \<open>
  The assembler writes through its pointer into the buffer of the write slot: the slot's buffer is
  read before a chunk is fed and written back after. \<^term>\<open>None\<close>: no slot is free and the thread waits.
\<close>

definition feed_chunk :: "u32 \<Rightarrow> u16 \<Rightarrow> u16 \<Rightarrow> bool \<Rightarrow> bytes \<Rightarrow> u64 \<Rightarrow> client \<Rightarrow> client option" where
  "feed_chunk ts fid idx is_last chunk now c =
     (let w = cl_write_slot c; fs = cl_slots c in
      case vmc_frag_feed (Some ((cl_frag c)\<lparr>fa_buf := fs_buf (fs ! w)\<rparr>)) fid idx is_last (Some chunk) (of_nat (length chunk)) of
        (st, Some a, au_len) \<Rightarrow>
          let fs1 = fs[w := (fs ! w)\<lparr>fs_buf := fa_buf a\<rparr>]
          in if st = VMC_OK \<and> au_len > 0
             then (case udp_publish (unat au_len) ts (cl_frame_count c) now w fs1 of
                     None \<Rightarrow> None
                   | Some (w2, fs2) \<Rightarrow>
                       Some (c\<lparr>cl_frag := a\<lparr>fa_buf := fs_buf (fs2 ! w2)\<rparr>, cl_slots := fs2, cl_write_slot := w2,
                               cl_frame_count := cl_frame_count c + 1\<rparr>))
             else Some (c\<lparr>cl_frag := a, cl_slots := fs1\<rparr>)
      | (_, None, _) \<Rightarrow> Some c)"

text \<open>\<open>dec\<close> says whether the decoder accepts a unit, given what was shown before.\<close>

definition handle_slot :: "(shown list \<Rightarrow> bytes \<Rightarrow> bool) \<Rightarrow> vmc_jb_slot \<Rightarrow> u64 \<Rightarrow> u64 \<Rightarrow> client \<Rightarrow> client option" where
  "handle_slot dec s arrival pub c =
     (if cl_have_decoder c
      then if js_flags s AND ucast VMC_PROTO_FLAG_FRAGMENTED \<noteq> 0
           then (case vmc_video_frag_hdr_unpack (js_storage s) of
                   (fid, idx, is_last) \<Rightarrow>
                     if js_len s \<ge> 4
                     then let c1 = (if fid \<noteq> cl_cur_fid c then c\<lparr>cl_cur_fid := fid, cl_frame_arrival := arrival\<rparr> else c)
                          in feed_chunk (js_ts_us s) fid idx is_last
                               (take (unat (js_len s) - 4) (drop 4 (js_storage s))) pub c1
                     else Some c)
           else let au = take (unat (js_len s)) (js_storage s)
                in if dec (cl_shown c) au
                   then Some (c\<lparr>cl_decode_oks := cl_decode_oks c + 1, cl_presented := cl_presented c + 1,
                              cl_shown := cl_shown c @ [Decoded au]\<rparr>)
                   else Some c
      else if cl_have_display c then Some (c\<lparr>cl_shown := cl_shown c @ [Pattern (js_seq s) (js_ts_us s)]\<rparr>)
      else Some c)"

text \<open>The loop over the clock readings of each round: at the look, at the start of a frame, at the
  publication. A script that is too short gives \<^term>\<open>None\<close>.\<close>

fun drain_video :: "(shown list \<Rightarrow> bytes \<Rightarrow> bool) \<Rightarrow> (u64 \<times> u64 \<times> u64) list \<Rightarrow> client \<Rightarrow> client option" where
  "drain_video dec [] c = None"
| "drain_video dec ((now, arrival, pub) # ks) c =
     (case vmc_jb_peek (Some (cl_jb c)) now of
        (Some s, Some jb1) \<Rightarrow>
          (case handle_slot dec s arrival pub (c\<lparr>cl_jb := jb1\<rparr>) of
             None \<Rightarrow> None
           | Some c1 \<Rightarrow> drain_video dec ks (c1\<lparr>cl_jb := vmc_jb_consume (cl_jb c1)\<rparr>))
      | (_, Some jb1) \<Rightarrow> Some (c\<lparr>cl_jb := jb1\<rparr>)
      | (_, None) \<Rightarrow> Some c)"

section \<open>Input\<close>

text \<open>The events polled into a fresh batch, and those left with the device; the one that finds the batch full is lost.\<close>

fun poll_batch :: "vmc_input_event list \<Rightarrow> vmc_input_batch \<Rightarrow> vmc_input_batch \<times> vmc_input_event list" where
  "poll_batch [] b = (b, [])"
| "poll_batch (e # es) b =
     (case vmc_input_batch_push (Some b) (Some e) of
        (ps, Some b1) \<Rightarrow> if ps = VMC_ERR_OVERRUN then (b1, es) else poll_batch es b1
      | (_, None) \<Rightarrow> (b, es))"

definition input_header :: "u16 \<Rightarrow> u64 \<Rightarrow> u64 \<Rightarrow> vmc_proto_header" where
  "input_header n tx_seq now_ms =
     zero_header\<lparr>ph_magic := VMC_PROTO_MAGIC, ph_version := VMC_PROTO_VERSION, ph_stream := VMC_PROTO_STREAM_INPUT,
       ph_payload_len := 2 + n * of_nat SIZEOF_INPUT_EVENT, ph_seq := ucast tx_seq, ph_ts_us := ucast now_ms\<rparr>"

text \<open>
  One round: what is sent, the events left with the device and the new state. \<open>batch\<close> is the batch on
  the stack with arbitrary contents, \<open>pkt\<close> and \<open>batch_pkt\<close> the two packet buffers.
\<close>

definition input_round ::
  "vmc_input_batch \<Rightarrow> bytes \<Rightarrow> bytes \<Rightarrow> vmc_input_event list \<Rightarrow> u64 \<Rightarrow> client \<Rightarrow> bytes list \<times> vmc_input_event list \<times> client" where
  "input_round batch pkt batch_pkt evs now_ms c =
     (case poll_batch evs (vmc_input_batch_reset batch) of
        (b, rest) \<Rightarrow>
          if now_ms - cl_last_flush c \<ge> 4 \<and> ib_count b > 0
          then let h = input_header (ib_count b) (sc_tx_seq (cl_sess c)) now_ms;
                   c1 = c\<lparr>cl_sess := (cl_sess c)\<lparr>sc_tx_seq := sc_tx_seq (cl_sess c) + 1\<rparr>, cl_last_flush := now_ms\<rparr>
               in (case vmc_input_batch_serialize (Some b) (Some (drop 17 pkt)) (of_nat (length pkt) - VMC_PROTO_HEADER_SIZE) of
                     (n, Some body) \<Rightarrow>
                       if n > 0
                       then (case vmc_proto_encode (Some batch_pkt) (of_nat (length batch_pkt)) (Some h) (Some body) of
                               (es, Some out) \<Rightarrow> if es > 0 then ([take (nat es) out], rest, c1) else ([], rest, c1)
                             | (es, None) \<Rightarrow> ([], rest, c1))
                       else ([], rest, c1)
                   | (n, None) \<Rightarrow> ([], rest, c1))
          else ([], rest, c))"

section \<open>Start, refused keyframes, input\<close>

lemma session_startup_active:
  "\<exists>sc. session_startup sc0 t route now_ms = Some sc \<and> ss_state (sc_sm sc) = VMC_SESSION_ACTIVE \<and>
     sc_tx_seq sc = 0 \<and> cfg_link_timeout_ms (sc_cfg sc) = 4000 \<and> sc_keepalive_interval_ms sc = 1000"
  by (simp add: session_startup_def vmc_session_ctx_init_def vmc_session_init_def vmc_session_start_def ctx_dispatch_def
      dispatch_table counts_retry_def)

text \<open>One push into a restarted buffer always succeeds and leaves only that datagram.\<close>

lemma held_zero: "held zero_jb = []"
  by (simp add: held_def zero_jb_def zero_slot_def)

lemma push_after_reset:
  assumes "payload_ok payload len"
  obtains s jb2 where "vmc_jb_push (Some (vmc_jb_reset jb seq)) seq ts st fl payload len rv = (VMC_OK, Some jb2)"
    "set (held jb2) = {s}" "slot_carries s seq ts st fl
       (take (min (unat len) VMC_JB_PAYLOAD_CAP) (case payload of Some p \<Rightarrow> p | None \<Rightarrow> [])) rv"
    "jb_target_delay_us jb2 = 0" "jb_inv jb2"
proof -
  let ?jb = "vmc_jb_reset jb seq"
  have inv: "jb_inv ?jb" and h: "held ?jb = []"
    using zero_jb_inv held_zero by (simp_all add: vmc_jb_reset_def)
  have pb: "push_base ?jb seq = seq" by (simp add: push_base_def vmc_jb_reset_def)
  then have w: "in_window ?jb seq" by (simp add: in_window_def seq_cmp_def const_defs)
  from inv assms show thesis
  proof (cases rule: vmc_jb_push_cases [of ?jb payload len seq ts st fl rv])
    case (stored i)
    have ok: "slot_ok (jb_slots ?jb ! i)" using inv stored(4) by (simp add: jb_inv_def list_all_length)
    note f = fill_slot_props [OF ok assms [unfolded payload_ok_def], of seq ts st fl rv]
    note ins = insert_slot [OF inv stored(4,5) f(1,2)]
    show thesis
    proof (rule that [OF stored(6)])
      show "set (held (?jb\<lparr>jb_slots := (jb_slots ?jb)[i := fill_slot (jb_slots ?jb ! i) seq ts st fl payload len rv],
         jb_next_seq := push_base ?jb seq, jb_stats_pushed := jb_stats_pushed ?jb + 1\<rparr>))
         = {fill_slot (jb_slots ?jb ! i) seq ts st fl payload len rv}"
        using ins(2) h by simp
      show "jb_inv (?jb\<lparr>jb_slots := (jb_slots ?jb)[i := fill_slot (jb_slots ?jb ! i) seq ts st fl payload len rv],
         jb_next_seq := push_base ?jb seq, jb_stats_pushed := jb_stats_pushed ?jb + 1\<rparr>)"
        using ins(1) h by simp
    qed (use fill_slot_carries [OF ok assms] in \<open>simp_all add: vmc_jb_reset_def zero_jb_def\<close>)
  qed (use h w held_zero in \<open>simp_all add: const_defs\<close>)
qed

text \<open>The batch takes the first 32 events; one more leaves the device with no trace.\<close>

lemma poll_batch_list:
  assumes "ib_inv b"
  shows "\<exists>b'. poll_batch es b = (b', drop (33 - length (ib_list b)) es) \<and> ib_inv b' \<and>
    ib_list b' = take 32 (ib_list b @ es)"
  using assms
proof (induction es arbitrary: b)
  case Nil
  then show ?case by (auto simp: ib_inv_def ib_list_def const_defs)
next
  case (Cons e es)
  obtain b1 where b1: "vmc_input_batch_push (Some b) (Some e) =
      (if length (ib_list b) = VMC_INPUT_BATCH_MAX_EVENTS then VMC_ERR_OVERRUN else VMC_OK, Some b1)" "ib_inv b1"
    "ib_list b1 = (if length (ib_list b) = VMC_INPUT_BATCH_MAX_EVENTS then ib_list b else ib_list b @ [e])"
    using input_batch_push_spec [OF Cons.prems] by blast
  have le: "length (ib_list b) \<le> 32" using Cons.prems by (simp add: ib_inv_def ib_list_def const_defs)
  show ?case
  proof (cases "length (ib_list b) = 32")
    case True
    then show ?thesis using b1 by (simp add: const_defs status_defs)
  next
    case False
    then have "33 - length (ib_list b) = Suc (33 - length (ib_list b1))" using le b1(3) by (simp add: const_defs)
    then show ?thesis using Cons.IH [OF b1(2)] b1 False by (simp add: const_defs status_defs)
  qed
qed

lemma input_header_valid: "vmc_proto_header_valid (Some (input_header n q t))"
  by (simp add: vmc_proto_header_valid_Some input_header_def zero_header_def)

lemma input_header_len: "unat n \<le> 32 \<Longrightarrow> unat (ph_payload_len (input_header n q t)) = 2 + 16 * unat n"
  by (simp add: input_header_def SIZEOF_INPUT_EVENT_def unat_word_ariths)

lemma length_batch_image: "length (batch_image es) = 2 + 16 * length es"
  by (simp add: batch_image_def concat_ev_length)

lemma unat_length: "n < 2 ^ 63 \<Longrightarrow> unat (of_nat n :: sz_t) = n"
  by (simp add: unat_of_nat)

lemma decode_whole_frame:
  assumes "vmc_proto_header_valid (Some h)" and "length p = unat (ph_payload_len h)"
  shows "vmc_proto_decode (Some (frame_image h p)) (of_nat (length (frame_image h p))) =
    (VMC_OK, Some (h\<lparr>ph_crc := frame_sum h p\<rparr>, p))"
proof -
  have l: "length (frame_image h p) = 17 + length p" by (simp add: frame_image_def)
  have "length p < 2 ^ 16" using unat_bound [of "ph_payload_len h"] assms(2) by simp
  then have "unat (of_nat (17 + length p) :: sz_t) = 17 + length p" by (intro unat_length) simp
  then show ?thesis using vmc_proto_decode_frame [OF assms, of "of_nat (17 + length p)" "[]"] unfolding l by simp
qed

lemma flush_frame:
  assumes b: "ib_inv b" and pkt: "531 \<le> length pkt" "length pkt < 2 ^ 63"
    and bp: "531 \<le> length batch_pkt" "length batch_pkt < 2 ^ 63"
  obtains body out where
    "vmc_input_batch_serialize (Some b) (Some (drop 17 pkt)) (of_nat (length pkt) - VMC_PROTO_HEADER_SIZE)
       = (int (length (batch_image (ib_list b))), Some body)"
    "vmc_proto_encode (Some batch_pkt) (of_nat (length batch_pkt)) (Some (input_header (ib_count b) q t)) (Some body)
       = (int (17 + length (batch_image (ib_list b))), Some out)"
    "take (17 + length (batch_image (ib_list b))) out = frame_image (input_header (ib_count b) q t) (batch_image (ib_list b))"
proof -
  let ?es = "ib_list b" and ?h = "input_header (ib_count b) q t"
  have n: "length ?es = unat (ib_count b)" "unat (ib_count b) \<le> 32"
    using length_ib_list [OF b] b by (simp_all add: ib_inv_def const_defs)
  have L: "length (batch_image ?es) = 2 + 16 * unat (ib_count b)" by (simp add: length_batch_image n)
  have hl: "unat (ph_payload_len ?h) = length (batch_image ?es)" using input_header_len [OF n(2)] L by simp
  have c1: "unat (of_nat (length pkt) - VMC_PROTO_HEADER_SIZE) = length pkt - 17"
    using pkt unat_length [OF pkt(2)] by (subst unat_sub) (simp_all add: word_le_nat_alt VMC_PROTO_HEADER_SIZE_def)
  have ser: "vmc_input_batch_serialize (Some b) (Some (drop 17 pkt)) (of_nat (length pkt) - VMC_PROTO_HEADER_SIZE)
      = (int (length (batch_image ?es)), Some (batch_image ?es @ drop (length (batch_image ?es)) (drop 17 pkt)))"
    using serialize_image [OF b, of "of_nat (length pkt) - VMC_PROTO_HEADER_SIZE" "drop 17 pkt"] c1 n pkt by simp
  have c2: "unat (of_nat (length batch_pkt) :: sz_t) = length batch_pkt" using bp(2) by (rule unat_length)
  have enc: "vmc_proto_encode (Some batch_pkt) (of_nat (length batch_pkt)) (Some ?h)
      (Some (batch_image ?es @ drop (length (batch_image ?es)) (drop 17 pkt)))
      = (int (17 + length (batch_image ?es)), Some (frame_image ?h (batch_image ?es) @ drop (17 + length (batch_image ?es)) batch_pkt))"
    using vmc_proto_encode_frame [OF input_header_valid, of "ib_count b" q t
        "batch_image ?es @ drop (length (batch_image ?es)) (drop 17 pkt)" "of_nat (length batch_pkt)" batch_pkt]
    by (simp add: hl c2) (use bp L n in simp)
  show thesis
    by (rule that [OF ser enc]) (simp add: frame_image_def)
qed

section \<open>Properties\<close>

text \<open>
  A second copy of a keyframe datagram, which the network may deliver, empties the jitter buffer:
  every other datagram that waits in it is lost, only the copy is left, and the playout delay is
  zero from then on.
\<close>

theorem duplicate_keyframe_flushes:
  assumes "jb_inv jb" and "ph_seq h \<in> js_seq ` set (held jb)" and "ph_flags h AND VMC_PROTO_FLAG_KEYFRAME \<noteq> 0"
    and "unat (ph_payload_len h) \<le> length payload"
  shows "\<exists>s. set (held (rx_video h payload k jb)) = {s} \<and> js_seq s = ph_seq h \<and>
    jb_target_delay_us (rx_video h payload k jb) = 0"
proof -
  have ok: "payload_ok (Some payload) (ph_payload_len h)" using assms(4) by (simp add: payload_ok_def)
  obtain jb1 where jb1: "vmc_jb_push (Some jb) (ph_seq h) (ph_ts_us h) (ph_stream h) (ucast (ph_flags h)) (Some payload)
      (ph_payload_len h) (rk_push k) = (VMC_ERR_AGAIN, Some jb1)"
    using assms(1) ok
    by (cases rule: vmc_jb_push_cases [of jb "Some payload" "ph_payload_len h" "ph_seq h" "ph_ts_us h" "ph_stream h"
          "ucast (ph_flags h)" "rk_push k"]) (use assms(2) in auto)
  obtain s jb2 where "vmc_jb_push (Some (vmc_jb_reset jb1 (ph_seq h))) (ph_seq h) (ph_ts_us h) (ph_stream h) (ucast (ph_flags h))
      (Some payload) (ph_payload_len h) (rk_repush k) = (VMC_OK, Some jb2)" "set (held jb2) = {s}"
    "js_seq s = ph_seq h" "jb_target_delay_us jb2 = 0"
    by (rule push_after_reset [OF ok]) (auto simp: slot_carries_def)
  then have "rx_video h payload k jb = jb2" "set (held jb2) = {s}" "js_seq s = ph_seq h" "jb_target_delay_us jb2 = 0"
    using jb1 assms(3) by (simp_all add: rx_video_def status_defs)
  then show ?thesis by blast
qed

definition key_header :: vmc_proto_header where
  "key_header = sample_header\<lparr>ph_flags := VMC_PROTO_FLAG_KEYFRAME, ph_seq := 1\<rparr>"

definition any_clock :: rx_clock where
  "any_clock = \<lparr>rk_push = 0, rk_repush = 0, rk_echo = 0, rk_ms = 0\<rparr>"

theorem duplicate_keyframe_flushes_witness:
  "held jb_wrap = [slot_at 1, slot_at (- 2)] \<and>
   (\<exists>s. set (held (rx_video key_header [1, 2] any_clock jb_wrap)) = {s})"
proof -
  have "ph_seq key_header \<in> js_seq ` set (held jb_wrap)" by (simp add: jb_wrap_held key_header_def slot_at_def)
  moreover have "ph_flags key_header AND VMC_PROTO_FLAG_KEYFRAME \<noteq> 0" by (simp add: key_header_def const_defs)
  moreover have "unat (ph_payload_len key_header) \<le> length [1, 2 :: u8]"
    by (simp add: key_header_def sample_header_def)
  ultimately show ?thesis using duplicate_keyframe_flushes [OF jb_wrap_inv] jb_wrap_held by blast
qed

text \<open>
  C28: A round of input takes up to 33 waiting events from the device. When 4 ms have passed since
  the last flush, the server decodes from the one datagram sent exactly the first 32 of them, with
  the next sequence number; otherwise nothing is sent and the events are gone.
\<close>

theorem input_round_delivers_or_drops:
  assumes "length (ib_events batch) = 32" and "ib_inv b0" and "evs \<noteq> []"
    and "531 \<le> length pkt" "length pkt < 2 ^ 63" and "531 \<le> length batch_pkt" "length batch_pkt < 2 ^ 63"
    and "input_round batch pkt batch_pkt evs now_ms c = (out, rest, c')"
  shows "rest = drop 33 evs \<and>
    (if now_ms - cl_last_flush c \<ge> 4
     then \<exists>d h body b. out = [d] \<and> vmc_proto_decode (Some d) (of_nat (length d)) = (VMC_OK, Some (h, body)) \<and>
       ph_stream h = VMC_PROTO_STREAM_INPUT \<and> ph_seq h = ucast (sc_tx_seq (cl_sess c)) \<and>
       sc_tx_seq (cl_sess c') = sc_tx_seq (cl_sess c) + 1 \<and> cl_last_flush c' = now_ms \<and>
       vmc_input_batch_deserialize (Some body) (ucast (ph_payload_len h)) (Some b0) = (VMC_OK, Some b) \<and>
       ib_list b = take 32 evs
     else out = [] \<and> c' = c)"
proof -
  let ?r = "vmc_input_batch_reset batch"
  have r: "ib_inv ?r" "ib_list ?r = []" using assms(1) by (simp_all add: vmc_input_batch_reset_def ib_inv_def ib_list_def const_defs)
  obtain b where b: "poll_batch evs ?r = (b, drop 33 evs)" "ib_inv b" "ib_list b = take 32 evs"
    using poll_batch_list [OF r(1), of evs] r(2) by auto
  have n: "unat (ib_count b) = length (take 32 evs)" "unat (ib_count b) \<le> 32"
    using length_ib_list [OF b(2)] b(2,3) by (simp_all add: ib_inv_def const_defs)
  have pos: "ib_count b > 0" using n(1) assms(3) by (cases evs) (auto simp: word_less_nat_alt)
  let ?q = "sc_tx_seq (cl_sess c)"
  obtain body outb where f: "vmc_input_batch_serialize (Some b) (Some (drop 17 pkt)) (of_nat (length pkt) - VMC_PROTO_HEADER_SIZE)
       = (int (length (batch_image (ib_list b))), Some body)"
    "vmc_proto_encode (Some batch_pkt) (of_nat (length batch_pkt)) (Some (input_header (ib_count b) ?q now_ms)) (Some body)
       = (int (17 + length (batch_image (ib_list b))), Some outb)"
    "take (17 + length (batch_image (ib_list b))) outb = frame_image (input_header (ib_count b) ?q now_ms) (batch_image (ib_list b))"
    by (rule flush_frame [OF b(2) assms(4-7), of ?q now_ms])
  let ?h = "input_header (ib_count b) ?q now_ms" and ?im = "batch_image (take 32 evs)"
  have hl: "length ?im = unat (ph_payload_len ?h)" using input_header_len [OF n(2)] n(1) by (simp add: length_batch_image)
  show ?thesis
  proof (cases "now_ms - cl_last_flush c \<ge> 4")
    case True
    have "nat (int (17 + length ?im)) = 17 + length ?im" by (rule nat_int)
    then have o: "out = [frame_image ?h ?im]" "rest = drop 33 evs"
      "c' = c\<lparr>cl_sess := (cl_sess c)\<lparr>sc_tx_seq := ?q + 1\<rparr>, cl_last_flush := now_ms\<rparr>"
      using assms(8) True pos f unfolding input_round_def b(1) prod.case Let_def b(3) by (auto simp: length_batch_image)
    have d: "vmc_proto_decode (Some (frame_image ?h ?im)) (of_nat (length (frame_image ?h ?im))) =
      (VMC_OK, Some (?h\<lparr>ph_crc := frame_sum ?h ?im\<rparr>, ?im))"
      by (rule decode_whole_frame [OF input_header_valid hl])
    obtain b2 where "vmc_input_batch_deserialize (Some ?im) (ucast (ph_payload_len ?h)) (Some b0) = (VMC_OK, Some b2)"
      "ib_list b2 = take 32 evs"
      using deserialize_image [OF assms(2), of "take 32 evs" "ucast (ph_payload_len ?h)" "[]"] hl
      by (auto simp: const_defs unat_ucast_up)
    then show ?thesis using True o d
      by (intro conjI) (simp_all add: input_header_def)
  next
    case False
    then show ?thesis using assms(8) unfolding input_round_def b(1) by simp
  qed
qed

text \<open>A client with two free slots of 2000 bytes, the first taken for writing.\<close>

definition demo_client :: client where
  "demo_client = \<lparr>cl_sess = ctx_active, cl_jb = zero_jb\<lparr>jb_target_delay_us := 2000\<rparr>,
     cl_audio = \<lparr>rb_data = [], rb_cmask = 0, rb_head = 0, rb_tail = 0, rb_count = 0\<rparr>, cl_lat = latency_start,
     cl_frag = \<lparr>fa_buf = replicate 2000 0, fa_cap = 2000, fa_frame_id = 0, fa_next_index = 0, fa_filled = 0, fa_started = False\<rparr>,
     cl_slots = [set_state SLOT_WRITING (Frame_Slots.free_slot (replicate 2000 0)), Frame_Slots.free_slot (replicate 2000 0)],
     cl_write_slot = 0, cl_frame_count = 0, cl_cur_fid = 0, cl_frame_arrival = 0, cl_decode_oks = 0, cl_presented = 0,
     cl_have_decoder = True, cl_have_display = False, cl_shown = [], cl_last_flush = 0\<rparr>"

theorem input_round_delivers_or_drops_witness:
  "\<exists>d rest c'. input_round batch0 (replicate 531 0) (replicate 531 0) [ev0] 10 demo_client = ([d], rest, c') \<and>
     input_round batch0 (replicate 531 0) (replicate 531 0) [ev0] 2 demo_client = ([], [], demo_client) \<and>
     sc_tx_seq (cl_sess c') = 8"
proof -
  obtain o1 r1 c1 where x1: "input_round batch0 (replicate 531 0) (replicate 531 0) [ev0] 10 demo_client = (o1, r1, c1)"
    by (metis prod_cases3)
  obtain o2 r2 c2 where x2: "input_round batch0 (replicate 531 0) (replicate 531 0) [ev0] 2 demo_client = (o2, r2, c2)"
    by (metis prod_cases3)
  have l: "531 \<le> length (replicate 531 (0 :: u8))" "length (replicate 531 (0 :: u8)) < 2 ^ 63"
    "length (ib_events batch0) = 32" by (simp_all add: batch0_def)
  have t: "cl_last_flush demo_client = 0" "sc_tx_seq (cl_sess demo_client) = 7"
    by (simp_all add: demo_client_def ctx_active_def)
  note a = input_round_delivers_or_drops [OF l(3) batch0_inv _ l(1,2) l(1,2) x1, simplified t]
    and b = input_round_delivers_or_drops [OF l(3) batch0_inv _ l(1,2) l(1,2) x2, simplified t]
  have "(4 :: u64) \<le> 10" "\<not> (4 :: u64) \<le> 2" by simp_all
  then show ?thesis using a b x1 x2 by (simp add: numeral_eq_Suc) blast
qed

end
