(* ===== verification/Stream_Delivery.thy ===== *)
theory Stream_Delivery
  imports Sim_Server Client_Loop
begin

unbundle bit_operations_syntax

text \<open>
  The path of an access unit from the server to a frame slot of the client: cutting into chunks,
  datagrams, an arbitrary reordering by the network, the jitter buffer, the assembler, publication.
\<close>

section \<open>What the server sends\<close>

function cuts :: "bytes \<Rightarrow> bytes list" where
  "cuts data = (if data = [] then [] else take SIM_CHUNK data # cuts (drop SIM_CHUNK data))"
  by pat_completeness auto
termination by (relation "measure length") (simp_all add: const_defs)

declare cuts.simps [simp del]

lemma cuts_Nil [simp]: "cuts data = [] \<longleftrightarrow> data = []"
  by (simp add: cuts.simps [of data])

lemma concat_cuts: "concat (cuts data) = data"
  by (induction data rule: cuts.induct) (subst cuts.simps, simp)

lemma cuts_lengths: "c \<in> set (cuts data) \<Longrightarrow> 0 < length c \<and> length c \<le> SIM_CHUNK"
proof (induction data rule: cuts.induct)
  case (1 data)
  then show ?case by (subst (asm) (2) cuts.simps) (auto simp: const_defs split: if_splits)
qed

lemma length_cuts: "length data \<le> n * SIM_CHUNK \<Longrightarrow> length (cuts data) \<le> n"
proof (induction data arbitrary: n rule: cuts.induct)
  case (1 data)
  show ?case
  proof (cases "data = []")
    case False
    then obtain m where "n = Suc m" using 1(2) by (cases n) auto
    then show ?thesis using 1(1) [OF False, of m] 1(2) False by (subst cuts.simps) simp
  qed (simp add: cuts.simps)
qed

definition chunk_header :: "bool \<Rightarrow> u32 \<Rightarrow> u32 \<Rightarrow> nat \<Rightarrow> vmc_proto_header" where
  "chunk_header key ts seq n =
     media_header (VMC_PROTO_FLAG_FRAGMENTED OR (if key then VMC_PROTO_FLAG_KEYFRAME else 0)) VMC_PROTO_STREAM_VIDEO
       (of_nat (4 + n)) seq ts"

definition chunk_payload :: "u16 \<Rightarrow> nat \<Rightarrow> bool \<Rightarrow> bytes \<Rightarrow> bytes" where
  "chunk_payload f k is_last c =
     vmc_video_frag_hdr_pack [0, 0, 0, 0] f (of_nat k OR (if is_last then VMC_VIDEO_FRAG_LAST else 0)) @ c"

text \<open>The datagrams of the chunks \<open>css\<close>, numbered from \<open>k\<close> and sequenced from \<open>seq\<close>.\<close>

fun sent_frames :: "u16 \<Rightarrow> bool \<Rightarrow> u32 \<Rightarrow> u32 \<Rightarrow> nat \<Rightarrow> bytes list \<Rightarrow> bytes list" where
  "sent_frames f key ts seq k [] = []"
| "sent_frames f key ts seq k (c # cs) =
     frame_image (chunk_header key ts seq (length c)) (chunk_payload f k (cs = []) c)
     # sent_frames f key ts (seq + 1) (k + 1) cs"

lemma length_chunk_payload: "length (chunk_payload f k l c) = 4 + length c"
  by (simp add: chunk_payload_def vmc_video_frag_hdr_pack_def)

lemma chunk_header_valid: "vmc_proto_header_valid (Some (chunk_header key ts seq n))"
  by (simp add: vmc_proto_header_valid_Some chunk_header_def media_header_def zero_header_def)

lemma chunk_header_len: "n \<le> SIM_CHUNK \<Longrightarrow> unat (ph_payload_len (chunk_header key ts seq n)) = 4 + n"
  using unat_of_nat [of "4 + n", where 'a = 16] by (simp add: chunk_header_def media_header_def const_defs)

lemma udp_send_taken: "Sim_Server.udp_send (\<lambda>_. Taken) pkt = [pkt]"
proof -
  have "udp_tries (\<lambda>_. Taken) 0 (Suc 199)" by (simp only: udp_tries.simps sendto_result.case)
  then show ?thesis by (simp add: Sim_Server.udp_send_def)
qed

lemma send_frame_chunk:
  assumes "length stack = 1421" "length c \<le> SIM_CHUNK"
  shows "send_frame stack (\<lambda>_. Taken) False (chunk_header key ts seq (length c)) (Some (chunk_payload f k l c)) =
    [frame_image (chunk_header key ts seq (length c)) (chunk_payload f k l c)]"
proof -
  let ?h = "chunk_header key ts seq (length c)" and ?p = "chunk_payload f k l c"
  have n: "unat (ph_payload_len ?h) = 4 + length c" using assms(2) by (rule chunk_header_len)
  have p: "length ?p = 4 + length c" by (rule length_chunk_payload)
  have L: "length (frame_image ?h ?p) = 21 + length c" by (simp add: frame_image_def p)
  have e: "vmc_proto_encode (Some stack) (of_nat (length stack)) (Some ?h) (Some ?p) =
    (int (21 + length c), Some (frame_image ?h ?p @ drop (21 + length c) stack))"
    using vmc_proto_encode_frame [OF chunk_header_valid, of key ts seq "length c" ?p "of_nat (length stack)" stack] assms n p
    by (simp add: const_defs)
  show ?thesis unfolding send_frame_def e using udp_send_taken [of "frame_image ?h ?p"] L by simp
qed

lemma send_chunks_frames:
  assumes "length stack = 1421" "off \<le> length data"
  shows "send_chunks stack (\<lambda>_ _. Taken) (\<lambda>_. False) data key ts f off (of_nat k) seq =
    (sent_frames f key ts seq k (cuts (drop off data)), seq + of_nat (length (cuts (drop off data))))"
  using assms(2)
proof (induction "length data - off" arbitrary: off k seq rule: less_induct)
  case less
  show ?case
  proof (cases "off < length data")
    case False
    then show ?thesis using less(2) by (subst send_chunks.simps) (simp add: cuts.simps)
  next
    case True
    define cl where "cl = min (length data - off) SIM_CHUNK"
    define c where "c = take cl (drop off data)"
    have cl: "0 < cl" "off + cl \<le> length data" using True by (simp_all add: cl_def const_defs)
    have lc: "length c = cl" "length c \<le> SIM_CHUNK" using cl(2) by (simp_all add: c_def) (simp add: cl_def)
    have cut: "cuts (drop off data) = c # cuts (drop (off + cl) data)"
      using True by (subst cuts.simps) (auto simp: c_def cl_def min_def add.commute)
    have last: "(off + cl \<ge> length data) = (cuts (drop (off + cl) data) = [])" by simp
    have IH: "send_chunks stack (\<lambda>_ _. Taken) (\<lambda>_. False) data key ts f (off + cl) (of_nat (k + 1)) (seq + 1) =
      (sent_frames f key ts (seq + 1) (k + 1) (cuts (drop (off + cl) data)),
       seq + 1 + of_nat (length (cuts (drop (off + cl) data))))"
      using less(1) [of "off + cl" "k + 1" "seq + 1"] cl True by simp
    note s = send_frame_chunk [OF assms(1) lc(2), of key ts seq f k "cuts (drop (off + cl) data) = []",
        unfolded chunk_header_def chunk_payload_def last [symmetric] lc(1)]
    have "send_chunks stack (\<lambda>_ _. Taken) (\<lambda>_. False) data key ts f off (of_nat k) seq =
      (frame_image (chunk_header key ts seq (length c)) (chunk_payload f k (cuts (drop (off + cl) data) = []) c)
        # sent_frames f key ts (seq + 1) (k + 1) (cuts (drop (off + cl) data)),
       seq + 1 + of_nat (length (cuts (drop (off + cl) data))))"
      using True IH s
      by (subst send_chunks.simps)
        (simp add: Let_def cl_def [symmetric] c_def [symmetric] chunk_header_def chunk_payload_def last [symmetric] lc(1) add.commute)
    then show ?thesis unfolding cut by (simp add: add.assoc)
  qed
qed

section \<open>Receiving the datagrams in any order\<close>

text \<open>
  The \<open>i\<close>-th chunk as a datagram and as the contents of a jitter buffer slot: its sequence number,
  time stamp, flags and payload.
\<close>

definition nth_payload :: "u16 \<Rightarrow> bytes list \<Rightarrow> nat \<Rightarrow> bytes" where
  "nth_payload f css i = chunk_payload f i (Suc i = length css) (css ! i)"

definition nth_frame :: "u16 \<Rightarrow> bool \<Rightarrow> u32 \<Rightarrow> u32 \<Rightarrow> bytes list \<Rightarrow> nat \<Rightarrow> bytes" where
  "nth_frame f key ts seq css i =
     frame_image (chunk_header key ts (seq + of_nat i) (length (css ! i))) (nth_payload f css i)"

definition chunk_flags :: "bool \<Rightarrow> u16" where
  "chunk_flags key = ucast (VMC_PROTO_FLAG_FRAGMENTED OR (if key then VMC_PROTO_FLAG_KEYFRAME else 0))"

type_synonym item = "u32 \<times> u32 \<times> u16 \<times> bytes"

definition slot_item :: "vmc_jb_slot \<Rightarrow> item" where
  "slot_item s = (js_seq s, js_ts_us s, js_flags s, take (unat (js_len s)) (js_storage s))"

definition nth_item :: "u16 \<Rightarrow> bool \<Rightarrow> u32 \<Rightarrow> u32 \<Rightarrow> bytes list \<Rightarrow> nat \<Rightarrow> item" where
  "nth_item f key ts seq css i = (seq + of_nat i, ts, chunk_flags key, nth_payload f css i)"

lemma sent_frames_nth:
  "sent_frames f key ts seq k cs =
     map (\<lambda>i. frame_image (chunk_header key ts (seq + of_nat i) (length (cs ! i)))
                (chunk_payload f (k + i) (Suc i = length cs) (cs ! i))) [0..<length cs]"
proof (induction cs arbitrary: seq k)
  case (Cons c cs)
  have "[0..<Suc n] = 0 # map Suc [0..<n]" for n by (simp add: map_Suc_upt upt_conv_Cons del: upt_Suc)
  then have m: "map g [0..<Suc n] = g 0 # map (\<lambda>i. g (Suc i)) [0..<n]" for g :: "nat \<Rightarrow> bytes" and n
    by (simp add: comp_def del: upt_Suc)
  show ?case using Cons [of "seq + 1" "k + 1"] by (simp add: m ac_simps del: upt_Suc)
qed simp

lemma mset_map_reorder: "mset xs = mset (map g ys) \<Longrightarrow> \<exists>zs. mset zs = mset ys \<and> xs = map g zs"
proof (induction xs arbitrary: ys)
  case (Cons x xs)
  then have "x \<in> g ` set ys" by (metis list.set_intros(1) list.set_map mset_eq_setD)
  then obtain y where y: "y \<in> set ys" "x = g y" by blast
  then have r: "mset ys = add_mset y (mset (remove1 y ys))" by simp
  have "mset (map g ys) = add_mset (g y) (mset (map g (remove1 y ys)))" by (simp only: mset_map r image_mset_add_mset)
  then have "mset xs = mset (map g (remove1 y ys))" using Cons.prems y by simp
  from Cons.IH [OF this] obtain zs where "mset zs = mset (remove1 y ys)" "xs = map g zs" by blast
  then show ?case using y by (intro exI [of _ "y # zs"]) simp
qed simp

lemma nth_payload_length: "length (nth_payload f css i) = 4 + length (css ! i)"
  by (simp add: nth_payload_def length_chunk_payload)

lemma decode_nth_frame:
  assumes "length (css ! i) \<le> SIM_CHUNK"
  shows "vmc_proto_decode (Some (nth_frame f key ts seq css i)) (of_nat (length (nth_frame f key ts seq css i))) =
    (VMC_OK, Some ((chunk_header key ts (seq + of_nat i) (length (css ! i)))\<lparr>ph_crc :=
       frame_sum (chunk_header key ts (seq + of_nat i) (length (css ! i))) (nth_payload f css i)\<rparr>, nth_payload f css i))"
  unfolding nth_frame_def
  by (rule decode_whole_frame [OF chunk_header_valid]) (simp add: nth_payload_length chunk_header_len [OF assms])

lemma video_rx_only_buffer:
  assumes "vmc_proto_decode (Some pkt) (of_nat (length pkt)) = (VMC_OK, Some (h, payload))" "ph_stream h = VMC_PROTO_STREAM_VIDEO"
  shows "\<exists>sc. client_rx (pkt, k) c = c\<lparr>cl_jb := rx_video h payload k (cl_jb c), cl_sess := sc\<rparr>"
proof -
  obtain st sco where o: "vmc_session_on_rx (Some (cl_sess c)) (Some pkt) (of_nat (length pkt)) (rk_ms k) = (st, sco)" by fastforce
  then obtain sc where "sco = Some sc" using on_rx_cases by blast
  then show ?thesis using assms o by (intro exI [of _ sc]) (simp add: client_rx_def Let_def const_defs)
qed

text \<open>
  The buffer after the chunks \<open>got\<close> have arrived, in that order: it holds exactly their items.
  \<open>R\<close> collects the arrival times.
\<close>

definition rx_inv :: "u32 \<Rightarrow> (nat \<Rightarrow> item) \<Rightarrow> u64 \<Rightarrow> u64 set \<Rightarrow> nat list \<Rightarrow> vmc_jitter_buffer \<Rightarrow> bool" where
  "rx_inv base item delay R got jb \<longleftrightarrow>
     jb_inv jb \<and> slot_item ` set (held jb) = item ` set got \<and> length (held jb) = length got \<and>
     jb_target_delay_us jb = delay \<and> (\<forall>s \<in> set (held jb). js_recv_us s \<in> R) \<and>
     (jb_stats_pushed jb = 0 \<or> seq_off base (jb_next_seq jb) < VMC_JB_MAX_SLOTS)"

lemma seq_off_add: "i < 2 ^ 32 \<Longrightarrow> seq_off base (base + of_nat i) = i"
  by (simp add: seq_off_def unat_of_nat)

lemma window_of_offsets:
  assumes "jb_stats_pushed jb = 0 \<or> seq_off base (jb_next_seq jb) < VMC_JB_MAX_SLOTS" "i < VMC_JB_MAX_SLOTS"
  shows "in_window jb (base + of_nat i)" "seq_off base (push_base jb (base + of_nat i)) < VMC_JB_MAX_SLOTS"
proof -
  have i: "seq_off base (base + of_nat i) = i" using assms(2) by (intro seq_off_add) (simp add: const_defs)
  then show b: "seq_off base (push_base jb (base + of_nat i)) < VMC_JB_MAX_SLOTS"
    using assms by (auto simp: push_base_def)
  have "seq_cmp (base + of_nat i) (push_base jb (base + of_nat i)) =
      int i - int (seq_off base (push_base jb (base + of_nat i)))"
    using seq_cmp_off [of base "base + of_nat i" "push_base jb (base + of_nat i)"] b i assms(2) by (simp add: const_defs)
  then show "in_window jb (base + of_nat i)" using b assms(2) by (simp add: in_window_def)
qed

lemma rx_chunk:
  assumes inv: "rx_inv base (nth_item f key ts base css) delay R got jb"
    and n: "length css \<le> VMC_JB_MAX_SLOTS" and i: "i < length css" "i \<notin> set got"
    and got: "set got \<subseteq> {0..<length css}" "distinct got" and len: "length (css ! i) \<le> SIM_CHUNK"
    and h: "ph_seq h = base + of_nat i" "ph_ts_us h = ts" "ucast (ph_flags h) = chunk_flags key"
      "unat (ph_payload_len h) = 4 + length (css ! i)"
  shows "rx_inv base (nth_item f key ts base css) delay (insert (rk_push k) R) (got @ [i])
    (rx_video h (nth_payload f css i) k jb)"
proof -
  let ?item = "nth_item f key ts base css" and ?p = "Some (nth_payload f css i)" and ?l = "ph_payload_len h"
  have j: "jb_inv jb" "slot_item ` set (held jb) = ?item ` set got" "length (held jb) = length got"
    "jb_stats_pushed jb = 0 \<or> seq_off base (jb_next_seq jb) < VMC_JB_MAX_SLOTS"
    using inv by (simp_all add: rx_inv_def)
  have ok: "payload_ok ?p ?l" using h(4) by (simp add: payload_ok_def nth_payload_length)
  note w = window_of_offsets [OF j(4), of i]
  have fresh: "base + of_nat i \<notin> js_seq ` set (held jb)"
  proof
    assume "base + of_nat i \<in> js_seq ` set (held jb)"
    then have "base + of_nat i \<in> fst ` slot_item ` set (held jb)" by (auto simp: slot_item_def image_image)
    then obtain m where m: "m \<in> set got" "base + of_nat i = base + of_nat m" using j(2) by (auto simp: nth_item_def)
    then have "m < 2 ^ 32" "i < 2 ^ 32" using got(1) n i(1) by (auto simp: const_defs)
    then have "i = m" using m(2) seq_off_add [of i base] seq_off_add [of m base] by metis
    then show False using m(1) i(2) by simp
  qed
  have few: "length (held jb) < VMC_JB_MAX_SLOTS"
  proof -
    have "length (i # got) = card (set (i # got))" using got(2) i(2) by (simp add: distinct_card)
    also have "\<dots> \<le> card {0..<length css}" using got(1) i(1) by (intro card_mono) auto
    finally show ?thesis using n j(3) by simp
  qed
  from j(1) ok show ?thesis
  proof (cases rule: vmc_jb_push_cases [of jb ?p ?l "base + of_nat i" ts "ph_stream h" "chunk_flags key" "rk_push k"])
    case (stored m)
    let ?s = "fill_slot (jb_slots jb ! m) (base + of_nat i) ts (ph_stream h) (chunk_flags key) ?p ?l (rk_push k)"
    have ok_m: "slot_ok (jb_slots jb ! m)" using j(1) stored(4) by (simp add: jb_inv_def list_all_length)
    note fp = fill_slot_props [OF ok_m ok [unfolded payload_ok_def], of "base + of_nat i" ts "ph_stream h" "chunk_flags key" "rk_push k"]
    note ins = insert_slot [OF j(1) stored(4,5) fp(1,2)]
    have "min (unat ?l) VMC_JB_PAYLOAD_CAP = length (nth_payload f css i)"
      using h(4) len by (simp add: nth_payload_length const_defs)
    then have it: "slot_item ?s = ?item i"
      using fill_slot_carries [OF ok_m ok, of "base + of_nat i" ts "ph_stream h" "chunk_flags key" "rk_push k"]
      by (simp add: slot_carries_def slot_item_def nth_item_def)
    have r: "rx_video h (nth_payload f css i) k jb = jb\<lparr>jb_slots := (jb_slots jb)[m := ?s],
        jb_next_seq := push_base jb (base + of_nat i), jb_stats_pushed := jb_stats_pushed jb + 1\<rparr>"
      using stored(6) h by (simp add: rx_video_def)
    show ?thesis unfolding r
      using ins fresh fp(3,4) it inv w n i(1) by (auto simp: rx_inv_def)
  qed (use fresh few w n i(1) in auto)
qed

lemma rx_chunks:
  assumes "rx_inv base (nth_item f key ts base css) delay R got (cl_jb c)" and "length css \<le> VMC_JB_MAX_SLOTS"
    and "distinct (got @ map fst aks)" "set (got @ map fst aks) \<subseteq> {0..<length css}"
    and "\<forall>x \<in> set css. length x \<le> SIM_CHUNK"
  shows "\<exists>jb sc. rx_loop (map (\<lambda>(i, k). (nth_frame f key ts base css i, k)) aks) c = c\<lparr>cl_jb := jb, cl_sess := sc\<rparr> \<and>
    rx_inv base (nth_item f key ts base css) delay (R \<union> rk_push ` snd ` set aks) (got @ map fst aks) jb"
  using assms
proof (induction aks arbitrary: c R got)
  case Nil
  then show ?case by (intro exI [of _ "cl_jb c"] exI [of _ "cl_sess c"]) (simp add: rx_loop_def)
next
  case (Cons a aks)
  obtain i k where a: "a = (i, k)" by fastforce
  have i: "i < length css" "i \<notin> set got" "length (css ! i) \<le> SIM_CHUNK" using Cons.prems(3-5) by (auto simp: a)
  let ?h = "(chunk_header key ts (base + of_nat i) (length (css ! i)))\<lparr>ph_crc :=
       frame_sum (chunk_header key ts (base + of_nat i) (length (css ! i))) (nth_payload f css i)\<rparr>"
  have h: "ph_seq ?h = base + of_nat i" "ph_ts_us ?h = ts" "ucast (ph_flags ?h) = chunk_flags key"
      "unat (ph_payload_len ?h) = 4 + length (css ! i)" "ph_stream ?h = VMC_PROTO_STREAM_VIDEO"
    using chunk_header_len [OF i(3)] by (simp_all add: chunk_header_def media_header_def chunk_flags_def)
  obtain sc where sc: "client_rx (nth_frame f key ts base css i, k) c =
      c\<lparr>cl_jb := rx_video ?h (nth_payload f css i) k (cl_jb c), cl_sess := sc\<rparr>"
    using video_rx_only_buffer [OF decode_nth_frame [OF i(3)] h(5)] by blast
  let ?c1 = "c\<lparr>cl_jb := rx_video ?h (nth_payload f css i) k (cl_jb c), cl_sess := sc\<rparr>"
  have "rx_inv base (nth_item f key ts base css) delay (insert (rk_push k) R) (got @ [i]) (cl_jb ?c1)"
    using rx_chunk [OF Cons.prems(1,2) i(1,2) _ _ i(3) h(1-4), of k] Cons.prems(3,4) by simp
  from Cons.IH [OF this Cons.prems(2) _ _ Cons.prems(5)] Cons.prems(3,4) a
  obtain jb sc2 where "rx_loop (map (\<lambda>(i, k). (nth_frame f key ts base css i, k)) aks) ?c1 = ?c1\<lparr>cl_jb := jb, cl_sess := sc2\<rparr>"
    "rx_inv base (nth_item f key ts base css) delay (insert (rk_push k) R \<union> rk_push ` snd ` set aks) ((got @ [i]) @ map fst aks) jb"
    by auto
  then show ?case using sc
    by (intro exI [of _ jb] exI [of _ sc2]) (simp add: a rx_loop_def)
qed

section \<open>Draining the unit into a slot\<close>

text \<open>The assembler as it sees the write slot's buffer.\<close>

definition slot_asm :: "client \<Rightarrow> vmc_frag_assembler" where
  "slot_asm c = (cl_frag c)\<lparr>fa_buf := fs_buf (cl_slots c ! cl_write_slot c)\<rparr>"

definition asm_stage :: "u16 \<Rightarrow> bytes list \<Rightarrow> nat \<Rightarrow> client \<Rightarrow> bool" where
  "asm_stage f css k c \<longleftrightarrow> fa_inv (slot_asm c) \<and> cl_write_slot c < length (cl_slots c) \<and> cl_have_decoder c \<and>
     (if k = 0 then asm_idle_for f (fa_abs (slot_asm c)) else fa_abs (slot_asm c) = Some (f, of_nat k, concat (take k css)))"

text \<open>
  The unit \<open>data\<close> is published from the write slot, another free slot is taken for writing, and
  every other slot is as before.
\<close>

definition published_unit :: "bytes \<Rightarrow> u32 \<Rightarrow> client \<Rightarrow> client \<Rightarrow> bool" where
  "published_unit data ts c c' \<longleftrightarrow>
     (let w = cl_write_slot c; w' = cl_write_slot c'; fs = cl_slots c; fs' = cl_slots c' in
      length fs' = length fs \<and> w' < length fs \<and> w' \<noteq> w \<and> fs_state (fs ! w') = SLOT_FREE \<and>
      fs_state (fs' ! w') = SLOT_WRITING \<and> fs_buf (fs' ! w') = fs_buf (fs ! w') \<and>
      fs_state (fs' ! w) = SLOT_READY \<and> slot_au (fs' ! w) = (cl_frame_count c, data) \<and>
      fs_len (fs' ! w) = length data \<and> fs_send_ts (fs' ! w) = ts \<and>
      (\<forall>i. i \<noteq> w \<longrightarrow> i \<noteq> w' \<longrightarrow> fs' ! i = fs ! i) \<and>
      cl_frame_count c' = cl_frame_count c + 1)"

text \<open>A free slot other than the write slot, all buffers as large as the assembler believes.\<close>

definition slots_ready :: "client \<Rightarrow> bool" where
  "slots_ready c \<longleftrightarrow> fs_state (cl_slots c ! cl_write_slot c) = SLOT_WRITING \<and>
     (\<exists>sl \<in> set (cl_slots c). fs_state sl = SLOT_FREE) \<and>
     (\<forall>sl \<in> set (cl_slots c). length (fs_buf sl) = unat (fa_cap (cl_frag c)))"

lemma concat_take_Suc: "k < length css \<Longrightarrow> concat (take (Suc k) css) = concat (take k css) @ css ! k"
  by (simp add: take_Suc_conv_app_nth)

lemma length_concat_take: "length (concat (take k css)) \<le> length (concat css)"
  by (metis append_take_drop_id concat_append le_add1 length_append)

lemma asm_feed_stage:
  assumes "asm_stage f css k c" "k < length css" "length (concat css) \<le> unat (fa_cap (cl_frag c))"
  shows "asm_feed (unat (fa_cap (slot_asm c))) (fa_abs (slot_asm c)) f (of_nat k) l (css ! k) =
    (VMC_OK, if l then None else Some (f, of_nat (Suc k), concat (take (Suc k) css)),
     if l then Some (concat (take (Suc k) css)) else None)"
proof -
  have start: "(case fa_abs (slot_asm c) of Some (g, n, bs) \<Rightarrow> if g = f then (n, bs) else (0, []) | None \<Rightarrow> (0, []))
      = (of_nat k, concat (take k css))"
    using assms(1) by (auto simp: asm_stage_def asm_idle_for_def split: option.splits if_splits)
  have "length (concat (take (Suc k) css)) \<le> unat (fa_cap (slot_asm c))"
    using length_concat_take [of "Suc k" css] assms(3) by (simp add: slot_asm_def)
  then show ?thesis unfolding asm_feed_def start using concat_take_Suc [OF assms(2)] by (simp add: add.commute)
qed

text \<open>What one chunk does to the assembler and the buffer of the write slot.\<close>

lemma feed_stage:
  assumes "asm_stage f css k c" "k < length css" "length (concat css) \<le> unat (fa_cap (cl_frag c))"
  obtains a n where
    "vmc_frag_feed (Some (slot_asm c)) f (of_nat k) l (Some (css ! k)) (of_nat (length (css ! k))) = (VMC_OK, Some a, n)"
    "fa_inv a" "fa_cap a = fa_cap (cl_frag c)"
    "fa_abs a = (if l then None else Some (f, of_nat (Suc k), concat (take (Suc k) css)))"
    "l \<Longrightarrow> take (unat n) (fa_buf a) = concat (take (Suc k) css)" "unat n \<le> length (fa_buf a)" "\<not> l \<Longrightarrow> n = 0"
proof -
  have inv: "fa_inv (slot_asm c)" using assms(1) by (simp add: asm_stage_def)
  have "length (css ! k) \<le> length (concat (take (Suc k) css))" using concat_take_Suc [OF assms(2)] by simp
  then have "length (css ! k) < 2 ^ 64"
    using length_concat_take [of "Suc k" css] assms(3) unat_bound [of "fa_cap (cl_frag c)"] by simp
  then have len: "length (css ! k) = unat (of_nat (length (css ! k)) :: sz_t)" by (simp add: unat_of_nat)
  obtain r a n where f: "vmc_frag_feed (Some (slot_asm c)) f (of_nat k) l (Some (css ! k)) (of_nat (length (css ! k))) = (r, Some a, n)"
    "fa_inv a" "fa_cap a = fa_cap (slot_asm c)"
    "asm_feed (unat (fa_cap (slot_asm c))) (fa_abs (slot_asm c)) f (of_nat k) l (css ! k) =
       (r, fa_abs a, if r = VMC_OK \<and> l then Some (take (unat n) (fa_buf a)) else None)"
    "\<not> l \<or> r \<noteq> VMC_OK \<Longrightarrow> n = 0" "unat n \<le> length (fa_buf a)"
    by (rule vmc_frag_feed_refines [OF inv len, of f "of_nat k" l]) blast
  have r: "r = VMC_OK" "fa_abs a = (if l then None else Some (f, of_nat (Suc k), concat (take (Suc k) css)))"
    "l \<Longrightarrow> take (unat n) (fa_buf a) = concat (take (Suc k) css)"
    using f(4) unfolding asm_feed_stage [OF assms] by (auto split: if_splits)
  show thesis using f r by (intro that [of a n]) (simp_all add: slot_asm_def)
qed

definition only_buffer :: "client \<Rightarrow> client \<Rightarrow> bool" where
  "only_buffer c c1 \<longleftrightarrow> cl_write_slot c1 = cl_write_slot c \<and> cl_frame_count c1 = cl_frame_count c \<and>
     cl_jb c1 = cl_jb c \<and> fa_cap (cl_frag c1) = fa_cap (cl_frag c) \<and> cl_have_decoder c1 = cl_have_decoder c \<and>
     (\<exists>b. length b = length (fs_buf (cl_slots c ! cl_write_slot c)) \<and>
        cl_slots c1 = (cl_slots c)[cl_write_slot c := (cl_slots c ! cl_write_slot c)\<lparr>fs_buf := b\<rparr>])"

lemma feed_middle:
  assumes "asm_stage f css k c" "Suc k < length css" "length (concat css) \<le> unat (fa_cap (cl_frag c))"
  shows "\<exists>c1. feed_chunk ts f (of_nat k) False (css ! k) now c = Some c1 \<and> asm_stage f css (Suc k) c1 \<and> only_buffer c c1"
proof -
  have k: "k < length css" using assms(2) by simp
  obtain a n where f: "vmc_frag_feed (Some (slot_asm c)) f (of_nat k) False (Some (css ! k)) (of_nat (length (css ! k))) = (VMC_OK, Some a, n)"
    "fa_inv a" "fa_cap a = fa_cap (cl_frag c)" "fa_abs a = Some (f, of_nat (Suc k), concat (take (Suc k) css))" "n = 0"
    using feed_stage [OF assms(1) k assms(3), of False] by (metis (full_types))
  let ?w = "cl_write_slot c" and ?fs = "cl_slots c"
  let ?c1 = "c\<lparr>cl_frag := a, cl_slots := ?fs[?w := (?fs ! ?w)\<lparr>fs_buf := fa_buf a\<rparr>]\<rparr>"
  have w: "?w < length ?fs" "fa_inv (slot_asm c)" "cl_have_decoder c" using assms(1) by (simp_all add: asm_stage_def)
  have e: "feed_chunk ts f (of_nat k) False (css ! k) now c = Some ?c1"
    using f(1,5) by (simp add: feed_chunk_def Let_def slot_asm_def)
  have s: "slot_asm ?c1 = a" using w(1) by (simp add: slot_asm_def)
  have "length (fa_buf a) = length (fs_buf (?fs ! ?w))" using f(2,3) w(2) by (simp add: fa_inv_def slot_asm_def)
  then have "only_buffer c ?c1" using f(3) by (auto simp: only_buffer_def)
  moreover have "asm_stage f css (Suc k) ?c1" unfolding asm_stage_def s using f(2,4) w by simp
  ultimately show ?thesis using e by blast
qed

lemma take_write_ready:
  assumes "\<exists>sl \<in> set fs. fs_state sl = SLOT_FREE"
  obtains w where "slot_take_write fs = Some (w, fs[w := set_state SLOT_WRITING (fs ! w)])" "w < length fs" "fs_state (fs ! w) = SLOT_FREE"
proof (cases "slot_take_write fs")
  case None
  then show thesis using assms by (auto simp: slot_take_write_def split: option.splits)
next
  case (Some x)
  then obtain v fs' where "slot_take_write fs = Some (v, fs')" by (cases x) simp
  then show thesis using slot_take_write_Some [of fs v fs'] that [of v] by simp
qed

lemma feed_last:
  assumes "asm_stage f css k c" "Suc k = length css" "length (concat css) \<le> unat (fa_cap (cl_frag c))" "concat css \<noteq> []"
    and "slots_ready c"
  shows "\<exists>c1. feed_chunk ts f (of_nat k) True (css ! k) now c = Some c1 \<and> published_unit (concat css) ts c c1 \<and>
    cl_jb c1 = cl_jb c \<and> fa_inv (slot_asm c1) \<and> fa_abs (slot_asm c1) = None \<and> fa_cap (cl_frag c1) = fa_cap (cl_frag c) \<and>
    cl_have_decoder c1"
proof -
  have k: "k < length css" using assms(2) by simp
  have all: "concat (take (Suc k) css) = concat css" using assms(2) by simp
  obtain a n where f: "vmc_frag_feed (Some (slot_asm c)) f (of_nat k) True (Some (css ! k)) (of_nat (length (css ! k))) = (VMC_OK, Some a, n)"
    "fa_inv a" "fa_cap a = fa_cap (cl_frag c)" "fa_abs a = None" "take (unat n) (fa_buf a) = concat css" "unat n \<le> length (fa_buf a)"
    using feed_stage [OF assms(1) k assms(3), of True] unfolding all by (metis (full_types))
  have n: "unat n = length (concat css)" using f(5,6) by (metis length_take min_absorb2)
  then have npos: "n > 0" using assms(4) by (metis gr_zeroI length_greater_0_conv unat_gt_0 word_neq_0_conv)
  let ?w = "cl_write_slot c" and ?fs = "cl_slots c"
  let ?fs1 = "?fs[?w := (?fs ! ?w)\<lparr>fs_buf := fa_buf a\<rparr>]"
  let ?pub = "slot_publish ?w (unat n) ts 0 (cl_frame_count c) (int (unat (cl_frame_count c)) * 1000) 0 now ?fs1"
  have w: "?w < length ?fs" "fa_inv (slot_asm c)" "cl_have_decoder c" using assms(1) by (simp_all add: asm_stage_def)
  have wr: "fs_state (?fs ! ?w) = SLOT_WRITING" using assms(5) by (simp add: slots_ready_def)
  have other: "?pub ! i = ?fs ! i" if "i \<noteq> ?w" for i using that by (simp add: slot_publish_def)
  have lenp: "length ?pub = length ?fs" by (simp add: slot_publish_def)
  have "\<exists>sl \<in> set ?pub. fs_state sl = SLOT_FREE"
  proof -
    obtain i where i: "i < length ?fs" "fs_state (?fs ! i) = SLOT_FREE" using assms(5) by (auto simp: slots_ready_def in_set_conv_nth)
    then have "i \<noteq> ?w" using wr by auto
    then show ?thesis using i other lenp by (metis nth_mem)
  qed
  then obtain v where v: "slot_take_write ?pub = Some (v, ?pub[v := set_state SLOT_WRITING (?pub ! v)])" "v < length ?pub"
    "fs_state (?pub ! v) = SLOT_FREE" by (rule take_write_ready)
  have vw: "v \<noteq> ?w" using v(3) w(1) by (auto simp: slot_publish_def)
  let ?fs2 = "?pub[v := set_state SLOT_WRITING (?pub ! v)]"
  let ?c1 = "c\<lparr>cl_frag := a\<lparr>fa_buf := fs_buf (?fs2 ! v)\<rparr>, cl_slots := ?fs2, cl_write_slot := v, cl_frame_count := cl_frame_count c + 1\<rparr>"
  have e: "feed_chunk ts f (of_nat k) True (css ! k) now c = Some ?c1"
    using f(1) npos v(1) by (simp add: feed_chunk_def Let_def slot_asm_def udp_publish_def)
  have sw: "?fs2 ! ?w = (?fs ! ?w)\<lparr>fs_buf := fa_buf a, fs_len := unat n, fs_send_ts := ts, fs_pub_us := now, fs_deadline_us := 0,
      fs_fidx := cl_frame_count c, fs_pts_us := int (unat (cl_frame_count c)) * 1000, fs_seg := 0, fs_state := SLOT_READY\<rparr>"
    using vw w(1) by (simp add: slot_publish_def)
  have sv: "?fs2 ! v = set_state SLOT_WRITING (?fs ! v)" using v(2) other [OF vw] by simp
  have so: "?fs2 ! i = ?fs ! i" if "i \<noteq> ?w" "i \<noteq> v" for i using that other by simp
  have "published_unit (concat css) ts c ?c1"
    unfolding published_unit_def Let_def
    using sw sv so v(2,3) vw other [OF vw] n f(5) lenp by (simp add: slot_au_def set_state_def)
  moreover have "slot_asm ?c1 = a\<lparr>fa_buf := fs_buf (?fs ! v)\<rparr>" using sv by (simp add: slot_asm_def set_state_def)
  moreover have "length (fs_buf (?fs ! v)) = unat (fa_cap (cl_frag c))"
    using assms(5) v(2) lenp by (simp add: slots_ready_def)
  ultimately show ?thesis using e f(2-4) w(3)
    by (intro exI [of _ ?c1]) (simp add: fa_inv_def fa_abs_def split: if_splits)
qed

text \<open>A drained slot that carries the item of chunk \<open>k\<close> feeds exactly that chunk.\<close>

lemma frag_hdr_unpack_prefix:
  "4 \<le> length xs \<Longrightarrow> take 4 xs = take 4 ys \<Longrightarrow> 4 \<le> length ys \<Longrightarrow> vmc_video_frag_hdr_unpack xs = vmc_video_frag_hdr_unpack ys"
proof -
  assume a: "take 4 xs = take 4 ys" "4 \<le> length xs" "4 \<le> length ys"
  have "xs ! i = ys ! i" if "i < 4" for i using a that by (metis nth_take)
  then show ?thesis by (simp add: vmc_video_frag_hdr_unpack_def)
qed

lemma unpack_payload:
  assumes "k < 0x8000"
  shows "vmc_video_frag_hdr_unpack (chunk_payload f k l c) = (f, of_nat k, l)"
proof -
  have "(of_nat k :: u16) < 0x8000" using assms by (simp add: word_less_nat_alt unat_of_nat)
  then have "vmc_video_frag_hdr_unpack (vmc_video_frag_hdr_pack [0, 0, 0, 0] f (of_nat k OR (if l then VMC_VIDEO_FRAG_LAST else 0)))
      = (f, of_nat k, l)" by (intro frag_hdr_roundtrip) simp_all
  then show ?thesis
    using frag_hdr_unpack_prefix [of "chunk_payload f k l c"
        "vmc_video_frag_hdr_pack [0, 0, 0, 0] f (of_nat k OR (if l then VMC_VIDEO_FRAG_LAST else 0))"]
    by (simp add: chunk_payload_def vmc_video_frag_hdr_pack_def)
qed

lemma chunk_flags_fragmented: "chunk_flags key AND ucast VMC_PROTO_FLAG_FRAGMENTED \<noteq> 0"
  by (simp add: chunk_flags_def const_defs)

lemma handle_chunk:
  assumes "slot_ok s" "slot_item s = nth_item f key ts base css k" "k < length css" "length css \<le> VMC_JB_MAX_SLOTS" "cl_have_decoder c"
  shows "\<exists>c0. handle_slot dec s arrival pub c = feed_chunk ts f (of_nat k) (Suc k = length css) (css ! k) pub c0 \<and>
    c0 = c\<lparr>cl_cur_fid := cl_cur_fid c0, cl_frame_arrival := cl_frame_arrival c0\<rparr>"
proof -
  have i: "js_ts_us s = ts" "js_flags s = chunk_flags key" "take (unat (js_len s)) (js_storage s) = nth_payload f css k"
    using assms(2) by (simp_all add: slot_item_def nth_item_def)
  have ls: "unat (js_len s) \<le> length (js_storage s)" using assms(1) by (simp add: slot_ok_def)
  then have len: "unat (js_len s) = 4 + length (css ! k)" using i(3) nth_payload_length [of f css k] by (metis length_take min_absorb2)
  then have ge: "js_len s \<ge> 4" by (simp add: word_le_nat_alt)
  have "take 4 (js_storage s) = take 4 (nth_payload f css k)" using i(3) len by (metis le_add1 min_absorb1 take_take)
  then have u: "vmc_video_frag_hdr_unpack (js_storage s) = (f, of_nat k, Suc k = length css)"
    using frag_hdr_unpack_prefix [of "js_storage s" "nth_payload f css k"] unpack_payload [of k f "Suc k = length css" "css ! k"]
      assms(3,4) ls len by (simp add: nth_payload_length nth_payload_def [symmetric] const_defs)
  have "take (unat (js_len s) - 4) (drop 4 (js_storage s)) = drop 4 (nth_payload f css k)"
    using i(3) by (metis drop_take)
  also have "\<dots> = css ! k" by (simp add: nth_payload_def chunk_payload_def vmc_video_frag_hdr_pack_def)
  finally have d: "take (unat (js_len s) - 4) (drop 4 (js_storage s)) = css ! k" .
  let ?c0 = "if f \<noteq> cl_cur_fid c then c\<lparr>cl_cur_fid := f, cl_frame_arrival := arrival\<rparr> else c"
  have "handle_slot dec s arrival pub c = feed_chunk ts f (of_nat k) (Suc k = length css) (css ! k) pub ?c0"
    using assms(5) chunk_flags_fragmented ge by (simp add: handle_slot_def i u d Let_def)
  then show ?thesis by (intro exI [of _ ?c0]) simp
qed

lemma stage_simps [simp]:
  "slot_asm (c\<lparr>cl_jb := j\<rparr>) = slot_asm c" "slot_asm (c\<lparr>cl_cur_fid := u, cl_frame_arrival := t\<rparr>) = slot_asm c"
  "asm_stage f css k (c\<lparr>cl_jb := j\<rparr>) = asm_stage f css k c"
  "asm_stage f css k (c\<lparr>cl_cur_fid := u, cl_frame_arrival := t\<rparr>) = asm_stage f css k c"
  "slots_ready (c\<lparr>cl_jb := j\<rparr>) = slots_ready c"
  "slots_ready (c\<lparr>cl_cur_fid := u, cl_frame_arrival := t\<rparr>) = slots_ready c"
  "published_unit d ts (c\<lparr>cl_jb := j\<rparr>) c' = published_unit d ts c c'"
  "published_unit d ts c (c'\<lparr>cl_jb := j\<rparr>) = published_unit d ts c c'"
  "published_unit d ts (c\<lparr>cl_cur_fid := u, cl_frame_arrival := t\<rparr>) c' = published_unit d ts c c'"
  by (simp_all add: slot_asm_def asm_stage_def slots_ready_def published_unit_def)

lemma only_buffer_ready:
  assumes "only_buffer c c1" "slots_ready c" "cl_write_slot c < length (cl_slots c)"
  shows "slots_ready c1"
proof -
  obtain b where b: "length b = length (fs_buf (cl_slots c ! cl_write_slot c))"
    "cl_slots c1 = (cl_slots c)[cl_write_slot c := (cl_slots c ! cl_write_slot c)\<lparr>fs_buf := b\<rparr>]"
    using assms(1) by (auto simp: only_buffer_def)
  obtain i where i: "i < length (cl_slots c)" "fs_state (cl_slots c ! i) = SLOT_FREE"
    using assms(2) by (auto simp: slots_ready_def in_set_conv_nth)
  then have "fs_state (cl_slots c1 ! i) = SLOT_FREE" using b(2) assms(3) by (simp add: nth_list_update)
  then have "\<exists>sl \<in> set (cl_slots c1). fs_state sl = SLOT_FREE" using i(1) b(2) by (metis length_list_update nth_mem)
  moreover have "length (fs_buf sl) = unat (fa_cap (cl_frag c))" if "sl \<in> set (cl_slots c1)" for sl
    using that assms(2,3) b by (auto simp: slots_ready_def dest!: set_update_subset_insert [THEN subsetD])
  moreover have "fs_state (cl_slots c1 ! cl_write_slot c) = SLOT_WRITING"
    using b(2) assms(2,3) by (simp add: slots_ready_def)
  ultimately show ?thesis using assms(1) by (simp add: slots_ready_def only_buffer_def)
qed

lemma only_buffer_published:
  assumes "only_buffer c c1" "published_unit d ts c1 c'" "cl_write_slot c < length (cl_slots c)"
  shows "published_unit d ts c c'"
  using assms by (auto simp: only_buffer_def published_unit_def Let_def nth_list_update split: if_splits)

text \<open>One look into a buffer that holds the chunks from \<open>k\<close> on yields chunk \<open>k\<close>.\<close>

definition holds_from :: "u32 \<Rightarrow> (nat \<Rightarrow> item) \<Rightarrow> nat \<Rightarrow> nat \<Rightarrow> vmc_jitter_buffer \<Rightarrow> bool" where
  "holds_from base item k n jb \<longleftrightarrow> jb_inv jb \<and> slot_item ` set (held jb) = item ` {k..<n}"

lemma drain_look:
  assumes h: "holds_from base (nth_item f key ts base css) k n jb" and k: "k < n" "n \<le> VMC_JB_MAX_SLOTS"
    and old: "\<forall>s \<in> set (held jb). old_enough jb now s"
  obtains s jb1 where "vmc_jb_peek (Some jb) now = (Some s, Some jb1)" "slot_ok s" "slot_item s = nth_item f key ts base css k"
    "holds_from base (nth_item f key ts base css) (Suc k) n (vmc_jb_consume jb1)"
    "set (held (vmc_jb_consume jb1)) \<subseteq> set (held jb)" "jb_target_delay_us (vmc_jb_consume jb1) = jb_target_delay_us jb"
    "jb_next_seq (vmc_jb_consume jb1) = base + of_nat (Suc k)"
proof -
  let ?item = "nth_item f key ts base css"
  have inv: "jb_inv jb" and img: "slot_item ` set (held jb) = ?item ` {k..<n}" using h by (simp_all add: holds_from_def)
  have off: "\<exists>j. k \<le> j \<and> j < n \<and> slot_item s = ?item j \<and> seq_off base (js_seq s) = j" if s: "s \<in> set (held jb)" for s
  proof -
    obtain j where j: "j \<in> {k..<n}" "slot_item s = ?item j" using img s by blast
    then have "js_seq s = base + of_nat j" "j < 2 ^ 32" using k(2) by (auto simp: slot_item_def nth_item_def const_defs)
    then show ?thesis using j seq_off_add [of j base] by auto
  qed
  have span: "jb_span base jb" unfolding jb_span_def
  proof
    fix s assume "s \<in> set (held jb)"
    from off [OF this] show "seq_off base (js_seq s) < 2 ^ 31" using k(2) by (auto simp: const_defs)
  qed
  have "?item k \<in> slot_item ` set (held jb)" unfolding img using k(1) by simp
  then obtain s0 where s0: "s0 \<in> set (held jb)" "slot_item s0 = ?item k" by force
  have ne: "held jb \<noteq> []" using s0(1) by auto
  obtain s jb1 where p: "vmc_jb_peek (Some jb) now = (Some s, Some jb1)" using vmc_jb_peek_ready [OF span ne old] by blast
  note ps = vmc_jb_peek_Some [OF span p] and kp = vmc_jb_peek_keeps [OF p]
  have same: "held jb1 = held jb" "jb_inv jb1" using kp(1) inv by (simp_all add: held_def jb_inv_def)
  have sk: "slot_item s = ?item k"
  proof -
    have "seq_off base (js_seq s) \<le> seq_off base (js_seq s0)" using ps(4) s0(1) by blast
    moreover have "seq_off base (js_seq s0) = k"
      using s0(2) seq_off_add [of k base] k by (simp add: slot_item_def nth_item_def const_defs)
    ultimately show ?thesis using off [OF ps(1)] by fastforce
  qed
  have s1: "s \<in> set (held jb1)" "js_seq s = jb_next_seq jb1" using ps(1,3) same(1) by simp_all
  note c = vmc_jb_consume_held [OF same(2) s1]
  have rest: "slot_item ` (set (held jb) - {s}) = ?item ` {Suc k..<n}"
  proof -
    have "{k..<n} = insert k {Suc k..<n}" using k(1) by auto
    moreover have "?item k \<notin> slot_item ` (set (held jb) - {s})"
      using held_unique [OF inv _ ps(1)] sk by (auto simp: slot_item_def)
    moreover have "?item k \<notin> ?item ` {Suc k..<n}"
    proof
      assume "?item k \<in> ?item ` {Suc k..<n}"
      then obtain j where j: "j \<in> {Suc k..<n}" "base + of_nat k = base + of_nat j" by (auto simp: nth_item_def)
      then have "k < 2 ^ 32" "j < 2 ^ 32" using k by (auto simp: const_defs)
      then have "k = j" using seq_off_add [of k base] seq_off_add [of j base] j(2) by metis
      then show False using j(1) by simp
    qed
    moreover have "set (held jb) = insert s (set (held jb) - {s})" using ps(1) by auto
    ultimately show ?thesis using img sk by (metis image_insert insert_ident)
  qed
  have "js_seq s = base + of_nat k" using sk by (simp add: slot_item_def nth_item_def)
  then have "jb_next_seq (vmc_jb_consume jb1) = base + of_nat (Suc k)" using c(4) s1(2) by (simp add: ac_simps)
  moreover have "slot_ok s" using inv ps(1) by (auto simp: jb_inv_def list_all_iff held_def)
  ultimately show thesis using that [OF p] sk c rest same kp(2) by (simp add: holds_from_def)
qed

text \<open>The client between units: nothing held, the assembler idle, a slot to write into.\<close>

definition client_idle :: "client \<Rightarrow> bool" where
  "client_idle c \<longleftrightarrow> jb_inv (cl_jb c) \<and> held (cl_jb c) = [] \<and> fa_inv (slot_asm c) \<and> fa_abs (slot_asm c) = None \<and>
     cl_write_slot c < length (cl_slots c) \<and> cl_have_decoder c"

lemma drain_empty:
  "held (cl_jb c) = [] \<Longrightarrow> drain_video dec (x # ks) c = Some c"
  by (cases x) (simp add: vmc_jb_peek_empty)

lemma drain_unit:
  assumes "asm_stage f css k c" "k < length css" "length css \<le> VMC_JB_MAX_SLOTS"
    and "length (concat css) \<le> unat (fa_cap (cl_frag c))" "concat css \<noteq> []" "slots_ready c"
    and "holds_from base (nth_item f key ts base css) k (length css) (cl_jb c)"
    and "\<forall>x \<in> set ks. \<forall>s \<in> set (held (cl_jb c)). jb_target_delay_us (cl_jb c) \<le> fst x - js_recv_us s"
    and "length css - k < length ks"
  shows "\<exists>c'. drain_video dec ks c = Some c' \<and> published_unit (concat css) ts c c' \<and> client_idle c' \<and>
    jb_next_seq (cl_jb c') = base + of_nat (length css) \<and> jb_target_delay_us (cl_jb c') = jb_target_delay_us (cl_jb c) \<and>
    fa_cap (cl_frag c') = fa_cap (cl_frag c)"
  using assms
proof (induction "length css - k" arbitrary: k ks c)
  case (Suc m)
  obtain now arrival pub ks' where ks: "ks = (now, arrival, pub) # ks'" using Suc.prems(9) by (cases ks) auto
  have old: "\<forall>s \<in> set (held (cl_jb c)). old_enough (cl_jb c) now s"
    using Suc.prems(8) by (simp add: ks old_enough_def)
  obtain s jb1 where l: "vmc_jb_peek (Some (cl_jb c)) now = (Some s, Some jb1)" "slot_ok s"
    "slot_item s = nth_item f key ts base css k" "holds_from base (nth_item f key ts base css) (Suc k) (length css) (vmc_jb_consume jb1)"
    "set (held (vmc_jb_consume jb1)) \<subseteq> set (held (cl_jb c))" "jb_target_delay_us (vmc_jb_consume jb1) = jb_target_delay_us (cl_jb c)"
    "jb_next_seq (vmc_jb_consume jb1) = base + of_nat (Suc k)"
    by (rule drain_look [OF Suc.prems(7,2,3) old])
  have w: "cl_write_slot c < length (cl_slots c)" "cl_have_decoder c" using Suc.prems(1) by (simp_all add: asm_stage_def)
  obtain c0 where c0: "handle_slot dec s arrival pub (c\<lparr>cl_jb := jb1\<rparr>) =
      feed_chunk ts f (of_nat k) (Suc k = length css) (css ! k) pub c0"
    "c0 = c\<lparr>cl_jb := jb1, cl_cur_fid := cl_cur_fid c0, cl_frame_arrival := cl_frame_arrival c0\<rparr>"
    using handle_chunk [OF l(2,3) Suc.prems(2,3), of "c\<lparr>cl_jb := jb1\<rparr>" dec arrival pub] w(2) by auto
  have st0: "asm_stage f css k c0" "slots_ready c0" using Suc.prems(1,6) by (subst c0(2), simp)+
  have f0: "cl_frag c0 = cl_frag c" "cl_slots c0 = cl_slots c" "cl_write_slot c0 = cl_write_slot c" "cl_jb c0 = jb1"
    by (subst c0(2), simp)+
  have pub0: "published_unit d ts c0 c' = published_unit d ts c c'" for d c' by (subst c0(2)) simp
  show ?case
  proof (cases "Suc k = length css")
    case True
    obtain c1 where c1: "feed_chunk ts f (of_nat k) True (css ! k) pub c0 = Some c1" "published_unit (concat css) ts c0 c1"
      "cl_jb c1 = cl_jb c0" "fa_inv (slot_asm c1)" "fa_abs (slot_asm c1) = None" "fa_cap (cl_frag c1) = fa_cap (cl_frag c0)" "cl_have_decoder c1"
      using feed_last [OF st0(1) True _ Suc.prems(5) st0(2), of ts pub] Suc.prems(4) f0(1) by auto
    let ?c2 = "c1\<lparr>cl_jb := vmc_jb_consume jb1\<rparr>"
    have e: "held (cl_jb ?c2) = []" using l(4) True by (simp add: holds_from_def)
    obtain x ks'' where x: "ks' = x # ks''" using Suc.prems(9) True by (cases ks') (auto simp: ks)
    have "drain_video dec ks c = drain_video dec ks' ?c2" using l(1) c0(1) c1(1,3) f0(4) True by (simp add: ks)
    then have "drain_video dec ks c = Some ?c2" using drain_empty [OF e] x by simp
    moreover have "cl_write_slot c1 < length (cl_slots c1)" using c1(2) by (simp add: published_unit_def Let_def)
    then have "client_idle ?c2" using e l(4) c1(4,5,7) by (simp add: client_idle_def holds_from_def)
    ultimately show ?thesis using c1(2,6) l(6,7) True f0(1) pub0 by auto
  next
    case False
    then have lt: "Suc k < length css" using Suc.prems(2) by simp
    obtain c1 where c1: "feed_chunk ts f (of_nat k) False (css ! k) pub c0 = Some c1" "asm_stage f css (Suc k) c1" "only_buffer c0 c1"
      using feed_middle [OF st0(1) lt] Suc.prems(4) f0(1) by metis
    let ?c2 = "c1\<lparr>cl_jb := vmc_jb_consume jb1\<rparr>"
    have ob: "cl_jb c1 = jb1" "fa_cap (cl_frag c1) = fa_cap (cl_frag c)" using c1(3) f0 by (simp_all add: only_buffer_def)
    have d: "drain_video dec ks c = drain_video dec ks' ?c2" using l(1) c0(1) c1(1) ob(1) False by (simp add: ks)
    have "\<exists>c'. drain_video dec ks' ?c2 = Some c' \<and> published_unit (concat css) ts ?c2 c' \<and> client_idle c' \<and>
      jb_next_seq (cl_jb c') = base + of_nat (length css) \<and> jb_target_delay_us (cl_jb c') = jb_target_delay_us (cl_jb ?c2) \<and>
      fa_cap (cl_frag c') = fa_cap (cl_frag ?c2)"
    proof (rule Suc.hyps(1))
      show "m = length css - Suc k" using Suc.hyps(2) by simp
      show "slots_ready ?c2" using only_buffer_ready [OF c1(3) st0(2)] w f0 by simp
      show "\<forall>x \<in> set ks'. \<forall>s \<in> set (held (cl_jb ?c2)). jb_target_delay_us (cl_jb ?c2) \<le> fst x - js_recv_us s"
        using Suc.prems(8) l(5,6) by (auto simp: ks)
    qed (use lt Suc.prems(3-5,9) c1(2) l(4) ob(2) in \<open>auto simp: ks\<close>)
    then obtain c' where "drain_video dec ks' ?c2 = Some c'" "published_unit (concat css) ts ?c2 c'" "client_idle c'"
      "jb_next_seq (cl_jb c') = base + of_nat (length css)" "jb_target_delay_us (cl_jb c') = jb_target_delay_us (cl_jb ?c2)"
      "fa_cap (cl_frag c') = fa_cap (cl_frag ?c2)" by blast
    moreover have "published_unit (concat css) ts c c'" if "published_unit (concat css) ts c1 c'"
      using only_buffer_published [OF c1(3) that] w(1) f0 pub0 by simp
    ultimately show ?thesis using d l(6) ob(2) by auto
  qed
qed simp

section \<open>Properties\<close>

lemma send_au_frames:
  assumes "sim_have_client srv" "length stack = 1421" "SIM_CHUNK < length data"
  shows "send_au stack (\<lambda>_ _. Taken) (\<lambda>_. False) data key ts srv =
    (map (nth_frame (ucast (sim_video_seq srv)) key ts (sim_video_seq srv) (cuts data)) [0..<length (cuts data)],
     srv\<lparr>sim_video_seq := sim_video_seq srv + of_nat (length (cuts data))\<rparr>)"
  using assms send_chunks_frames [OF assms(2), of 0 data key ts "ucast (sim_video_seq srv)" 0 "sim_video_seq srv"]
  by (simp add: send_au_def Let_def sent_frames_nth nth_frame_def nth_payload_def)

lemma pairs_of_firsts: "map fst xs = map g zs \<Longrightarrow> xs = map (\<lambda>(i, k). (g i, k)) (zip zs (map snd xs))"
proof (induction xs arbitrary: zs)
  case (Cons x xs)
  then obtain z zs' where "zs = z # zs'" "fst x = g z" "map fst xs = map g zs'" by (cases zs) auto
  then show ?case using Cons.IH [of zs'] by (cases x) simp
qed simp

lemma reorder_pairs:
  assumes "mset (map fst xs) = mset (map g [0..<n])"
  obtains aks where "xs = map (\<lambda>(i, k). (g i, k)) aks" "mset (map fst aks) = mset [0..<n]"
proof -
  obtain zs where z: "mset zs = mset [0..<n]" "map fst xs = map g zs" using mset_map_reorder [OF assms] by blast
  have "length zs = length xs" using z(2) by (metis length_map)
  then show thesis using z(1) pairs_of_firsts [OF z(2)] by (intro that [of "zip zs (map snd xs)"]) simp_all
qed

text \<open>
  C1: An access unit that the server cuts into datagrams, however the network reorders them,
  reaches the decode worker byte for byte: after one round of the client's loop that receives them
  and looks often enough after the playout delay, the unit stands in a ready slot with its time
  stamp and the next frame index, no other slot has changed but the one taken for the next unit,
  and client and server agree on the next sequence number again.
\<close>

theorem unit_reaches_slot:
  assumes "sim_have_client srv" and "length stack = 1421"
    and "SIM_CHUNK < length data" and "length data \<le> VMC_JB_MAX_SLOTS * SIM_CHUNK" and "length data \<le> unat (fa_cap (cl_frag c))"
    and "send_au stack (\<lambda>_ _. Taken) (\<lambda>_. False) data key ts srv = (ds, srv')"
    and "mset (map fst arrived) = mset ds"
    and "client_idle c" and "slots_ready c" and "jb_stats_pushed (cl_jb c) = 0 \<or> jb_next_seq (cl_jb c) = sim_video_seq srv"
    and "\<forall>x \<in> set ks. \<forall>a \<in> set arrived. jb_target_delay_us (cl_jb c) \<le> fst x - rk_push (snd a)" and "length ds < length ks"
  shows "\<exists>c'. drain_video dec ks (rx_loop arrived c) = Some c' \<and> published_unit data ts c c' \<and> client_idle c' \<and>
    jb_next_seq (cl_jb c') = sim_video_seq srv' \<and> jb_target_delay_us (cl_jb c') = jb_target_delay_us (cl_jb c)"
proof -
  let ?f = "ucast (sim_video_seq srv) :: u16" and ?b = "sim_video_seq srv" and ?css = "cuts data" and ?d = "jb_target_delay_us (cl_jb c)"
  let ?item = "nth_item ?f key ts ?b ?css"
  have ds: "ds = map (nth_frame ?f key ts ?b ?css) [0..<length ?css]" "sim_video_seq srv' = ?b + of_nat (length ?css)"
    using assms(6) send_au_frames [OF assms(1-3), of key ts] by auto
  have n: "length ?css \<le> VMC_JB_MAX_SLOTS" using length_cuts [OF assms(4)] .
  have ne: "data \<noteq> []" "0 < length ?css" using assms(3) by auto
  obtain aks where aks: "arrived = map (\<lambda>(i, k). (nth_frame ?f key ts ?b ?css i, k)) aks" "mset (map fst aks) = mset [0..<length ?css]"
    using reorder_pairs assms(7) ds(1) by metis
  have dist: "distinct (map fst aks)" "set (map fst aks) = {0..<length ?css}"
    using mset_eq_imp_distinct_iff [OF aks(2)] mset_eq_setD [OF aks(2)] by simp_all
  have i0: "rx_inv ?b ?item ?d {} [] (cl_jb c)"
    using assms(8,10) by (auto simp: rx_inv_def client_idle_def seq_off_def const_defs)
  have short: "\<forall>x \<in> set ?css. length x \<le> SIM_CHUNK" using cuts_lengths by blast
  obtain jb sc where rx: "rx_loop arrived c = c\<lparr>cl_jb := jb, cl_sess := sc\<rparr>"
    "rx_inv ?b ?item ?d (rk_push ` snd ` set aks) (map fst aks) jb"
    using rx_chunks [OF i0 n _ _ short, of aks] dist unfolding aks(1) by auto
  let ?c0 = "c\<lparr>cl_jb := jb, cl_sess := sc\<rparr>"
  have same: "slot_asm ?c0 = slot_asm c" "slots_ready ?c0 = slots_ready c" "published_unit data ts ?c0 c' = published_unit data ts c c'" for c'
    by (simp_all add: slot_asm_def slots_ready_def published_unit_def)
  have "snd ` set arrived = snd ` set aks" by (simp add: aks(1) image_image case_prod_unfold)
  then have R: "js_recv_us s \<in> rk_push ` snd ` set arrived" if "s \<in> set (held jb)" for s
    using rx(2) that by (simp add: rx_inv_def)
  have "\<exists>c'. drain_video dec ks ?c0 = Some c' \<and> published_unit (concat ?css) ts ?c0 c' \<and> client_idle c' \<and>
    jb_next_seq (cl_jb c') = ?b + of_nat (length ?css) \<and> jb_target_delay_us (cl_jb c') = jb_target_delay_us (cl_jb ?c0) \<and>
    fa_cap (cl_frag c') = fa_cap (cl_frag ?c0)"
  proof (rule drain_unit [OF _ ne(2) n])
    show "asm_stage ?f ?css 0 ?c0" using assms(8) same(1) by (simp add: asm_stage_def client_idle_def asm_idle_for_def)
    show "holds_from ?b ?item 0 (length ?css) (cl_jb ?c0)" using rx(2) dist(2) by (simp add: holds_from_def rx_inv_def)
    show "\<forall>x \<in> set ks. \<forall>s \<in> set (held (cl_jb ?c0)). jb_target_delay_us (cl_jb ?c0) \<le> fst x - js_recv_us s"
      using assms(11) R rx(2) by (fastforce simp: rx_inv_def)
  qed (use assms(5,9,12) ne same(2) ds(1) in \<open>simp_all add: concat_cuts\<close>)
  then show ?thesis using rx ds(2) same(3) by (auto simp: concat_cuts rx_inv_def)
qed

definition demo_server :: sim_ctx where
  "demo_server = \<lparr>sim_have_client = True, sim_client = 0, sim_video_seq = 5, sim_audio_seq = 0, sim_sent = 0,
     sim_control_rx = 0, sim_input_rx = 0, sim_audio_frames = 0\<rparr>"

lemma demo_client_idle: "client_idle demo_client"
proof -
  have "jb_inv (zero_jb\<lparr>jb_target_delay_us := 2000\<rparr>)" "held (zero_jb\<lparr>jb_target_delay_us := 2000\<rparr>) = []"
    using zero_jb_inv held_zero by simp_all
  moreover have "unat (2000 :: sz_t) = 2000" by simp
  ultimately show ?thesis
    by (simp add: client_idle_def demo_client_def slot_asm_def fa_inv_def fa_abs_def set_state_def Frame_Slots.free_slot_def)
qed

lemma demo_client_ready: "slots_ready demo_client"
  by (simp add: slots_ready_def demo_client_def set_state_def Frame_Slots.free_slot_def)

theorem unit_reaches_slot_witness:
  "\<exists>ds srv' c'. send_au (replicate 1421 0) (\<lambda>_ _. Taken) (\<lambda>_. False) (replicate 1401 7) False 9 demo_server = (ds, srv') \<and>
     drain_video (\<lambda>_ _. True) (replicate 3 (5000, 0, 0)) (rx_loop (map (\<lambda>d. (d, any_clock)) (rev ds)) demo_client) = Some c' \<and>
     slot_au (cl_slots c' ! 0) = (0, replicate 1401 7) \<and> fs_state (cl_slots c' ! 0) = SLOT_READY"
proof -
  define data :: bytes where "data = replicate 1401 7"
  define stack :: bytes where "stack = replicate 1421 0"
  have l: "length data = 1401" "length stack = 1421" by (simp_all add: data_def stack_def)
  obtain ds srv' where s: "send_au stack (\<lambda>_ _. Taken) (\<lambda>_. False) data False 9 demo_server = (ds, srv')" by fastforce
  have big: "SIM_CHUNK < length data" "length data \<le> VMC_JB_MAX_SLOTS * SIM_CHUNK" "length data \<le> 2 * SIM_CHUNK"
    unfolding l by (simp_all add: const_defs)
  have "ds = map (nth_frame (ucast (sim_video_seq demo_server)) False 9 (sim_video_seq demo_server) (cuts data)) [0..<length (cuts data)]"
    using send_au_frames [of demo_server stack data False 9] s l(2) big(1) by (simp add: demo_server_def)
  then have d: "length ds < 3" using length_cuts [OF big(3)] by simp
  have cap: "length data \<le> unat (fa_cap (cl_frag demo_client))" unfolding l by (simp add: demo_client_def)
  have srv: "sim_have_client demo_server" "length stack = 1421" using l by (simp_all add: demo_server_def)
  let ?arr = "map (\<lambda>d. (d, any_clock)) (rev ds)" and ?ks = "replicate 3 (5000 :: u64, 0 :: u64, 0 :: u64)"
  have arr: "mset (map fst ?arr) = mset ds" by (simp add: comp_def)
  have jb: "jb_stats_pushed (cl_jb demo_client) = 0 \<or> jb_next_seq (cl_jb demo_client) = sim_video_seq demo_server"
    by (simp add: demo_client_def zero_jb_def)
  have ks: "\<forall>x \<in> set ?ks. \<forall>a \<in> set ?arr. jb_target_delay_us (cl_jb demo_client) \<le> fst x - rk_push (snd a)"
    by (auto simp: demo_client_def any_clock_def)
  have lk: "length ds < length ?ks" using d by simp
  obtain c' where "drain_video (\<lambda>_ _. True) ?ks (rx_loop ?arr demo_client) = Some c'" "published_unit data 9 demo_client c'"
    using unit_reaches_slot [OF srv big(1,2) cap s arr demo_client_idle demo_client_ready jb ks lk] by blast
  then show ?thesis using s unfolding data_def stack_def
    by (intro exI [of _ ds] exI [of _ srv'] exI [of _ c']) (auto simp: published_unit_def Let_def demo_client_def)
qed

end
