(* ===== verification/Evdev_Input.thy ===== *)
theory Evdev_Input
  imports Input_Batch
begin

text \<open>
  The touch device, \<^verbatim>\<open>src/input/evdev_input.c\<close>: opening it, and the poll that turns the
  kernel's multi-touch records into one input event. The device is a script of read results.
\<close>

section \<open>Records of the kernel\<close>

text \<open>The event codes the source names, and every other one by its number. Values are 32-bit words, signed in C.\<close>

datatype abs_code = ABS_MT_SLOT | ABS_MT_POSITION_X | ABS_MT_POSITION_Y | ABS_MT_PRESSURE | ABS_MT_TRACKING_ID | Abs_Other u16
datatype key_code = BTN_TOUCH | BTN_TOOL_FINGER | Key_Other u16
datatype syn_code = SYN_REPORT | Syn_Other u16
datatype input_record = EV_ABS abs_code u32 | EV_KEY key_code u32 | EV_SYN syn_code u32 | Ev_Other

text \<open>A read yields a whole record, another number of bytes, no data, or an error.\<close>

datatype read_result = Rec input_record | Short | Again | Fail

section \<open>State and operations\<close>

record vmc_evdev_input =
  ev_fd :: int
  ev_abs_x_max :: u32
  ev_abs_y_max :: u32

definition evdev_close :: "vmc_evdev_input \<Rightarrow> vmc_evdev_input" where
  "evdev_close d = (if ev_fd d \<ge> 0 then d\<lparr>ev_fd := -1\<rparr> else d)"

definition evdev_open :: "vmc_evdev_input \<Rightarrow> vmc_status" where
  "evdev_open d = VMC_OK"

text \<open>What the poll has gathered; every poll starts from nothing.\<close>

record touch =
  tc_x :: u32
  tc_y :: u32
  tc_pressure :: u32
  tc_slot :: u32
  tc_have_x :: bool
  tc_have_y :: bool

definition no_touch :: touch where
  "no_touch = \<lparr>tc_x = 0, tc_y = 0, tc_pressure = 0, tc_slot = 0, tc_have_x = False, tc_have_y = False\<rparr>"

definition zero_event :: vmc_input_event where
  "zero_event = \<lparr>ie_type = 0, ie_slot = 0, ie_x = 0, ie_y = 0, ie_pressure = 0, ie_buttons = 0, ie_ts_us = 0\<rparr>"

definition touch_up :: "touch \<Rightarrow> u64 \<Rightarrow> vmc_input_event" where
  "touch_up t now = zero_event\<lparr>ie_type := input_type_code VMC_INPUT_TOUCH_UP, ie_slot := ucast (tc_slot t), ie_ts_us := ucast now\<rparr>"

definition touch_move :: "touch \<Rightarrow> u64 \<Rightarrow> vmc_input_event" where
  "touch_move t now = zero_event\<lparr>ie_type := input_type_code VMC_INPUT_TOUCH_MOVE, ie_slot := ucast (tc_slot t),
     ie_x := ucast (tc_x t), ie_y := ucast (tc_y t), ie_pressure := ucast (tc_pressure t), ie_ts_us := ucast now\<rparr>"

text \<open>One record: an event to return, or what is gathered so far.\<close>

definition evdev_record :: "u64 \<Rightarrow> input_record \<Rightarrow> touch \<Rightarrow> vmc_input_event + touch" where
  "evdev_record now r t =
     (case r of
        EV_ABS code v \<Rightarrow>
          (case code of
             ABS_MT_SLOT \<Rightarrow> Inr (t\<lparr>tc_slot := v\<rparr>)
           | ABS_MT_POSITION_X \<Rightarrow> Inr (t\<lparr>tc_x := v, tc_have_x := True\<rparr>)
           | ABS_MT_POSITION_Y \<Rightarrow> Inr (t\<lparr>tc_y := v, tc_have_y := True\<rparr>)
           | ABS_MT_PRESSURE \<Rightarrow> Inr (t\<lparr>tc_pressure := v\<rparr>)
           | ABS_MT_TRACKING_ID \<Rightarrow> if sint v < 0 then Inl (touch_up t now) else Inr t
           | Abs_Other _ \<Rightarrow> Inr t)
      | EV_KEY code v \<Rightarrow> if (code = BTN_TOUCH \<or> code = BTN_TOOL_FINGER) \<and> v = 0 then Inl (touch_up t now) else Inr t
      | EV_SYN code v \<Rightarrow> if code = SYN_REPORT \<and> (tc_have_x t \<or> tc_have_y t) then Inl (touch_move t now) else Inr t
      | Ev_Other \<Rightarrow> Inr t)"

text \<open>
  The loop. The result is the status with the event and the reads left; \<^term>\<open>None\<close> is a script that
  ends while the loop still reads.
\<close>

fun evdev_loop :: "u64 \<Rightarrow> touch \<Rightarrow> read_result list \<Rightarrow> (vmc_status \<times> vmc_input_event option \<times> read_result list) option" where
  "evdev_loop now t [] = None"
| "evdev_loop now t (Again # rs) = Some (VMC_ERR_AGAIN, None, rs)"
| "evdev_loop now t (Fail # rs) = Some (VMC_ERR_IO, None, rs)"
| "evdev_loop now t (Short # rs) = evdev_loop now t rs"
| "evdev_loop now t (Rec r # rs) =
     (case evdev_record now r t of Inl e \<Rightarrow> Some (VMC_OK, Some e, rs) | Inr t1 \<Rightarrow> evdev_loop now t1 rs)"

definition evdev_poll ::
  "u64 \<Rightarrow> vmc_evdev_input \<Rightarrow> read_result list \<Rightarrow> (vmc_status \<times> vmc_input_event option \<times> read_result list) option" where
  "evdev_poll now d rs = (if ev_fd d < 0 then Some (VMC_ERR_IO, None, rs) else evdev_loop now no_touch rs)"

text \<open>\<open>open_dev\<close> is the descriptor of a path or negative; \<open>absmax\<close> the maximum of an axis, if the device tells.\<close>

definition vmc_evdev_init ::
  "(string \<Rightarrow> int) \<Rightarrow> (int \<Rightarrow> abs_code \<Rightarrow> u32 option) \<Rightarrow> vmc_evdev_input option \<Rightarrow> string option \<Rightarrow> vmc_status \<times> vmc_evdev_input option" where
  "vmc_evdev_init open_dev absmax dev path =
     (case dev of
        None \<Rightarrow> (VMC_ERR_INVALID_ARG, None)
      | Some _ \<Rightarrow>
          let fd = open_dev (case path of Some p \<Rightarrow> p | None \<Rightarrow> ''/dev/input/event0'')
          in if fd < 0 then (VMC_ERR_IO, Some \<lparr>ev_fd = fd, ev_abs_x_max = 0, ev_abs_y_max = 0\<rparr>)
             else let mx = (case absmax fd ABS_MT_POSITION_X of Some v \<Rightarrow> v | None \<Rightarrow> 0);
                      my = (case absmax fd ABS_MT_POSITION_Y of Some v \<Rightarrow> v | None \<Rightarrow> 0)
                  in (VMC_OK, Some \<lparr>ev_fd = fd, ev_abs_x_max = (if mx = 0 then 32767 else mx),
                        ev_abs_y_max = (if my = 0 then 32767 else my)\<rparr>))"

section \<open>Polling until there is no more\<close>

lemma evdev_loop_shorter: "evdev_loop now t rs = Some (st, e, rs') \<Longrightarrow> length rs' < length rs"
proof (induction now t rs rule: evdev_loop.induct)
  case (5 now t r rs)
  then show ?case by (cases "evdev_record now r t") fastforce+
qed (auto simp: less_Suc_eq)

text \<open>The client's loop around the poll: the events of successful polls, and the reads left after the one that fails.\<close>

function poll_all :: "u64 \<Rightarrow> vmc_evdev_input \<Rightarrow> read_result list \<Rightarrow> (vmc_input_event list \<times> vmc_status \<times> read_result list) option" where
  "poll_all now d rs =
     (case evdev_poll now d rs of
        None \<Rightarrow> None
      | Some (st, eo, rs1) \<Rightarrow>
          (case eo of
             None \<Rightarrow> Some ([], st, rs1)
           | Some e \<Rightarrow> if st = VMC_OK
                then (case poll_all now d rs1 of None \<Rightarrow> None | Some (es, st2, rs2) \<Rightarrow> Some (e # es, st2, rs2))
                else Some ([], st, rs1)))"
  by pat_completeness auto
termination
proof (relation "measure (\<lambda>(_, _, rs). length rs)", goal_cases)
  case (2 now d rs x st y eo rs1 e)
  then show ?case using evdev_loop_shorter by (auto simp: evdev_poll_def split: if_splits)
qed simp

declare poll_all.simps [simp del]

section \<open>What a frame of records becomes\<close>

record contact =
  ct_slot :: u32
  ct_x :: u32
  ct_y :: u32
  ct_pressure :: u32

definition full_frame :: "contact \<Rightarrow> read_result list" where
  "full_frame k = [Rec (EV_ABS ABS_MT_SLOT (ct_slot k)), Rec (EV_ABS ABS_MT_POSITION_X (ct_x k)),
     Rec (EV_ABS ABS_MT_POSITION_Y (ct_y k)), Rec (EV_ABS ABS_MT_PRESSURE (ct_pressure k)), Rec (EV_SYN SYN_REPORT 0)]"

definition contact_event :: "u64 \<Rightarrow> contact \<Rightarrow> vmc_input_event" where
  "contact_event now k = \<lparr>ie_type = 1, ie_slot = ucast (ct_slot k), ie_x = ucast (ct_x k), ie_y = ucast (ct_y k),
     ie_pressure = ucast (ct_pressure k), ie_buttons = 0, ie_ts_us = ucast now\<rparr>"

lemma poll_full_frame:
  "ev_fd d \<ge> 0 \<Longrightarrow> evdev_poll now d (full_frame k @ rs) = Some (VMC_OK, Some (contact_event now k), rs)"
  by (simp add: evdev_poll_def full_frame_def evdev_record_def no_touch_def touch_move_def zero_event_def contact_event_def)

lemma poll_all_frames:
  "ev_fd d \<ge> 0 \<Longrightarrow> poll_all now d (concat (map full_frame ks) @ Again # rs) = Some (map (contact_event now) ks, VMC_ERR_AGAIN, rs)"
proof (induction ks)
  case Nil
  then show ?case by (subst poll_all.simps) (simp add: evdev_poll_def)
next
  case (Cons k ks)
  then show ?case using poll_full_frame [of d now k "concat (map full_frame ks) @ Again # rs"]
    by (subst poll_all.simps) simp
qed

section \<open>What the records since the last event become\<close>

text \<open>The values a script carries for one axis, and the last of them; zero when there is none.\<close>

definition axis_values :: "abs_code \<Rightarrow> read_result list \<Rightarrow> u32 list" where
  "axis_values c rs = [v. Rec (EV_ABS c' v) \<leftarrow> rs, c' = c]"

definition last_value :: "abs_code \<Rightarrow> read_result list \<Rightarrow> u32" where
  "last_value c rs = (if axis_values c rs = [] then 0 else List.last (axis_values c rs))"

text \<open>A record that lifts a contact, and a reading that ends the poll after \<open>pre\<close> has been read.\<close>

fun lifts :: "read_result \<Rightarrow> bool" where
  "lifts (Rec (EV_ABS ABS_MT_TRACKING_ID v)) = (sint v < 0)"
| "lifts (Rec (EV_KEY c v)) = ((c = BTN_TOUCH \<or> c = BTN_TOOL_FINGER) \<and> v = 0)"
| "lifts _ = False"

fun reports :: "read_result \<Rightarrow> bool" where
  "reports (Rec (EV_SYN c v)) = (c = SYN_REPORT)"
| "reports _ = False"

definition positioned :: "read_result list \<Rightarrow> bool" where
  "positioned pre \<longleftrightarrow> axis_values ABS_MT_POSITION_X pre \<noteq> [] \<or> axis_values ABS_MT_POSITION_Y pre \<noteq> []"

definition ends_poll :: "read_result list \<Rightarrow> read_result \<Rightarrow> bool" where
  "ends_poll pre r \<longleftrightarrow> lifts r \<or> reports r \<and> positioned pre"

text \<open>The readings of one event: \<open>pre\<close> goes through without ending the poll, \<open>fin\<close> ends it.\<close>

definition event_reads :: "read_result list \<times> read_result \<Rightarrow> bool" where
  "event_reads = (\<lambda>(pre, fin). ends_poll pre fin \<and>
     (\<forall>i < length pre. pre ! i \<noteq> Again \<and> pre ! i \<noteq> Fail \<and> \<not> ends_poll (take i pre) (pre ! i)))"

definition read_event :: "u64 \<Rightarrow> read_result list \<times> read_result \<Rightarrow> vmc_input_event" where
  "read_event now = (\<lambda>(pre, fin).
     if lifts fin
     then \<lparr>ie_type = 2, ie_slot = ucast (last_value ABS_MT_SLOT pre), ie_x = 0, ie_y = 0, ie_pressure = 0,
       ie_buttons = 0, ie_ts_us = ucast now\<rparr>
     else \<lparr>ie_type = 1, ie_slot = ucast (last_value ABS_MT_SLOT pre), ie_x = ucast (last_value ABS_MT_POSITION_X pre),
       ie_y = ucast (last_value ABS_MT_POSITION_Y pre), ie_pressure = ucast (last_value ABS_MT_PRESSURE pre),
       ie_buttons = 0, ie_ts_us = ucast now\<rparr>)"

definition gathered :: "read_result list \<Rightarrow> touch" where
  "gathered pre = \<lparr>tc_x = last_value ABS_MT_POSITION_X pre, tc_y = last_value ABS_MT_POSITION_Y pre,
     tc_pressure = last_value ABS_MT_PRESSURE pre, tc_slot = last_value ABS_MT_SLOT pre,
     tc_have_x = (axis_values ABS_MT_POSITION_X pre \<noteq> []), tc_have_y = (axis_values ABS_MT_POSITION_Y pre \<noteq> [])\<rparr>"

lemma axis_values_snoc:
  "axis_values c (pre @ [r]) = axis_values c pre @ (case r of Rec (EV_ABS c' v) \<Rightarrow> if c' = c then [v] else [] | _ \<Rightarrow> [])"
  by (auto simp: axis_values_def split: read_result.splits input_record.splits)

lemma gathered_snoc_other:
  "(\<And>c. axis_values c (pre @ [r]) = axis_values c pre) \<Longrightarrow> gathered (pre @ [r]) = gathered pre"
  by (simp add: gathered_def last_value_def)

lemma evdev_record_gathered:
  "evdev_record now r (gathered pre) =
     (if ends_poll pre (Rec r) then Inl (read_event now (pre, Rec r)) else Inr (gathered (pre @ [Rec r])))"
proof (cases r)
  case (EV_ABS c v)
  then show ?thesis
    by (cases c) (auto simp: evdev_record_def ends_poll_def read_event_def gathered_def last_value_def
        axis_values_snoc touch_up_def zero_event_def)
next
  case (EV_KEY c v)
  then show ?thesis
    by (auto simp: evdev_record_def ends_poll_def read_event_def gathered_def last_value_def axis_values_snoc
        touch_up_def zero_event_def)
next
  case (EV_SYN c v)
  then show ?thesis
    by (auto simp: evdev_record_def ends_poll_def positioned_def read_event_def gathered_def last_value_def axis_values_snoc
        touch_move_def zero_event_def)
next
  case Ev_Other
  then show ?thesis
    by (auto simp: evdev_record_def ends_poll_def gathered_def last_value_def axis_values_snoc)
qed

lemma evdev_loop_gathered:
  assumes "\<forall>i < length mid. mid ! i \<noteq> Again \<and> mid ! i \<noteq> Fail \<and> \<not> ends_poll (pre @ take i mid) (mid ! i)"
  shows "evdev_loop now (gathered pre) (mid @ rs) = evdev_loop now (gathered (pre @ mid)) rs"
  using assms
proof (induction mid arbitrary: pre)
  case (Cons r mid)
  have here: "r \<noteq> Again" "r \<noteq> Fail" "\<not> ends_poll pre r" using Cons.prems by auto
  have "\<forall>i < length mid. mid ! i \<noteq> Again \<and> mid ! i \<noteq> Fail \<and> \<not> ends_poll ((pre @ [r]) @ take i mid) (mid ! i)"
    using Cons.prems by (metis Suc_less_eq append_Cons append_Nil append_assoc length_Cons nth_Cons_Suc take_Suc_Cons)
  from Cons.IH [OF this] here show ?case
    by (cases r) (simp_all add: evdev_record_gathered gathered_snoc_other axis_values_snoc)
qed simp

lemma poll_event_reads:
  assumes "ev_fd d \<ge> 0" and "event_reads (pre, fin)"
  shows "evdev_poll now d (pre @ fin # rs) = Some (VMC_OK, Some (read_event now (pre, fin)), rs)"
proof -
  have "no_touch = gathered []" by (simp add: no_touch_def gathered_def last_value_def axis_values_def)
  moreover obtain r where "fin = Rec r"
    using assms(2) by (cases fin) (auto simp: event_reads_def ends_poll_def)
  ultimately show ?thesis
    using assms evdev_loop_gathered [of pre "[]" now "fin # rs"] by (simp add: evdev_poll_def event_reads_def evdev_record_gathered)
qed

lemma poll_all_reads:
  assumes "ev_fd d \<ge> 0" and "\<forall>g \<in> set gs. event_reads g"
  shows "poll_all now d (concat (map (\<lambda>(pre, fin). pre @ [fin]) gs) @ Again # rs) =
    Some (map (read_event now) gs, VMC_ERR_AGAIN, rs)"
  using assms(2)
proof (induction gs)
  case Nil
  then show ?case using assms(1) by (subst poll_all.simps) (simp add: evdev_poll_def)
next
  case (Cons g gs)
  obtain pre fin where g: "g = (pre, fin)" by (rule prod.exhaust)
  from Cons show ?case
    using poll_event_reads [OF assms(1), of pre fin now "concat (map (\<lambda>(pre, fin). pre @ [fin]) gs) @ Again # rs"]
    by (subst poll_all.simps) (simp add: g)
qed

section \<open>Properties\<close>


definition dev_open :: vmc_evdev_input where
  "dev_open = \<lparr>ev_fd = 3, ev_abs_x_max = 32767, ev_abs_y_max = 32767\<rparr>"

definition contact0 :: contact where
  "contact0 = \<lparr>ct_slot = 2, ct_x = 100, ct_y = 200, ct_pressure = 5\<rparr>"

text \<open>A report of two contacts and the lift of the second.\<close>

definition two_contacts :: "(read_result list \<times> read_result) list" where
  "two_contacts =
     [([Rec (EV_ABS ABS_MT_SLOT 0), Rec (EV_ABS ABS_MT_POSITION_X 100), Rec (EV_ABS ABS_MT_POSITION_Y 200), Short,
        Rec (EV_ABS ABS_MT_SLOT 1), Rec (EV_ABS ABS_MT_POSITION_X 70000), Rec (EV_ABS ABS_MT_PRESSURE 5)],
       Rec (EV_SYN SYN_REPORT 0)),
      ([Rec (EV_ABS ABS_MT_SLOT 1)], Rec (EV_ABS ABS_MT_TRACKING_ID (- 1)))]"


text \<open>
  The kernel reports only what changed since the last frame. A second frame of the same contact that
  moves along one axis is reported at slot 0 with the other coordinate and the pressure zero.
\<close>

lemma evdev_partial_frame_forgets:
  assumes "ev_fd d \<ge> 0"
  shows "poll_all now d (full_frame k @ [Rec (EV_ABS ABS_MT_POSITION_X x), Rec (EV_SYN SYN_REPORT 0), Again]) =
    Some ([contact_event now k, contact_event now \<lparr>ct_slot = 0, ct_x = x, ct_y = 0, ct_pressure = 0\<rparr>], VMC_ERR_AGAIN, [])"
proof -
  have l: "evdev_poll now d [Rec (EV_ABS ABS_MT_POSITION_X x), Rec (EV_SYN SYN_REPORT 0), Again] =
      Some (VMC_OK, Some (contact_event now \<lparr>ct_slot = 0, ct_x = x, ct_y = 0, ct_pressure = 0\<rparr>), [Again])"
    using assms by (simp add: evdev_poll_def evdev_record_def no_touch_def touch_move_def zero_event_def contact_event_def)
  have e: "poll_all now d [Again] = Some ([], VMC_ERR_AGAIN, [])"
    using poll_all_frames [OF assms, of now "[]" "[]"] by simp
  show ?thesis using poll_full_frame [OF assms, of now k] l e
    by (subst poll_all.simps, simp, subst poll_all.simps, simp)
qed

text \<open>The lift of a contact comes as a tracking id and as a key: two events for one lift.\<close>

lemma evdev_double_lift:
  "ev_fd d \<ge> 0 \<Longrightarrow>
   poll_all now d [Rec (EV_ABS ABS_MT_TRACKING_ID (- 1)), Rec (EV_KEY BTN_TOUCH 0), Rec (EV_SYN SYN_REPORT 0), Again] =
   Some ([touch_up no_touch now, touch_up no_touch now], VMC_ERR_AGAIN, [])"
  by (subst poll_all.simps, simp add: evdev_poll_def evdev_record_def, subst poll_all.simps,
      simp add: evdev_poll_def evdev_record_def, subst poll_all.simps, simp add: evdev_poll_def evdev_record_def no_touch_def)

end
