(* ===== verification/Fb_Display.thy ===== *)
theory Fb_Display
  imports Vmc_Prelude
begin

text \<open>
  Decoded frames (\<^verbatim>\<open>include/vmc/video/decoder.h\<close>) and the framebuffer display,
  \<^verbatim>\<open>src/video/fb_display.c\<close>: geometry from the device, the mapping, and the copy of a frame row by
  row. An access outside the mapping or the frame is the result \<open>None\<close>.
\<close>

section \<open>Frames\<close>

datatype vmc_video_codec = VMC_VIDEO_CODEC_H264 | VMC_VIDEO_CODEC_H265 | VMC_VIDEO_CODEC_AV1
datatype vmc_pixel_format = VMC_PIXFMT_NV12 | VMC_PIXFMT_NV21 | VMC_PIXFMT_YUV420P | VMC_PIXFMT_RGB32

record vmc_video_frame =
  vf_width :: u16
  vf_height :: u16
  vf_pixfmt :: vmc_pixel_format
  vf_stride :: "u32 list"
  vf_ts_us :: u32
  vf_device_mem :: bool
  vf_planes :: "bytes list"

section \<open>The display\<close>

record vmc_fb_display =
  fb_fd :: int
  fb_map :: "bytes option"
  fb_map_size :: sz_t
  fb_line_len :: u32
  fb_xres :: u16
  fb_yres :: u16
  fb_bpp :: u16
  fb_width :: u16
  fb_height :: u16
  fb_opened :: bool

text \<open>What the device reports: visible size, virtual height, depth, bytes per line.\<close>

record fb_info =
  fi_xres :: u32
  fi_yres :: u32
  fi_yres_virtual :: u32
  fi_bpp :: u32
  fi_line_length :: u32

text \<open>\<open>mmap\<close> is the mapping of a descriptor with a size, if it succeeds.\<close>

definition fb_open :: "(int \<Rightarrow> fb_info option) \<Rightarrow> (int \<Rightarrow> sz_t \<Rightarrow> bytes option) \<Rightarrow> vmc_fb_display \<Rightarrow> vmc_status \<times> vmc_fb_display" where
  "fb_open info mmap fb =
     (case info (fb_fd fb) of
        None \<Rightarrow> (VMC_ERR_IO, fb)
      | Some v \<Rightarrow>
          let fb1 = fb\<lparr>fb_xres := ucast (fi_xres v), fb_yres := ucast (fi_yres v), fb_bpp := ucast (fi_bpp v),
                fb_line_len := fi_line_length v,
                fb_map_size := ucast (fi_line_length v) *
                  ucast (if fi_yres_virtual v > 0 then fi_yres_virtual v else fi_yres v)\<rparr>
          in (case mmap (fb_fd fb1) (fb_map_size fb1) of
                None \<Rightarrow> (VMC_ERR_IO, fb1\<lparr>fb_map := None\<rparr>)
              | Some m \<Rightarrow> (VMC_OK, fb1\<lparr>fb_map := Some m, fb_width := fb_xres fb1, fb_height := fb_yres fb1, fb_opened := True\<rparr>)))"

definition fb_close :: "vmc_fb_display \<Rightarrow> vmc_fb_display" where
  "fb_close fb = fb\<lparr>fb_map := None, fb_fd := (if fb_fd fb \<ge> 0 then -1 else fb_fd fb), fb_opened := False\<rparr>"

text \<open>One scanline of \<open>n\<close> bytes.\<close>

definition fb_row :: "nat \<Rightarrow> nat \<Rightarrow> nat \<Rightarrow> bytes \<Rightarrow> nat \<Rightarrow> bytes \<Rightarrow> bytes option" where
  "fb_row line stride n src y m =
     (if y * line + n \<le> length m \<and> y * stride + n \<le> length src
      then Some (mem_write m (y * line) (mem_read src (y * stride) n)) else None)"

fun fb_rows :: "nat \<Rightarrow> nat \<Rightarrow> nat \<Rightarrow> bytes \<Rightarrow> nat \<Rightarrow> bytes \<Rightarrow> bytes option" where
  "fb_rows line stride n src 0 m = Some m"
| "fb_rows line stride n src (Suc h) m =
     (case fb_rows line stride n src h m of None \<Rightarrow> None | Some m1 \<Rightarrow> fb_row line stride n src h m1)"

definition fb_present :: "vmc_fb_display \<Rightarrow> vmc_video_frame option \<Rightarrow> (vmc_status \<times> vmc_fb_display) option" where
  "fb_present fb frame =
     (case (fb_map fb, frame) of
        (Some m, Some f) \<Rightarrow>
          if vf_pixfmt f \<noteq> VMC_PIXFMT_RGB32 then Some (VMC_ERR_NOSYS, fb)
          else let w = min (unat (vf_width f)) (unat (fb_xres fb)); h = min (unat (vf_height f)) (unat (fb_yres fb))
               in (case fb_rows (unat (fb_line_len fb)) (unat (hd (vf_stride f))) (w * 4) (hd (vf_planes f)) h m of
                     None \<Rightarrow> None
                   | Some m1 \<Rightarrow> Some (VMC_OK, fb\<lparr>fb_map := Some m1\<rparr>))
      | _ \<Rightarrow> Some (VMC_ERR_INVALID_ARG, fb))"

definition vmc_fb_display_init :: "(string \<Rightarrow> int) \<Rightarrow> vmc_fb_display option \<Rightarrow> string option \<Rightarrow> vmc_status \<times> vmc_fb_display option" where
  "vmc_fb_display_init open_dev fbo path =
     (case fbo of
        None \<Rightarrow> (VMC_ERR_INVALID_ARG, None)
      | Some _ \<Rightarrow>
          let fd = open_dev (case path of Some p \<Rightarrow> p | None \<Rightarrow> ''/dev/fb0'');
              fb = \<lparr>fb_fd = fd, fb_map = None, fb_map_size = 0, fb_line_len = 0, fb_xres = 0, fb_yres = 0, fb_bpp = 0,
                    fb_width = 0, fb_height = 0, fb_opened = False\<rparr>
          in if fd < 0 then (VMC_ERR_IO, Some fb) else (VMC_OK, Some fb))"

section \<open>The copy\<close>

text \<open>The rows stay inside both buffers exactly when the last one does.\<close>

lemma last_row_fits:
  assumes "y * line + n \<le> L" "x \<le> y"
  shows "x * line + n \<le> (L :: nat)"
  using assms mult_le_mono1 [OF assms(2), of line] by linarith

lemma fb_rows_length: "fb_rows line stride n src h m = Some m' \<Longrightarrow> length m' = length m"
proof (induction h arbitrary: m')
  case (Suc h)
  then obtain m1 where "fb_rows line stride n src h m = Some m1" "fb_row line stride n src h m1 = Some m'"
    by (auto split: option.splits)
  then show ?case using Suc.IH by (auto simp: fb_row_def split: if_splits)
qed simp

lemma fb_rows_Some_iff:
  "(\<exists>m'. fb_rows line stride n src h m = Some m') \<longleftrightarrow>
     h = 0 \<or> ((h - 1) * line + n \<le> length m \<and> (h - 1) * stride + n \<le> length src)"
proof (induction h)
  case (Suc h)
  show ?case
  proof
    assume "\<exists>m'. fb_rows line stride n src (Suc h) m = Some m'"
    then obtain m1 m' where "fb_rows line stride n src h m = Some m1" "fb_row line stride n src h m1 = Some m'"
      by (auto split: option.splits)
    then show "Suc h = 0 \<or> ((Suc h - 1) * line + n \<le> length m \<and> (Suc h - 1) * stride + n \<le> length src)"
      using fb_rows_length by (fastforce simp: fb_row_def split: if_splits)
  next
    assume "Suc h = 0 \<or> ((Suc h - 1) * line + n \<le> length m \<and> (Suc h - 1) * stride + n \<le> length src)"
    then have l: "h * line + n \<le> length m" "h * stride + n \<le> length src" by auto
    then have "\<exists>m1. fb_rows line stride n src h m = Some m1"
      using Suc last_row_fits [OF l(1), of "h - 1"] last_row_fits [OF l(2), of "h - 1"] by auto
    then obtain m1 where m1: "fb_rows line stride n src h m = Some m1" by blast
    then show "\<exists>m'. fb_rows line stride n src (Suc h) m = Some m'"
      using l fb_rows_length [OF m1] by (simp add: fb_row_def)
  qed
qed simp

text \<open>With lines at least as long as a row, row \<open>y\<close> of the frame stands in line \<open>y\<close> and the rest of the screen is kept.\<close>

lemma fb_rows_nth:
  assumes "n \<le> line" "fb_rows line stride n src h m = Some m'" "i < length m"
  shows "m' ! i = (if i div line < h \<and> i mod line < n then src ! (i div line * stride + i mod line) else m ! i)"
  using assms(2)
proof (induction h arbitrary: m')
  case (Suc h)
  then obtain m1 where m1: "fb_rows line stride n src h m = Some m1" "fb_row line stride n src h m1 = Some m'"
    by (auto split: option.splits)
  note IH = Suc.IH [OF m1(1)]
  have f: "h * line + n \<le> length m1" "h * stride + n \<le> length src"
    and m': "m' = mem_write m1 (h * line) (mem_read src (h * stride) n)"
    using m1(2) by (auto simp: fb_row_def split: if_splits)
  have len: "length (mem_read src (h * stride) n) = n" using f(2) by simp
  have i1: "i < length m1" using assms(3) fb_rows_length [OF m1(1)] by simp
  have nth: "m' ! i = (if h * line \<le> i \<and> i < h * line + n then src ! (h * stride + (i - h * line)) else m1 ! i)"
    unfolding m' using nth_mem_write [of "h * line" "mem_read src (h * stride) n" m1 i] f len i1
      nth_mem_read [of "h * stride" n src "i - h * line"] by (auto simp: less_diff_conv2)
  show ?case
  proof (cases "h * line \<le> i \<and> i < h * line + n")
    case True
    then obtain r where r: "i = h * line + r" "r < line" using assms(1) by (metis le_Suc_ex less_le_trans nat_add_left_cancel_less)
    then have "i div line = h" "i mod line = r" "r < n" using True by simp_all
    then show ?thesis using True nth r(1) by simp
  next
    case False
    have "i div line = h \<Longrightarrow> \<not> i mod line < n"
      using False div_mult_mod_eq [of i line] by auto
    then show ?thesis using False nth IH by (auto simp: less_Suc_eq)
  qed
qed simp

section \<open>Properties\<close>

text \<open>
  C30: A frame in RGB32 that is as large as the screen or smaller is copied pixel by pixel: on a
  screen whose lines hold four bytes per pixel, every visible pixel covered by the frame shows the
  frame's pixel, every other byte of the mapping is unchanged, and no access leaves the mapping or
  the frame.
\<close>

theorem fb_present_exact:
  assumes "fb_map fb = Some m" and "vf_pixfmt f = VMC_PIXFMT_RGB32"
    and "w = min (unat (vf_width f)) (unat (fb_xres fb))" and "h = min (unat (vf_height f)) (unat (fb_yres fb))"
    and "4 * w \<le> unat (fb_line_len fb)" and "h * unat (fb_line_len fb) \<le> length m"
    and "4 * w \<le> unat (hd (vf_stride f))" and "h * unat (hd (vf_stride f)) \<le> length (hd (vf_planes f))"
  shows "\<exists>m'. fb_present fb (Some f) = Some (VMC_OK, fb\<lparr>fb_map := Some m'\<rparr>) \<and> length m' = length m \<and>
    (\<forall>i < length m. m' ! i =
       (if i div unat (fb_line_len fb) < h \<and> i mod unat (fb_line_len fb) < 4 * w
        then hd (vf_planes f) ! (i div unat (fb_line_len fb) * unat (hd (vf_stride f)) + i mod unat (fb_line_len fb))
        else m ! i))"
proof -
  let ?line = "unat (fb_line_len fb)" and ?stride = "unat (hd (vf_stride f))" and ?src = "hd (vf_planes f)"
  have fits: "h = 0 \<or> ((h - 1) * ?line + 4 * w \<le> length m \<and> (h - 1) * ?stride + 4 * w \<le> length ?src)"
  proof (cases h)
    case (Suc g)
    then show ?thesis using assms(5-8) by simp
  qed simp
  then obtain m' where m': "fb_rows ?line ?stride (4 * w) ?src h m = Some m'" using fb_rows_Some_iff by blast
  have w: "w * 4 = 4 * w" by simp
  have "fb_present fb (Some f) = Some (VMC_OK, fb\<lparr>fb_map := Some m'\<rparr>)"
    using m' assms(1,2) by (simp add: fb_present_def Let_def w flip: assms(3,4))
  moreover have "m' ! i = (if i div ?line < h \<and> i mod ?line < 4 * w then ?src ! (i div ?line * ?stride + i mod ?line) else m ! i)"
    if "i < length m" for i using fb_rows_nth [OF assms(5) m' that] .
  ultimately show ?thesis using fb_rows_length [OF m'] by blast
qed

definition fb_small :: vmc_fb_display where
  "fb_small = \<lparr>fb_fd = 3, fb_map = Some [0,0,0,0, 9, 0,0,0,0, 9], fb_map_size = 10, fb_line_len = 5, fb_xres = 1, fb_yres = 2, fb_bpp = 32,
     fb_width = 1, fb_height = 2, fb_opened = True\<rparr>"

definition frame_small :: vmc_video_frame where
  "frame_small = \<lparr>vf_width = 1, vf_height = 2, vf_pixfmt = VMC_PIXFMT_RGB32, vf_stride = [4, 0, 0], vf_ts_us = 0,
     vf_device_mem = False, vf_planes = [[1,2,3,4, 5,6,7,8], [], []]\<rparr>"

theorem fb_present_exact_witness:
  "\<exists>m'. fb_present fb_small (Some frame_small) = Some (VMC_OK, fb_small\<lparr>fb_map := Some m'\<rparr>) \<and> length m' = 10 \<and> m' ! 5 = 5 \<and> m' ! 4 = 9"
proof -
  let ?m = "[0,0,0,0, 9, 0,0,0,0, 9] :: bytes"
  have "fb_map fb_small = Some ?m" "vf_pixfmt frame_small = VMC_PIXFMT_RGB32"
    "1 = min (unat (vf_width frame_small)) (unat (fb_xres fb_small))" "2 = min (unat (vf_height frame_small)) (unat (fb_yres fb_small))"
    "4 * 1 \<le> unat (fb_line_len fb_small)" "2 * unat (fb_line_len fb_small) \<le> length ?m"
    "4 * 1 \<le> unat (hd (vf_stride frame_small))" "2 * unat (hd (vf_stride frame_small)) \<le> length (hd (vf_planes frame_small))"
    by (simp_all add: fb_small_def frame_small_def)
  note ex = fb_present_exact [OF this]
  have l: "unat (fb_line_len fb_small) = 5" "unat (hd (vf_stride frame_small)) = 4" "hd (vf_planes frame_small) = [1,2,3,4, 5,6,7,8]"
    by (simp_all add: fb_small_def frame_small_def)
  obtain m' where p: "fb_present fb_small (Some frame_small) = Some (VMC_OK, fb_small\<lparr>fb_map := Some m'\<rparr>)" "length m' = length ?m"
    and n: "\<forall>i < length ?m. m' ! i = (if i div 5 < 2 \<and> i mod 5 < 4 * 1 then [1,2,3,4, 5,6,7,8] ! (i div 5 * 4 + i mod 5) else ?m ! i)"
    using ex unfolding l by blast
  have "m' ! 5 = 5" "m' ! 4 = 9" using n [rule_format, of 5] n [rule_format, of 4] by simp_all
  moreover have "length m' = 10" using p(2) by simp
  ultimately show ?thesis using p(1) by blast
qed

text \<open>
  The depth is never looked at: on a screen with two bytes per pixel and no spare lines, a frame as
  large as the screen is written past the end of the mapping.
\<close>

lemma fb_16bpp_overruns:
  assumes "fb_map fb = Some m" "vf_pixfmt f = VMC_PIXFMT_RGB32" "0 < fb_xres fb" "0 < fb_yres fb"
    and "fb_xres fb \<le> vf_width f" "fb_yres fb \<le> vf_height f"
    and "unat (fb_line_len fb) = 2 * unat (fb_xres fb)" "length m = unat (fb_yres fb) * unat (fb_line_len fb)"
  shows "fb_present fb (Some f) = None"
proof -
  have wh: "min (unat (vf_width f)) (unat (fb_xres fb)) = unat (fb_xres fb)" "min (unat (vf_height f)) (unat (fb_yres fb)) = unat (fb_yres fb)"
    using assms(5,6) by (simp_all add: word_le_nat_alt)
  obtain h where h: "unat (fb_yres fb) = Suc h" using assms(4) by (metis gr0_conv_Suc unat_gt_0 word_neq_0_conv)
  have "0 < unat (fb_xres fb)" using assms(3) by (simp add: unat_gt_0 word_neq_0_conv)
  then have "fb_rows (unat (fb_line_len fb)) (unat (hd (vf_stride f))) (unat (fb_xres fb) * 4) (hd (vf_planes f)) (Suc h) m = None"
    using fb_rows_Some_iff [of "unat (fb_line_len fb)" "unat (hd (vf_stride f))" "unat (fb_xres fb) * 4" "hd (vf_planes f)" "Suc h" m] assms(7,8) h
    by (cases "fb_rows (unat (fb_line_len fb)) (unat (hd (vf_stride f))) (unat (fb_xres fb) * 4) (hd (vf_planes f)) (Suc h) m") auto
  then show ?thesis using assms(1,2) wh h by (simp add: fb_present_def Let_def del: fb_rows.simps)
qed

text \<open>A failed mapping leaves the display closed, and its descriptor open until it is closed.\<close>

lemma fb_open_maps:
  assumes "fb_open info mmap fb = (VMC_OK, fb')"
  shows "\<exists>v m. info (fb_fd fb) = Some v \<and> mmap (fb_fd fb) (fb_map_size fb') = Some m \<and> fb_map fb' = Some m \<and> fb_opened fb'"
  using assms by (auto simp: fb_open_def Let_def status_defs split: option.splits)

end
