(* ===== verification/Alsa_Sink.thy ===== *)
theory Alsa_Sink
  imports Audio_Mixer Ascii_Text
begin

unbundle bit_operations_syntax

text \<open>
  The sound sink, \<^verbatim>\<open>src/audio/alsa_sink.c\<close>: finding a USB headset in the kernel's tables, opening
  and configuring the device with its fall-backs to silence, the mono downmix, writing a block with
  its recovery, and the clock readings. The sound library is a record of its answers; a block
  that is shorter than the device would read is the result \<open>None\<close>.
\<close>

section \<open>Finding the headset\<close>

text \<open>
  The channel count in the playback block of the device's description, line by line; 2 when it
  cannot be read or is not positive.
\<close>

fun scan_channels :: "bool \<Rightarrow> string list \<Rightarrow> int" where
  "scan_channels in_playback [] = 2"
| "scan_channels in_playback (line # ls) =
     (if prefix ''Playback:'' line then scan_channels True ls
      else if in_playback
      then if prefix ''Capture:'' line then 2
           else (case strstr line ''Channels:'' of
                   None \<Rightarrow> scan_channels in_playback ls
                 | Some c \<Rightarrow> (case scan_int (drop 9 c) of Some (ch, _) \<Rightarrow> ch | None \<Rightarrow> scan_channels in_playback ls))
      else scan_channels in_playback ls)"

definition usb_playback_channels :: "string list option \<Rightarrow> int" where
  "usb_playback_channels file =
     (case file of None \<Rightarrow> 2 | Some ls \<Rightarrow> let ch = scan_channels False ls in if ch > 0 then ch else 2)"

text \<open>
  \<open>sscanf\<close> with the format \<open>" %d [%*[^]]]: %63s -"\<close>: the card number and the driver name, when both
  are converted.
\<close>

definition scan_card :: "string \<Rightarrow> (int \<times> string) option" where
  "scan_card line =
     (case scan_int line of
        None \<Rightarrow> None
      | Some (k, r) \<Rightarrow>
          (case dropWhile is_c_space r of
             [] \<Rightarrow> None
           | b # r1 \<Rightarrow>
               if b \<noteq> CHR ''['' then None
               else let r2 = dropWhile (\<lambda>c. c \<noteq> CHR '']'') r1
                    in if r1 = [] \<or> hd r1 = CHR '']'' \<or> take 2 r2 \<noteq> '']:'' then None
                       else let d = take 63 (takeWhile (\<lambda>c. \<not> is_c_space c) (dropWhile is_c_space (drop 2 r2)))
                            in if d = [] then None else Some (k, d)))"

text \<open>
  The first USB card with a playback device. \<open>cards\<close> are the lines of the card table, \<open>has_pcm\<close> tells
  whether a card has a playback device and \<open>stream\<close> is its description.
\<close>

fun find_usb_card :: "(int \<Rightarrow> bool) \<Rightarrow> string list \<Rightarrow> int option" where
  "find_usb_card has_pcm [] = None"
| "find_usb_card has_pcm (line # ls) =
     (case scan_card line of
        Some (k, driver) \<Rightarrow> if driver = ''USB-Audio'' \<and> has_pcm k then Some k else find_usb_card has_pcm ls
      | None \<Rightarrow> find_usb_card has_pcm ls)"

definition vmc_alsa_find_usb_device ::
  "string list option \<Rightarrow> (int \<Rightarrow> bool) \<Rightarrow> (int \<Rightarrow> string list option) \<Rightarrow> (string \<times> int) option" where
  "vmc_alsa_find_usb_device cards has_pcm stream =
     (case cards of
        None \<Rightarrow> None
      | Some ls \<Rightarrow> (case find_usb_card has_pcm ls of
                      None \<Rightarrow> None
                    | Some k \<Rightarrow> Some (take 95 (''hw:'' @ int_string k @ '',0''), usb_playback_channels (stream k))))"

section \<open>The sink\<close>

record alsa_ctx =
  al_pcm :: bool
  al_frames_played :: u64
  al_channels :: int
  al_mono :: "i16 list"
  al_recover :: u64
  al_fatal :: u64

text \<open>The sum of the two channels in 32 bits, halved by an arithmetic shift and stored in 16 bits.\<close>

definition downmix :: "i16 \<Rightarrow> i16 \<Rightarrow> i16" where
  "downmix l r = ucast (signed_drop_bit 1 (scast l + scast r :: i32))"

definition mono_block :: "i16 list \<Rightarrow> nat \<Rightarrow> i16 list" where
  "mono_block pcm frames = map (\<lambda>i. downmix (pcm ! (i * 2)) (pcm ! (i * 2 + 1))) [0..<frames]"

text \<open>
  \<open>writei\<close> is the number of frames taken or a negative error, \<open>recov\<close> the result of the recovery.
  The device reads as many samples per frame as it has channels. \<open>grow\<close> tells whether the scratch
  buffer can be enlarged. The value is the status, the block handed to the device if any, and the sink.
\<close>

definition alsa_play ::
  "(i16 list \<Rightarrow> int) \<Rightarrow> (int \<Rightarrow> int) \<Rightarrow> bool \<Rightarrow> alsa_ctx \<Rightarrow> i16 list \<Rightarrow> nat \<Rightarrow> (vmc_status \<times> i16 list option \<times> alsa_ctx) option" where
  "alsa_play writei recov grow a pcm frames =
     (if \<not> al_pcm a then Some (VMC_OK, None, a)
      else if al_channels a = 1 \<and> frames > length (al_mono a) \<and> \<not> grow then Some (VMC_OK, None, a)
      else let a1 = (if al_channels a = 1 then a\<lparr>al_mono := mono_block pcm frames @ drop frames (al_mono a)\<rparr> else a);
               out = (if al_channels a = 1 then al_mono a1 else pcm);
               n = frames * nat (al_channels a)
           in if length out < n then None
              else let blk = take n out; r = writei blk
                   in if r < 0
                      then let r2 = recov r
                           in if r2 < 0 then Some (VMC_ERR_IO, Some blk, a1\<lparr>al_pcm := False, al_fatal := al_fatal a1 + 1\<rparr>)
                              else Some (VMC_OK, Some blk, a1\<lparr>al_recover := al_recover a1 + 1,
                                     al_frames_played := al_frames_played a1 + of_int r2\<rparr>)
                      else Some (VMC_OK, Some blk, a1\<lparr>al_frames_played := al_frames_played a1 + of_int r\<rparr>))"

section \<open>Opening\<close>

text \<open>
  The answers of the library while the device is opened: whether it opens, whether a parameter
  record is available, whether each of the six settings and their installation succeed, whether it
  can be prepared. The software parameters never change the outcome.
\<close>

record alsa_answers =
  aa_open :: "string \<Rightarrow> bool"
  aa_hw_alloc :: bool
  aa_hw_settings :: "bool list"
  aa_hw_install :: bool
  aa_prepare :: bool

definition pcm_usable :: "alsa_answers \<Rightarrow> string \<Rightarrow> bool" where
  "pcm_usable q dev \<longleftrightarrow> aa_open q dev \<and> (aa_hw_alloc q \<longrightarrow> list_all id (aa_hw_settings q) \<and> aa_hw_install q) \<and> aa_prepare q"

text \<open>
  The device name, the sink and whether the HDMI switch is turned on. \<open>env\<close> is the device named in the
  environment; the sink may be absent and the allocation of its context can fail.
\<close>

definition sink_device :: "(string \<times> int) option \<Rightarrow> string option \<Rightarrow> string option \<Rightarrow> string \<times> int" where
  "sink_device usb device env =
     (case usb of
        Some (d, ch) \<Rightarrow> (d, ch)
      | None \<Rightarrow> (case device of Some d \<Rightarrow> d | None \<Rightarrow> (case env of Some e \<Rightarrow> e | None \<Rightarrow> ''default''), int VMC_AUDIO_CHANNELS))"

definition vmc_alsa_sink_init ::
  "alsa_answers \<Rightarrow> bool \<Rightarrow> bool \<Rightarrow> (string \<times> int) option \<Rightarrow> string option \<Rightarrow> string option
     \<Rightarrow> vmc_status \<times> alsa_ctx option \<times> bool" where
  "vmc_alsa_sink_init q sink alloc usb device env =
     (if \<not> sink then (VMC_ERR_INVALID_ARG, None, False)
      else if \<not> alloc then (VMC_ERR_NOMEM, None, False)
      else case sink_device usb device env of
             (dev, ch) \<Rightarrow>
               let a = \<lparr>al_pcm = pcm_usable q dev, al_frames_played = 0, al_channels = ch, al_mono = [], al_recover = 0, al_fatal = 0\<rparr>
               in (VMC_OK, Some a, al_pcm a \<and> usb = None))"

text \<open>
  The HDMI switch: the four steps of opening the mixer may fail; then every element named \<open>IEC958\<close> is
  switched on. The value is the list of the names of the elements switched on.
\<close>

definition alsa_unmute_hdmi :: "bool list \<Rightarrow> string option list \<Rightarrow> string list" where
  "alsa_unmute_hdmi steps elems =
     (if list_all id steps then filter (\<lambda>n. n = ''IEC958'') (List.map_filter id elems) else [])"

text \<open>The recovery counters are global variables of debug builds; here they are fields of the sink.\<close>

definition vmc_alsa_sink_stats :: "alsa_ctx \<Rightarrow> u64 \<times> u64" where
  "vmc_alsa_sink_stats a = (al_recover a, al_fatal a)"

definition vmc_alsa_sink_close :: "alsa_ctx option \<Rightarrow> alsa_ctx option" where
  "vmc_alsa_sink_close a = None"

definition vmc_alsa_sink_playing :: "alsa_ctx option \<Rightarrow> bool" where
  "vmc_alsa_sink_playing a = (case a of None \<Rightarrow> False | Some x \<Rightarrow> al_pcm x)"

text \<open>The position is the wall clock; \<open>clock\<close> is its seconds and nanoseconds, if it can be read.\<close>

definition vmc_alsa_sink_position_us :: "(u64 \<times> u64) option \<Rightarrow> alsa_ctx option \<Rightarrow> u64 option" where
  "vmc_alsa_sink_position_us clock a =
     (if \<not> vmc_alsa_sink_playing a then None
      else case clock of None \<Rightarrow> None | Some (s, ns) \<Rightarrow> Some (s * 1000000 + ns div 1000))"

definition vmc_alsa_sink_delay_us :: "int option \<Rightarrow> alsa_ctx option \<Rightarrow> u64 option" where
  "vmc_alsa_sink_delay_us delay a =
     (if \<not> vmc_alsa_sink_playing a then None
      else case delay of None \<Rightarrow> None
           | Some d \<Rightarrow> Some (of_int (if d < 0 then 0 else d) * 1000000 div of_nat VMC_AUDIO_SAMPLE_RATE))"

definition vmc_alsa_sink_frames_played :: "alsa_ctx option \<Rightarrow> u64 option" where
  "vmc_alsa_sink_frames_played a =
     (case a of None \<Rightarrow> None | Some x \<Rightarrow> if al_pcm x then Some (al_frames_played x) else None)"

section \<open>The downmix\<close>

lemma sint_downmix: "sint (downmix l r) = (sint l + sint r) div 2"
proof -
  have l: "- 32768 \<le> sint l" "sint l \<le> 32767" and r: "- 32768 \<le> sint r" "sint r \<le> 32767" by (rule sint16_bounds)+
  have s: "sint (scast x :: i32) = sint x" for x :: i16
    using sint16_bounds [of x] by (simp add: signed_scast_eq signed_take_bit_int_eq_self)
  have sum: "sint (scast l + scast r :: i32) = sint l + sint r"
    using l r by (simp add: sint_word_ariths s signed_take_bit_int_eq_self)
  have h: "sint (signed_drop_bit 1 (scast l + scast r :: i32)) = (sint l + sint r) div 2"
    by (simp add: sint_signed_drop_bit_eq sum drop_bit_eq_div)
  have b: "- 32768 \<le> (sint l + sint r) div 2" "(sint l + sint r) div 2 \<le> 32767" using l r by linarith+
  have "sint (ucast w :: i16) = sint w" if "- 32768 \<le> sint w" "sint w \<le> 32767" for w :: i32
  proof -
    have "sint (ucast w :: i16) = signed_take_bit 15 (sint w)"
      by (simp add: sint_uint unsigned_ucast_eq signed_take_bit_take_bit)
    then show ?thesis using that by (simp add: signed_take_bit_int_eq_self)
  qed
  then show ?thesis using h b by (simp add: downmix_def)
qed

section \<open>Lines of the card table\<close>

lemma dropWhile_blanks: "dropWhile is_c_space (replicate n (CHR '' '') @ s) = dropWhile is_c_space s"
  by (induction n) (simp_all add: is_c_space_def)

lemma scan_card_line:
  assumes "nm \<noteq> []" "CHR '']'' \<notin> set nm" "drv \<noteq> []" "length drv \<le> 63" "\<forall>c \<in> set drv. \<not> is_c_space c"
  shows "scan_card (CHR '' '' # dec_string k @ '' ['' @ nm @ '']: '' @ drv @ CHR '' '' # rest) = Some (int k, drv)"
proof -
  have sp: "digit_val (CHR '' '') = None" "is_c_space (CHR '' '')" "\<not> is_c_space (CHR ''['')"
    by (simp_all add: digit_val_def is_c_space_def)
  let ?t = "CHR ''['' # nm @ '']: '' @ drv @ CHR '' '' # rest"
  have "scan_int (CHR '' '' # dec_string k @ CHR '' '' # ?t) = scan_int (dec_string k @ CHR '' '' # ?t)"
    using sp(2) by (simp add: scan_int_def)
  then have i: "scan_int (CHR '' '' # dec_string k @ CHR '' '' # ?t) = Some (int k, CHR '' '' # ?t)"
    using scan_int_dec [OF sp(1), of k ?t] by simp
  have d: "dropWhile is_c_space (CHR '' '' # ?t) = ?t" using sp by simp
  have h: "hd (nm @ '']: '' @ drv @ CHR '' '' # rest) \<noteq> CHR '']''" using assms(1,2) by (cases nm) auto
  have w: "dropWhile (\<lambda>c. c \<noteq> CHR '']'') (nm @ '']: '' @ drv @ CHR '' '' # rest) = '']: '' @ drv @ CHR '' '' # rest"
    using assms(2) by (subst dropWhile_append2) auto
  obtain c ds where cd: "drv = c # ds" using assms(3) by (cases drv) auto
  have "dropWhile is_c_space (drop 2 ('']: '' @ drv @ CHR '' '' # rest)) = drv @ CHR '' '' # rest"
    using sp(2) cd assms(5) by simp
  moreover have "takeWhile (\<lambda>c. \<not> is_c_space c) (drv @ CHR '' '' # rest) = drv"
    using assms(5) sp(2) by (subst takeWhile_append2) auto
  ultimately have t: "take 63 (takeWhile (\<lambda>c. \<not> is_c_space c) (dropWhile is_c_space (drop 2 ('']: '' @ drv @ CHR '' '' # rest)))) = drv"
    using assms(4) by (simp only: take_all)
  show ?thesis
    unfolding scan_card_def using i d h w t assms(1,3) by (simp del: drop_Suc_Cons)
qed

section \<open>Properties\<close>

text \<open>
  C31: An open sink hands the device exactly the block it was given, or on a mono device the sample
  sums of the two channels halved and rounded down, none of which overflows; it counts as played
  what the device took, closes the device when the error cannot be recovered, and a block whose
  write was recovered is reported as played although the device took nothing of it.
\<close>

theorem alsa_play_spec:
  assumes "al_pcm a" and "al_channels a = 1 \<or> al_channels a = 2" and "length pcm = 2 * frames"
    and "\<And>e. recov e \<le> 0"
  shows "\<exists>blk a'. alsa_play writei recov True a pcm frames =
      Some (if writei blk < 0 \<and> recov (writei blk) < 0 then VMC_ERR_IO else VMC_OK, Some blk, a') \<and>
    (if al_channels a = 2 then blk = pcm
     else map sint blk = map (\<lambda>i. (sint (pcm ! (2 * i)) + sint (pcm ! (2 * i + 1))) div 2) [0..<frames]) \<and>
    al_frames_played a' = al_frames_played a + (if writei blk < 0 then 0 else of_int (writei blk)) \<and>
    al_pcm a' = (\<not> (writei blk < 0 \<and> recov (writei blk) < 0))"
proof -
  define blk where "blk = (if al_channels a = 1 then mono_block pcm frames else pcm)"
  have lb: "length (mono_block pcm frames) = frames" by (simp add: mono_block_def)
  have n: "take (frames * nat (al_channels a)) (if al_channels a = 1 then mono_block pcm frames @ drop frames (al_mono a) else pcm) = blk"
    "\<not> length (if al_channels a = 1 then mono_block pcm frames @ drop frames (al_mono a) else pcm) < frames * nat (al_channels a)"
    using assms(2,3) lb by (auto simp: blk_def)
  define a1 where "a1 = (if al_channels a = 1 then a\<lparr>al_mono := mono_block pcm frames @ drop frames (al_mono a)\<rparr> else a)"
  have out: "(if al_channels a = 1 then al_mono a1 else pcm) = (if al_channels a = 1 then mono_block pcm frames @ drop frames (al_mono a) else pcm)"
    by (simp add: a1_def)
  have e: "alsa_play writei recov True a pcm frames =
    (if writei blk < 0
     then if recov (writei blk) < 0 then Some (VMC_ERR_IO, Some blk, a1\<lparr>al_pcm := False, al_fatal := al_fatal a1 + 1\<rparr>)
          else Some (VMC_OK, Some blk, a1\<lparr>al_recover := al_recover a1 + 1, al_frames_played := al_frames_played a1 + of_int (recov (writei blk))\<rparr>)
     else Some (VMC_OK, Some blk, a1\<lparr>al_frames_played := al_frames_played a1 + of_int (writei blk)\<rparr>))"
    unfolding alsa_play_def Let_def a1_def [symmetric] out n(1) using assms(1) n(2) by simp
  have z: "recov x = 0" if "\<not> recov x < 0" for x using assms(4) [of x] that by linarith
  have b: "if al_channels a = 2 then blk = pcm
     else map sint blk = map (\<lambda>i. (sint (pcm ! (2 * i)) + sint (pcm ! (2 * i + 1))) div 2) [0..<frames]"
    using assms(2) by (auto simp: blk_def mono_block_def sint_downmix mult.commute)
  have f: "al_frames_played a1 = al_frames_played a" "al_pcm a1" using assms(1) by (simp_all add: a1_def)
  show ?thesis
  proof (cases "writei blk < 0")
    case True
    then show ?thesis using e b f z [of "writei blk"] by (cases "recov (writei blk) < 0") (intro exI [of _ blk]; simp)+
  next
    case False
    then show ?thesis using e b f by (intro exI [of _ blk]) simp
  qed
qed

definition mono_sink :: alsa_ctx where
  "mono_sink = \<lparr>al_pcm = True, al_frames_played = 10, al_channels = 1, al_mono = [], al_recover = 0, al_fatal = 0\<rparr>"

theorem alsa_play_spec_witness:
  "\<exists>blk a'. alsa_play (\<lambda>_. 1) (\<lambda>_. 0) True mono_sink [- 3, 0] 1 = Some (VMC_OK, Some blk, a') \<and> map sint blk = [- 2] \<and> al_frames_played a' = 11"
proof -
  have a: "al_pcm mono_sink" "al_channels mono_sink = 1 \<or> al_channels mono_sink = 2" "length [- 3, 0 :: i16] = 2 * 1"
    by (simp_all add: mono_sink_def)
  have rec: "\<And>e :: int. (0 :: int) \<le> 0" by simp
  have "sint (- 3 :: i16) = - 3" by simp
  then show ?thesis using alsa_play_spec [OF a rec, of "\<lambda>_. 1"] by (auto simp: mono_sink_def)
qed

text \<open>A device with more channels than two is given blocks that are too short.\<close>

lemma alsa_surround_overreads:
  "al_pcm a \<Longrightarrow> 2 < al_channels a \<Longrightarrow> length pcm = 2 * frames \<Longrightarrow> 0 < frames \<Longrightarrow> alsa_play writei recov True a pcm frames = None"
  by (simp add: alsa_play_def Let_def mult.commute)

text \<open>The first USB card with a playback device in a table of the kernel's format is found.\<close>

lemma usb_card_found:
  assumes "nm \<noteq> []" "CHR '']'' \<notin> set nm" "has_pcm (int k)"
  shows "find_usb_card has_pcm ((CHR '' '' # dec_string k @ '' ['' @ nm @ '']: USB-Audio - '' @ rest) # ls) = Some (int k)"
proof -
  have "\<forall>c \<in> set ''USB-Audio''. \<not> is_c_space c" by (simp add: is_c_space_def)
  then have "scan_card (CHR '' '' # dec_string k @ '' ['' @ nm @ '']: '' @ ''USB-Audio'' @ CHR '' '' # ''- '' @ rest) = Some (int k, ''USB-Audio'')"
    using assms(1,2) by (intro scan_card_line) simp_all
  then show ?thesis using assms(3) by simp
qed

end
