(* ===== verification/Ffmpeg_Decoder.thy ===== *)
theory Ffmpeg_Decoder
  imports Fragment_Assembler Fb_Display
begin

text \<open>
  The video decoder, \<^verbatim>\<open>src/video/ffmpeg_decoder.c\<close>: the choice of a codec with its fall-backs,
  opening and closing, and decoding one access unit to a frame. The codec library is a record of
  its answers; a write beyond the picture buffer is the result \<open>None\<close>.
\<close>

section \<open>State\<close>

text \<open>The open codec: its name, whether the GPU device is attached, the geometry its scaler was made for.\<close>

record avcodec_cx =
  cx_name :: string
  cx_hw_device :: bool
  cx_sws :: "(int \<times> int) option"

record vmc_ffmpeg_decoder =
  fd_codec_ctx :: "avcodec_cx option"
  fd_in_buf :: "bytes option"
  fd_rgb :: "bytes option"
  fd_next_pts :: u64
  fd_last_send_pts :: u64
  fd_last_frame_pts :: u64
  fd_cuda_conv :: bool
  fd_cuda_ctx :: bool
  fd_output_cuda :: bool
  fd_rgb_cap :: u32
  fd_out_w :: u16
  fd_out_h :: u16
  fd_opened :: bool

definition vmc_ffmpeg_decoder_init :: "vmc_ffmpeg_decoder option \<Rightarrow> u16 \<Rightarrow> u16 \<Rightarrow> vmc_status \<times> vmc_ffmpeg_decoder option" where
  "vmc_ffmpeg_decoder_init d out_w out_h =
     (case d of
        None \<Rightarrow> (VMC_ERR_INVALID_ARG, None)
      | Some _ \<Rightarrow> (VMC_OK, Some \<lparr>fd_codec_ctx = None, fd_in_buf = None, fd_rgb = None, fd_next_pts = 0, fd_last_send_pts = 0,
          fd_last_frame_pts = 0, fd_cuda_conv = False, fd_cuda_ctx = False, fd_output_cuda = False, fd_rgb_cap = 0,
          fd_out_w = out_w, fd_out_h = out_h, fd_opened = False\<rparr>))"

text \<open>What the decoder reports to the telemetry: the kind, the codec, the frame, whether it is fatal.\<close>

datatype dec_event =
    Decoder_Unavailable string
  | Decoder_Reinit string
  | Decode_Error string u64
  | Corrupt_Frame u64

section \<open>Opening\<close>

definition k_hw_decoders :: "string list" where
  "k_hw_decoders = [''h264_cuvid'', ''h264_v4l2m2m'', ''h264_vaapi'']"

definition software :: string where "software = ''h264 (software)''"

text \<open>
  The answers while opening: which codecs exist and open, the software codec under its display name,
  whether contexts and buffers can be allocated, whether the GPU device can be created, and whether
  the converter library and its function are found. \<open>ol_malloc\<close> and \<open>ol_in\<close> give the initial contents of the two
  buffers.
\<close>

record open_lib =
  ol_find :: "string \<Rightarrow> bool"
  ol_context :: "string \<Rightarrow> bool"
  ol_open :: "string \<Rightarrow> bool"
  ol_hwdevice :: bool
  ol_calloc :: bool
  ol_frame :: bool
  ol_packet :: bool
  ol_malloc :: "nat \<Rightarrow> bytes option"
  ol_in :: "nat \<Rightarrow> bytes option"
  ol_dlopen :: bool
  ol_dlsym :: bool

text \<open>The codec that is tried: the forced one if it exists, then the hardware codecs, then software.\<close>

definition choose_codec :: "open_lib \<Rightarrow> string option \<Rightarrow> string option" where
  "choose_codec q forced =
     (let f = (case forced of Some n \<Rightarrow> if n \<noteq> [] \<and> ol_find q n then Some n else None | None \<Rightarrow> None)
      in case f of
           Some n \<Rightarrow> Some n
         | None \<Rightarrow> (case List.find (ol_find q) k_hw_decoders of
                      Some n \<Rightarrow> Some n
                    | None \<Rightarrow> if ol_find q software then Some software else None))"

text \<open>
  Opening the chosen codec, with one retry in software when a codec whose name begins with \<open>h\<close> does
  not open. \<open>Inl\<close> is the failure status; \<open>Inr\<close> the codec in use, whether it has the GPU device and
  whether the context of the GPU was recorded.
\<close>

definition open_codec :: "open_lib \<Rightarrow> bool \<Rightarrow> bool \<Rightarrow> string \<Rightarrow> (vmc_status + string \<times> bool) \<times> bool \<times> dec_event list" where
  "open_codec q tlm cuda used =
     (if \<not> ol_context q used then (Inl VMC_ERR_NOMEM, False, [])
      else if cuda \<and> \<not> ol_hwdevice q
      then (Inl VMC_ERR_IO, False, if tlm then [Decoder_Unavailable ''h264_cuvid''] else [])
      else if ol_open q used then (Inr (used, cuda), cuda, [])
      else if used \<noteq> [] \<and> hd used = CHR ''h'' \<and> used \<noteq> software
      then let ev = (if tlm then [Decoder_Reinit used] else [])
           in if \<not> ol_context q software then (Inl VMC_ERR_NOMEM, cuda, ev)
              else if ol_find q software \<and> ol_open q software then (Inr (software, False), cuda, ev)
              else (Inl VMC_ERR_IO, cuda, ev @ (if tlm then [Decoder_Unavailable ''h264''] else []))
      else (Inl VMC_ERR_IO, cuda, if tlm then [Decoder_Unavailable used] else []))"

text \<open>The codec asks for an output format: the GPU format if it is offered, otherwise the first one.\<close>

definition get_cuda_format :: "'f \<Rightarrow> 'f \<Rightarrow> 'f list \<Rightarrow> 'f" where
  "get_cuda_format cuda none fmts = (if cuda \<in> set fmts then cuda else hd (fmts @ [none]))"

text \<open>The buffers, once the codec is open.\<close>

definition DECODER_ALIGNMENT :: nat where "DECODER_ALIGNMENT = 64"
definition AV_INPUT_BUFFER_PADDING_SIZE :: nat where "AV_INPUT_BUFFER_PADDING_SIZE = 64"

definition open_buffers :: "open_lib \<Rightarrow> vmc_ffmpeg_decoder \<Rightarrow> string \<times> bool \<Rightarrow> vmc_status \<times> vmc_ffmpeg_decoder" where
  "open_buffers q fd cx =
     (if \<not> ol_calloc q \<or> \<not> ol_frame q \<or> \<not> ol_packet q then (VMC_ERR_NOMEM, fd)
      else let (w, h) = (if fd_out_w fd = 0 \<or> fd_out_h fd = 0 then (1920, 1080) else (fd_out_w fd, fd_out_h fd));
               cap = ucast w * ucast h * 4;
               rgb = ol_malloc q (unat (cap + of_nat DECODER_ALIGNMENT :: u32));
               in_buf = ol_in q (unat VMC_VIDEO_AU_MAX + AV_INPUT_BUFFER_PADDING_SIZE);
               fd1 = fd\<lparr>fd_out_w := w, fd_out_h := h, fd_rgb_cap := cap\<rparr>
           in if rgb = None \<or> in_buf = None then (VMC_ERR_NOMEM, fd1\<lparr>fd_codec_ctx := None, fd_in_buf := None, fd_rgb := None\<rparr>)
              else (VMC_OK, fd1\<lparr>fd_codec_ctx := Some \<lparr>cx_name = fst cx, cx_hw_device = snd cx, cx_sws = None\<rparr>,
                     fd_rgb := rgb, fd_in_buf := in_buf, fd_opened := True, fd_cuda_conv := (if ol_dlopen q then ol_dlsym q else fd_cuda_conv fd1)\<rparr>))"

definition ffmpeg_open ::
  "open_lib \<Rightarrow> bool \<Rightarrow> string option \<Rightarrow> vmc_ffmpeg_decoder \<Rightarrow> vmc_video_codec \<Rightarrow> vmc_status \<times> vmc_ffmpeg_decoder \<times> dec_event list" where
  "ffmpeg_open q tlm forced fd codec =
     (if codec \<noteq> VMC_VIDEO_CODEC_H264 then (VMC_ERR_NOSYS, fd, [])
      else case choose_codec q forced of
             None \<Rightarrow> (VMC_ERR_NOSYS, fd, if tlm then [Decoder_Unavailable (case forced of Some n \<Rightarrow> n | None \<Rightarrow> ''h264_cuvid'')] else [])
           | Some used \<Rightarrow>
               (case open_codec q tlm (fd_output_cuda fd) used of
                  (r, gpu, ev) \<Rightarrow>
                    let fd1 = (if gpu then fd\<lparr>fd_cuda_ctx := True\<rparr> else fd)
                    in (case r of
                          Inl e \<Rightarrow> (e, fd1, ev)
                        | Inr cx \<Rightarrow> (case open_buffers q fd1 cx of (st, fd2) \<Rightarrow> (st, fd2, ev)))))"

definition ffmpeg_close :: "vmc_ffmpeg_decoder \<Rightarrow> vmc_ffmpeg_decoder" where
  "ffmpeg_close fd = fd\<lparr>fd_cuda_conv := False, fd_codec_ctx := None, fd_in_buf := None, fd_rgb := None, fd_opened := False\<rparr>"

section \<open>Decoding\<close>

record avframe =
  av_width :: int
  av_height :: int
  av_linesize :: "int list"
  av_data :: "bytes list"
  av_pts :: u64
  av_corrupt :: bool

record avpacket =
  pk_data :: bytes
  pk_pts :: u64
  pk_dts :: u64
  pk_duration :: nat

datatype recv_result = Recv_Again | Recv_Eof | Recv_Error | Recv_Frame avframe

text \<open>
  The answers during one call: whether a packet can be allocated, whether the codec takes it, what
  it delivers, the pictures that the GPU converter and the scaler made for a geometry write, and whether a
  scaler can be made.
\<close>

record decode_lib =
  dl_packet :: bool
  dl_send :: bool
  dl_recv :: recv_result
  dl_conv :: "avframe \<Rightarrow> u16 \<Rightarrow> u16 \<Rightarrow> bytes option"
  dl_sws :: bool
  dl_scale :: "int \<times> int \<Rightarrow> avframe \<Rightarrow> u16 \<Rightarrow> u16 \<Rightarrow> bytes"

text \<open>The frame handed out for a picture that stays on the device, and for one converted in host memory.\<close>

definition device_frame :: "avframe \<Rightarrow> vmc_video_frame" where
  "device_frame f = \<lparr>vf_width = of_int (av_width f), vf_height = of_int (av_height f), vf_pixfmt = VMC_PIXFMT_NV12,
     vf_stride = [of_int (av_linesize f ! 0), of_int (av_linesize f ! 1), 0], vf_ts_us = 0, vf_device_mem = True,
     vf_planes = [av_data f ! 0, av_data f ! 1, []]\<rparr>"

definition host_frame :: "vmc_ffmpeg_decoder \<Rightarrow> bytes \<Rightarrow> vmc_video_frame" where
  "host_frame fd rgb = \<lparr>vf_width = fd_out_w fd, vf_height = fd_out_h fd, vf_pixfmt = VMC_PIXFMT_RGB32,
     vf_stride = [ucast (fd_out_w fd) * 4, 0, 0], vf_ts_us = 0, vf_device_mem = False, vf_planes = [rgb, [], []]\<rparr>"

definition write_rgb :: "vmc_ffmpeg_decoder \<Rightarrow> bytes \<Rightarrow> (vmc_status \<times> vmc_video_frame option \<times> vmc_ffmpeg_decoder) option" where
  "write_rgb fd pic =
     (case fd_rgb fd of
        None \<Rightarrow> None
      | Some m \<Rightarrow>
          if length pic \<le> length m
          then let m1 = mem_write m 0 pic in Some (VMC_OK, Some (host_frame fd m1), fd\<lparr>fd_rgb := Some m1\<rparr>)
          else None)"

text \<open>The conversion of a decoded picture.\<close>

definition convert_frame ::
  "decode_lib \<Rightarrow> vmc_ffmpeg_decoder \<Rightarrow> avcodec_cx \<Rightarrow> avframe \<Rightarrow> (vmc_status \<times> vmc_video_frame option \<times> vmc_ffmpeg_decoder) option" where
  "convert_frame q fd cx f =
     (if fd_output_cuda fd then Some (VMC_OK, Some (device_frame f), fd)
      else if fd_cuda_conv fd
      then (case dl_conv q f (fd_out_w fd) (fd_out_h fd) of
              None \<Rightarrow> Some (VMC_ERR_IO, None, fd)
            | Some pic \<Rightarrow> write_rgb fd pic)
      else (case cx_sws cx of
              None \<Rightarrow>
                if \<not> dl_sws q then Some (VMC_ERR_NOSYS, None, fd)
                else let g = (av_width f, av_height f)
                     in write_rgb (fd\<lparr>fd_codec_ctx := Some (cx\<lparr>cx_sws := Some g\<rparr>)\<rparr>) (dl_scale q g f (fd_out_w fd) (fd_out_h fd))
            | Some g \<Rightarrow> write_rgb fd (dl_scale q g f (fd_out_w fd) (fd_out_h fd))))"

text \<open>
  One access unit. The value is the status, the frame if one is handed out, the packet if one was
  given to the codec, the decoder and the reports.
\<close>

definition ffmpeg_decode ::
  "decode_lib \<Rightarrow> bool \<Rightarrow> vmc_ffmpeg_decoder \<Rightarrow> bytes
     \<Rightarrow> (vmc_status \<times> vmc_video_frame option \<times> avpacket option \<times> vmc_ffmpeg_decoder \<times> dec_event list) option" where
  "ffmpeg_decode q tlm fd data =
     (case (fd_codec_ctx fd, fd_in_buf fd) of
        (Some cx, Some ib) \<Rightarrow>
          if \<not> fd_opened fd \<or> data = [] then Some (VMC_ERR_INVALID_ARG, None, None, fd, [])
          else if length data > unat VMC_VIDEO_AU_MAX then Some (VMC_ERR_OVERRUN, None, None, fd, [])
          else let ib1 = mem_write ib 0 (data @ replicate AV_INPUT_BUFFER_PADDING_SIZE 0);
                   fd1 = fd\<lparr>fd_in_buf := Some ib1\<rparr>
               in if \<not> dl_packet q then Some (VMC_ERR_NOMEM, None, None, fd1, [])
                  else let p = \<lparr>pk_data = mem_read ib1 0 (length data), pk_pts = fd_next_pts fd1, pk_dts = fd_next_pts fd1, pk_duration = 1\<rparr>;
                           fd2 = fd1\<lparr>fd_last_send_pts := fd_next_pts fd1, fd_next_pts := fd_next_pts fd1 + 1\<rparr>;
                           err = (if tlm then [Decode_Error (cx_name cx) (fd_last_send_pts fd2)] else [])
                       in if \<not> dl_send q then Some (VMC_ERR_PROTO, None, Some p, fd2, err)
                          else (case dl_recv q of
                                  Recv_Again \<Rightarrow> Some (VMC_ERR_AGAIN, None, Some p, fd2, [])
                                | Recv_Eof \<Rightarrow> Some (VMC_ERR_AGAIN, None, Some p, fd2, [])
                                | Recv_Error \<Rightarrow> Some (VMC_ERR_PROTO, None, Some p, fd2, err)
                                | Recv_Frame f \<Rightarrow>
                                    let fd3 = fd2\<lparr>fd_last_frame_pts := av_pts f\<rparr>;
                                        ev = (if av_corrupt f \<and> tlm then [Corrupt_Frame (av_pts f)] else [])
                                    in (case convert_frame q fd3 cx f of
                                          None \<Rightarrow> None
                                        | Some (st, out, fd4) \<Rightarrow> Some (st, out, Some p, fd4, ev)))
      | _ \<Rightarrow> Some (VMC_ERR_INVALID_ARG, None, None, fd, []))"


section \<open>Well-formed decoders\<close>

definition picture_bytes :: "vmc_ffmpeg_decoder \<Rightarrow> nat" where
  "picture_bytes fd = unat (fd_out_w fd) * unat (fd_out_h fd) * 4"

definition decoder_ok :: "vmc_ffmpeg_decoder \<Rightarrow> bool" where
  "decoder_ok fd \<longleftrightarrow> fd_opened fd \<and> fd_codec_ctx fd \<noteq> None \<and>
     (case fd_in_buf fd of None \<Rightarrow> False | Some ib \<Rightarrow> length ib = unat VMC_VIDEO_AU_MAX + AV_INPUT_BUFFER_PADDING_SIZE) \<and>
     (case fd_rgb fd of None \<Rightarrow> False | Some m \<Rightarrow> picture_bytes fd \<le> length m)"

text \<open>
  What is relied on of the two converters: whatever they are given, they write the rows of the output
  picture and nothing beyond them. The GPU converter may refuse; the answer of the scaler is ignored by the
  code, so a scaler that fails or writes less leaves older rows in a buffer of the same size, which this
  hypothesis covers by an output of full length with any content.
\<close>

definition lib_ok :: "vmc_ffmpeg_decoder \<Rightarrow> decode_lib \<Rightarrow> bool" where
  "lib_ok fd q \<longleftrightarrow> (\<forall>f pic. dl_conv q f (fd_out_w fd) (fd_out_h fd) = Some pic \<longrightarrow> length pic = picture_bytes fd) \<and>
     (\<forall>g f. length (dl_scale q g f (fd_out_w fd) (fd_out_h fd)) = picture_bytes fd)"

text \<open>A frame in host memory has the size of the display and a plane that holds all of its rows.\<close>

definition frame_ok :: "vmc_ffmpeg_decoder \<Rightarrow> vmc_video_frame \<Rightarrow> bool" where
  "frame_ok fd f \<longleftrightarrow> (if fd_output_cuda fd then vf_device_mem f
     else \<not> vf_device_mem f \<and> vf_pixfmt f = VMC_PIXFMT_RGB32 \<and> vf_width f = fd_out_w fd \<and> vf_height f = fd_out_h fd \<and>
       unat (hd (vf_stride f)) = unat (fd_out_w fd) * 4 \<and> unat (hd (vf_stride f)) * unat (vf_height f) \<le> length (hd (vf_planes f)))"

text \<open>What every call keeps: the configuration of the output.\<close>

definition same_output :: "vmc_ffmpeg_decoder \<Rightarrow> vmc_ffmpeg_decoder \<Rightarrow> bool" where
  "same_output fd fd' \<longleftrightarrow> fd_out_w fd' = fd_out_w fd \<and> fd_out_h fd' = fd_out_h fd \<and> fd_output_cuda fd' = fd_output_cuda fd"

lemma stride_exact: "unat (ucast (w :: u16) * 4 :: u32) = unat w * 4"
proof -
  have "unat w < 2 ^ 16" using unat_bound [of w] by simp
  then have "unat w * 4 < 2 ^ 32" by simp
  then show ?thesis by (simp add: unat_word_ariths unat_ucast_up)
qed

lemma write_rgb_ok:
  assumes "decoder_ok fd" "length pic = picture_bytes fd" "\<not> fd_output_cuda fd"
  shows "\<exists>f fd'. write_rgb fd pic = Some (VMC_OK, Some f, fd') \<and> frame_ok fd f \<and> decoder_ok fd' \<and> same_output fd fd' \<and>
    fd_next_pts fd' = fd_next_pts fd"
proof -
  obtain m where m: "fd_rgb fd = Some m" "picture_bytes fd \<le> length m" using assms(1) by (auto simp: decoder_ok_def split: option.splits)
  let ?m = "mem_write m 0 pic" and ?fd = "fd\<lparr>fd_rgb := Some (mem_write m 0 pic)\<rparr>"
  have l: "length ?m = length m" using m(2) assms(2) by simp
  have "write_rgb fd pic = Some (VMC_OK, Some (host_frame fd ?m), ?fd)"
    using m assms(2) by (simp add: write_rgb_def Let_def)
  moreover have "decoder_ok ?fd" using assms(1) m l by (simp add: decoder_ok_def picture_bytes_def)
  moreover have "frame_ok fd (host_frame fd ?m)"
    using assms(3) m(2) l by (simp add: frame_ok_def host_frame_def stride_exact picture_bytes_def ac_simps)
  ultimately show ?thesis by (simp add: same_output_def)
qed

definition result_ok :: "vmc_ffmpeg_decoder \<Rightarrow> (vmc_status \<times> vmc_video_frame option \<times> vmc_ffmpeg_decoder) option \<Rightarrow> bool" where
  "result_ok fd r \<longleftrightarrow> (\<exists>st out fd'. r = Some (st, out, fd') \<and> (st = VMC_OK \<longleftrightarrow> out \<noteq> None) \<and> (\<forall>x. out = Some x \<longrightarrow> frame_ok fd x) \<and>
     decoder_ok fd' \<and> same_output fd fd' \<and> fd_next_pts fd' = fd_next_pts fd)"

lemma result_ok_write:
  assumes "decoder_ok fd" "length pic = picture_bytes fd" "\<not> fd_output_cuda fd"
  shows "result_ok fd (write_rgb fd pic)"
  using write_rgb_ok [OF assms] by (auto simp: result_ok_def)

lemma result_ok_error: "decoder_ok fd \<Longrightarrow> st \<noteq> VMC_OK \<Longrightarrow> result_ok fd (Some (st, None, fd))"
  by (simp add: result_ok_def same_output_def)

lemma convert_frame_ok:
  assumes "decoder_ok fd" "lib_ok fd q"
  shows "result_ok fd (convert_frame q fd cx f)"
proof (cases "fd_output_cuda fd")
  case True
  then show ?thesis using assms by (simp add: convert_frame_def result_ok_def frame_ok_def device_frame_def same_output_def)
next
  case False
  let ?fd = "fd\<lparr>fd_codec_ctx := Some (cx\<lparr>cx_sws := Some (av_width f, av_height f)\<rparr>)\<rparr>"
  have "decoder_ok ?fd" "picture_bytes ?fd = picture_bytes fd" "\<not> fd_output_cuda ?fd" and r: "result_ok ?fd = result_ok fd"
    using assms(1) False by (auto simp: decoder_ok_def picture_bytes_def frame_ok_def same_output_def result_ok_def fun_eq_iff split: option.splits)
  then have w: "result_ok fd (write_rgb ?fd pic)" if "length pic = picture_bytes fd" for pic
    using result_ok_write [of ?fd pic] that by simp
  have s: "length (dl_scale q g f (fd_out_w fd) (fd_out_h fd)) = picture_bytes fd" for g using assms(2) by (cases g) (simp add: lib_ok_def)
  have c: "length pic = picture_bytes fd" if "dl_conv q f (fd_out_w fd) (fd_out_h fd) = Some pic" for pic using assms(2) that by (auto simp: lib_ok_def)
  have e: "VMC_ERR_IO \<noteq> VMC_OK" "VMC_ERR_NOSYS \<noteq> VMC_OK" by (simp_all add: status_defs)
  show ?thesis using False w [OF s] result_ok_write [OF assms(1) s False] result_ok_write [OF assms(1) c False]
      result_ok_error [OF assms(1) e(1)] result_ok_error [OF assms(1) e(2)]
    by (simp add: convert_frame_def Let_def split: option.splits)
qed

section \<open>Properties\<close>

text \<open>A run of calls: the packets given to the codec, the frames handed out, the decoder at the end.\<close>

fun decode_all ::
  "bool \<Rightarrow> vmc_ffmpeg_decoder \<Rightarrow> (decode_lib \<times> bytes) list \<Rightarrow> (avpacket list \<times> vmc_video_frame list \<times> vmc_ffmpeg_decoder) option" where
  "decode_all tlm fd [] = Some ([], [], fd)"
| "decode_all tlm fd ((q, d) # xs) =
     (case ffmpeg_decode q tlm fd d of
        None \<Rightarrow> None
      | Some (st, out, p, fd1, ev) \<Rightarrow>
          (case decode_all tlm fd1 xs of
             None \<Rightarrow> None
           | Some (ps, fs, fd2) \<Rightarrow> Some (case_option id (#) p ps, case_option id (#) out fs, fd2)))"

definition accepted :: "decode_lib \<times> bytes \<Rightarrow> bool" where
  "accepted x \<longleftrightarrow> snd x \<noteq> [] \<and> length (snd x) \<le> unat VMC_VIDEO_AU_MAX \<and> dl_packet (fst x)"

lemma decode_step_ok:
  assumes "decoder_ok fd" "lib_ok fd q"
  shows "\<exists>st out p fd' ev. ffmpeg_decode q tlm fd d = Some (st, out, p, fd', ev) \<and> (st = VMC_OK \<longleftrightarrow> out \<noteq> None) \<and>
    (\<forall>x. out = Some x \<longrightarrow> frame_ok fd x) \<and> decoder_ok fd' \<and> same_output fd fd' \<and>
    (if accepted (q, d)
     then p = Some \<lparr>pk_data = d, pk_pts = fd_next_pts fd, pk_dts = fd_next_pts fd, pk_duration = 1\<rparr> \<and> fd_next_pts fd' = fd_next_pts fd + 1
     else p = None \<and> fd_next_pts fd' = fd_next_pts fd)"
proof -
  obtain cx ib where c: "fd_codec_ctx fd = Some cx" "fd_in_buf fd = Some ib"
    "length ib = unat VMC_VIDEO_AU_MAX + AV_INPUT_BUFFER_PADDING_SIZE" "fd_opened fd"
    using assms(1) by (auto simp: decoder_ok_def split: option.splits)
  have refl: "same_output fd fd" by (simp add: same_output_def)
  show ?thesis
  proof (cases "d = [] \<or> length d > unat VMC_VIDEO_AU_MAX")
    case True
    then show ?thesis using c assms(1) refl by (auto simp: ffmpeg_decode_def accepted_def status_defs)
  next
    case False
    define ib1 where "ib1 = mem_write ib 0 (d @ replicate AV_INPUT_BUFFER_PADDING_SIZE 0)"
    have l: "length ib1 = length ib" using c(3) False by (simp add: ib1_def)
    have r: "mem_read ib1 0 (length d) = d" by (simp add: ib1_def mem_read_def mem_write_def)
    let ?f1 = "fd\<lparr>fd_in_buf := Some ib1\<rparr>"
    let ?f2 = "?f1\<lparr>fd_last_send_pts := fd_next_pts fd, fd_next_pts := fd_next_pts fd + 1\<rparr>"
    have k: "decoder_ok (?f2\<lparr>fd_last_frame_pts := t\<rparr>)" "lib_ok (?f2\<lparr>fd_last_frame_pts := t\<rparr>) q"
      "frame_ok (?f2\<lparr>fd_last_frame_pts := t\<rparr>) = frame_ok fd" "same_output (?f2\<lparr>fd_last_frame_pts := t\<rparr>) = same_output fd" for t
      using assms c l by (auto simp: decoder_ok_def lib_ok_def frame_ok_def same_output_def picture_bytes_def fun_eq_iff split: option.splits)
    have o: "decoder_ok ?f1" "decoder_ok ?f2" "same_output fd ?f1" "same_output fd ?f2"
      using assms c l by (auto simp: decoder_ok_def same_output_def picture_bytes_def split: option.splits)
    have cv: "\<exists>st out fd'. convert_frame q (?f2\<lparr>fd_last_frame_pts := av_pts f\<rparr>) cx f = Some (st, out, fd') \<and> (st = VMC_OK \<longleftrightarrow> out \<noteq> None) \<and>
        (\<forall>x. out = Some x \<longrightarrow> frame_ok fd x) \<and> decoder_ok fd' \<and> same_output fd fd' \<and> fd_next_pts fd' = fd_next_pts fd + 1" for f
      using convert_frame_ok [OF k(1) k(2), where cx = cx and f = f] unfolding result_ok_def k(3,4) by simp
    show ?thesis
    proof (cases "dl_packet q")
      case False
      then show ?thesis using \<open>\<not> (d = [] \<or> _)\<close> c o unfolding ffmpeg_decode_def ib1_def [symmetric]
        by (simp add: accepted_def status_defs Let_def ib1_def)
    next
      case True
      then have a: "accepted (q, d)" using False by (simp add: accepted_def)
      note e = ffmpeg_decode_def [of q tlm fd d, unfolded c prod.case option.case ib1_def [symmetric] Let_def]
      show ?thesis
      proof (cases "dl_send q \<and> (\<exists>f. dl_recv q = Recv_Frame f)")
        case True
        then obtain f where f: "dl_send q" "dl_recv q = Recv_Frame f" by blast
        obtain st out fd' where "convert_frame q (?f2\<lparr>fd_last_frame_pts := av_pts f\<rparr>) cx f = Some (st, out, fd')" "st = VMC_OK \<longleftrightarrow> out \<noteq> None"
          "\<forall>x. out = Some x \<longrightarrow> frame_ok fd x" "decoder_ok fd'" "same_output fd fd'" "fd_next_pts fd' = fd_next_pts fd + 1"
          using cv [of f] by blast
        then show ?thesis using f False \<open>dl_packet q\<close> c(4) r a by (simp add: e)
      next
        case False
        then show ?thesis using \<open>\<not> (d = [] \<or> _)\<close> \<open>dl_packet q\<close> c(4) r a o by (cases "dl_send q"; cases "dl_recv q") (simp_all add: e status_defs)
      qed
    qed
  qed
qed


lemma same_output_lib: "same_output fd fd' \<Longrightarrow> lib_ok fd' q = lib_ok fd q \<and> frame_ok fd' f = frame_ok fd f"
  by (simp add: same_output_def lib_ok_def frame_ok_def picture_bytes_def)

text \<open>
  C32: An open decoder survives any run of calls without writing outside its buffers. Every access
  unit that fits is handed to the codec byte for byte, and the packets are numbered
  consecutively, also when the codec refuses some of them; every frame handed out in host memory has the
  size of the display and a plane that holds all of its rows.
\<close>

theorem decode_all_spec:
  assumes "decoder_ok fd" "\<forall>x \<in> set xs. lib_ok fd (fst x)"
  shows "\<exists>ps fs fd'. decode_all tlm fd xs = Some (ps, fs, fd') \<and> decoder_ok fd' \<and> same_output fd fd' \<and>
    map pk_data ps = map snd (filter accepted xs) \<and>
    map pk_pts ps = map (\<lambda>i. fd_next_pts fd + of_nat i) [0..<length ps] \<and>
    fd_next_pts fd' = fd_next_pts fd + of_nat (length ps) \<and>
    list_all (frame_ok fd) fs"
  using assms
proof (induction xs arbitrary: fd)
  case Nil
  then show ?case by (simp add: same_output_def)
next
  case (Cons x xs)
  obtain q d where x: "x = (q, d)" by (cases x)
  obtain st out p fd1 ev where s: "ffmpeg_decode q tlm fd d = Some (st, out, p, fd1, ev)" "\<forall>y. out = Some y \<longrightarrow> frame_ok fd y"
    "decoder_ok fd1" "same_output fd fd1"
    "if accepted (q, d)
     then p = Some \<lparr>pk_data = d, pk_pts = fd_next_pts fd, pk_dts = fd_next_pts fd, pk_duration = 1\<rparr> \<and> fd_next_pts fd1 = fd_next_pts fd + 1
     else p = None \<and> fd_next_pts fd1 = fd_next_pts fd"
    using decode_step_ok [OF Cons.prems(1), of q tlm d] Cons.prems(2) x by auto
  have "\<forall>y \<in> set xs. lib_ok fd1 (fst y)" using Cons.prems(2) same_output_lib [OF s(4)] by simp
  then obtain ps fs fd2 where i: "decode_all tlm fd1 xs = Some (ps, fs, fd2)" "decoder_ok fd2" "same_output fd1 fd2"
    "map pk_data ps = map snd (filter accepted xs)" "map pk_pts ps = map (\<lambda>i. fd_next_pts fd1 + of_nat i) [0..<length ps]"
    "fd_next_pts fd2 = fd_next_pts fd1 + of_nat (length ps)" "list_all (frame_ok fd1) fs"
    using Cons.IH [OF s(3)] by blast
  have f: "list_all (frame_ok fd) (case_option id (#) out fs)"
    using i(7) s(2) same_output_lib [OF s(4)] by (auto simp: list_all_iff split: option.splits)
  have so: "same_output fd fd2" using s(4) i(3) by (simp add: same_output_def)
  have e: "decode_all tlm fd (x # xs) = Some (case_option id (#) p ps, case_option id (#) out fs, fd2)" using s(1) i(1) x by simp
  show ?case
  proof (cases "accepted (q, d)")
    case True
    have "map (\<lambda>i. fd_next_pts fd + of_nat i) [0..<Suc (length ps)] = fd_next_pts fd # map (\<lambda>i. fd_next_pts fd1 + of_nat i) [0..<length ps]"
      using s(5) True by (simp add: upt_conv_Cons map_Suc_upt [symmetric] comp_def ac_simps del: upt_Suc)
    then show ?thesis using e f so i s(5) True x by (simp del: upt_Suc)
  next
    case False
    then show ?thesis using e f so i s(5) x by simp
  qed
qed

text \<open>An opened decoder is well formed, provided the size of its picture is within 32 bits.\<close>

lemma ffmpeg_open_ok:
  assumes "ffmpeg_open q tlm forced fd VMC_VIDEO_CODEC_H264 = (VMC_OK, fd', ev)"
    and "\<And>n m. ol_malloc q n = Some m \<Longrightarrow> length m = n" "\<And>n m. ol_in q n = Some m \<Longrightarrow> length m = n"
    and "picture_bytes fd' + 64 < 2 ^ 32"
  shows "decoder_ok fd'"
proof -
  obtain fd1 cx where b: "open_buffers q fd1 cx = (VMC_OK, fd')"
    using assms(1) by (auto simp: ffmpeg_open_def open_codec_def Let_def status_defs split: option.splits sum.splits prod.splits if_splits)
  then obtain m ib where m: "fd_codec_ctx fd' \<noteq> None" "fd_opened fd'" "fd_rgb fd' = Some m" "fd_in_buf fd' = Some ib"
    "ol_malloc q (unat (ucast (fd_out_w fd') * ucast (fd_out_h fd') * 4 + of_nat DECODER_ALIGNMENT :: u32)) = Some m"
    "ol_in q (unat VMC_VIDEO_AU_MAX + AV_INPUT_BUFFER_PADDING_SIZE) = Some ib"
    by (auto simp: open_buffers_def Let_def status_defs split: prod.splits if_splits)
  have "unat (ucast (fd_out_w fd') * ucast (fd_out_h fd') * 4 + of_nat DECODER_ALIGNMENT :: u32) = picture_bytes fd' + 64"
  proof -
    have "of_nat (picture_bytes fd' + 64) = (ucast (fd_out_w fd') * ucast (fd_out_h fd') * 4 + of_nat DECODER_ALIGNMENT :: u32)"
      by (simp add: picture_bytes_def DECODER_ALIGNMENT_def)
    moreover have "unat (of_nat n :: u32) = n" if "n < 2 ^ 32" for n
      using that by (simp add: unsigned_of_nat take_bit_nat_eq_self)
    ultimately show ?thesis using assms(4) by metis
  qed
  then show ?thesis using m assms(2,3) by (auto simp: decoder_ok_def)
qed


definition demo_decoder :: vmc_ffmpeg_decoder where
  "demo_decoder = \<lparr>fd_codec_ctx = Some \<lparr>cx_name = ''h264_cuvid'', cx_hw_device = True, cx_sws = None\<rparr>,
     fd_in_buf = Some (replicate (unat VMC_VIDEO_AU_MAX + AV_INPUT_BUFFER_PADDING_SIZE) 0), fd_rgb = Some [0, 0, 0, 0],
     fd_next_pts = 7, fd_last_send_pts = 6, fd_last_frame_pts = 6, fd_cuda_conv = False, fd_cuda_ctx = False, fd_output_cuda = False,
     fd_rgb_cap = 4, fd_out_w = 1, fd_out_h = 1, fd_opened = True\<rparr>"

definition demo_lib :: "bool \<Rightarrow> bool \<Rightarrow> decode_lib" where
  "demo_lib pkt snd_ok = \<lparr>dl_packet = pkt, dl_send = snd_ok,
     dl_recv = Recv_Frame \<lparr>av_width = 2, av_height = 2, av_linesize = [2, 2], av_data = [[1, 2, 3, 4], [5, 6]], av_pts = 7, av_corrupt = False\<rparr>,
     dl_conv = (\<lambda>_ _ _. None), dl_sws = True, dl_scale = (\<lambda>_ _ w h. replicate (unat w * unat h * 4) 9)\<rparr>"

theorem decode_all_spec_witness:
  "\<exists>ps fs fd'. decode_all True demo_decoder [(demo_lib True True, [1, 2]), (demo_lib False True, [3]), (demo_lib True False, [4]), (demo_lib True True, [])]
     = Some (ps, fs, fd') \<and> map pk_data ps = [[1, 2], [4]] \<and> map pk_pts ps = [7, 8]"
proof -
  let ?xs = "[(demo_lib True True, [1, 2]), (demo_lib False True, [3]), (demo_lib True False, [4]), (demo_lib True True, [])] :: (decode_lib \<times> bytes) list"
  have d: "decoder_ok demo_decoder" by (simp add: decoder_ok_def demo_decoder_def picture_bytes_def)
  have l: "\<forall>x \<in> set ?xs. lib_ok demo_decoder (fst x)"
    by (simp add: lib_ok_def demo_lib_def demo_decoder_def picture_bytes_def)
  have a: "map snd (filter accepted ?xs) = [[1, 2], [4]]" by (simp add: accepted_def demo_lib_def VMC_VIDEO_AU_MAX_def)
  obtain ps fs fd' where r: "decode_all True demo_decoder ?xs = Some (ps, fs, fd')" "map pk_data ps = [[1, 2], [4]]"
    "map pk_pts ps = map (\<lambda>i. fd_next_pts demo_decoder + of_nat i) [0..<length ps]"
    using decode_all_spec [OF d l, of True] a by auto
  have "length ps = 2" using arg_cong [OF r(2), of length] by simp
  then have "map pk_pts ps = [7, 8]" using r(3) by (simp add: demo_decoder_def upt_rec)
  then show ?thesis using r(1,2) by (intro exI [of _ ps] exI [of _ fs] exI [of _ fd']) simp
qed

text \<open>
  When the hardware codec does not open, the decoder falls back to software but stays configured
  for GPU output: its frames are marked as device memory although their planes are in host memory.
\<close>

lemma software_fallback_marks_device:
  assumes "fd_output_cuda fd" "ol_find q ''h264_cuvid''" "ol_hwdevice q" "\<not> ol_open q ''h264_cuvid''" "ol_find q software" "ol_open q software"
    and "ol_context q = (\<lambda>_. True)" "ffmpeg_open q tlm None fd VMC_VIDEO_CODEC_H264 = (VMC_OK, fd', ev)"
  shows "\<exists>cx. fd_codec_ctx fd' = Some cx \<and> cx_name cx = software \<and> \<not> cx_hw_device cx \<and>
    convert_frame l fd' cx f = Some (VMC_OK, Some (device_frame f), fd') \<and> vf_device_mem (device_frame f)"
proof -
  have c: "choose_codec q None = Some ''h264_cuvid''" using assms(2) by (simp add: choose_codec_def k_hw_decoders_def)
  have o: "open_codec q tlm True ''h264_cuvid'' = (Inr (software, False), True, if tlm then [Decoder_Reinit ''h264_cuvid''] else [])"
    using assms(3-7) by (simp add: open_codec_def software_def)
  have "open_buffers q (fd\<lparr>fd_cuda_ctx := True\<rparr>) (software, False) = (VMC_OK, fd')"
    using assms(8) by (simp add: ffmpeg_open_def c assms(1) o split: prod.splits)
  then show ?thesis using assms(1) by (auto simp: open_buffers_def Let_def status_defs convert_frame_def device_frame_def split: prod.splits if_splits)
qed

text \<open>A forced codec whose name does not begin with \<open>h\<close> gets no second chance in software.\<close>

lemma forced_codec_no_fallback:
  assumes "n \<noteq> []" "hd n \<noteq> CHR ''h''" "ol_find q n" "\<not> ol_open q n"
  shows "fst (ffmpeg_open q tlm (Some n) fd VMC_VIDEO_CODEC_H264) \<noteq> VMC_OK"
proof -
  have "choose_codec q (Some n) = Some n" using assms by (simp add: choose_codec_def)
  then show ?thesis using assms by (auto simp: ffmpeg_open_def open_codec_def status_defs Let_def split: prod.splits)
qed

text \<open>The scaler is made for the size of the first picture and kept when the size changes.\<close>

lemma scaler_keeps_first_size:
  assumes "\<not> fd_output_cuda fd" "\<not> fd_cuda_conv fd" "cx_sws cx = Some g" "fd_rgb fd = Some m" "length (dl_scale q g f (fd_out_w fd) (fd_out_h fd)) \<le> length m"
  shows "convert_frame q fd cx f = write_rgb fd (dl_scale q g f (fd_out_w fd) (fd_out_h fd)) \<and>
    (\<exists>out. write_rgb fd (dl_scale q g f (fd_out_w fd) (fd_out_h fd)) = Some (VMC_OK, Some out, fd\<lparr>fd_rgb := Some (hd (vf_planes out))\<rparr>))"
  using assms by (simp add: convert_frame_def write_rgb_def host_frame_def Let_def)

end
