(* ===== verification/Nv12_Convert.thy ===== *)
theory Nv12_Convert
  imports Complex_Main Vmc_Prelude "HOL-Library.Multiset" "HOL-Library.Monad_Syntax"
begin

text \<open>
  The colour converter, \<^verbatim>\<open>tools/cuda/nv12_conv.cu\<close>: the kernel that scales an NV12 image and converts
  it to BGRA, the entry points that stage their buffers, and the conversion stream of the client.
  Threads of a launch run in an order that is a parameter. The result \<open>None\<close> of an operation stands
  for undefined behaviour: an access outside a buffer, through a freed pointer, a signed overflow
  or a division by zero.
\<close>

section \<open>Arithmetic of the kernel\<close>

definition int_ok :: "int \<Rightarrow> int option" where
  "int_ok v = (if - (2 ^ 31) \<le> v \<and> v < 2 ^ 31 then Some v else None)"

definition load :: "bytes \<Rightarrow> int \<Rightarrow> int option" where
  "load m i = (if 0 \<le> i \<and> nat i < length m then Some (uint (m ! nat i)) else None)"

text \<open>
  The three channels, sums of products in single precision. How such a sum is rounded is the
  compiler's choice: once per operation, or with multiplications contracted into the addition that
  follows, which \<^verbatim>\<open>nvcc\<close> does unless told otherwise and which changes some bytes. So the rounding of a
  literal and the value of a sum of products are parameters, and \<open>separate\<close> and \<open>fused\<close> are two
  instances, built from the rounding \<open>fl\<close> of one operation. A subtraction is the sum with the negated
  factor. The conversion to \<open>int\<close> truncates towards zero.
\<close>

record fp_arith =
  fp_lit :: "rat \<Rightarrow> rat"
  fp_sum :: "(rat \<times> rat) list \<Rightarrow> rat"

definition separate :: "(rat \<Rightarrow> rat) \<Rightarrow> fp_arith" where
  "separate fl = \<lparr>fp_lit = fl,
     fp_sum = \<lambda>ps. case ps of [] \<Rightarrow> 0 | (a, x) # qs \<Rightarrow> foldl (\<lambda>acc (b, z). fl (acc + fl (b * z))) (fl (a * x)) qs\<rparr>"

definition fused :: "(rat \<Rightarrow> rat) \<Rightarrow> fp_arith" where
  "fused fl = \<lparr>fp_lit = fl,
     fp_sum = \<lambda>ps. case ps of [] \<Rightarrow> 0 | (a, x) # qs \<Rightarrow> foldl (\<lambda>acc (b, z). fl (acc + b * z)) (fl (a * x)) qs\<rparr>"

definition trunc :: "rat \<Rightarrow> int" where
  "trunc q = (if q < 0 then \<lceil>q\<rceil> else \<lfloor>q\<rfloor>)"

definition chan_r :: "fp_arith \<Rightarrow> int \<Rightarrow> int \<Rightarrow> int \<Rightarrow> int" where
  "chan_r fl Y U V = trunc (fp_sum fl [(fp_lit fl 1.164, of_int (Y - 16)), (fp_lit fl 1.596, of_int (V - 128))])"

definition chan_g :: "fp_arith \<Rightarrow> int \<Rightarrow> int \<Rightarrow> int \<Rightarrow> int" where
  "chan_g fl Y U V = trunc (fp_sum fl [(fp_lit fl 1.164, of_int (Y - 16)), (- fp_lit fl 0.813, of_int (V - 128)),
     (- fp_lit fl 0.392, of_int (U - 128))])"

definition chan_b :: "fp_arith \<Rightarrow> int \<Rightarrow> int \<Rightarrow> int \<Rightarrow> int" where
  "chan_b fl Y U V = trunc (fp_sum fl [(fp_lit fl 1.164, of_int (Y - 16)), (fp_lit fl 2.017, of_int (U - 128))])"

definition clamp :: "int \<Rightarrow> u8" where
  "clamp c = of_int (if c < 0 then 0 else if c > 255 then 255 else c)"

definition bgra :: "fp_arith \<Rightarrow> int \<Rightarrow> int \<Rightarrow> int \<Rightarrow> bytes" where
  "bgra fl Y U V = [clamp (chan_b fl Y U V), clamp (chan_g fl Y U V), clamp (chan_r fl Y U V), 0]"

section \<open>The kernel\<close>

record image =
  im_w :: int
  im_h :: int
  im_y_stride :: int
  im_uv_stride :: int

text \<open>
  One thread, at output column \<open>ox\<close> and row \<open>oy\<close>: nothing outside the output, otherwise the pixel of
  the nearest source coordinate.
\<close>

definition kernel_source :: "image \<Rightarrow> bytes \<Rightarrow> bytes \<Rightarrow> int \<Rightarrow> int \<Rightarrow> int \<Rightarrow> int \<Rightarrow> (int \<times> int \<times> int) option" where
  "kernel_source im y uv ow oh ox oy =
     do { a \<leftarrow> int_ok (ox * im_w im);
          b \<leftarrow> int_ok (oy * im_h im);
          let sx = c_div a ow;
          let sy = c_div b oh;
          let sx2 = c_div sx 2;
          let sy2 = c_div sy 2;
          ry \<leftarrow> int_ok (sy * im_y_stride im);
          iy \<leftarrow> int_ok (ry + sx);
          Y \<leftarrow> load y iy;
          ru \<leftarrow> int_ok (sy2 * im_uv_stride im);
          iu \<leftarrow> int_ok (ru + sx2 * 2);
          U \<leftarrow> load uv iu;
          iv \<leftarrow> int_ok (iu + 1);
          V \<leftarrow> load uv iv;
          Some (Y, U, V) }"

definition kernel_thread ::
  "fp_arith \<Rightarrow> image \<Rightarrow> bytes \<Rightarrow> bytes \<Rightarrow> int \<Rightarrow> int \<Rightarrow> int \<Rightarrow> bytes \<Rightarrow> nat \<times> nat \<Rightarrow> bytes option" where
  "kernel_thread fl im y uv ow oh os out t =
     (case t of
        (ox, oy) \<Rightarrow>
          if int ox \<ge> ow \<or> int oy \<ge> oh then Some out
          else do { (Y, U, V) \<leftarrow> kernel_source im y uv ow oh (int ox) (int oy);
                    let p = (oy * nat os + ox) * 4;
                    if p + 4 \<le> length out then Some (mem_write out p (bgra fl Y U V)) else None })"

text \<open>
  The grid: 16 by 16 threads per block, enough blocks to cover the output. A size that is not
  positive gives an empty or a refused launch, in which no thread runs.
\<close>

definition grid_dim :: "int \<Rightarrow> nat" where
  "grid_dim n = nat ((n + 15) div 16)"

definition grid_threads :: "int \<Rightarrow> int \<Rightarrow> (nat \<times> nat) list" where
  "grid_threads ow oh =
     map (\<lambda>((bx, by), (tx, ty)). (bx * 16 + tx, by * 16 + ty))
       (List.product (List.product [0..<grid_dim ow] [0..<grid_dim oh]) (List.product [0..<16] [0..<16]))"

fun run_threads :: "(bytes \<Rightarrow> nat \<times> nat \<Rightarrow> bytes option) \<Rightarrow> bytes \<Rightarrow> (nat \<times> nat) list \<Rightarrow> bytes option" where
  "run_threads f out [] = Some out"
| "run_threads f out (t # ts) = do { out' \<leftarrow> f out t; run_threads f out' ts }"

definition nv12_to_bgra_kernel ::
  "fp_arith \<Rightarrow> ((nat \<times> nat) list \<Rightarrow> (nat \<times> nat) list) \<Rightarrow> image \<Rightarrow> bytes \<Rightarrow> bytes \<Rightarrow> int \<Rightarrow> int \<Rightarrow> int
     \<Rightarrow> bytes \<Rightarrow> bytes option" where
  "nv12_to_bgra_kernel fl sched im y uv ow oh os out =
     run_threads (kernel_thread fl im y uv ow oh os) out (sched (grid_threads ow oh))"

section \<open>Cached buffers\<close>

text \<open>
  A buffer kept between calls: its pointer and the capacity last reached. When a larger one is
  needed the old one is freed first; if the allocation then fails, the pointer is left dangling and
  the old capacity stays recorded.
\<close>

datatype dev_ptr = Null | Live bytes | Dangling

record dev_buf =
  db_ptr :: dev_ptr
  db_cap :: sz_t

definition no_buf :: dev_buf where
  "no_buf = \<lparr>db_ptr = Null, db_cap = 0\<rparr>"

definition grow_buf :: "(sz_t \<Rightarrow> bytes option) \<Rightarrow> dev_buf \<Rightarrow> sz_t \<Rightarrow> (bool \<times> dev_buf) option" where
  "grow_buf malloc b need =
     (if db_cap b < need
      then (if db_ptr b = Dangling then None
            else (case malloc need of
                    None \<Rightarrow> Some (False, b\<lparr>db_ptr := if db_ptr b = Null then Null else Dangling\<rparr>)
                  | Some m \<Rightarrow> Some (True, \<lparr>db_ptr = Live m, db_cap = need\<rparr>)))
      else Some (True, b))"

text \<open>
  The memory that may be accessed through the pointer, none when it is null or dangling; a copy into
  it; and its replacement.
\<close>

definition contents :: "dev_buf \<Rightarrow> bytes" where
  "contents b = (case db_ptr b of Live m \<Rightarrow> m | _ \<Rightarrow> [])"

definition set_contents :: "dev_buf \<Rightarrow> bytes \<Rightarrow> dev_buf" where
  "set_contents b m = (case db_ptr b of Live _ \<Rightarrow> b\<lparr>db_ptr := Live m\<rparr> | _ \<Rightarrow> b)"

text \<open>Copies of \<open>n\<close> bytes between memories.\<close>

definition copy_mem :: "bytes \<Rightarrow> bytes \<Rightarrow> sz_t \<Rightarrow> bytes option" where
  "copy_mem src dst n = (if unat n \<le> length src \<and> unat n \<le> length dst then Some (mem_write dst 0 (take (unat n) src)) else None)"

section \<open>Entry points\<close>

text \<open>
  The answers of the device to the copies and the launch of one conversion. The code ignores them; a
  request that is refused has no effect.
\<close>

record dev_answers =
  da_copy_y :: bool
  da_copy_uv :: bool
  da_launch :: bool
  da_copy_out :: bool

definition device_worked :: "dev_answers \<Rightarrow> bool" where
  "device_worked q \<longleftrightarrow> da_copy_y q \<and> da_copy_uv q \<and> da_launch q \<and> da_copy_out q"

definition dev_copy :: "bool \<Rightarrow> bytes \<Rightarrow> bytes \<Rightarrow> sz_t \<Rightarrow> bytes option" where
  "dev_copy ok src dst n = (if ok then copy_mem src dst n else Some dst)"

definition dev_launch ::
  "bool \<Rightarrow> fp_arith \<Rightarrow> ((nat \<times> nat) list \<Rightarrow> (nat \<times> nat) list) \<Rightarrow> image \<Rightarrow> bytes \<Rightarrow> bytes \<Rightarrow> int \<Rightarrow> int \<Rightarrow> bytes \<Rightarrow> bytes option" where
  "dev_launch ok fl sched im y uv ow oh out =
     (if ok then nv12_to_bgra_kernel fl sched im y uv ow oh ow out else Some out)"

record converter =
  cv_inited :: bool
  cv_y :: dev_buf
  cv_uv :: dev_buf
  cv_out :: dev_buf

text \<open>
  Conversion of an image in host memory. \<open>set_dev\<close> tells whether the device can be selected. The
  value is the return code, the caller's output and the converter.
\<close>

definition nv12_to_bgra ::
  "fp_arith \<Rightarrow> ((nat \<times> nat) list \<Rightarrow> (nat \<times> nat) list) \<Rightarrow> bool \<Rightarrow> dev_answers \<Rightarrow> (sz_t \<Rightarrow> bytes option)
     \<Rightarrow> converter \<Rightarrow> bytes \<Rightarrow> bytes \<Rightarrow> image \<Rightarrow> bytes \<Rightarrow> int \<Rightarrow> int \<Rightarrow> (int \<times> bytes \<times> converter) option" where
  "nv12_to_bgra fl sched set_dev q malloc c y uv im out ow oh =
     (if \<not> cv_inited c \<and> \<not> set_dev then Some (- 1, out, c)
      else let c0 = c\<lparr>cv_inited := True\<rparr>;
               y_bytes = of_int (im_y_stride im) * of_int (im_h im);
               uv_bytes = of_int (im_uv_stride im) * of_int (c_div (im_h im) 2);
               out_bytes = of_int ow * of_int oh * 4
           in do { (ok1, by) \<leftarrow> grow_buf malloc (cv_y c0) y_bytes;
                   let c1 = c0\<lparr>cv_y := by\<rparr>;
                   if \<not> ok1 then Some (- 1, out, c1)
                   else do { (ok2, bu) \<leftarrow> grow_buf malloc (cv_uv c1) uv_bytes;
                             let c2 = c1\<lparr>cv_uv := bu\<rparr>;
                             if \<not> ok2 then Some (- 1, out, c2)
                             else do { (ok3, bo) \<leftarrow> grow_buf malloc (cv_out c2) out_bytes;
                                       let c3 = c2\<lparr>cv_out := bo\<rparr>;
                                       if \<not> ok3 then Some (- 1, out, c3)
                                       else do { my \<leftarrow> dev_copy (da_copy_y q) y (contents by) y_bytes;
                                                 mu \<leftarrow> dev_copy (da_copy_uv q) uv (contents bu) uv_bytes;
                                                 mo \<leftarrow> dev_launch (da_launch q) fl sched im my mu ow oh (contents bo);
                                                 out' \<leftarrow> dev_copy (da_copy_out q) mo out out_bytes;
                                                 Some (0, out', c3\<lparr>cv_y := set_contents by my, cv_uv := set_contents bu mu,
                                                   cv_out := set_contents bo mo\<rparr>) }}}})"


section \<open>The conversion stream\<close>

text \<open>
  The client converts images that are already on the device: a job waits in the stream, reads the
  planes at their device addresses when it runs, and leaves the result in one of three staging
  buffers. Every job goes through one shared device buffer; a job of which the launch or the copy was
  refused leaves that part out. An event is the number of jobs that
  are finished when it fires. \<open>mem\<close> is the device memory the decoder owns.
\<close>

definition N_STAGE :: nat where "N_STAGE = 3"

record conv_job =
  cj_im :: image
  cj_y :: nat
  cj_uv :: nat
  cj_stage :: nat
  cj_ow :: int
  cj_oh :: int
  cj_launched :: bool
  cj_copied :: bool

record conv_state =
  cs_inited :: bool
  cs_stage :: "dev_buf list"
  cs_dbg :: dev_buf
  cs_jobs :: "conv_job list"
  cs_done :: nat

definition out_bytes :: "int \<Rightarrow> int \<Rightarrow> sz_t" where
  "out_bytes ow oh = of_int ow * of_int oh * 4"

definition run_job ::
  "fp_arith \<Rightarrow> ((nat \<times> nat) list \<Rightarrow> (nat \<times> nat) list) \<Rightarrow> (nat \<Rightarrow> bytes) \<Rightarrow> conv_job \<Rightarrow> conv_state \<Rightarrow> conv_state option" where
  "run_job fl sched mem j s =
     do { out \<leftarrow> dev_launch (cj_launched j) fl sched (cj_im j) (mem (cj_y j)) (mem (cj_uv j)) (cj_ow j) (cj_oh j) (contents (cs_dbg s));
          st \<leftarrow> dev_copy (cj_copied j) out (contents (cs_stage s ! cj_stage j)) (out_bytes (cj_ow j) (cj_oh j));
          Some (s\<lparr>cs_dbg := set_contents (cs_dbg s) out,
                  cs_stage := (cs_stage s)[cj_stage j := set_contents (cs_stage s ! cj_stage j) st]\<rparr>) }"

fun stream_run ::
  "fp_arith \<Rightarrow> ((nat \<times> nat) list \<Rightarrow> (nat \<times> nat) list) \<Rightarrow> (nat \<Rightarrow> bytes) \<Rightarrow> nat \<Rightarrow> conv_state \<Rightarrow> conv_state option" where
  "stream_run fl sched mem 0 s = Some s"
| "stream_run fl sched mem (Suc n) s =
     (case cs_jobs s of
        [] \<Rightarrow> Some s
      | j # js \<Rightarrow> do { s' \<leftarrow> run_job fl sched mem j (s\<lparr>cs_jobs := js, cs_done := cs_done s + 1\<rparr>);
                        stream_run fl sched mem n s' })"

text \<open>
  A buffer that has to grow is freed first; freeing one while jobs that use it are pending is not
  allowed.
\<close>

definition grow_stream_buf :: "(sz_t \<Rightarrow> bytes option) \<Rightarrow> bool \<Rightarrow> dev_buf \<Rightarrow> sz_t \<Rightarrow> (bool \<times> dev_buf) option" where
  "grow_stream_buf malloc busy b need =
     (if db_cap b < need \<and> db_ptr b \<noteq> Null \<and> busy then None else grow_buf malloc b need)"

text \<open>
  The answers of the library: whether the device can be selected, the stream created, the kernel
  launched, the copy queued, an event created and recorded. Those of launch and copy are ignored. When the event fails the call fails, but the job is in the stream.
\<close>

record conv_answers =
  ca_set_device :: bool
  ca_stream :: bool
  ca_launch :: bool
  ca_copy :: bool
  ca_event :: bool
  ca_record :: bool

definition conv_async ::
  "conv_answers \<Rightarrow> (sz_t \<Rightarrow> bytes option) \<Rightarrow> (sz_t \<Rightarrow> bytes option) \<Rightarrow> conv_state \<Rightarrow> nat \<Rightarrow> nat \<Rightarrow> image \<Rightarrow> int \<Rightarrow> int \<Rightarrow> int \<Rightarrow> bool
     \<Rightarrow> (int \<times> nat option \<times> conv_state) option" where
  "conv_async q malloc host_alloc s y uv im stage_idx ow oh want_event =
     (if \<not> cs_inited s \<and> \<not> (ca_set_device q \<and> ca_stream q) then Some (- 1, None, s)
      else let s0 = s\<lparr>cs_inited := True\<rparr>
           in if stage_idx < 0 \<or> stage_idx \<ge> int N_STAGE then Some (- 1, None, s0)
              else let i = nat stage_idx; busy = (cs_jobs s0 \<noteq> [])
                   in do { (ok1, st) \<leftarrow> grow_stream_buf host_alloc busy (cs_stage s0 ! i) (out_bytes ow oh);
                           let s1 = s0\<lparr>cs_stage := (cs_stage s0)[i := st]\<rparr>;
                           if \<not> ok1 then Some (- 1, None, s1)
                           else do { (ok2, d) \<leftarrow> grow_stream_buf malloc busy (cs_dbg s1) (out_bytes ow oh);
                                     let s2 = s1\<lparr>cs_dbg := d\<rparr>;
                                     if \<not> ok2 then Some (- 1, None, s2)
                                     else let s3 = s2\<lparr>cs_jobs := cs_jobs s2 @
                                              [\<lparr>cj_im = im, cj_y = y, cj_uv = uv, cj_stage = i, cj_ow = ow, cj_oh = oh,
                                               cj_launched = ca_launch q, cj_copied = ca_copy q\<rparr>]\<rparr>
                                          in if \<not> want_event then Some (0, None, s3)
                                             else if \<not> ca_event q \<or> \<not> ca_record q then Some (- 1, None, s3)
                                             else Some (0, Some (cs_done s3 + length (cs_jobs s3)), s3) }})"

text \<open>
  Waiting returns the answer \<open>rc\<close> of the library. If it is success the jobs up to the event have run, if
  not the device has come as far as it has; in both cases it may have finished \<open>extra\<close> more jobs when the
  waiting thread goes on.
\<close>

definition conv_wait_event ::
  "fp_arith \<Rightarrow> ((nat \<times> nat) list \<Rightarrow> (nat \<times> nat) list) \<Rightarrow> (nat \<Rightarrow> bytes) \<Rightarrow> int \<Rightarrow> nat \<Rightarrow> nat \<Rightarrow> conv_state \<Rightarrow> (int \<times> conv_state) option" where
  "conv_wait_event fl sched mem rc extra e s =
     map_option (Pair rc) (stream_run fl sched mem ((if rc = 0 then e - cs_done s else 0) + extra) s)"

definition conv_sync ::
  "fp_arith \<Rightarrow> ((nat \<times> nat) list \<Rightarrow> (nat \<times> nat) list) \<Rightarrow> (nat \<Rightarrow> bytes) \<Rightarrow> int \<Rightarrow> nat \<Rightarrow> conv_state \<Rightarrow> (int \<times> conv_state) option" where
  "conv_sync fl sched mem rc extra s =
     map_option (Pair rc) (stream_run fl sched mem (if rc = 0 then length (cs_jobs s) else extra) s)"

definition conv_stage_ptr :: "conv_state \<Rightarrow> int \<Rightarrow> dev_ptr" where
  "conv_stage_ptr s stage_idx = (if stage_idx < 0 \<or> stage_idx \<ge> int N_STAGE then Null else db_ptr (cs_stage s ! nat stage_idx))"

text \<open>
  Conversion of a device image straight to host memory, through the same device buffer. It runs on
  the default stream, which waits for the jobs of the conversion stream.
\<close>

definition nv12_to_bgra_device_out ::
  "fp_arith \<Rightarrow> ((nat \<times> nat) list \<Rightarrow> (nat \<times> nat) list) \<Rightarrow> (nat \<Rightarrow> bytes) \<Rightarrow> bool \<Rightarrow> bool \<Rightarrow> bool \<Rightarrow> bool
     \<Rightarrow> (sz_t \<Rightarrow> bytes option) \<Rightarrow> conv_state \<Rightarrow> nat \<Rightarrow> nat \<Rightarrow> image \<Rightarrow> bytes \<Rightarrow> int \<Rightarrow> int \<Rightarrow> (int \<times> bytes \<times> conv_state) option" where
  "nv12_to_bgra_device_out fl sched mem inited set_dev launch copy malloc s y uv im host ow oh =
     (if \<not> inited \<and> \<not> set_dev then Some (- 1, host, s)
      else do { (ok, d) \<leftarrow> grow_stream_buf malloc (cs_jobs s \<noteq> []) (cs_dbg s) (out_bytes ow oh);
                let s1 = s\<lparr>cs_dbg := d\<rparr>;
                if \<not> ok then Some (- 1, host, s1)
                else do { s2 \<leftarrow> stream_run fl sched mem (length (cs_jobs s1)) s1;
                          out \<leftarrow> dev_launch launch fl sched im (mem y) (mem uv) ow oh (contents (cs_dbg s2));
                          host' \<leftarrow> dev_copy copy out host (out_bytes ow oh);
                          Some (0, host', s2\<lparr>cs_dbg := set_contents (cs_dbg s2) out\<rparr>) }})"

text \<open>
  Imported buffers: at most eight; \<open>import_fd\<close> and \<open>mapped\<close> are the answers of the library for a
  descriptor and a size. The value is the return code, the device pointer and the number of
  imports.
\<close>

definition MAX_IMPORTS :: nat where "MAX_IMPORTS = 8"

definition cuda_import_fd :: "(int \<Rightarrow> sz_t \<Rightarrow> bool) \<Rightarrow> (int \<Rightarrow> sz_t \<Rightarrow> nat option) \<Rightarrow> nat \<Rightarrow> int \<Rightarrow> sz_t \<Rightarrow> int \<times> nat option \<times> nat" where
  "cuda_import_fd import_fd mapped g_next fd n =
     (if g_next \<ge> MAX_IMPORTS then (- 1, None, g_next)
      else if \<not> import_fd fd n then (- 1, None, g_next)
      else case mapped fd n of None \<Rightarrow> (- 1, None, g_next) | Some p \<Rightarrow> (0, Some p, g_next + 1))"

definition cuda_init :: "bool \<Rightarrow> int" where
  "cuda_init set_dev = (if \<not> set_dev then - 1 else 0)"

section \<open>The grid covers the output\<close>

lemma set_grid_threads: "set (grid_threads ow oh) = {(x, y). x < grid_dim ow * 16 \<and> y < grid_dim oh * 16}"
proof -
  have d: "\<exists>b t. b < n \<and> t < 16 \<and> x = b * 16 + t" if "x < n * 16" for x n :: nat
    using that by (intro exI [of _ "x div 16"] exI [of _ "x mod 16"]) (simp add: less_mult_imp_div_less)
  show ?thesis
  proof (intro set_eqI iffI)
    fix p assume "p \<in> set (grid_threads ow oh)"
    then show "p \<in> {(x, y). x < grid_dim ow * 16 \<and> y < grid_dim oh * 16}"
      by (auto simp: grid_threads_def)
  next
    fix p assume "p \<in> {(x, y). x < grid_dim ow * 16 \<and> y < grid_dim oh * 16}"
    then obtain x y where p: "p = (x, y)" "x < grid_dim ow * 16" "y < grid_dim oh * 16" by auto
    obtain bx tx where x: "bx < grid_dim ow" "tx < 16" "x = bx * 16 + tx" using d [OF p(2)] by blast
    obtain bY ty where y: "bY < grid_dim oh" "ty < 16" "y = bY * 16 + ty" using d [OF p(3)] by blast
    have "((bx, bY), (tx, ty)) \<in> set (List.product (List.product [0..<grid_dim ow] [0..<grid_dim oh]) (List.product [0..<16] [0..<16]))"
      using x y by simp
    then have "(\<lambda>((bx, by), (tx, ty)). (bx * 16 + tx, by * 16 + ty)) ((bx, bY), (tx, ty)) \<in> set (grid_threads ow oh)"
      unfolding grid_threads_def set_map by (rule imageI)
    then show "p \<in> set (grid_threads ow oh)" using p x y by simp
  qed
qed

lemma distinct_grid_threads: "distinct (grid_threads ow oh)"
proof -
  have q: "(b * 16 + t) div 16 = b" if "t < 16" for b t :: nat using that by simp
  have i: "b = b' \<and> t = t'" if e: "b * 16 + t = b' * 16 + t'" and "t < 16" "t' < 16" for b t b' t' :: nat
  proof -
    have "b = b'" using q [OF that(2), of b] q [OF that(3), of b'] e by simp
    then show ?thesis using e by simp
  qed
  let ?f = "\<lambda>((bx, by), (tx, ty)). (bx * 16 + tx, by * 16 + (ty :: nat))"
  have "inj_on ?f (set (List.product (List.product [0..<grid_dim ow] [0..<grid_dim oh]) (List.product [0..<16] [0..<16])))"
  proof (rule inj_onI)
    fix p q :: "(nat \<times> nat) \<times> (nat \<times> nat)"
    obtain bx bY tx ty bx' bY' tx' ty' where pq: "p = ((bx, bY), (tx, ty))" "q = ((bx', bY'), (tx', ty'))"
      by (metis surj_pair)
    assume "p \<in> set (List.product (List.product [0..<grid_dim ow] [0..<grid_dim oh]) (List.product [0..<16] [0..<16]))"
      "q \<in> set (List.product (List.product [0..<grid_dim ow] [0..<grid_dim oh]) (List.product [0..<16] [0..<16]))" "?f p = ?f q"
    then show "p = q" using pq i [of bx tx bx' tx'] i [of bY ty bY' ty'] by simp
  qed
  then show ?thesis unfolding grid_threads_def by (simp add: distinct_map distinct_product)
qed

lemma grid_dim_covers: "0 < n \<Longrightarrow> nat n \<le> grid_dim n * 16"
  by (simp add: grid_dim_def)

section \<open>Threads write disjoint pixels\<close>

definition pixel :: "nat \<Rightarrow> bytes \<Rightarrow> nat \<Rightarrow> nat \<Rightarrow> bytes" where
  "pixel W out x y = mem_read out ((y * W + x) * 4) 4"

lemma pixel_index:
  assumes "x < W" "x' < W" "y * W + x = y' * W + (x' :: nat)"
  shows "x = x' \<and> y = y'"
proof -
  have "y = y'" using assms by (metis add.commute div_less div_mult_self3 add_0 gr_zeroI not_less_zero)
  then show ?thesis using assms(3) by simp
qed

lemma pixel_bound:
  assumes "x < W" "y < H" shows "(y * W + x) * 4 + 4 \<le> W * H * (4 :: nat)"
proof -
  have "y * W + x + 1 \<le> (y + 1) * W" using assms(1) by simp
  also have "\<dots> \<le> H * W" using assms(2) by (intro mult_le_mono1) simp
  finally show ?thesis by (simp add: mult.commute)
qed

lemma pixel_mem_write:
  assumes "x < W" "y < H" "x' < W" "y' < H" "length out \<ge> W * H * 4" "length v = 4"
  shows "pixel W (mem_write out ((y * W + x) * 4) v) x' y' = (if (x', y') = (x, y) then v else pixel W out x' y')"
proof -
  note b = pixel_bound [OF assms(1,2)] pixel_bound [OF assms(3,4)]
  show ?thesis
  proof (cases "(x', y') = (x, y)")
    case True
    then show ?thesis using b(1) assms(5,6) mem_read_write_same [of "(y * W + x) * 4" v out] by (simp add: pixel_def)
  next
    case False
    then have "y' * W + x' \<noteq> y * W + x" using pixel_index [OF assms(3,1)] by blast
    then have "(mem_write out ((y * W + x) * 4) v) ! ((y' * W + x') * 4 + i) = out ! ((y' * W + x') * 4 + i)" if "i < 4" for i
      using that b assms(5,6) by (subst nth_mem_write) auto
    then show ?thesis using False b assms(5,6)
      by (auto simp: pixel_def intro!: nth_equalityI)
  qed
qed


lemma run_threads_pixels:
  assumes "distinct ts" and "length out \<ge> W * H * 4"
    and "\<And>out x y. (x, y) \<in> set ts \<Longrightarrow> length out \<ge> W * H * 4 \<Longrightarrow>
      f out (x, y) = (if x < W \<and> y < H then Some (mem_write out ((y * W + x) * 4) (px x y)) else Some out)"
    and "\<And>x y. length (px x y) = 4"
  shows "\<exists>out'. run_threads f out ts = Some out' \<and> length out' = length out \<and>
    (\<forall>x < W. \<forall>y < H. pixel W out' x y = (if (x, y) \<in> set ts then px x y else pixel W out x y))"
  using assms(1,2,3)
proof (induction ts arbitrary: out)
  case Nil
  then show ?case by simp
next
  case (Cons t ts)
  obtain x0 y0 where t: "t = (x0, y0)" by (cases t)
  define out1 where "out1 = (if x0 < W \<and> y0 < H then mem_write out ((y0 * W + x0) * 4) (px x0 y0) else out)"
  have f: "f out t = Some out1" using Cons.prems(3) [of x0 y0 out] Cons.prems(2) t by (simp add: out1_def)
  have l: "length out1 = length out"
    using pixel_bound [of x0 W y0 H] Cons.prems(2) assms(4) by (auto simp: out1_def intro!: length_mem_write)
  have p: "pixel W out1 x y = (if (x, y) = t then px x y else pixel W out x y)" if "x < W" "y < H" for x y
    using that t Cons.prems(2) assms(4) pixel_mem_write [of x0 W y0 H x y out "px x0 y0"] by (auto simp: out1_def)
  obtain out' where o: "run_threads f out1 ts = Some out'" "length out' = length out1"
    "\<forall>x < W. \<forall>y < H. pixel W out' x y = (if (x, y) \<in> set ts then px x y else pixel W out1 x y)"
    using Cons.IH [of out1] Cons.prems l by auto
  show ?case using o f l p Cons.prems(1) by (intro exI [of _ out']) auto
qed

section \<open>Source coordinates stay inside the planes\<close>

definition planes_ok :: "image \<Rightarrow> bytes \<Rightarrow> bytes \<Rightarrow> bool" where
  "planes_ok im y uv \<longleftrightarrow>
     0 < im_w im \<and> im_w im \<le> 32767 \<and> 0 < im_h im \<and> im_h im \<le> 32767 \<and> even (im_h im) \<and>
     im_w im \<le> im_y_stride im \<and> im_y_stride im \<le> 65535 \<and> im_w im + im_w im mod 2 \<le> im_uv_stride im \<and> im_uv_stride im \<le> 65535 \<and>
     im_y_stride im * im_h im \<le> int (length y) \<and> im_uv_stride im * (im_h im div 2) \<le> int (length uv)"

definition source_pixel :: "image \<Rightarrow> bytes \<Rightarrow> bytes \<Rightarrow> int \<Rightarrow> int \<Rightarrow> int \<Rightarrow> int \<Rightarrow> int \<times> int \<times> int" where
  "source_pixel im y uv ow oh ox oy =
     (let sx = ox * im_w im div ow; sy = oy * im_h im div oh
      in (uint (y ! nat (sy * im_y_stride im + sx)),
          uint (uv ! nat (sy div 2 * im_uv_stride im + sx div 2 * 2)),
          uint (uv ! nat (sy div 2 * im_uv_stride im + sx div 2 * 2 + 1))))"

lemma scaled_bounds:
  assumes "0 \<le> x" "x < n" "0 < (k :: int)" shows "0 \<le> x * k div n" "x * k div n < k"
proof -
  show "0 \<le> x * k div n" using assms by (simp add: pos_imp_zdiv_nonneg_iff)
  have "n * (x * k div n) \<le> x * k" using assms by (simp add: minus_mod_eq_mult_div [symmetric])
  also have "\<dots> < n * k" using assms by (intro mult_strict_right_mono) auto
  finally show "x * k div n < k" using assms by (simp add: mult_less_cancel_left)
qed

lemma row_bounds:
  assumes "0 \<le> r" "r < n" "0 \<le> c" "c < s" "n \<le> 32767" "s \<le> (65535 :: int)"
  shows "0 \<le> r * s" "r * s + c < s * n" "r * s + c < 2 ^ 31"
proof -
  show "0 \<le> r * s" using assms by simp
  have "r * s \<le> (n - 1) * s" using assms by (intro mult_right_mono) auto
  then show "r * s + c < s * n" using assms by (simp add: algebra_simps)
  have "r * s \<le> 32766 * 65535" using assms by (intro mult_mono) auto
  then show "r * s + c < 2 ^ 31" using assms by simp
qed


lemma kernel_source_ok:
  assumes "planes_ok im y uv" "0 \<le> ox" "ox < ow" "0 \<le> oy" "oy < oh" "ow \<le> 32767" "oh \<le> 32767"
  shows "kernel_source im y uv ow oh ox oy = Some (source_pixel im y uv ow oh ox oy)"
proof -
  note q = assms(1) [unfolded planes_ok_def]
  define sx where "sx = ox * im_w im div ow"
  define sy where "sy = oy * im_h im div oh"
  have ow: "0 < ow" "0 < oh" using assms by auto
  have sx: "0 \<le> sx" "sx < im_w im" using scaled_bounds [OF assms(2,3), of "im_w im"] q by (simp_all add: sx_def)
  have sy: "0 \<le> sy" "sy < im_h im" using scaled_bounds [OF assms(4,5), of "im_h im"] q by (simp_all add: sy_def)
  have "0 \<le> ox * im_w im" using assms q by simp
  moreover have "ox * im_w im \<le> 32766 * 32767" using assms q by (intro mult_mono) auto
  ultimately have a: "int_ok (ox * im_w im) = Some (ox * im_w im)" "c_div (ox * im_w im) ow = sx"
    using ow by (simp_all add: int_ok_def sx_def)
  have "0 \<le> oy * im_h im" using assms q by simp
  moreover have "oy * im_h im \<le> 32766 * 32767" using assms q by (intro mult_mono) auto
  ultimately have b: "int_ok (oy * im_h im) = Some (oy * im_h im)" "c_div (oy * im_h im) oh = sy"
    using ow by (simp_all add: int_ok_def sy_def)
  have h: "sy div 2 < im_h im div 2" "0 \<le> sy div 2" "im_h im div 2 \<le> 32767" using sy q by (auto elim!: evenE)
  have w: "0 \<le> sx div 2 * 2" "sx div 2 * 2 + 1 < im_uv_stride im" using sx q by presburger+
  have c: "0 \<le> sx" "sx < im_y_stride im" "0 \<le> sx div 2 * 2 + 1" using sx q w by auto
  note ry = row_bounds [OF sy c(1,2)] and ru = row_bounds [OF h(2,1) c(3) w(2) h(3)]
  have y: "int_ok (sy * im_y_stride im) = Some (sy * im_y_stride im)"
    "int_ok (sy * im_y_stride im + sx) = Some (sy * im_y_stride im + sx)"
    "load y (sy * im_y_stride im + sx) = Some (uint (y ! nat (sy * im_y_stride im + sx)))"
    using ry q sx by (auto simp: int_ok_def load_def)
  let ?u = "sy div 2 * im_uv_stride im + sx div 2 * 2"
  have u0: "?u + 1 < int (length uv)" "0 \<le> ?u" "?u + 1 < 2 ^ 31" "0 \<le> sy div 2 * im_uv_stride im"
    using ru q w by linarith+
  have io: "int_ok v = Some v" if "0 \<le> v" "v < 2 ^ 31" for v using that by (simp add: int_ok_def)
  have ld: "load uv v = Some (uint (uv ! nat v))" if "0 \<le> v" "v < int (length uv)" for v using that by (simp add: load_def nat_less_iff)
  have u: "int_ok (sy div 2 * im_uv_stride im) = Some (sy div 2 * im_uv_stride im)"
    "int_ok ?u = Some ?u" "int_ok (?u + 1) = Some (?u + 1)"
    "load uv ?u = Some (uint (uv ! nat ?u))" "load uv (?u + 1) = Some (uint (uv ! nat (?u + 1)))"
    using u0 w(1) by (auto intro!: io ld)
  have d: "c_div sx 2 = sx div 2" "c_div sy 2 = sy div 2" using sx sy by simp_all
  show ?thesis
    unfolding kernel_source_def source_pixel_def a b Let_def bind_option_cong_code Option.bind_lunit d y u sx_def [symmetric] sy_def [symmetric]
    by simp
qed


definition expected_pixel :: "fp_arith \<Rightarrow> image \<Rightarrow> bytes \<Rightarrow> bytes \<Rightarrow> int \<Rightarrow> int \<Rightarrow> nat \<Rightarrow> nat \<Rightarrow> bytes" where
  "expected_pixel fl im y uv ow oh px py =
     (case source_pixel im y uv ow oh (int px) (int py) of (Y, U, V) \<Rightarrow> bgra fl Y U V)"

lemma length_expected_pixel: "length (expected_pixel fl im y uv ow oh px py) = 4"
  by (simp add: expected_pixel_def bgra_def split: prod.splits)

lemma kernel_thread_ok:
  assumes "planes_ok im y uv" "0 < ow" "ow \<le> 32767" "0 < oh" "oh \<le> 32767" "length out \<ge> nat ow * nat oh * 4"
  shows "kernel_thread fl im y uv ow oh ow out (px, py) =
    (if px < nat ow \<and> py < nat oh then Some (mem_write out ((py * nat ow + px) * 4) (expected_pixel fl im y uv ow oh px py)) else Some out)"
proof (cases "px < nat ow \<and> py < nat oh")
  case True
  then have "kernel_source im y uv ow oh (int px) (int py) = Some (source_pixel im y uv ow oh (int px) (int py))"
    using assms by (intro kernel_source_ok) auto
  moreover have "(py * nat ow + px) * 4 + 4 \<le> length out" using pixel_bound [of px "nat ow" py "nat oh"] True assms(6) by linarith
  ultimately show ?thesis using True assms
    by (simp add: kernel_thread_def Let_def expected_pixel_def split: prod.splits) linarith
next
  case False
  then have "int px \<ge> ow \<or> int py \<ge> oh" using assms by auto
  then show ?thesis using False by (auto simp: kernel_thread_def)
qed

lemma kernel_exact:
  assumes "planes_ok im y uv" "0 < ow" "ow \<le> 32767" "0 < oh" "oh \<le> 32767" "length out \<ge> nat ow * nat oh * 4"
    and "mset (sched (grid_threads ow oh)) = mset (grid_threads ow oh)"
  shows "\<exists>out'. nv12_to_bgra_kernel fl sched im y uv ow oh ow out = Some out' \<and> length out' = length out \<and>
    (\<forall>px < nat ow. \<forall>py < nat oh. pixel (nat ow) out' px py = expected_pixel fl im y uv ow oh px py)"
proof -
  let ?ts = "sched (grid_threads ow oh)"
  have d: "distinct ?ts" using assms(7) distinct_grid_threads mset_eq_imp_distinct_iff by blast
  have s: "(px, py) \<in> set ?ts" if "px < nat ow" "py < nat oh" for px py
    unfolding mset_eq_setD [OF assms(7)] set_grid_threads
    using that grid_dim_covers [OF assms(2)] grid_dim_covers [OF assms(4)] by simp
  obtain out' where "run_threads (kernel_thread fl im y uv ow oh ow) out ?ts = Some out'" "length out' = length out"
    "\<forall>px < nat ow. \<forall>py < nat oh. pixel (nat ow) out' px py =
      (if (px, py) \<in> set ?ts then expected_pixel fl im y uv ow oh px py else pixel (nat ow) out px py)"
    using run_threads_pixels [where f = "kernel_thread fl im y uv ow oh ow" and px = "expected_pixel fl im y uv ow oh",
        OF d assms(6) kernel_thread_ok [OF assms(1-5)] length_expected_pixel] by blast
  then show ?thesis using s by (intro exI [of _ out']) (simp add: nv12_to_bgra_kernel_def)
qed

section \<open>Sizes and buffers\<close>

lemma unat_of_int: "0 \<le> v \<Longrightarrow> v < 2 ^ 64 \<Longrightarrow> unat (of_int v :: sz_t) = nat v"
  by (simp add: unat_eq_nat_uint unsigned_of_int take_bit_int_eq_self)

lemma unat_area:
  assumes "0 \<le> a" "a \<le> 65535" "0 \<le> b" "b \<le> 65535" "0 \<le> c" "c \<le> 4"
  shows "unat (of_int a * of_int b * of_int c :: sz_t) = nat a * nat b * nat c"
proof -
  have "a * b * c \<le> 65535 * 65535 * 4" using assms by (intro mult_mono) auto
  then have "unat (of_int (a * b * c) :: sz_t) = nat (a * b * c)" using assms by (intro unat_of_int) auto
  then show ?thesis using assms by (simp add: nat_mult_distrib)
qed

definition buf_ok :: "dev_buf \<Rightarrow> bool" where
  "buf_ok b \<longleftrightarrow> (case db_ptr b of Null \<Rightarrow> db_cap b = 0 | Live m \<Rightarrow> length m = unat (db_cap b) | Dangling \<Rightarrow> False)"

lemma no_buf_ok: "buf_ok no_buf" by (simp add: buf_ok_def no_buf_def)

lemma grow_buf_ok:
  assumes "buf_ok b" and "\<And>n. \<exists>m. malloc n = Some m \<and> length m = unat n"
  shows "\<exists>b'. grow_buf malloc b need = Some (True, b') \<and> buf_ok b' \<and> unat need \<le> length (contents b')"
proof (cases "db_cap b < need")
  case True
  obtain m where m: "malloc need = Some m" "length m = unat need" using assms(2) by blast
  have "db_ptr b \<noteq> Dangling" using assms(1) by (auto simp: buf_ok_def)
  then show ?thesis using True m
    by (intro exI [of _ "\<lparr>db_ptr = Live m, db_cap = need\<rparr>"]) (simp add: grow_buf_def buf_ok_def contents_def)
next
  case False
  then have "unat need \<le> unat (db_cap b)" by (simp add: word_le_nat_alt not_less)
  then show ?thesis using False assms(1) by (auto simp: grow_buf_def buf_ok_def contents_def split: dev_ptr.splits)
qed

lemma copy_mem_ok:
  "unat n \<le> length src \<Longrightarrow> unat n \<le> length dst \<Longrightarrow>
    \<exists>m. copy_mem src dst n = Some m \<and> length m = length dst \<and> take (unat n) m = take (unat n) src"
  by (simp add: copy_mem_def mem_write_def)

lemma dev_copy_ok:
  "unat n \<le> length src \<Longrightarrow> unat n \<le> length dst \<Longrightarrow>
    \<exists>m. dev_copy ok src dst n = Some m \<and> length m = length dst \<and> (ok \<longrightarrow> take (unat n) m = take (unat n) src)"
  using copy_mem_ok by (simp add: dev_copy_def)

lemma dev_launch_ok:
  assumes "planes_ok im y uv" "0 < ow" "ow \<le> 32767" "0 < oh" "oh \<le> 32767" "length out \<ge> nat ow * nat oh * 4"
    and "mset (sched (grid_threads ow oh)) = mset (grid_threads ow oh)"
  shows "\<exists>out'. dev_launch ok fl sched im y uv ow oh out = Some out' \<and> length out' = length out \<and>
    (ok \<longrightarrow> (\<forall>px < nat ow. \<forall>py < nat oh. pixel (nat ow) out' px py = expected_pixel fl im y uv ow oh px py))"
  using kernel_exact [where sched = sched, OF assms] by (simp add: dev_launch_def)

lemma set_contents_ok: "buf_ok b \<Longrightarrow> length m = length (contents b) \<Longrightarrow> buf_ok (set_contents b m)"
  by (auto simp: buf_ok_def set_contents_def contents_def split: dev_ptr.splits)


section \<open>Only the image is read\<close>

lemma kernel_source_mono:
  "kernel_source im (take n y) (take m uv) ow oh ox oy = Some p \<Longrightarrow> kernel_source im y uv ow oh ox oy = Some p"
  by (auto simp: kernel_source_def load_def bind_eq_Some_conv Let_def split: if_splits)

definition y_size :: "image \<Rightarrow> nat" where "y_size im = nat (im_y_stride im * im_h im)"
definition uv_size :: "image \<Rightarrow> nat" where "uv_size im = nat (im_uv_stride im * (im_h im div 2))"

lemma planes_ok_iff:
  assumes "planes_ok im y uv"
  shows "planes_ok im y' uv' \<longleftrightarrow> y_size im \<le> length y' \<and> uv_size im \<le> length uv'"
  using assms by (auto simp: planes_ok_def y_size_def uv_size_def)

lemma expected_pixel_prefix:
  assumes "planes_ok im y uv" "take (y_size im) y' = take (y_size im) y" "take (uv_size im) uv' = take (uv_size im) uv"
    and "y_size im \<le> length y'" "uv_size im \<le> length uv'" "px < nat ow" "py < nat oh" "ow \<le> 32767" "oh \<le> 32767"
  shows "expected_pixel fl im y' uv' ow oh px py = expected_pixel fl im y uv ow oh px py"
proof -
  have b: "0 \<le> int px" "int px < ow" "0 \<le> int py" "int py < oh" using assms by auto
  have t: "planes_ok im (take (y_size im) y) (take (uv_size im) uv)" and p: "planes_ok im y' uv'"
    using assms planes_ok_iff [OF assms(1)] by auto
  note k = kernel_source_ok [OF _ b assms(8,9)]
  have "source_pixel im y uv ow oh (int px) (int py) = source_pixel im (take (y_size im) y) (take (uv_size im) uv) ow oh (int px) (int py)"
    using kernel_source_mono [OF k [OF t]] k [OF assms(1)] by simp
  moreover have "source_pixel im y' uv' ow oh (int px) (int py) = source_pixel im (take (y_size im) y) (take (uv_size im) uv) ow oh (int px) (int py)"
    using kernel_source_mono [of im "y_size im" y' "uv_size im" uv', unfolded assms(2,3), OF k [OF t]] k [OF p] by simp
  ultimately show ?thesis by (simp add: expected_pixel_def)
qed

lemma pixel_prefix:
  assumes "take (W * H * 4) a = take (W * H * 4) b" "px < W" "py < H"
  shows "pixel W a px py = pixel W b px py"
proof -
  have "4 \<le> W * H * 4 - (py * W + px) * 4" using pixel_bound [OF assms(2,3)] by linarith
  then have "take 4 (drop ((py * W + px) * 4) (take (W * H * 4) c)) = pixel W c px py" for c
    unfolding pixel_def mem_read_def drop_take take_take by (simp add: min_absorb1)
  from this [of a] this [of b] show ?thesis unfolding assms(1) by simp
qed

section \<open>Jobs in the stream\<close>

definition job_ok :: "(nat \<Rightarrow> bytes) \<Rightarrow> conv_state \<Rightarrow> conv_job \<Rightarrow> bool" where
  "job_ok mem s j \<longleftrightarrow>
     planes_ok (cj_im j) (mem (cj_y j)) (mem (cj_uv j)) \<and> 0 < cj_ow j \<and> cj_ow j \<le> 32767 \<and> 0 < cj_oh j \<and> cj_oh j \<le> 32767 \<and>
     cj_stage j < length (cs_stage s) \<and> nat (cj_ow j) * nat (cj_oh j) * 4 \<le> length (contents (cs_dbg s)) \<and>
     nat (cj_ow j) * nat (cj_oh j) * 4 \<le> length (contents (cs_stage s ! cj_stage j))"

definition same_sizes :: "conv_state \<Rightarrow> conv_state \<Rightarrow> bool" where
  "same_sizes s s' \<longleftrightarrow> length (contents (cs_dbg s')) = length (contents (cs_dbg s)) \<and>
     map (length \<circ> contents) (cs_stage s') = map (length \<circ> contents) (cs_stage s)"

lemma contents_set: "length m = length (contents b) \<Longrightarrow> contents (set_contents b m) = m"
  by (auto simp: contents_def set_contents_def split: dev_ptr.splits)

lemma same_sizes_job: "same_sizes s s' \<Longrightarrow> job_ok mem s' j = job_ok mem s j"
proof -
  assume s: "same_sizes s s'"
  then have l: "length (cs_stage s') = length (cs_stage s)" by (metis same_sizes_def length_map)
  have "length (contents (cs_stage s' ! k)) = length (contents (cs_stage s ! k))" if "k < length (cs_stage s)" for k
    using s that l nth_map [of k "cs_stage s'" "length \<circ> contents"] nth_map [of k "cs_stage s" "length \<circ> contents"]
    by (simp add: same_sizes_def)
  then show ?thesis using s l by (auto simp: job_ok_def same_sizes_def)
qed

lemma same_sizes_trans: "same_sizes a b \<Longrightarrow> same_sizes b c \<Longrightarrow> same_sizes a c"
  by (simp add: same_sizes_def)

definition job_image :: "fp_arith \<Rightarrow> (nat \<Rightarrow> bytes) \<Rightarrow> conv_job \<Rightarrow> bytes \<Rightarrow> bool" where
  "job_image fl mem j m \<longleftrightarrow> (\<forall>px < nat (cj_ow j). \<forall>py < nat (cj_oh j).
     pixel (nat (cj_ow j)) m px py = expected_pixel fl (cj_im j) (mem (cj_y j)) (mem (cj_uv j)) (cj_ow j) (cj_oh j) px py)"

lemma run_job_ok:
  assumes "job_ok mem s j" and "\<And>ts. mset (sched ts) = mset ts"
  shows "\<exists>s'. run_job fl sched mem j s = Some s' \<and> same_sizes s s' \<and> cs_jobs s' = cs_jobs s \<and> cs_done s' = cs_done s \<and>
    (cj_launched j \<longrightarrow> cj_copied j \<longrightarrow> job_image fl mem j (contents (cs_stage s' ! cj_stage j))) \<and>
    (\<forall>k. k \<noteq> cj_stage j \<longrightarrow> cs_stage s' ! k = cs_stage s ! k)"
proof -
  note q = assms(1) [unfolded job_ok_def]
  let ?A = "nat (cj_ow j) * nat (cj_oh j) * 4"
  have ob: "unat (out_bytes (cj_ow j) (cj_oh j)) = ?A" using unat_area [of "cj_ow j" "cj_oh j" 4] q by (simp add: out_bytes_def)
  obtain mo where mo: "dev_launch (cj_launched j) fl sched (cj_im j) (mem (cj_y j)) (mem (cj_uv j)) (cj_ow j) (cj_oh j) (contents (cs_dbg s)) = Some mo"
    "length mo = length (contents (cs_dbg s))"
    "cj_launched j \<longrightarrow> (\<forall>px < nat (cj_ow j). \<forall>py < nat (cj_oh j).
       pixel (nat (cj_ow j)) mo px py = expected_pixel fl (cj_im j) (mem (cj_y j)) (mem (cj_uv j)) (cj_ow j) (cj_oh j) px py)"
    using dev_launch_ok [where ok = "cj_launched j" and im = "cj_im j" and y = "mem (cj_y j)" and uv = "mem (cj_uv j)" and ow = "cj_ow j" and oh = "cj_oh j"
        and out = "contents (cs_dbg s)" and sched = sched and fl = fl] q assms(2) by blast
  obtain st where st: "dev_copy (cj_copied j) mo (contents (cs_stage s ! cj_stage j)) (out_bytes (cj_ow j) (cj_oh j)) = Some st"
    "length st = length (contents (cs_stage s ! cj_stage j))" "cj_copied j \<longrightarrow> take ?A st = take ?A mo"
    using dev_copy_ok [where ok = "cj_copied j", of "out_bytes (cj_ow j) (cj_oh j)" mo "contents (cs_stage s ! cj_stage j)"] ob mo(2) q by auto
  let ?b = "set_contents (cs_stage s ! cj_stage j) st"
  have c: "contents ?b = st" "contents (set_contents (cs_dbg s) mo) = mo" using contents_set st(2) mo(2) by blast+
  have i: "job_image fl mem j st" if "cj_launched j" "cj_copied j"
    using mo(3) pixel_prefix [OF st(3) [rule_format, OF that(2)]] that by (simp add: job_image_def)
  have m: "map (length \<circ> contents) ((cs_stage s)[cj_stage j := ?b]) = map (length \<circ> contents) (cs_stage s)"
    using q c st(2) by (simp add: map_update list_update_same_conv)
  show ?thesis using mo(1,2) st(1) c i m q by (simp add: run_job_def same_sizes_def)
qed

lemma stream_run_ok:
  assumes "\<And>ts. mset (sched ts) = mset ts" "\<forall>j \<in> set (cs_jobs s). job_ok mem s j"
  shows "\<exists>s'. stream_run fl sched mem n s = Some s' \<and> same_sizes s s' \<and> cs_jobs s' = drop n (cs_jobs s) \<and>
    cs_done s' = cs_done s + min n (length (cs_jobs s)) \<and>
    (\<forall>k. (\<forall>j \<in> set (take n (cs_jobs s)). cj_stage j \<noteq> k) \<longrightarrow> cs_stage s' ! k = cs_stage s ! k)"
  using assms(2)
proof (induction n arbitrary: s)
  case 0
  then show ?case by (simp add: same_sizes_def)
next
  case (Suc n)
  show ?case
  proof (cases "cs_jobs s")
    case Nil
    then show ?thesis by (simp add: same_sizes_def)
  next
    case (Cons j js)
    let ?s = "s\<lparr>cs_jobs := js, cs_done := cs_done s + 1\<rparr>"
    have z: "same_sizes s ?s" by (simp add: same_sizes_def)
    have "job_ok mem ?s j" using same_sizes_job [OF z] Suc.prems Cons by simp
    then obtain s1 where s1: "run_job fl sched mem j ?s = Some s1" "same_sizes ?s s1" "cs_jobs s1 = js" "cs_done s1 = cs_done s + 1"
      "\<forall>k. k \<noteq> cj_stage j \<longrightarrow> cs_stage s1 ! k = cs_stage s ! k"
      using run_job_ok [OF _ assms(1), where s = ?s] by fastforce
    have sz: "same_sizes s s1" using same_sizes_trans [OF z s1(2)] .
    then have "\<forall>j \<in> set (cs_jobs s1). job_ok mem s1 j" using same_sizes_job [OF sz] Suc.prems Cons s1(3) by simp
    then show ?thesis using Suc.IH [of s1] s1 Cons same_sizes_trans [OF sz] by fastforce
  qed
qed

lemma stream_run_add:
  "stream_run fl sched mem (n + m) s = do { s' \<leftarrow> stream_run fl sched mem n s; stream_run fl sched mem m s' }"
proof (induction n arbitrary: s)
  case (Suc n)
  then show ?case by (cases "cs_jobs s"; cases m) (auto split: bind_split)
qed simp

section \<open>Properties\<close>

definition converter_ok :: "converter \<Rightarrow> bool" where
  "converter_ok c \<longleftrightarrow> buf_ok (cv_y c) \<and> buf_ok (cv_uv c) \<and> buf_ok (cv_out c)"

text \<open>
  C33: An image of even height whose planes are as large as its strides say is converted without
  any access outside a buffer, whatever the order of the threads, whatever the buffers held, however
  the compiler rounds the sums and whichever requests the device refuses; the cached buffers stay
  valid. If the device did its work, every output pixel is the colour of its nearest source pixel. The
  return code says success in every case, since the code ignores the device's answers.
\<close>

theorem nv12_to_bgra_exact:
  assumes "converter_ok c" "cv_inited c \<or> set_dev"
    and "planes_ok im y uv" "0 < ow" "ow \<le> 32767" "0 < oh" "oh \<le> 32767" "nat ow * nat oh * 4 \<le> length out"
    and "\<And>n. \<exists>m. malloc n = Some m \<and> length m = unat n"
    and "\<And>ts. mset (sched ts) = mset ts"
  shows "\<exists>out' c'. nv12_to_bgra fl sched set_dev q malloc c y uv im out ow oh = Some (0, out', c') \<and>
    converter_ok c' \<and> length out' = length out \<and>
    (device_worked q \<longrightarrow>
       (\<forall>px < nat ow. \<forall>py < nat oh. pixel (nat ow) out' px py = expected_pixel fl im y uv ow oh px py))"
proof -
  note q = assms(3) [unfolded planes_ok_def]
  let ?yb = "of_int (im_y_stride im) * of_int (im_h im) :: sz_t"
  let ?ub = "of_int (im_uv_stride im) * of_int (c_div (im_h im) 2) :: sz_t"
  let ?ob = "of_int ow * of_int oh * 4 :: sz_t"
  have yb: "unat ?yb = y_size im"
    using unat_area [of "im_y_stride im" "im_h im" 1] q by (simp add: y_size_def nat_mult_distrib)
  have us: "0 \<le> im_uv_stride im" "im_h im div 2 \<le> 65535" using q by presburger+
  have "unat ?ub = nat (im_uv_stride im) * nat (im_h im div 2)"
    using unat_area [of "im_uv_stride im" "im_h im div 2" 1] us q by simp
  then have ub: "unat ?ub = uv_size im" using q us by (simp add: uv_size_def nat_mult_distrib)
  have ob: "unat ?ob = nat ow * nat oh * 4" using unat_area [of ow oh 4] assms(4-7) by simp
  have bk: "buf_ok (cv_y c)" "buf_ok (cv_uv c)" "buf_ok (cv_out c)" using assms(1) by (simp_all add: converter_ok_def)
  obtain b1 where b1: "grow_buf malloc (cv_y c) ?yb = Some (True, b1)" "buf_ok b1" "y_size im \<le> length (contents b1)"
    using grow_buf_ok [OF bk(1) assms(9), of ?yb] yb by auto
  obtain b2 where b2: "grow_buf malloc (cv_uv c) ?ub = Some (True, b2)" "buf_ok b2" "uv_size im \<le> length (contents b2)"
    using grow_buf_ok [OF bk(2) assms(9), of ?ub] ub by auto
  obtain b3 where b3: "grow_buf malloc (cv_out c) ?ob = Some (True, b3)" "buf_ok b3" "nat ow * nat oh * 4 \<le> length (contents b3)"
    using grow_buf_ok [OF bk(3) assms(9), of ?ob] ob by auto
  have ly: "y_size im \<le> length y" "uv_size im \<le> length uv" using planes_ok_iff [OF assms(3)] assms(3) by blast+
  obtain my where my: "dev_copy (da_copy_y q) y (contents b1) ?yb = Some my" "length my = length (contents b1)" "da_copy_y q \<longrightarrow> take (y_size im) my = take (y_size im) y"
    using dev_copy_ok [where ok = "da_copy_y q", of ?yb y "contents b1"] yb ly b1 by auto
  obtain mu where mu: "dev_copy (da_copy_uv q) uv (contents b2) ?ub = Some mu" "length mu = length (contents b2)" "da_copy_uv q \<longrightarrow> take (uv_size im) mu = take (uv_size im) uv"
    using dev_copy_ok [where ok = "da_copy_uv q", of ?ub uv "contents b2"] ub ly b2 by auto
  have pm: "planes_ok im my mu" using planes_ok_iff [OF assms(3)] my mu b1 b2 by simp
  obtain mo where mo: "dev_launch (da_launch q) fl sched im my mu ow oh (contents b3) = Some mo" "length mo = length (contents b3)"
    "da_launch q \<longrightarrow> (\<forall>px < nat ow. \<forall>py < nat oh. pixel (nat ow) mo px py = expected_pixel fl im my mu ow oh px py)"
    using dev_launch_ok [where ok = "da_launch q", OF pm assms(4-7) b3(3), where sched = sched and fl = fl] assms(10) by blast
  obtain out' where o: "dev_copy (da_copy_out q) mo out ?ob = Some out'" "length out' = length out"
    "da_copy_out q \<longrightarrow> take (nat ow * nat oh * 4) out' = take (nat ow * nat oh * 4) mo"
    using dev_copy_ok [where ok = "da_copy_out q", of ?ob mo out] ob mo b3 assms(8) by auto
  have "pixel (nat ow) out' px py = expected_pixel fl im y uv ow oh px py"
    if w: "device_worked q" and "px < nat ow" "py < nat oh" for px py
  proof -
    have d: "da_copy_y q" "da_copy_uv q" "da_launch q" "da_copy_out q" using w by (simp_all add: device_worked_def)
    show ?thesis
      using pixel_prefix [OF o(3) [rule_format, OF d(4)] that(2,3)] mo(3) d that my b1 mu b2 assms(5,7)
        expected_pixel_prefix [OF assms(3) my(3) [rule_format, OF d(1)] mu(3) [rule_format, OF d(2)], of px ow py oh fl] by simp
  qed
  moreover have "nv12_to_bgra fl sched set_dev q malloc c y uv im out ow oh =
    Some (0, out', c\<lparr>cv_inited := True, cv_y := set_contents b1 my, cv_uv := set_contents b2 mu, cv_out := set_contents b3 mo\<rparr>)"
    using assms(2) b1 b2 b3 my mu mo o unfolding nv12_to_bgra_def by (simp add: Let_def)
  ultimately show ?thesis using o b1 b2 b3 my mu mo set_contents_ok by (simp add: converter_ok_def)
qed


definition grey_image :: image where
  "grey_image = \<lparr>im_w = 2, im_h = 2, im_y_stride = 2, im_uv_stride = 2\<rparr>"

definition fresh_converter :: converter where
  "fresh_converter = \<lparr>cv_inited = False, cv_y = no_buf, cv_uv = no_buf, cv_out = no_buf\<rparr>"

definition all_answers :: dev_answers where
  "all_answers = \<lparr>da_copy_y = True, da_copy_uv = True, da_launch = True, da_copy_out = True\<rparr>"

lemma grey_pixel: "bgra (separate id) 116 128 128 = [116, 116, 116, 0]"
proof -
  have "\<lfloor>582 / 5 :: rat\<rfloor> = 116" by (simp add: floor_eq_iff)
  then show ?thesis by (simp add: bgra_def chan_b_def chan_g_def chan_r_def trunc_def clamp_def separate_def)
qed

theorem nv12_to_bgra_exact_witness:
  "\<exists>out' c'. nv12_to_bgra (separate id) rev True all_answers (\<lambda>n. Some (replicate (unat n) 7)) fresh_converter [116, 16, 16, 16] [128, 128] grey_image [1, 2, 3, 4, 5] 1 1
     = Some (0, out', c') \<and> take 4 out' = [116, 116, 116, 0]"
proof -
  have a: "converter_ok fresh_converter" "cv_inited fresh_converter \<or> True"
    by (simp_all add: converter_ok_def fresh_converter_def no_buf_ok)
  have p: "planes_ok grey_image [116, 16, 16, 16] [128, 128]" by (simp add: planes_ok_def grey_image_def)
  have n: "(0 :: int) < 1" "(1 :: int) \<le> 32767" "(0 :: int) < 1" "(1 :: int) \<le> 32767" "nat 1 * nat 1 * 4 \<le> length [1, 2, 3, 4, 5 :: u8]" by simp_all
  have m: "\<exists>m. Some (replicate (unat n) (7 :: u8)) = Some m \<and> length m = unat n" for n :: sz_t by simp
  have r: "mset (rev ts) = mset ts" for ts :: "(nat \<times> nat) list" by simp
  have e: "expected_pixel (separate id) grey_image [116, 16, 16, 16] [128, 128] 1 1 0 0 = [116, 116, 116, 0]"
    by (simp add: expected_pixel_def source_pixel_def grey_image_def grey_pixel)
  show ?thesis using nv12_to_bgra_exact [where sched = rev and fl = "separate id" and q = all_answers, OF a p n m r] e
    by (auto simp: pixel_def mem_read_def device_worked_def all_answers_def)
qed

text \<open>A pixel without colour comes out grey, with or without contraction.\<close>

lemma bgra_grey:
  assumes "fl 0 = 0" "\<And>q. fl (fl q) = fl q"
  shows "\<exists>v. bgra (separate fl) Y 128 128 = [v, v, v, 0]" "\<exists>v. bgra (fused fl) Y 128 128 = [v, v, v, 0]"
  using assms by (simp_all add: bgra_def chan_b_def chan_g_def chan_r_def separate_def fused_def)

text \<open>A launch the device refuses is not noticed: the call reports success and hands out what the buffer held before.\<close>

lemma refused_launch_shows_old_image:
  assumes "converter_ok c" "cv_inited c" "cv_out c = \<lparr>db_ptr = Live old, db_cap = out_bytes ow oh\<rparr>"
    and "planes_ok im y uv" "unat (out_bytes ow oh) \<le> length out" "da_copy_out q" "\<not> da_launch q"
    and "\<And>n. \<exists>m. malloc n = Some m \<and> length m = unat n"
  shows "\<exists>c'. nv12_to_bgra fl sched set_dev q malloc c y uv im out ow oh = Some (0, mem_write out 0 old, c')"
proof -
  note p = assms(4) [unfolded planes_ok_def]
  let ?yb = "of_int (im_y_stride im) * of_int (im_h im) :: sz_t"
  let ?ub = "of_int (im_uv_stride im) * of_int (c_div (im_h im) 2) :: sz_t"
  have bk: "buf_ok (cv_y c)" "buf_ok (cv_uv c)" "length old = unat (out_bytes ow oh)"
    using assms(1,3) by (simp_all add: converter_ok_def buf_ok_def)
  obtain b1 where b1: "grow_buf malloc (cv_y c) ?yb = Some (True, b1)" "unat ?yb \<le> length (contents b1)"
    using grow_buf_ok [OF bk(1) assms(8), of ?yb] by auto
  obtain b2 where b2: "grow_buf malloc (cv_uv c) ?ub = Some (True, b2)" "unat ?ub \<le> length (contents b2)"
    using grow_buf_ok [OF bk(2) assms(8), of ?ub] by auto
  have us: "0 \<le> im_uv_stride im" "im_h im div 2 \<le> 65535" using p by presburger+
  have "unat ?yb = y_size im"
    using unat_area [of "im_y_stride im" "im_h im" 1] p by (simp add: y_size_def nat_mult_distrib)
  moreover have "unat ?ub = uv_size im"
    using unat_area [of "im_uv_stride im" "im_h im div 2" 1] us p by (simp add: uv_size_def nat_mult_distrib)
  ultimately have ly: "unat ?yb \<le> length y" "unat ?ub \<le> length uv" using planes_ok_iff [OF assms(4)] assms(4) by simp_all
  obtain my where my: "dev_copy (da_copy_y q) y (contents b1) ?yb = Some my" using dev_copy_ok [OF ly(1) b1(2)] by blast
  obtain mu where mu: "dev_copy (da_copy_uv q) uv (contents b2) ?ub = Some mu" using dev_copy_ok [OF ly(2) b2(2)] by blast
  have o: "grow_buf malloc (cv_out c) (of_int ow * of_int oh * 4) = Some (True, cv_out c)"
    using assms(3) by (simp add: grow_buf_def out_bytes_def)
  show ?thesis
    using assms(2,3,5-7) bk(3) b1(1) b2(1) my mu o
    by (simp add: nv12_to_bgra_def Let_def dev_launch_def dev_copy_def [of True] copy_mem_def contents_def out_bytes_def)
qed

text \<open>The last row of an image of odd height has no chroma row: the converter reads past its buffer.\<close>

lemma odd_height_overreads:
  "kernel_source \<lparr>im_w = 2, im_h = 3, im_y_stride = 2, im_uv_stride = 2\<rparr> y uv 2 3 0 2 = None" if "length uv = 2 * (3 div 2)"
  using that by (simp add: kernel_source_def int_ok_def load_def Let_def bind_eq_None_conv)

text \<open>
  After an allocation has failed the old capacity is still recorded for a buffer that is gone: the
  next image that fits the old size is written through the dangling pointer.
\<close>

lemma failed_growth_dangles:
  assumes "db_ptr b = Live m" "db_cap b < need" "0 < n" "n \<le> db_cap b"
  shows "\<exists>b'. grow_buf (\<lambda>_. None) b need = Some (False, b') \<and> grow_buf malloc b' n = Some (True, b') \<and> copy_mem src (contents b') n = None"
proof -
  have "0 < unat n" using assms(3) by (simp add: unat_gt_0 word_neq_0_conv)
  then show ?thesis using assms by (simp add: grow_buf_def copy_mem_def contents_def)
qed


definition job_answers :: "conv_answers \<Rightarrow> conv_job \<Rightarrow> conv_answers" where
  "job_answers q j = q\<lparr>ca_launch := cj_launched j, ca_copy := cj_copied j\<rparr>"

fun conv_all ::
  "conv_answers \<Rightarrow> (sz_t \<Rightarrow> bytes option) \<Rightarrow> (sz_t \<Rightarrow> bytes option) \<Rightarrow> conv_state \<Rightarrow> conv_job list \<Rightarrow> conv_state option" where
  "conv_all q malloc host_alloc s [] = Some s"
| "conv_all q malloc host_alloc s (j # js) =
     do { (rc, e, s') \<leftarrow> conv_async (job_answers q j) malloc host_alloc s (cj_y j) (cj_uv j) (cj_im j) (int (cj_stage j)) (cj_ow j) (cj_oh j) True;
          conv_all q malloc host_alloc s' js }"

definition stream_ok :: "(nat \<Rightarrow> bytes) \<Rightarrow> conv_state \<Rightarrow> bool" where
  "stream_ok mem s \<longleftrightarrow> cs_inited s \<and> length (cs_stage s) = N_STAGE \<and> list_all buf_ok (cs_stage s) \<and> buf_ok (cs_dbg s) \<and>
     (\<forall>j \<in> set (cs_jobs s). job_ok mem s j)"

lemma grow_stream_steady:
  assumes "buf_ok b" "unat n \<le> length (contents b)" shows "grow_stream_buf malloc busy b n = Some (True, b)"
proof -
  have "unat n \<le> unat (db_cap b)" using assms by (auto simp: buf_ok_def contents_def split: dev_ptr.splits)
  then have "\<not> db_cap b < n" by (simp add: word_le_nat_alt not_less)
  then show ?thesis by (simp add: grow_stream_buf_def grow_buf_def)
qed

lemma conv_async_steady:
  assumes "stream_ok mem s" "job_ok mem s j" "ca_event q" "ca_record q"
  shows "conv_async (job_answers q j) malloc host_alloc s (cj_y j) (cj_uv j) (cj_im j) (int (cj_stage j)) (cj_ow j) (cj_oh j) True =
    Some (0, Some (cs_done s + length (cs_jobs s) + 1), s\<lparr>cs_jobs := cs_jobs s @ [j]\<rparr>)"
proof -
  note o = assms(1) [unfolded stream_ok_def] and q = assms(2) [unfolded job_ok_def]
  have ob: "unat (out_bytes (cj_ow j) (cj_oh j)) = nat (cj_ow j) * nat (cj_oh j) * 4"
    using unat_area [of "cj_ow j" "cj_oh j" 4] q by (simp add: out_bytes_def)
  have b: "buf_ok (cs_stage s ! cj_stage j)" using o q by (simp add: list_all_length)
  have g: "grow_stream_buf host_alloc busy (cs_stage s ! cj_stage j) (out_bytes (cj_ow j) (cj_oh j)) = Some (True, cs_stage s ! cj_stage j)"
    "grow_stream_buf malloc busy (cs_dbg s) (out_bytes (cj_ow j) (cj_oh j)) = Some (True, cs_dbg s)" for busy
    using grow_stream_steady b o q ob by auto
  have e: "s\<lparr>cs_inited := True, cs_stage := (cs_stage s)[cj_stage j := cs_stage s ! cj_stage j], cs_dbg := cs_dbg s,
      cs_jobs := cs_jobs s @ [j]\<rparr> = s\<lparr>cs_jobs := cs_jobs s @ [j]\<rparr>" using o by simp
  have "\<not> (int (cj_stage j) < 0 \<or> int N_STAGE \<le> int (cj_stage j))" using o q by simp
  then show ?thesis using o assms(3,4) e g unfolding conv_async_def by (simp add: Let_def job_answers_def)
qed

lemma stream_ok_append: "stream_ok mem s \<Longrightarrow> job_ok mem s j \<Longrightarrow> stream_ok mem (s\<lparr>cs_jobs := cs_jobs s @ [j]\<rparr>)"
  by (auto simp: stream_ok_def job_ok_def)

lemma conv_all_steady:
  assumes "stream_ok mem s" "\<forall>j \<in> set ks. job_ok mem s j" "ca_event q" "ca_record q"
  shows "conv_all q malloc host_alloc s ks = Some (s\<lparr>cs_jobs := cs_jobs s @ ks\<rparr>) \<and> stream_ok mem (s\<lparr>cs_jobs := cs_jobs s @ ks\<rparr>)"
  using assms(1,2)
proof (induction ks arbitrary: s)
  case (Cons k ks)
  let ?s = "s\<lparr>cs_jobs := cs_jobs s @ [k]\<rparr>"
  have "stream_ok mem ?s" using stream_ok_append Cons.prems by simp
  moreover have "\<forall>j \<in> set ks. job_ok mem ?s j" using Cons.prems(2) by (simp add: job_ok_def)
  ultimately show ?case using Cons.IH [of ?s] Cons.prems conv_async_steady [OF Cons.prems(1) _ assms(3,4), of k] by simp
qed simp

lemma staged_image:
  assumes "\<And>ts. mset (sched ts) = mset ts" "\<forall>k \<in> set (cs_jobs t). job_ok mem t k" "cs_jobs t = pre @ j # ks"
    and "\<forall>k \<in> set ks. cj_stage k \<noteq> cj_stage j" "cj_launched j" "cj_copied j"
    and "stream_run fl sched mem (length pre + Suc extra) t = Some d"
  shows "job_image fl mem j (contents (cs_stage d ! cj_stage j))"
proof -
  obtain a where a: "stream_run fl sched mem (length pre) t = Some a" "same_sizes t a" "cs_jobs a = j # ks"
    using stream_run_ok [where sched = sched and fl = fl and n = "length pre", OF assms(1,2)] assms(3) by auto
  let ?a = "a\<lparr>cs_jobs := ks, cs_done := cs_done a + 1\<rparr>"
  have sa: "same_sizes t ?a" using a(2) by (simp add: same_sizes_def)
  have "job_ok mem ?a j" using same_sizes_job [OF sa] assms(2,3) by simp
  then obtain b where b: "run_job fl sched mem j ?a = Some b" "same_sizes ?a b" "cs_jobs b = ks"
    "job_image fl mem j (contents (cs_stage b ! cj_stage j))"
    using run_job_ok [OF _ assms(1), where s = ?a] assms(5,6) by fastforce
  have "\<forall>k \<in> set (cs_jobs b). job_ok mem b k"
    using same_sizes_job [OF same_sizes_trans [OF sa b(2)]] assms(2,3) b(3) by simp
  then obtain d' where d: "stream_run fl sched mem extra b = Some d'"
    "\<forall>k. (\<forall>j \<in> set (take extra ks). cj_stage j \<noteq> k) \<longrightarrow> cs_stage d' ! k = cs_stage b ! k"
    using stream_run_ok [where sched = sched and fl = fl and n = extra and s = b and mem = mem, OF assms(1)] b(3) by auto
  have "stream_run fl sched mem (length pre + Suc extra) t = Some d'" unfolding stream_run_add using a b d by simp
  then have "d' = d" using assms(7) by simp
  moreover have "cs_stage d' ! cj_stage j = cs_stage b ! cj_stage j" using d(2) assms(4) in_set_takeD by fast
  ultimately show ?thesis using b(4) by simp
qed

text \<open>
  C34: Once the buffers have their size, an image given to the conversion stream is in its staging
  buffer when the wait for its event has succeeded: converted exactly, whatever else waited in the
  stream before it, whatever was added after it for other staging buffers, and however far the device
  has run ahead. A wait that fails hands its code to the caller and promises nothing about the
  staging buffer. The planes must still hold the image when the job runs, and the device must have
  taken its launch and its copy, which the code does not check.
\<close>

theorem conv_stage_holds_frame:
  assumes "stream_ok mem s" "job_ok mem s j" "\<forall>k \<in> set ks. job_ok mem s k \<and> cj_stage k \<noteq> cj_stage j"
    and "ca_event q" "ca_record q" "\<And>ts. mset (sched ts) = mset ts"
  shows "\<exists>e s1 s2 s3 m.
    conv_async (job_answers q j) malloc host_alloc s (cj_y j) (cj_uv j) (cj_im j) (int (cj_stage j)) (cj_ow j) (cj_oh j) True = Some (0, Some e, s1) \<and>
    conv_all q malloc host_alloc s1 ks = Some s2 \<and> conv_wait_event fl sched mem rc extra e s2 = Some (rc, s3) \<and>
    conv_stage_ptr s3 (int (cj_stage j)) = Live m \<and>
    (rc = 0 \<and> cj_launched j \<and> cj_copied j \<longrightarrow> job_image fl mem j m)"
proof -
  let ?s1 = "s\<lparr>cs_jobs := cs_jobs s @ [j]\<rparr>" and ?s2 = "s\<lparr>cs_jobs := cs_jobs s @ j # ks\<rparr>"
  let ?e = "cs_done s + length (cs_jobs s) + 1"
  have o1: "stream_ok mem ?s1" using stream_ok_append assms(1,2) by blast
  have "\<forall>k \<in> set ks. job_ok mem ?s1 k" using assms(3) by (simp add: job_ok_def)
  from conv_all_steady [OF o1 this assms(4,5)] have c: "conv_all q malloc host_alloc ?s1 ks = Some ?s2" "stream_ok mem ?s2" by simp_all
  have jobs: "\<forall>k \<in> set (cs_jobs ?s2). job_ok mem ?s2 k" using c(2) by (simp add: stream_ok_def)
  let ?n = "(if rc = 0 then ?e - cs_done s else 0) + extra"
  obtain d where d: "stream_run fl sched mem ?n ?s2 = Some d" "same_sizes ?s2 d"
    using stream_run_ok [where sched = sched and fl = fl and n = ?n, OF assms(6) jobs] by blast
  have w: "conv_wait_event fl sched mem rc extra ?e ?s2 = Some (rc, d)" using d(1) by (cases "rc = 0") (simp_all add: conv_wait_event_def del: stream_run.simps)
  have "job_ok mem d j" using same_sizes_job [OF d(2)] jobs by simp
  then have "0 < length (contents (cs_stage d ! cj_stage j))" by (auto simp: job_ok_def)
  then obtain m where m: "db_ptr (cs_stage d ! cj_stage j) = Live m"
    by (cases "db_ptr (cs_stage d ! cj_stage j)") (simp_all add: contents_def)
  have "cj_stage j < N_STAGE" using assms(1,2) by (simp add: job_ok_def stream_ok_def)
  then have p: "conv_stage_ptr d (int (cj_stage j)) = Live m" using m by (simp add: conv_stage_ptr_def)
  have "job_image fl mem j m" if "rc = 0" "cj_launched j" "cj_copied j"
  proof -
    have "stream_run fl sched mem (length (cs_jobs s) + Suc extra) ?s2 = Some d" using d(1) that(1) by (simp del: stream_run.simps)
    from staged_image [OF assms(6) jobs _ _ that(2,3) this, of ks] show ?thesis using assms(3) m by (simp add: contents_def)
  qed
  then show ?thesis using conv_async_steady [OF assms(1,2,4,5)] c(1) w p by blast
qed

definition demo_mem :: "nat \<Rightarrow> bytes" where
  "demo_mem a = (if a = 0 then [116, 16, 16, 16] else [128, 128])"

definition demo_job :: "nat \<Rightarrow> conv_job" where
  "demo_job k = \<lparr>cj_im = grey_image, cj_y = 0, cj_uv = 1, cj_stage = k, cj_ow = 1, cj_oh = 1, cj_launched = True, cj_copied = True\<rparr>"

definition demo_stream :: conv_state where
  "demo_stream = (let b = \<lparr>db_ptr = Live [0, 0, 0, 0], db_cap = 4\<rparr>
     in \<lparr>cs_inited = True, cs_stage = [b, b, b], cs_dbg = b, cs_jobs = [demo_job 0, demo_job 2], cs_done = 5\<rparr>)"

definition good_answers :: conv_answers where
  "good_answers = \<lparr>ca_set_device = True, ca_stream = True, ca_launch = True, ca_copy = True, ca_event = True, ca_record = True\<rparr>"

theorem conv_stage_holds_frame_witness:
  "\<exists>s1 s2 s3 m.
    conv_async good_answers (\<lambda>_. None) (\<lambda>_. None)
      demo_stream 0 1 grey_image 2 1 1 True = Some (0, Some 8, s1) \<and>
    conv_all good_answers (\<lambda>_. None) (\<lambda>_. None) s1 [demo_job 1] = Some s2 \<and>
    conv_wait_event (separate id) rev demo_mem 0 1 8 s2 = Some (0, s3) \<and> conv_stage_ptr s3 2 = Live m \<and> take 4 m = [116, 116, 116, 0]"
proof -
  have j: "job_ok demo_mem demo_stream (demo_job k)" if "k < 3" for k
    using that by (auto simp: job_ok_def demo_job_def demo_stream_def demo_mem_def planes_ok_def grey_image_def Let_def contents_def less_Suc_eq numeral_3_eq_3)
  have s: "stream_ok demo_mem demo_stream"
    using j [of 0] j [of 2] unfolding stream_ok_def by (simp add: demo_stream_def Let_def N_STAGE_def buf_ok_def)
  have k: "\<forall>k \<in> set [demo_job 1]. job_ok demo_mem demo_stream k \<and> cj_stage k \<noteq> cj_stage (demo_job 2)"
    using j [of 1] by (simp add: demo_job_def)
  have r: "mset (rev ts) = mset ts" for ts :: "(nat \<times> nat) list" by simp
  have q: "ca_event good_answers" "ca_record good_answers" "job_answers good_answers (demo_job k) = good_answers" for k
    by (simp_all add: good_answers_def job_answers_def demo_job_def)
  have e: "expected_pixel (separate id) grey_image [116, 16, 16, 16] [128, 128] 1 1 0 0 = [116, 116, 116, 0]"
    by (simp add: expected_pixel_def source_pixel_def grey_image_def grey_pixel)
  have i: "take 4 m = [116, 116, 116, 0]" if "job_image (separate id) demo_mem (demo_job 2) m" for m
    using that e by (simp add: job_image_def demo_job_def demo_mem_def pixel_def mem_read_def)
  have a: "e = 8" if "conv_async good_answers (\<lambda>_. None) (\<lambda>_. None) demo_stream (cj_y (demo_job 2)) (cj_uv (demo_job 2)) (cj_im (demo_job 2))
      (int (cj_stage (demo_job 2))) (cj_ow (demo_job 2)) (cj_oh (demo_job 2)) True = Some (0, Some e, s1)" for e s1
    using that conv_async_steady [OF s j [of 2] q(1,2), of "\<lambda>_. None" "\<lambda>_. None"] unfolding q(3) by (simp add: demo_stream_def Let_def)
  show ?thesis
    using conv_stage_holds_frame [where sched = rev and fl = "separate id" and rc = 0 and extra = 1 and q = good_answers and malloc = "\<lambda>_. None" and host_alloc = "\<lambda>_. None",
        OF s j [of 2] k q(1,2) r] a i unfolding q(3) by (simp add: demo_job_def) blast
qed

end
