(* ===== verification/Dash_Server.thy ===== *)
theory Dash_Server
  imports Http_Client Dash_Manifest
begin

text \<open>
  The live-stream server of the test bench, \<^verbatim>\<open>tools/vmc-dash-sim/main.c\<close>: reading and rewriting the
  manifest, the encoder's arguments, the answers to requests with segments that are complete or still
  being written, the watchdog over the encoder, and what is reported to the telemetry. Files are
  their contents at the moments at which the code looks at them; a connection is what it still
  accepts. The encoder and the network are not modelled.
\<close>

section \<open>The manifest on disk\<close>

text \<open>A file read into a buffer with room for \<open>n\<close> bytes: the C string it holds, \<open>None\<close> without a file or bytes.\<close>

definition read_text :: "nat \<Rightarrow> string option \<Rightarrow> string option" where
  "read_text n file = (case file of None \<Rightarrow> None | Some b \<Rightarrow> if b = [] then None else Some (c_string (take n b)))"

definition parse_avail_start_us :: "float_ops \<Rightarrow> string option \<Rightarrow> int" where
  "parse_avail_start_us fl file =
     (case do { s \<leftarrow> read_text 16383 file; v \<leftarrow> attr_value ''availabilityStartTime'' s;
                (y, s) \<leftarrow> scan_int v; s \<leftarrow> expect (CHR ''-'') s;
                (mo, s) \<leftarrow> scan_int s; s \<leftarrow> expect (CHR ''-'') s;
                (d, s) \<leftarrow> scan_int s; s \<leftarrow> expect (CHR ''T'') s;
                (h, s) \<leftarrow> scan_int s; s \<leftarrow> expect (CHR '':'') s;
                (mi, s) \<leftarrow> scan_int s; s \<leftarrow> expect (CHR '':'') s;
                (m, e, _) \<leftarrow> scan_decimal s;
                Some (y, mo, d, h, mi, m, e) } of
        None \<Rightarrow> 0
      | Some (y, mo, d, h, mi, m, e) \<Rightarrow>
          let epoch = timegm y (mo - 1) d h mi (fl_int fl m e)
          in if epoch < 0 then 0 else epoch * 1000000 + fl_frac fl m e)"

definition read_start_number :: "string option \<Rightarrow> int" where
  "read_start_number file =
     (case do { s \<leftarrow> read_text 16383 file; after_attr ''startNumber'' s } of None \<Rightarrow> 0 | Some v \<Rightarrow> atoi v)"

definition dynamic_attr :: string where "dynamic_attr = ''type='' @ [quote] @ ''dynamic'' @ [quote]"
definition static_attr :: string where "static_attr = ''type='' @ [quote] @ ''static'' @ [quote]"

fun static_text :: "string \<Rightarrow> string" where
  "static_text [] = []"
| "static_text (c # s) =
     (if prefix dynamic_attr (c # s) then static_attr @ static_text (drop 13 s) else c # static_text s)"

text \<open>The manifest after the end of the input; allocation and the second opening may fail.\<close>

definition patch_mpd_static :: "bool \<Rightarrow> bool \<Rightarrow> string option \<Rightarrow> string option" where
  "patch_mpd_static malloc_ok open_ok file =
     (case read_text 65535 file of
        None \<Rightarrow> file
      | Some s \<Rightarrow>
          if strstr s static_attr \<noteq> None \<or> \<not> malloc_ok \<or> \<not> open_ok then file else Some (static_text s))"

section \<open>The encoder\<close>

record media_info =
  mi_fps :: int
  mi_duration_s :: int
  mi_sample_rate :: int

text \<open>
  The lines printed by the two probes, if they could be run; \<open>round_s\<close> is \<open>(int)(atof(line) + 0.5)\<close>.
\<close>

definition probe_rate :: "string \<Rightarrow> int" where
  "probe_rate line =
     (case do { (num, s) \<leftarrow> scan_int line; s \<leftarrow> expect (CHR ''/'') s; (den, _) \<leftarrow> scan_int s; Some (num, den) } of
        Some (num, den) \<Rightarrow> if den > 0 then c_div num den else 0
      | None \<Rightarrow> 0)"

definition probe_media :: "(string \<Rightarrow> int) \<Rightarrow> string list \<Rightarrow> string list \<Rightarrow> int \<times> media_info" where
  "probe_media round_s video audio =
     (let mi = \<lparr>mi_fps = (case video of l # _ \<Rightarrow> probe_rate l | [] \<Rightarrow> 0),
                mi_duration_s = (case video of _ # l # _ \<Rightarrow> round_s l | _ \<Rightarrow> 0),
                mi_sample_rate = (case audio of l # _ \<Rightarrow> atoi l | [] \<Rightarrow> 0)\<rparr>
      in (if mi_fps mi > 0 \<and> mi_duration_s mi > 0 then 0 else - 1, mi))"

text \<open>
  The command line of the encoder. \<open>probe\<close> is the result of probing the input. Texts built in fixed
  buffers are cut to their size.
\<close>

definition dash_bitrate :: "int \<Rightarrow> int \<Rightarrow> int" where
  "dash_bitrate width height = (let b = width * height * 3 in if b < 5000000 then 5000000 else b)"

definition source_args :: "bool \<Rightarrow> (string \<times> int \<times> media_info) option \<Rightarrow> string \<Rightarrow> string list \<times> bool" where
  "source_args play_once input generated =
     (case input of
        None \<Rightarrow> ([''-re'', ''-f'', ''lavfi'', ''-i'', generated], False)
      | Some (file, rc, mi) \<Rightarrow>
          if rc = 0 \<and> mi_fps mi > 0
          then let loop = int_string (if play_once then 1 else 0);
                   v = take 511 (''movie='' @ file @ '':loop='' @ loop @ '',setpts=N/('' @ int_string (mi_fps mi) @ ''*TB)'');
                   a = take 511 (''amovie='' @ file @ '':loop='' @ loop @ '',asetpts=N/'' @ int_string (mi_sample_rate mi) @ ''/TB'');
                   has_audio = (mi_sample_rate mi > 0 \<and> mi_duration_s mi > 0)
               in ([''-re'', ''-f'', ''lavfi'', ''-i'', v] @ (if has_audio then [''-re'', ''-f'', ''lavfi'', ''-i'', a] else []), has_audio)
          else ([''-re'', ''-stream_loop'', ''-1'', ''-i'', file], False))"

definition dash_encoder_args :: "bool \<Rightarrow> (string \<times> int \<times> media_info) option \<Rightarrow> int \<Rightarrow> int \<Rightarrow> int \<Rightarrow> string \<Rightarrow> string list" where
  "dash_encoder_args play_once input width height fps outdir =
     (let w = (if width \<le> 0 then 1280 else width);
          h = (if height \<le> 0 then 720 else height);
          f = (if fps \<le> 0 then (if input \<noteq> None then 24 else 30) else fps);
          br = dash_bitrate w h;
          size = take 63 (''testsrc2=size='' @ int_string w @ ''x'' @ int_string h @ '':rate='' @ int_string f);
          (src, has_audio) = source_args play_once input size;
          g = take 15 (int_string (case input of Some (_, rc, mi) \<Rightarrow> if rc = 0 \<and> mi_fps mi > 0 then mi_fps mi else f | None \<Rightarrow> f))
      in [''ffmpeg'', ''-y'', ''-hide_banner'', ''-loglevel'', ''error''] @ src @ [''-map'', ''0:v:0'']
         @ (if has_audio then [''-map'', ''1:a:0'', ''-c:a'', ''aac'', ''-b:a'', ''128000''] else [])
         @ [''-c:v'', ''h264_nvenc'', ''-preset'', ''p1'', ''-tune'', ''ll'', ''-rc'', ''vbr'', ''-b:v'', int_string br,
            ''-maxrate'', int_string (c_div (br * 12) 10), ''-bufsize'', int_string (c_div br 2), ''-g'', g, ''-keyint_min'', g,
            ''-sc_threshold'', ''0'', ''-f'', ''dash'', ''-streaming'', ''1'', ''-use_timeline'', ''1'', ''-use_template'', ''1'',
            ''-seg_duration'', ''1'', ''-window_size'', ''100'', ''-extra_window_size'', ''50'', ''-index_correction'', ''1'',
            ''-ldash'', ''1'', take 319 (outdir @ ''/live.mpd'')])"

section \<open>Connections\<close>

text \<open>
  A connection either stays open or breaks after \<open>sk_cap\<close> bytes; a write that does not fit is cut and
  reported.
\<close>

record sock =
  sk_cap :: "nat option"
  sk_sent :: string

definition sk_write :: "string \<Rightarrow> sock \<Rightarrow> bool \<times> sock" where
  "sk_write d s =
     (case sk_cap s of
        None \<Rightarrow> (True, s\<lparr>sk_sent := sk_sent s @ d\<rparr>)
      | Some c \<Rightarrow> (length (sk_sent s) + length d \<le> c, s\<lparr>sk_sent := sk_sent s @ take (c - length (sk_sent s)) d\<rparr>))"

definition sk_put :: "string \<Rightarrow> sock \<Rightarrow> sock" where
  "sk_put d s = snd (sk_write d s)"

definition length_line :: "int \<Rightarrow> bool \<Rightarrow> string" where
  "length_line len chunked =
     (if chunked then ''Transfer-Encoding: chunked'' @ crlf
      else if len \<ge> 0 then take 31 (''Content-Length: '' @ int_string len @ crlf) else [])"

definition head_text :: "int \<Rightarrow> string \<Rightarrow> int \<Rightarrow> bool \<Rightarrow> string" where
  "head_text code ct len chunked =
     ''HTTP/1.1 '' @ int_string code @ '' OK'' @ crlf @ ''Content-Type: '' @ ct @ crlf @ length_line len chunked
     @ ''Cache-Control: no-cache'' @ crlf @ ''Connection: close'' @ crlf @ ''Access-Control-Allow-Origin: *'' @ crlf @ crlf"

definition http_headers :: "int \<Rightarrow> string \<Rightarrow> int \<Rightarrow> bool \<Rightarrow> sock \<Rightarrow> sock" where
  "http_headers code ct len chunked = sk_put (head_text code ct len chunked)"

definition not_found :: "sock \<Rightarrow> sock" where
  "not_found s = sk_put (''Not Found'' @ [CHR 0x0A]) (http_headers 404 ''text/plain'' (- 1) False s)"

text \<open>The highest number among the names of a stream; \<open>- 1\<close> when there is none.\<close>

definition newest_seg :: "string list \<Rightarrow> int \<Rightarrow> int" where
  "newest_seg names stream =
     (let p = take 63 (''chunk-stream'' @ int_string stream @ ''-'')
      in foldl (\<lambda>best n. if prefix p n \<and> atoi (drop (length p) n) > best then atoi (drop (length p) n) else best) (- 1) names)"

section \<open>Files\<close>

function send_blocks :: "string \<Rightarrow> sock \<Rightarrow> sock" where
  "send_blocks d s =
     (if d = [] then s
      else case sk_write (take 65536 d) s of (ok, s1) \<Rightarrow> if ok then send_blocks (drop 65536 d) s1 else s1)"
  by pat_completeness auto

termination by (relation "measure (length \<circ> fst)") auto

declare send_blocks.simps [simp del]

definition serve_full :: "string option \<Rightarrow> string \<Rightarrow> sock \<Rightarrow> sock" where
  "serve_full file ct s =
     (case file of None \<Rightarrow> not_found s | Some c \<Rightarrow> send_blocks c (http_headers 200 ct (int (length c)) False s))"

text \<open>One chunk; the value is whether its data went out in full.\<close>

definition send_chunk :: "string \<Rightarrow> sock \<Rightarrow> bool \<times> sock" where
  "send_chunk d s =
     (case sk_write d (sk_put (hex_string (length d) @ crlf) s) of
        (ok, s1) \<Rightarrow> if ok then (True, sk_put crlf s1) else (False, s1))"

definition last_chunk :: "sock \<Rightarrow> sock" where
  "last_chunk = sk_put (''0'' @ crlf @ crlf)"

function chunk_blocks :: "string \<Rightarrow> sock \<Rightarrow> sock" where
  "chunk_blocks d s =
     (if d = [] then s
      else case send_chunk (take 65536 d) s of (ok, s1) \<Rightarrow> if ok then chunk_blocks (drop 65536 d) s1 else s1)"
  by pat_completeness auto

termination by (relation "measure (length \<circ> fst)") auto

declare chunk_blocks.simps [simp del]

text \<open>
  The rounds over a segment that is being written: its bytes when the round looks, whether its
  temporary name still exists afterwards, whether the server still runs. \<open>None\<close> means that the
  rounds ended while the loop still waits.
\<close>

record prog_round =
  pr_bytes :: string
  pr_exists :: bool
  pr_run :: bool

fun prog_loop :: "nat \<Rightarrow> sock \<Rightarrow> prog_round list \<Rightarrow> (nat \<times> sock) option" where
  "prog_loop off s [] = None"
| "prog_loop off s (r # rs) =
     (let d = take 65536 (drop off (pr_bytes r));
          (go, off1, s1) = (if length (pr_bytes r) > off
                            then case send_chunk d s of (ok, s1) \<Rightarrow> if ok then (True, off + length d, s1) else (False, off, s1)
                            else (True, off, s))
      in if \<not> go \<or> \<not> pr_exists r \<or> \<not> pr_run r then Some (off1, s1) else prog_loop off1 s1 rs)"

text \<open>What is left in the finished segment, if it is there and can be read, and the end of the body.\<close>

definition send_tail :: "string option \<Rightarrow> bool \<Rightarrow> nat \<Rightarrow> sock \<Rightarrow> sock" where
  "send_tail final readable off s =
     (case final of
        None \<Rightarrow> s
      | Some c \<Rightarrow> if length c > off \<and> readable
                  then (let (ok, s1) = sk_write (drop off c) (sk_put (hex_string (length c - off) @ crlf) s) in sk_put crlf s1) else s)"

text \<open>\<open>tmp\<close> are the rounds when the temporary file can be opened.\<close>

definition serve_progressive ::
  "prog_round list option \<Rightarrow> string option \<Rightarrow> bool \<Rightarrow> string \<Rightarrow> sock \<Rightarrow> sock option" where
  "serve_progressive tmp final readable ct s =
     (let s0 = http_headers 200 ct (- 1) True s
      in case tmp of
           None \<Rightarrow> Some (last_chunk (case final of None \<Rightarrow> s0 | Some c \<Rightarrow> chunk_blocks c s0))
         | Some rs \<Rightarrow>
             (case prog_loop 0 s0 rs of
                None \<Rightarrow> None
              | Some (off, s1) \<Rightarrow> Some (last_chunk (send_tail final readable off s1))))"


section \<open>Requests\<close>

text \<open>\<open>sscanf\<close> with \<open>"%7s %511s"\<close>.\<close>

definition scan_word :: "nat \<Rightarrow> string \<Rightarrow> (string \<times> string) option" where
  "scan_word n s =
     (let t = dropWhile is_c_space s; w = take n (takeWhile (\<lambda>c. \<not> is_c_space c) t)
      in if w = [] then None else Some (w, drop (length w) t))"

definition scan_request :: "string \<Rightarrow> (string \<times> string) option" where
  "scan_request req = do { (m, r) \<leftarrow> scan_word 7 req; (p, _) \<leftarrow> scan_word 511 r; Some (m, p) }"

text \<open>The line of a request: everything before the first line end in what was received.\<close>

definition request_line :: "string \<Rightarrow> string option" where
  "request_line req =
     (let s = c_string (take 2047 req)
      in case strstr s crlf of None \<Rightarrow> None | Some r \<Rightarrow> Some (take (length s - length r) s))"

definition segment_request :: "string \<Rightarrow> (int \<times> int) option" where
  "segment_request path =
     (if prefix ''/chunk-stream'' path
      then do { (st, r) \<leftarrow> scan_int (drop 13 path); r \<leftarrow> expect (CHR ''-'') r; (n, _) \<leftarrow> scan_int r; Some (st, n) } else None)"

text \<open>
  What the handler does, in order. The names of the complete and of the temporary file follow from the
  path; \<open>Act_Hold_404\<close> is the answer after a fruitless wait, with the segment number that is reported.
\<close>

datatype action = Act_Full string string | Act_Progressive string string string | Act_404 | Act_Hold_404 int

text \<open>
  What a look at the file system finds: whether the server runs, whether the complete and the temporary
  file exist.
\<close>

record fs_view =
  fv_run :: bool
  fv_full :: bool
  fv_tmp :: bool

fun hold :: "string \<Rightarrow> string \<Rightarrow> string \<Rightarrow> fs_view list \<Rightarrow> action list" where
  "hold fp tp ct [] = []"
| "hold fp tp ct (v # vs) =
     (if \<not> fv_run v then []
      else if fv_full v then [Act_Full fp ct]
      else if fv_tmp v then [Act_Progressive tp fp ct]
      else hold fp tp ct vs)"

definition conn_handler ::
  "string \<Rightarrow> (int \<Rightarrow> int) \<Rightarrow> fs_view \<Rightarrow> fs_view list \<Rightarrow> fs_view \<Rightarrow> string \<Rightarrow> action list" where
  "conn_handler outdir newest first waits final req =
     (case do { l \<leftarrow> request_line req; scan_request l } of
        None \<Rightarrow> []
      | Some (m, path) \<Rightarrow>
          if m \<noteq> ''GET'' then []
          else if path = ''/live.mpd'' then [Act_Full (take 511 (outdir @ ''/live.mpd'')) ''application/dash+xml'']
          else if hd path = CHR ''/''
          then let fp = take 1023 (outdir @ path); tp = take 1031 (fp @ ''.tmp'');
                   ct = (if strstr path ''.mpd'' \<noteq> None then ''application/dash+xml'' else ''video/iso.segment'')
               in if fv_full first then [Act_Full fp ct]
                  else if fv_tmp first then [Act_Progressive tp fp ct]
                  else if (case segment_request path of Some (st, n) \<Rightarrow> newest st \<ge> 0 \<and> n > newest st + 30 | None \<Rightarrow> False)
                  then [Act_404]
                  else hold fp tp ct (take 500 waits)
                       @ (if fv_run final \<and> \<not> fv_full final \<and> \<not> fv_tmp final
                          then [Act_Hold_404 (case segment_request path of Some (_, n) \<Rightarrow> n | None \<Rightarrow> - 1)] else [])
          else [Act_404])"

section \<open>The watchdog\<close>

text \<open>The newest modification time among the segments, in milliseconds; 0 when there is none.\<close>

definition newest_chunk_ms :: "(string \<times> (u64 \<times> u64) option) list \<Rightarrow> u64" where
  "newest_chunk_ms files =
     foldl (\<lambda>best (n, t). case t of
              Some (sec, nsec) \<Rightarrow> if prefix ''chunk-stream'' n \<and> sec * 1000 + nsec div 1000000 > best then sec * 1000 + nsec div 1000000 else best
            | None \<Rightarrow> best) 0 files"

record dash_server =
  sv_pid :: int
  sv_play_once :: bool
  sv_eos :: bool
  sv_files :: "string list"

datatype srv_event = Encoder_Restart | Eos int

text \<open>A restart: the old encoder is stopped, the files are removed, a new encoder is started, which may fail.\<close>

definition ffmpeg_respawn :: "int \<Rightarrow> dash_server \<Rightarrow> dash_server" where
  "ffmpeg_respawn fork s =
     (let s1 = s\<lparr>sv_pid := (if sv_pid s > 0 then - 1 else sv_pid s), sv_files := filter (\<lambda>n. n \<noteq> [] \<and> hd n = CHR ''.'') (sv_files s)\<rparr>
      in if fork < 0 then s1 else s1\<lparr>sv_pid := fork\<rparr>)"

text \<open>
  One turn. \<open>exited\<close> tells whether the encoder has ended and whether it did so by itself with status 0;
  the clock and the newest segment are in milliseconds. The value holds the reports, and whether the
  manifest is rewritten as static.
\<close>

definition watchdog :: "int \<Rightarrow> bool option \<Rightarrow> u64 \<Rightarrow> u64 \<Rightarrow> dash_server \<Rightarrow> dash_server \<times> srv_event list \<times> bool" where
  "watchdog fork exited now_ms last_ms s =
     (if sv_pid s \<le> 0 then (s, [], False)
      else case exited of
             Some clean \<Rightarrow>
               if sv_play_once s \<and> clean \<and> \<not> sv_eos s
               then (s\<lparr>sv_eos := True, sv_pid := - 1\<rparr>, [Eos (newest_seg (sv_files s) 0)], True)
               else (ffmpeg_respawn fork s, [Encoder_Restart], False)
           | None \<Rightarrow>
               if \<not> sv_eos s \<and> last_ms > 0 \<and> now_ms > last_ms \<and> now_ms - last_ms > 10000
               then (ffmpeg_respawn fork s, [Encoder_Restart], False)
               else (s, [], False))"

section \<open>Reports\<close>

text \<open>The segments that are reported when the newest one is \<open>ns\<close> and \<open>l\<close> was the newest before.\<close>

definition publish :: "int \<Rightarrow> int \<Rightarrow> int \<times> int list" where
  "publish ns l = (if ns > l then (ns, [l + 1..ns]) else (l, []))"

text \<open>The manifest report: the anchor and the start number last seen, and the report if one is made.\<close>

definition mpd_update :: "float_ops \<Rightarrow> string option \<Rightarrow> int \<times> int \<Rightarrow> (int \<times> int) \<times> (int \<times> int) option" where
  "mpd_update fl file st =
     (case file of
        None \<Rightarrow> (st, None)
      | Some _ \<Rightarrow>
          (case st of (last_avail, last_sn) \<Rightarrow>
             let avail = parse_avail_start_us fl file;
                 la = (if avail > 0 then avail else last_avail);
                 sn = read_start_number file
             in if sn \<noteq> last_sn \<or> last_sn = - 1 then ((la, sn), Some (sn, la)) else ((la, last_sn), None)))"

section \<open>The command line\<close>

record dash_args =
  da_input :: "string option"
  da_port :: u16
  da_width :: int
  da_height :: int
  da_fps :: int
  da_play_once :: bool
  da_log_level :: int

definition default_dash_args :: dash_args where
  "default_dash_args = \<lparr>da_input = None, da_port = 8080, da_width = 0, da_height = 0, da_fps = 0, da_play_once = False, da_log_level = 2\<rparr>"

fun parse_dash_args :: "dash_args \<Rightarrow> string list \<Rightarrow> dash_args" where
  "parse_dash_args d [] = d"
| "parse_dash_args d (a # as) =
     (if a = ''--input'' \<and> as \<noteq> [] then parse_dash_args (d\<lparr>da_input := Some (hd as)\<rparr>) (tl as)
      else if a = ''--fps'' \<and> as \<noteq> [] then parse_dash_args (d\<lparr>da_fps := atoi (hd as)\<rparr>) (tl as)
      else if a = ''--port'' \<and> as \<noteq> [] then parse_dash_args (d\<lparr>da_port := of_int (atoi (hd as))\<rparr>) (tl as)
      else if a = ''--play-once'' then parse_dash_args (d\<lparr>da_play_once := True\<rparr>) as
      else if a = ''--log-level'' \<and> as \<noteq> []
      then parse_dash_args (d\<lparr>da_log_level := max 0 (min 4 (atoi (hd as)))\<rparr>) (tl as)
      else if da_width d = 0 then parse_dash_args (d\<lparr>da_width := atoi a\<rparr>) as
      else if da_height d = 0 then parse_dash_args (d\<lparr>da_height := atoi a\<rparr>) as
      else parse_dash_args d as)"


section \<open>The client reads the server's heads\<close>

definition head_front :: "string \<Rightarrow> string" where
  "head_front ct = status_line @ ''Content-Type: '' @ ct @ crlf"

definition head_rest :: string where
  "head_rest = ''Cache-Control: no-cache'' @ crlf @ ''Connection: close'' @ crlf @ ''Access-Control-Allow-Origin: *'' @ crlf @ crlf"

lemma int_string_200: "int_string 200 = ''200''"
  by code_simp

lemma head_text_200: "head_text 200 ct len chunked = head_front ct @ length_line len chunked @ head_rest"
  by (simp add: head_text_def int_string_200 head_front_def head_rest_def status_line_def)

lemma quiet_rest: "quiet (crlf @ head_rest)" "quiet head_rest"
  by (simp_all add: head_rest_def crlf_def quiet_eval del: quiet.simps)

lemma quiet_front:
  assumes "ct = ''video/iso.segment'' \<or> ct = ''application/dash+xml''"
  shows "quiet (head_front ct @ ''Transfer-'')" "quiet (head_front ct @ ''Content-L'')"
  using assms by (auto simp: head_front_def status_line_def crlf_def quiet_eval simp del: quiet.simps)

lemma header_end_rest: "header_end i (crlf @ head_rest @ t) = i + length (crlf @ head_rest)"
  by (simp add: head_rest_def crlf_def)

lemma header_end_front:
  assumes "ct = ''video/iso.segment'' \<or> ct = ''application/dash+xml''" "x \<noteq> CHR 0x0D"
  shows "header_end i (head_front ct @ x # y # z # t) = header_end (i + length (head_front ct)) (x # y # z # t)"
  using assms by (auto simp: head_front_def status_line_def crlf_def)


lemma dec_string_length: "n < 10 ^ Suc k \<Longrightarrow> length (dec_string n) \<le> Suc k"
proof (induction k arbitrary: n)
  case 0
  then show ?case by (simp add: dec_string.simps [of n])
next
  case (Suc k)
  show ?case
  proof (cases "n < 10")
    case True
    then show ?thesis by (simp add: dec_string.simps [of n])
  next
    case False
    have "n div 10 < 10 ^ Suc k" using Suc.prems by (simp add: less_mult_imp_div_less)
    then show ?thesis using Suc.IH [of "n div 10"] False by (simp add: dec_string.simps [of n])
  qed
qed

lemma http_parse_segment:
  assumes "ct = ''video/iso.segment'' \<or> ct = ''application/dash+xml''"
  shows "http_parse realloc_ok malloc_ok st (head_text 200 ct (- 1) True @ s) junk =
     (case decode_chunks realloc_ok s [] 0 of
        None \<Rightarrow> None
      | Some None \<Rightarrow> Some (http_fail 200 None)
      | Some (Some b) \<Rightarrow> Some (http_ok st b))"
proof -
  let ?h = "head_text 200 ct (- 1) True"
  have h: "?h = head_front ct @ ''Transfer-Encoding: chunked'' @ (crlf @ head_rest)" by (simp add: head_text_200 length_line_def)
  have q: "quiet (''ransfer-Encoding: chunked'' @ crlf @ head_rest)"
    using quiet_rest(2) by (simp add: crlf_def quiet_eval del: quiet.simps)
  have len: "length ?h = length (head_front ct) + 26 + length (crlf @ head_rest)" by (simp add: h)
  have e: "header_end 0 (?h @ s) = length ?h"
  proof -
    have "header_end 0 (?h @ s) = header_end (length (head_front ct)) (''Transfer-Encoding: chunked'' @ crlf @ head_rest @ s)"
      using header_end_front [OF assms, of "CHR ''T''" 0 "CHR ''r''" "CHR ''a''" "''nsfer-Encoding: chunked'' @ crlf @ head_rest @ s"] by (simp add: h)
    also have "\<dots> = header_end (length (head_front ct) + 26) (crlf @ head_rest @ s)"
      by (subst header_end_skip) (simp_all add: crlf_def head_rest_def)
    finally show ?thesis using header_end_rest len by simp
  qed
  have "?h @ s = status_line @ (''Content-Type: '' @ ct @ crlf @ ''Transfer-Encoding: chunked'' @ crlf @ head_rest @ s)"
    by (simp add: h head_front_def)
  then have "length (?h @ s) \<ge> 12" "http_status (?h @ s) junk = 200" using status_line_ok by metis+
  moreover have "scan_headers (length ?h) (?h @ s @ junk) (False, - 1) = (True, - 1)"
    using chunked_scan [OF quiet_front(1) [OF assms] q, of "s @ junk" "(False, - 1)"] unfolding len by (simp add: h)
  moreover have "length ?h \<noteq> 0" using len by simp
  ultimately show ?thesis using e by (simp add: http_parse_def not_less del: length_append split: option.split)
qed

lemma http_parse_full:
  assumes "ct = ''video/iso.segment'' \<or> ct = ''application/dash+xml''" "n < 10 ^ 13" "\<forall>k. malloc_ok k"
  shows "http_parse realloc_ok malloc_ok st (head_text 200 ct (int n) False @ s) junk = Some (http_ok st (take n s))"
proof -
  let ?h = "head_text 200 ct (int n) False" and ?d = "dec_string n"
  have "length ?d \<le> 13" using dec_string_length [of n 12] assms(2) by simp
  then have "length_line (int n) False = ''Content-Length: '' @ ?d @ crlf" by (simp add: length_line_def int_string_def crlf_def)
  then have h: "?h = head_front ct @ ''Content-Length: '' @ ?d @ crlf @ head_rest" by (simp add: head_text_200)
  have len: "length ?h = length (head_front ct) + 18 + length ?d + length head_rest" by (simp add: h crlf_def)
  have d: "CHR 0x0D \<notin> set ?d" using dec_string_digits [of "CHR 0x0D" n] by (auto simp: digit_val_def)
  have e: "header_end 0 (?h @ s) = length ?h"
  proof -
    have "header_end 0 (?h @ s) = header_end (length (head_front ct)) ((''Content-Length: '' @ ?d) @ crlf @ head_rest @ s)"
      using header_end_front [OF assms(1), of "CHR ''C''" 0 "CHR ''o''" "CHR ''n''" "''tent-Length: '' @ ?d @ crlf @ head_rest @ s"] by (simp add: h)
    also have "\<dots> = header_end (length (head_front ct) + 16 + length ?d) (crlf @ head_rest @ s)"
      using d by (subst header_end_skip) (auto simp: crlf_def head_rest_def)
    finally show ?thesis using header_end_rest len by (simp add: crlf_def)
  qed
  have "?h @ s = status_line @ (''Content-Type: '' @ ct @ crlf @ ''Content-Length: '' @ ?d @ crlf @ head_rest @ s)"
    by (simp add: h head_front_def)
  then have st: "length (?h @ s) \<ge> 12" "http_status (?h @ s) junk = 200" using status_line_ok by metis+
  have "n < 2 ^ 63" using assms(2) by simp
  moreover have "2 \<le> length head_rest" by (simp add: head_rest_def)
  ultimately have "scan_headers (length ?h) (?h @ s @ junk) (False, - 1) = (False, int n)"
    using length_scan [OF _ quiet_front(2) [OF assms(1)] quiet_length_line [OF quiet_rest(2)], of n "s @ junk" "(False, - 1)"]
    unfolding len by (simp add: h)
  moreover have "length ?h \<noteq> 0" using len by simp
  ultimately show ?thesis using e st assms(3) by (simp add: http_parse_def not_less plain_body_def del: length_append)
qed


section \<open>What an open connection carries\<close>

definition sk_add :: "sock \<Rightarrow> string \<Rightarrow> sock" where
  "sk_add s t = s\<lparr>sk_sent := sk_sent s @ t\<rparr>"

lemma sk_add_simps [simp]:
  "sk_cap (sk_add s t) = sk_cap s" "sk_sent (sk_add s t) = sk_sent s @ t" "sk_add (sk_add s t) u = sk_add s (t @ u)" "sk_add s [] = s"
  by (simp_all add: sk_add_def)

lemma open_put: "sk_cap s = None \<Longrightarrow> sk_put d s = sk_add s d" "sk_cap s = None \<Longrightarrow> sk_write d s = (True, sk_add s d)"
  by (simp_all add: sk_put_def sk_write_def sk_add_def)

lemma open_chunk: "sk_cap s = None \<Longrightarrow> send_chunk d s = (True, sk_add s (encode_chunk d))"
  by (simp add: send_chunk_def open_put encode_chunk_def)

lemma open_blocks: "sk_cap s = None \<Longrightarrow> send_blocks d s = sk_add s d"
proof (induction d s rule: send_blocks.induct)
  case (1 d s)
  show ?case
  proof (cases "d = []")
    case False
    then have "send_blocks (drop 65536 d) (sk_add s (take 65536 d)) = sk_add (sk_add s (take 65536 d)) (drop 65536 d)"
      using 1 by (simp add: open_put)
    then show ?thesis using False 1(2) by (subst send_blocks.simps) (simp add: open_put)
  qed (simp add: send_blocks.simps)
qed

lemma open_chunk_blocks:
  "sk_cap s = None \<Longrightarrow> \<exists>cs. chunk_blocks d s = sk_add s (concat (map encode_chunk cs)) \<and> concat cs = d \<and> [] \<notin> set cs"
proof (induction d s rule: chunk_blocks.induct)
  case (1 d s)
  show ?case
  proof (cases "d = []")
    case False
    let ?s = "sk_add s (encode_chunk (take 65536 d))"
    obtain cs where cs: "chunk_blocks (drop 65536 d) ?s = sk_add ?s (concat (map encode_chunk cs))" "concat cs = drop 65536 d" "[] \<notin> set cs"
      using 1 False by (auto simp: open_chunk)
    have "chunk_blocks d s = sk_add s (concat (map encode_chunk (take 65536 d # cs)))"
      using False 1(2) cs(1) by (subst chunk_blocks.simps) (simp add: open_chunk)
    then show ?thesis using False cs by (intro exI [of _ "take 65536 d # cs"]) simp
  qed (simp add: chunk_blocks.simps exI [of _ "[]"])
qed

text \<open>A segment that grows until its temporary name is gone.\<close>

definition growing :: "string \<Rightarrow> prog_round list \<Rightarrow> bool" where
  "growing seg rs \<longleftrightarrow> rs \<noteq> [] \<and> (\<forall>r \<in> set rs. prefix (pr_bytes r) seg) \<and>
     (\<forall>r \<in> set (butlast rs). pr_exists r \<and> pr_run r) \<and> \<not> pr_exists (last rs)"

lemma open_prog_loop:
  assumes "growing seg rs" "sk_cap s = None" "off \<le> length seg"
  shows "\<exists>off' cs. prog_loop off s rs = Some (off', sk_add s (concat (map encode_chunk cs))) \<and> off \<le> off' \<and> off' \<le> length seg \<and>
    take off seg @ concat cs = take off' seg \<and> [] \<notin> set cs"
  using assms
proof (induction rs arbitrary: s off)
  case Nil
  then show ?case by (simp add: growing_def)
next
  case (Cons r rs)
  obtain rest where seg: "seg = pr_bytes r @ rest" using Cons.prems(1) by (auto simp: growing_def prefix_def)
  define d where "d = take 65536 (drop off (pr_bytes r))"
  define off1 where "off1 = (if length (pr_bytes r) > off then off + length d else off)"
  define s1 where "s1 = (if length (pr_bytes r) > off then sk_add s (encode_chunk d) else s)"
  define cs1 where "cs1 = (if length (pr_bytes r) > off then [d] else [])"
  have s1: "s1 = sk_add s (concat (map encode_chunk cs1))" by (simp add: s1_def cs1_def)
  have c1: "sk_cap s1 = None" "[] \<notin> set cs1" "off \<le> off1" "off1 \<le> length seg"
    using Cons.prems(2,3) seg by (auto simp: s1_def cs1_def d_def off1_def)
  have t1: "take off seg @ concat cs1 = take off1 seg"
    using seg by (auto simp: cs1_def off1_def d_def take_add min_def)
  have step: "prog_loop off s (r # rs) = (if \<not> pr_exists r \<or> \<not> pr_run r then Some (off1, s1) else prog_loop off1 s1 rs)"
    using Cons.prems(2) by (simp add: open_chunk d_def [symmetric] off1_def s1_def)
  show ?case
  proof (cases "rs = []")
    case True
    then show ?thesis using Cons.prems(1) step s1 c1 t1 by (intro exI [of _ off1] exI [of _ cs1]) (simp add: growing_def)
  next
    case False
    then have g: "growing seg rs" "pr_exists r" "pr_run r" using Cons.prems(1) by (auto simp: growing_def)
    obtain off' cs where i: "prog_loop off1 s1 rs = Some (off', sk_add s1 (concat (map encode_chunk cs)))" "off1 \<le> off'" "off' \<le> length seg"
      "take off1 seg @ concat cs = take off' seg" "[] \<notin> set cs"
      using Cons.IH [OF g(1) c1(1,4)] by blast
    show ?thesis using step g i s1 c1 t1
      by (intro exI [of _ off'] exI [of _ "cs1 @ cs"]) (simp flip: append_assoc)
  qed
qed


lemma open_progressive:
  assumes "sk_cap s = None" "tmp = None \<or> (\<exists>rs. tmp = Some rs \<and> growing seg rs)"
  shows "\<exists>cs. serve_progressive tmp (Some seg) True ct s = Some (sk_add s (head_text 200 ct (- 1) True @ encode_chunks cs)) \<and>
    concat cs = seg \<and> [] \<notin> set cs"
proof (cases tmp)
  case None
  let ?s = "sk_add s (head_text 200 ct (- 1) True)"
  obtain cs where "chunk_blocks seg ?s = sk_add ?s (concat (map encode_chunk cs))" "concat cs = seg" "[] \<notin> set cs"
    using open_chunk_blocks [of ?s seg] assms(1) by auto
  then show ?thesis using None assms(1)
    by (intro exI [of _ cs]) (simp add: serve_progressive_def http_headers_def open_put last_chunk_def encode_chunks_def)
next
  case (Some rs)
  let ?s = "sk_add s (head_text 200 ct (- 1) True)"
  obtain off cs where l: "prog_loop 0 ?s rs = Some (off, sk_add ?s (concat (map encode_chunk cs)))" "off \<le> length seg" "concat cs = take off seg" "[] \<notin> set cs"
    using open_prog_loop [of seg rs ?s 0] assms Some by auto
  define cs' where "cs' = (if off < length seg then cs @ [drop off seg] else cs)"
  have "send_tail (Some seg) True off (sk_add ?s (concat (map encode_chunk cs))) = sk_add ?s (concat (map encode_chunk cs'))"
    using assms(1) by (simp add: send_tail_def open_put cs'_def encode_chunk_def)
  moreover have "concat cs' = seg" "[] \<notin> set cs'" using l by (auto simp: cs'_def)
  ultimately show ?thesis using Some l(1) assms(1)
    by (intro exI [of _ cs']) (simp add: serve_progressive_def http_headers_def open_put last_chunk_def encode_chunks_def)
qed

text \<open>
  A segment as the server sends it: complete, or while it is being written, or just renamed.
\<close>

definition serves :: "string \<Rightarrow> string \<Rightarrow> sock \<Rightarrow> sock \<Rightarrow> bool" where
  "serves ct seg s s' \<longleftrightarrow> s' = serve_full (Some seg) ct s \<or> serve_progressive None (Some seg) True ct s = Some s' \<or>
     (\<exists>rs. growing seg rs \<and> serve_progressive (Some rs) (Some seg) True ct s = Some s')"

section \<open>Properties\<close>

text \<open>
  C35: From the server's disk to the client's demultiplexer: whether a segment is complete when it is
  requested, is still being written by the encoder, or is renamed while it is sent, the client's
  fetch returns exactly its bytes, however the network cuts the answer, as long as the connection holds;
  and the server never waits longer than the segment is being written.
\<close>

theorem segment_reaches_client:
  assumes "sk_cap s = None" "sk_sent s = []" "serves ''video/iso.segment'' seg s s'"
    and "reaches_server e url timeout_ms" "complete_stream timeout_ms (he_recv0 e + span_us timeout_ms) (he_recv e) (sk_sent s')"
    and "\<forall>n. he_realloc e n" "\<forall>n. he_malloc e n" "length (sk_sent s') < 10 ^ 13"
  shows "(\<exists>r. http_get e url timeout_ms = Some r \<and> hr_body r = Some seg \<and> hr_status r = 200) \<and>
    (\<forall>rs. growing seg rs \<longrightarrow> serve_progressive (Some rs) (Some seg) True ''video/iso.segment'' s \<noteq> None)"
proof -
  let ?ct = "''video/iso.segment''"
  have l: "length (sk_sent s') < 2 ^ 63" using assms(8) by simp
  obtain st where g: "http_get e url timeout_ms = http_parse (he_realloc e) (he_malloc e) (fetch_stats e st) (sk_sent s') (he_junk e)"
    using http_get_complete [OF assms(4,5,6) l] by blast
  have "\<exists>r. http_get e url timeout_ms = Some r \<and> hr_body r = Some seg \<and> hr_status r = 200"
  proof (cases "s' = serve_full (Some seg) ?ct s")
    case True
    then have "sk_sent s' = head_text 200 ?ct (int (length seg)) False @ seg"
      using assms(1,2) by (simp add: serve_full_def http_headers_def open_put open_blocks)
    moreover have "length seg < 10 ^ 13" using calculation assms(8) by simp
    ultimately show ?thesis using http_parse_full [OF _ _ assms(7), of ?ct "length seg"] g by (simp add: http_ok_def)
  next
    case False
    then obtain tmp where t: "serve_progressive tmp (Some seg) True ?ct s = Some s'" "tmp = None \<or> (\<exists>rs. tmp = Some rs \<and> growing seg rs)"
      using assms(3) by (auto simp: serves_def)
    obtain cs where cs: "s' = sk_add s (head_text 200 ?ct (- 1) True @ encode_chunks cs)" "concat cs = seg" "[] \<notin> set cs"
      using open_progressive [OF assms(1) t(2), of ?ct] t(1) by auto
    have "length (concat cs) \<le> length (concat (map encode_chunk cs))" by (induction cs) (auto simp: encode_chunk_def)
    then have "length (concat cs) < 2 ^ 63" using l cs(1) by (simp add: encode_chunks_def)
    moreover have "\<forall>c \<in> set cs. c \<noteq> []" using cs(3) by blast
    ultimately have "decode_chunks (he_realloc e) (encode_chunks cs) [] 0 = Some (Some seg)"
      using decode_encoded [of cs "he_realloc e"] assms(6) cs(2) by simp
    then show ?thesis using g cs(1) assms(2) http_parse_segment [of ?ct] by (simp add: http_ok_def)
  qed
  moreover have "serve_progressive (Some rs) (Some seg) True ?ct s \<noteq> None" if "growing seg rs" for rs
    using open_progressive [OF assms(1), of "Some rs" seg ?ct] that by auto
  ultimately show ?thesis by blast
qed


definition demo_rounds :: "prog_round list" where
  "demo_rounds = [\<lparr>pr_bytes = ''ab'', pr_exists = True, pr_run = True\<rparr>, \<lparr>pr_bytes = ''ab'', pr_exists = True, pr_run = True\<rparr>,
     \<lparr>pr_bytes = ''abc'', pr_exists = False, pr_run = True\<rparr>]"

definition demo_answer :: string where
  "demo_answer = head_text 200 ''video/iso.segment'' (- 1) True @ encode_chunks [''ab'', ''c'', ''de'']"

theorem segment_reaches_client_witness:
  "\<exists>s' r. serve_progressive (Some demo_rounds) (Some ''abcde'') True ''video/iso.segment'' \<lparr>sk_cap = None, sk_sent = []\<rparr> = Some s' \<and>
     http_get (sample_env [ready_round 0 (Inr (sk_sent s')), ready_round 1 (Inr [])]) ''http://h/a'' 5000 = Some r \<and> hr_body r = Some ''abcde''"
proof -
  let ?s = "\<lparr>sk_cap = None, sk_sent = []\<rparr>" and ?s' = "\<lparr>sk_cap = None, sk_sent = demo_answer\<rparr>"
  let ?e = "sample_env [ready_round 0 (Inr (sk_sent ?s')), ready_round 1 (Inr [])]"
  have h: "http_headers 200 ''video/iso.segment'' (- 1) True ?s = sk_add ?s (head_text 200 ''video/iso.segment'' (- 1) True)"
    by (simp add: http_headers_def open_put)
  have p: "serve_progressive (Some demo_rounds) (Some ''abcde'') True ''video/iso.segment'' ?s = Some ?s'"
    unfolding serve_progressive_def h Let_def demo_rounds_def
    by (simp add: open_chunk open_put send_tail_def last_chunk_def sk_add_def demo_answer_def encode_chunks_def encode_chunk_def)
  have g: "growing ''abcde'' demo_rounds" by (auto simp: growing_def demo_rounds_def)
  have n: "demo_answer \<noteq> []" by (simp add: demo_answer_def head_text_def)
  have c: "complete_stream 5000 (he_recv0 ?e + span_us 5000) (he_recv ?e) (sk_sent ?s')"
    using n by (simp add: complete_stream_def sample_env_def ready_round_def span_us_def)
  have l: "length (sk_sent ?s') < 10 ^ 13"
    by (simp add: demo_answer_def head_text_200 head_front_def status_line_def crlf_def length_line_def head_rest_def encode_chunks_def encode_chunk_def hex_string.simps)
  have "serves ''video/iso.segment'' ''abcde'' ?s ?s'" using p g by (auto simp: serves_def)
  moreover have "\<forall>n. he_realloc ?e n" "\<forall>n. he_malloc ?e n" by (simp_all add: sample_env_def)
  ultimately have "\<exists>r. http_get ?e ''http://h/a'' 5000 = Some r \<and> hr_body r = Some ''abcde'' \<and> hr_status r = 200"
    using segment_reaches_client [where s = ?s and seg = "''abcde''", OF _ _ _ sample_reaches c _ _ l] by simp
  then show ?thesis using p by auto
qed


text \<open>The end of the input in the manifest.\<close>

lemma strstr_prefix: "p \<noteq> [] \<Longrightarrow> prefix p s \<Longrightarrow> strstr s p = Some s"
  by (cases s) simp_all

lemma static_text_marked: "strstr s dynamic_attr \<noteq> None \<Longrightarrow> strstr (static_text s) static_attr \<noteq> None"
proof (induction s rule: static_text.induct)
  case 1
  then show ?case by (simp add: dynamic_attr_def)
next
  case (2 c s)
  show ?case
  proof (cases "prefix dynamic_attr (c # s)")
    case True
    have "strstr (static_attr @ t) static_attr = Some (static_attr @ t)" for t
      using strstr_prefix [of static_attr "static_attr @ t"] by (simp add: static_attr_def)
    then show ?thesis using True by simp
  next
    case False
    then show ?thesis using 2 by simp
  qed
qed

lemma static_text_no_null: "CHR 0x00 \<notin> set s \<Longrightarrow> CHR 0x00 \<notin> set (static_text s)"
proof (induction s rule: static_text.induct)
  case (2 c s)
  have "CHR 0x00 \<notin> set (drop 13 s)" using 2(3) in_set_dropD by fastforce
  then show ?case using 2 by (auto simp: static_attr_def quote_def)
qed simp

lemma static_text_length: "length (static_text s) \<le> length s"
proof (induction s rule: static_text.induct)
  case (2 c s)
  show ?case
  proof (cases "prefix dynamic_attr (c # s)")
    case True
    then have "14 \<le> length (c # s)" using prefix_length_le [OF True] by (simp add: dynamic_attr_def)
    then show ?thesis using True 2(1) by (simp add: static_attr_def)
  qed (use 2 in simp)
qed simp

lemma c_string_null: "CHR 0x00 \<notin> set s \<Longrightarrow> c_string (s @ CHR 0x00 # t) = s" "CHR 0x00 \<notin> set s \<Longrightarrow> c_string s = s"
proof -
  assume "CHR 0x00 \<notin> set s"
  then have "\<forall>c \<in> set s. c \<noteq> CHR 0x00" by blast
  then show "c_string (s @ CHR 0x00 # t) = s" "c_string s = s"
    by (simp_all add: c_string_def takeWhile_append2 takeWhile_eq_all_conv)
qed

text \<open>
  When the encoder has played its input once, the manifest is rewritten in place and the client that
  fetches it next sees a stream that has ended: its loader finds the static marking.
\<close>

theorem patched_manifest_static:
  assumes "CHR 0x00 \<notin> set b" "length b \<le> 65535" "strstr b dynamic_attr \<noteq> None"
  shows "\<exists>out. patch_mpd_static True True (Some b) = Some out \<and> length out \<le> length b \<and>
    mf_static (manifest_fields fl (c_string (out @ CHR 0x00 # junk)))"
proof -
  have b: "read_text 65535 (Some b) = Some b" using assms c_string_null(2) [of b] by (auto simp: read_text_def dynamic_attr_def)
  define out where "out = (if strstr b static_attr \<noteq> None then b else static_text b)"
  have p: "patch_mpd_static True True (Some b) = Some out" unfolding patch_mpd_static_def b out_def by simp
  have "strstr out static_attr \<noteq> None" using static_text_marked [OF assms(3)] by (simp add: out_def)
  moreover have "CHR 0x00 \<notin> set out" using assms(1) static_text_no_null by (auto simp: out_def)
  ultimately have "mf_static (manifest_fields fl (c_string (out @ CHR 0x00 # junk)))"
    using c_string_null(1) [of out junk] by (simp add: manifest_fields_def static_attr_def)
  then show ?thesis using p static_text_length [of b] by (auto simp: out_def)
qed

theorem patched_manifest_static_witness:
  "\<exists>out. patch_mpd_static True True (Some (''<MPD '' @ dynamic_attr @ ''>'')) = Some out \<and>
     mf_static (manifest_fields exact_ops (c_string (out @ CHR 0x00 # ''x'')))"
proof -
  let ?b = "''<MPD '' @ dynamic_attr @ ''>''"
  have "CHR 0x00 \<notin> set ?b" "length ?b \<le> 65535" "strstr ?b dynamic_attr \<noteq> None"
    by (simp_all add: dynamic_attr_def quote_def)
  from patched_manifest_static [OF this, of exact_ops "''x''"] show ?thesis by blast
qed

text \<open>A manifest of more than 65535 bytes loses its end when it is rewritten.\<close>

lemma patch_truncates:
  assumes "patch_mpd_static True True (Some b) = Some out" "65535 < length b" "strstr (c_string (take 65535 b)) static_attr = None"
  shows "length out < length b"
proof -
  have "out = static_text (c_string (take 65535 b))" using assms by (auto simp: patch_mpd_static_def read_text_def split: if_splits)
  moreover have "length (c_string (take 65535 b)) \<le> 65535" by (metis c_string_def length_take length_takeWhile_le min.bounded_iff)
  ultimately show ?thesis using static_text_length [of "c_string (take 65535 b)"] assms(2) by simp
qed

text \<open>The server anchors the stream at the time the client reads from the same manifest.\<close>

lemma server_reads_client_anchor:
  assumes "b \<noteq> []" "attr_num (parse_iso8601 fl) ''availabilityStartTime'' (c_string (take 16383 b)) \<noteq> - 1"
  shows "parse_avail_start_us fl (Some b) = attr_num (parse_iso8601 fl) ''availabilityStartTime'' (c_string (take 16383 b))"
  using assms by (auto simp: parse_avail_start_us_def read_text_def attr_num_def parse_iso8601_def Let_def split: option.splits prod.splits if_splits)


section \<open>Watching the encoder\<close>

text \<open>A turn's input: the new process if one is started, whether the encoder ended, the clock, the newest segment.\<close>

fun watch :: "dash_server \<Rightarrow> (int \<times> bool option \<times> u64 \<times> u64) list \<Rightarrow> dash_server \<times> srv_event list" where
  "watch s [] = (s, [])"
| "watch s ((fork, exited, now_ms, last_ms) # ts) =
     (case watchdog fork exited now_ms last_ms s of
        (s1, ev, _) \<Rightarrow> (case watch s1 ts of (s2, evs) \<Rightarrow> (s2, ev @ evs)))"

lemma watch_stopped: "sv_pid s \<le> 0 \<Longrightarrow> watch s ts = (s, [])"
  by (induction ts) (auto simp: watchdog_def)

lemma watchdog_play_once: "watchdog fork exited now_ms last_ms s = (s1, ev, p) \<Longrightarrow> sv_play_once s1 = sv_play_once s"
  by (auto simp: watchdog_def ffmpeg_respawn_def Let_def split: option.splits if_splits)

lemma watchdog_cases:
  assumes "watchdog fork exited now_ms last_ms s = (s1, ev, p)" "\<not> sv_eos s"
  shows "(\<not> sv_eos s1 \<and> (ev = [] \<or> ev = [Encoder_Restart])) \<or>
    (sv_pid s1 = - 1 \<and> sv_play_once s \<and> (\<exists>n. ev = [Eos n]) \<and> exited = Some True)"
  using assms by (auto simp: watchdog_def ffmpeg_respawn_def Let_def split: option.splits if_splits)

text \<open>
  Over any run of the watchdog the encoder is restarted some number of times, and the end of the
  input is reported at most once, only in a run that plays the input once, and only as the very last
  event: after it the encoder is never started again.
\<close>

theorem eos_is_final:
  assumes "\<not> sv_eos s" "watch s ts = (s', evs)"
  shows "\<exists>k. evs = replicate k Encoder_Restart \<or>
    (sv_play_once s \<and> sv_pid s' = - 1 \<and> (\<exists>n. evs = replicate k Encoder_Restart @ [Eos n]))"
  using assms
proof (induction ts arbitrary: s evs)
  case Nil
  then show ?case by (simp add: exI [of _ 0])
next
  case (Cons t ts)
  obtain fork exited now_ms last_ms where t: "t = (fork, exited, now_ms, last_ms)" by (cases t) auto
  obtain s1 ev p where w: "watchdog fork exited now_ms last_ms s = (s1, ev, p)" by (cases "watchdog fork exited now_ms last_ms s") auto
  obtain evs1 where e: "watch s1 ts = (s', evs1)" "evs = ev @ evs1" using Cons.prems(2) t w by (auto split: prod.splits)
  note po = watchdog_play_once [OF w]
  from watchdog_cases [OF w Cons.prems(1)] show ?case
  proof
    assume c: "\<not> sv_eos s1 \<and> (ev = [] \<or> ev = [Encoder_Restart])"
    then obtain k where "evs1 = replicate k Encoder_Restart \<or>
        (sv_play_once s \<and> sv_pid s' = - 1 \<and> (\<exists>n. evs1 = replicate k Encoder_Restart @ [Eos n]))"
      using Cons.IH [OF _ e(1)] po by auto
    then show ?thesis using c e(2) by (intro exI [of _ "k + length ev"]) auto
  next
    assume c: "sv_pid s1 = - 1 \<and> sv_play_once s \<and> (\<exists>n. ev = [Eos n]) \<and> exited = Some True"
    then have "s' = s1" "evs1 = []" using watch_stopped [of s1 ts] e(1) by simp_all
    then show ?thesis using c e(2) by (intro exI [of _ 0]) auto
  qed
qed

definition demo_server :: dash_server where
  "demo_server = \<lparr>sv_pid = 100, sv_play_once = True, sv_eos = False, sv_files = [''live.mpd'', ''chunk-stream0-00007.m4s'', ''chunk-stream0-00012.m4s'']\<rparr>"

theorem eos_is_final_witness:
  "\<exists>s'. watch demo_server [(101, None, 50000, 39000), (102, Some False, 0, 0), (103, Some True, 0, 0), (104, None, 90000, 1)] =
     (s', [Encoder_Restart, Encoder_Restart, Eos (- 1)]) \<and> sv_pid s' = - 1"
proof -
  let ?ts = "[(101, None, 50000, 39000), (102, Some False, 0, 0), (103, Some True, 0, 0), (104, None, 90000, 1)] :: (int \<times> bool option \<times> u64 \<times> u64) list"
  obtain s' evs where w: "watch demo_server ?ts = (s', evs)" by fastforce
  have "evs = [Encoder_Restart, Encoder_Restart, Eos (- 1)]"
    using w by (auto simp: demo_server_def watchdog_def ffmpeg_respawn_def Let_def newest_seg_def)
  moreover have "\<not> sv_eos demo_server" by (simp add: demo_server_def)
  ultimately show ?thesis using eos_is_final [OF _ w] w by (auto simp: replicate_append_same [symmetric] Cons_replicate_eq)
qed

text \<open>An encoder that could not be started again is never tried again.\<close>

lemma failed_respawn_gives_up: "fork < 0 \<Longrightarrow> sv_pid s > 0 \<Longrightarrow> watch (ffmpeg_respawn fork s) ts = (ffmpeg_respawn fork s, [])"
  by (rule watch_stopped) (simp add: ffmpeg_respawn_def Let_def)

text \<open>A segment whose time lies ahead of the clock never counts as a stall.\<close>

lemma no_stall_ahead: "now_ms \<le> last_ms \<Longrightarrow> watchdog fork None now_ms last_ms s = (s, [], False)"
  by (auto simp: watchdog_def)

section \<open>Reports and requests\<close>

text \<open>
  Every segment is reported once and in order, the first report beginning with segment 0; after a
  restart of the encoder, which numbers from the start again, nothing is reported until the old
  number is passed.
\<close>

definition publish_all :: "int list \<Rightarrow> int \<times> int list" where
  "publish_all = foldl (\<lambda>(l, out) ns. case publish ns l of (l1, new) \<Rightarrow> (l1, out @ new)) (- 1, [])"

lemma publish_once: "publish_all ns = (l, out) \<Longrightarrow> out = [0..l] \<and> l = Max (insert (- 1) (set ns)) \<and> - 1 \<le> l"
proof (induction ns arbitrary: l out rule: rev_induct)
  case Nil
  then show ?case by (simp add: publish_all_def)
next
  case (snoc n ns)
  obtain l0 out0 where p: "publish_all ns = (l0, out0)" by fastforce
  have i: "out0 = [0..l0]" "l0 = Max (insert (- 1) (set ns))" "- 1 \<le> l0" using snoc.IH [OF p] by auto
  have m: "Max (insert (- 1) (set (ns @ [n]))) = max n l0" using i(2) by (simp add: insert_commute)
  have j: "[0..l0] @ [l0 + 1..n] = [0..n]" if "l0 < n" using that i(3) upto_split2 [of 0 "l0" n]
    by (cases "l0 = - 1") simp_all
  have "publish_all (ns @ [n]) = (case publish n l0 of (l1, new) \<Rightarrow> (l1, out0 @ new))" using p by (simp add: publish_all_def)
  then show ?case using snoc.prems m j unfolding i(1)
    by (cases "l0 < n") (use i(3) in \<open>simp_all add: publish_def\<close>)
qed

text \<open>A path is appended to the directory as it is: one with dots leads out of it.\<close>

lemma path_escapes_directory:
  "conn_handler ''/tmp/d'' newest \<lparr>fv_run = True, fv_full = True, fv_tmp = False\<rparr> waits final (''GET /../../etc/x HTTP/1.1'' @ crlf)
     = [Act_Full ''/tmp/d/../../etc/x'' ''video/iso.segment'']"
  by (simp add: conn_handler_def request_line_def scan_request_def scan_word_def crlf_def c_string_def is_c_space_def Let_def)

text \<open>
  A request that was answered after a wait is followed by a second answer when the segment has been
  removed in the meantime.
\<close>

lemma hold_answers_twice:
  assumes "do { l \<leftarrow> request_line req; scan_request l } = Some (''GET'', path)" "path \<noteq> ''/live.mpd''" "hd path = CHR ''/''"
    and "segment_request path = Some (st, n)" "n \<le> newest st + 30"
    and "\<not> fv_full first" "\<not> fv_tmp first" "fv_run v" "fv_full v" "fv_run final" "\<not> fv_full final" "\<not> fv_tmp final"
  shows "\<exists>fp ct. conn_handler outdir newest first (v # vs) final req = [Act_Full fp ct, Act_Hold_404 n]"
  using assms by (simp add: conn_handler_def Let_def)

text \<open>A request far ahead of the newest segment is refused at once; every other request ends.\<close>

lemma far_ahead_refused:
  assumes "do { l \<leftarrow> request_line req; scan_request l } = Some (''GET'', path)" "path \<noteq> ''/live.mpd''" "hd path = CHR ''/''"
    and "segment_request path = Some (st, n)" "0 \<le> newest st" "newest st + 30 < n" "\<not> fv_full first" "\<not> fv_tmp first"
  shows "conn_handler outdir newest first waits final req = [Act_404]"
  using assms by (simp add: conn_handler_def Let_def)

end
