(* ===== verification/Dash_Session.thy ===== *)
theory Dash_Session
  imports Dash_Reader "HOL-Library.Multiset" "HOL-Library.Monad_Syntax"
begin

text \<open>
  The decoding session of the stream client (\<open>dash_session\<close> and the functions around it in
  \<open>apps/thinclient/main.c\<close>): choice of the streams, bitstream filter, audio decoder and resampler
  with their fall-backs, the in-memory input, set-up from an initialisation segment, opening through
  the library's own stream reader, closing, and the reader thread built on it (\<open>dash_reader\<close>).

  The heap is the multiset of the library objects that are alive, the data of packets and frames
  among them (\<open>Pkt_Data\<close>, \<open>Out_Data\<close>, \<open>Frame_Data\<close>). An operation that frees an object
  that is not alive, or that goes through a null pointer, has the result \<open>None\<close>. Every pointer field
  of the session is a truth value: it is null, or it points to the one object of its kind that the
  session owns. What the library answers is an argument.
\<close>

section \<open>Objects and the heap\<close>

datatype obj = Avio_Buf | Mem_Ctx | Avio | Fmt_Ctx | Bsf | Codec_Ctx | Swr | Frame | Pcm | Dict | Pkt
  | Pkt_Data | Out_Data | Frame_Data | Init_Buf | Body_Buf | Sock_Fd

type_synonym heap = "obj multiset"

definition release :: "obj \<Rightarrow> heap \<Rightarrow> heap option" where
  "release x H = (if x \<in># H then Some (H - {#x#}) else None)"

definition release_if :: "bool \<Rightarrow> obj \<Rightarrow> heap \<Rightarrow> heap option" where
  "release_if b x H = (if b then release x H else Some H)"

definition objs :: "bool \<Rightarrow> obj \<Rightarrow> heap" where
  "objs b x = (if b then {#x#} else {#})"

lemma release_add [simp]: "release x (add_mset x H) = Some H"
  by (simp add: release_def)

lemma release_if_objs [simp]:
  "release_if b x (H + objs b x) = Some H" "release_if b x (objs b x + H) = Some H"
  by (simp_all add: release_if_def objs_def)

section \<open>The session\<close>

record dash_session =
  ds_fmt :: bool
  ds_vs :: int
  ds_as :: int
  ds_bsfc :: bool
  ds_actx :: bool
  ds_swr :: bool
  ds_aframe :: bool
  ds_apcm :: bool
  ds_apcm_cap :: int
  ds_audio_pts :: int
  ds_video_first_pts :: "int option"
  ds_video_au_k :: int
  ds_last_frame_idx :: int
  ds_aref :: bool

text \<open>
  The last field is not one of the structure: it tells whether the frame object holds the data of a
  decoded frame. All bytes zero. The time stamp zero is a value, the absent one is the library's marker.
\<close>

definition zero_session :: dash_session where
  "zero_session = \<lparr>ds_fmt = False, ds_vs = 0, ds_as = 0, ds_bsfc = False, ds_actx = False, ds_swr = False,
     ds_aframe = False, ds_apcm = False, ds_apcm_cap = 0, ds_audio_pts = 0, ds_video_first_pts = Some 0,
     ds_video_au_k = 0, ds_last_frame_idx = 0, ds_aref = False\<rparr>"

definition owned :: "dash_session \<Rightarrow> heap" where
  "owned s = objs (ds_bsfc s) Bsf + objs (ds_actx s) Codec_Ctx + objs (ds_swr s) Swr
     + objs (ds_aframe s) Frame + objs (ds_aframe s \<and> ds_aref s) Frame_Data + objs (ds_apcm s) Pcm + objs (ds_fmt s) Fmt_Ctx"

section \<open>Set-up\<close>

datatype media = Video_Stream | Audio_Stream | Other_Stream

record av_stream =
  st_type :: media
  st_rate_num :: int
  st_rate_den :: int

text \<open>The library's answers while a session is set up.\<close>

record av_lib =
  al_streams :: "av_stream list"
  al_bsf_found :: bool
  al_bsf_alloc :: bool
  al_bsf_params :: bool
  al_bsf_init :: bool
  al_decoder :: bool
  al_actx :: bool
  al_actx_params :: bool
  al_actx_open :: bool
  al_swr_alloc :: bool
  al_swr_init :: bool
  al_aframe :: bool

definition bsf_setup :: "av_lib \<Rightarrow> dash_session \<Rightarrow> heap \<Rightarrow> (dash_session \<times> heap) option" where
  "bsf_setup q s H =
     (let made = al_bsf_found q \<and> al_bsf_alloc q;
          H1 = H + objs made Bsf;
          s1 = s\<lparr>ds_bsfc := ds_bsfc s \<or> made\<rparr>
      in if made \<and> al_bsf_params q \<and> al_bsf_init q then Some (s1, H1)
         else do { H2 \<leftarrow> release_if (ds_bsfc s1) Bsf H1; Some (s1\<lparr>ds_bsfc := False\<rparr>, H2) })"

text \<open>
  The audio decoder with its resampler; the flag says that the decoder opened. Without a resampler
  the decoder is given up again; without a frame object both stay, and no audio is decoded.
\<close>

definition audio_setup :: "av_lib \<Rightarrow> dash_session \<Rightarrow> heap \<Rightarrow> (bool \<times> dash_session \<times> heap) option" where
  "audio_setup q s H =
     (if \<not> (ds_as s \<ge> 0 \<and> al_decoder q) then Some (False, s, H)
      else let s1 = s\<lparr>ds_actx := al_actx q\<rparr>; H1 = H + objs (al_actx q) Codec_Ctx
           in if al_actx q \<and> al_actx_params q \<and> al_actx_open q
              then let s2 = s1\<lparr>ds_swr := al_swr_alloc q\<rparr>; H2 = H1 + objs (al_swr_alloc q) Swr
                   in if al_swr_alloc q \<and> al_swr_init q
                      then Some (True, s2\<lparr>ds_aframe := al_aframe q, ds_aref := False\<rparr>, H2 + objs (al_aframe q) Frame)
                      else do { H3 \<leftarrow> release_if (ds_swr s2) Swr H2;
                                H4 \<leftarrow> release Codec_Ctx H3;
                                Some (True, s2\<lparr>ds_swr := False, ds_actx := False\<rparr>, H4) }
              else do { H2 \<leftarrow> release_if (ds_actx s1) Codec_Ctx H1; Some (False, s1\<lparr>ds_actx := False\<rparr>, H2) })"

text \<open>The first video and the first audio stream.\<close>

fun pick_streams :: "int \<Rightarrow> av_stream list \<Rightarrow> dash_session \<Rightarrow> dash_session" where
  "pick_streams i [] s = s"
| "pick_streams i (x # xs) s =
     pick_streams (i + 1) xs
       (if st_type x = Video_Stream \<and> ds_vs s < 0 then s\<lparr>ds_vs := i\<rparr>
        else if st_type x = Audio_Stream \<and> ds_as s < 0 then s\<lparr>ds_as := i\<rparr> else s)"

definition dash_session_setup :: "av_lib \<Rightarrow> heap \<Rightarrow> (int \<times> dash_session \<times> heap) option" where
  "dash_session_setup q H =
     (let s = pick_streams 0 (al_streams q) (zero_session\<lparr>ds_vs := - 1, ds_as := - 1\<rparr>)
      in if ds_vs s < 0 then Some (- 1, s, H)
         else do { (s1, H1) \<leftarrow> bsf_setup q s H;
                   (_, s2, H2) \<leftarrow> audio_setup q s1 H1;
                   Some (0, s2, H2) })"


section \<open>The in-memory input\<close>

record mem_read_ctx =
  mr_data :: bytes
  mr_pos :: nat

text \<open>One call of the library's reader: a block, or \<open>None\<close> at the end of the data. The capacity is a C int.\<close>

definition read_mem_packet :: "nat \<Rightarrow> mem_read_ctx \<Rightarrow> bytes option \<times> mem_read_ctx" where
  "read_mem_packet buf_size c =
     (if mr_pos c \<ge> length (mr_data c) then (None, c)
      else let remaining = length (mr_data c) - mr_pos c;
               to_copy = (if buf_size < remaining then buf_size else remaining)
           in (Some (mem_read (mr_data c) (mr_pos c) to_copy), c\<lparr>mr_pos := mr_pos c + to_copy\<rparr>))"

fun mem_reads :: "nat list \<Rightarrow> mem_read_ctx \<Rightarrow> bytes option list \<times> mem_read_ctx" where
  "mem_reads [] c = ([], c)"
| "mem_reads (n # ns) c =
     (case read_mem_packet n c of (b, c1) \<Rightarrow> (case mem_reads ns c1 of (bs, c2) \<Rightarrow> (b # bs, c2)))"

text \<open>Which of the allocations for a context over memory succeed, and what opening and probing it give.\<close>

record mem_lib =
  ml_buf :: bool
  ml_ctx :: bool
  ml_avio :: bool
  ml_fmt :: bool
  ml_open :: bool
  ml_info :: int

definition dash_open_mem_io :: "mem_lib \<Rightarrow> heap \<Rightarrow> (bool \<times> heap) option" where
  "dash_open_mem_io q H =
     (if \<not> ml_buf q then Some (False, H)
      else let H1 = H + {#Avio_Buf#}
           in if \<not> ml_ctx q then do { H2 \<leftarrow> release Avio_Buf H1; Some (False, H2) }
              else let H2 = H1 + {#Mem_Ctx#}
                   in if \<not> ml_avio q
                      then do { H3 \<leftarrow> release Mem_Ctx H2; H4 \<leftarrow> release Avio_Buf H3; Some (False, H4) }
                      else Some (True, H2 + {#Avio#}))"

text \<open>The library frees the context itself; the buffer in use stays the caller's.\<close>

definition dash_close_mem_io :: "heap \<Rightarrow> heap option" where
  "dash_close_mem_io H = do { H1 \<leftarrow> release Mem_Ctx H; release Avio H1 }"

section \<open>Set-up from the initialisation segments\<close>

text \<open>The index of the first stream of a kind.\<close>

fun first_stream :: "media \<Rightarrow> int \<Rightarrow> av_stream list \<Rightarrow> int option" where
  "first_stream t i [] = None"
| "first_stream t i (x # xs) = (if st_type x = t then Some i else first_stream t (i + 1) xs)"

definition probed_fps :: "av_stream \<Rightarrow> int \<Rightarrow> int" where
  "probed_fps x fps =
     (if st_rate_num x > 0 \<and> st_rate_den x > 0 \<and> fps \<le> 0
      then I32 ((st_rate_num x + st_rate_den x div 2) div st_rate_den x) else fps)"

definition init_video :: "av_lib \<Rightarrow> dash_session \<Rightarrow> int \<Rightarrow> heap \<Rightarrow> (int \<times> dash_session \<times> int \<times> heap) option" where
  "init_video q s fps H =
     (let s1 = (case first_stream Video_Stream 0 (al_streams q) of Some i \<Rightarrow> s\<lparr>ds_vs := i\<rparr> | None \<Rightarrow> s)
      in if ds_vs s1 \<ge> 0
         then do { (s2, H2) \<leftarrow> bsf_setup q s1 H;
                   Some (0, s2, probed_fps (al_streams q ! nat (ds_vs s1)) fps, H2) }
         else Some (- 1, s1, fps, H))"

definition init_audio :: "av_lib \<Rightarrow> dash_session \<Rightarrow> heap \<Rightarrow> (int \<times> dash_session \<times> heap) option" where
  "init_audio q s H =
     (let s1 = (case first_stream Audio_Stream 0 (al_streams q) of Some i \<Rightarrow> s\<lparr>ds_as := i\<rparr> | None \<Rightarrow> s)
      in do { (ok, s2, H2) \<leftarrow> audio_setup q s1 H; Some (if ok then 0 else - 1, s2, H2) })"

text \<open>
  A failing \<open>avformat_open_input\<close> frees the context that was passed in and sets the pointer to null;
  the assignment to \<open>fmt->pb\<close> that follows on every path then goes through that pointer.
\<close>

definition dash_init_setup_one ::
  "mem_lib \<Rightarrow> av_lib \<Rightarrow> bool \<Rightarrow> dash_session \<Rightarrow> int \<Rightarrow> heap \<Rightarrow> (int \<times> dash_session \<times> int \<times> heap) option" where
  "dash_init_setup_one m q want_audio s fps H =
     do { (opened, H1) \<leftarrow> dash_open_mem_io m H;
          if \<not> opened then Some (- 1, s, fps, H1)
          else if \<not> ml_fmt m then do { H2 \<leftarrow> dash_close_mem_io H1; Some (- 1, s, fps, H2) }
          else let H2 = H1 + {#Fmt_Ctx#}
               in if \<not> ml_open m then None
                  else do { (rc, s3, fps3, H3) \<leftarrow>
                              (if ml_info m \<noteq> 0 then Some (- 1, s, fps, H2)
                               else if \<not> want_audio then init_video q s fps H2
                               else do { (rc, s3, H3) \<leftarrow> init_audio q s H2; Some (rc, s3, fps, H3) });
                            H4 \<leftarrow> release Fmt_Ctx H3;
                            H5 \<leftarrow> dash_close_mem_io H4;
                            Some (rc, s3, fps3, H5) } }"

definition dash_session_setup_from_init ::
  "mem_lib \<times> av_lib \<Rightarrow> (mem_lib \<times> av_lib) option \<Rightarrow> int \<Rightarrow> heap \<Rightarrow> (int \<times> dash_session \<times> int \<times> heap) option" where
  "dash_session_setup_from_init v a fps H =
     do { (rc, s, fps1, H1) \<leftarrow>
            dash_init_setup_one (fst v) (snd v) False (zero_session\<lparr>ds_vs := - 1, ds_as := - 1, ds_video_first_pts := None\<rparr>) fps H;
          if rc \<noteq> 0 then Some (- 1, s, fps1, H1)
          else case a of
                 None \<Rightarrow> Some (0, s, fps1, H1)
               | Some (ma, qa) \<Rightarrow>
                   do { (_, s2, fps2, H2) \<leftarrow> dash_init_setup_one ma qa True s fps1 H1; Some (0, s2, fps2, H2) } }"

section \<open>Opening and closing\<close>

text \<open>
  Up to thirty attempts, each with its options; \<open>run\<close> and \<open>ok\<close> are the run flag and the library's
  answer at an attempt. The result says whether an attempt succeeded.
\<close>

fun open_attempts :: "(nat \<Rightarrow> bool) \<Rightarrow> (nat \<Rightarrow> bool) \<Rightarrow> nat \<Rightarrow> nat \<Rightarrow> heap \<Rightarrow> (bool \<times> heap) option" where
  "open_attempts run ok 0 attempt H = Some (False, H)"
| "open_attempts run ok (Suc k) attempt H =
     (if \<not> run attempt then Some (False, H)
      else let H1 = H + {#Dict#}
           in if ok attempt then do { H2 \<leftarrow> release Dict (H1 + {#Fmt_Ctx#}); Some (True, H2) }
              else do { H2 \<leftarrow> release Dict H1; open_attempts run ok k (attempt + 1) H2 })"

record open_env =
  oe_run :: "nat \<Rightarrow> bool"
  oe_open :: "nat \<Rightarrow> bool"
  oe_info :: int
  oe_lib :: av_lib

definition dash_session_open :: "open_env \<Rightarrow> dash_session \<Rightarrow> heap \<Rightarrow> (int \<times> dash_session \<times> heap) option" where
  "dash_session_open e s H =
     do { (opened, H1) \<leftarrow> open_attempts (oe_run e) (oe_open e) 30 0 H;
          if \<not> opened then Some (- 1, s, H1)
          else if oe_info e < 0 then do { H2 \<leftarrow> release Fmt_Ctx H1; Some (- 1, s, H2) }
          else do { (rc, s2, H2) \<leftarrow> dash_session_setup (oe_lib e) H1;
                    if rc \<noteq> 0 then do { H3 \<leftarrow> release Fmt_Ctx H2; Some (- 1, s2, H3) }
                    else Some (0, s2\<lparr>ds_fmt := True\<rparr>, H2) } }"

definition dash_session_close :: "dash_session \<Rightarrow> heap \<Rightarrow> (dash_session \<times> heap) option" where
  "dash_session_close s H =
     do { H1 \<leftarrow> release_if (ds_bsfc s) Bsf H;
          H2 \<leftarrow> release_if (ds_actx s) Codec_Ctx H1;
          H3 \<leftarrow> release_if (ds_swr s) Swr H2;
          H4 \<leftarrow> release_if (ds_aframe s \<and> ds_aref s) Frame_Data H3;
          H5 \<leftarrow> release_if (ds_aframe s) Frame H4;
          H6 \<leftarrow> release_if (ds_apcm s) Pcm H5;
          H7 \<leftarrow> release_if (ds_fmt s) Fmt_Ctx H6;
          Some (zero_session, H7) }"


section \<open>The reader thread on the library's stream reader\<close>

text \<open>
  A decoded audio frame: the resampler's estimate of the samples it will give, whether the buffer can
  grow, and the converted bytes (none when the conversion fails). A conversion that is larger than
  the buffer is a fault. When the buffer cannot grow the frame object keeps its data.
\<close>

record aud_frame =
  af_out :: int
  af_realloc :: bool
  af_pcm :: bytes

definition pcm_bytes :: "aud_frame \<Rightarrow> int" where
  "pcm_bytes f = (af_out f + 2048) * 2 * 2"

definition frame_unref :: "dash_session \<Rightarrow> heap \<Rightarrow> (dash_session \<times> heap) option" where
  "frame_unref s H = do { H1 \<leftarrow> release_if (ds_aref s) Frame_Data H; Some (s\<lparr>ds_aref := False\<rparr>, H1) }"

definition dash_audio_write_frame :: "aud_frame \<Rightarrow> dash_session \<Rightarrow> heap \<Rightarrow> (shared_op list \<times> dash_session \<times> heap) option" where
  "dash_audio_write_frame f s H =
     (let grow = pcm_bytes f > ds_apcm_cap s
      in if grow \<and> \<not> af_realloc f then Some ([], s, H)
         else let s1 = (if grow then s\<lparr>ds_apcm := True, ds_apcm_cap := pcm_bytes f\<rparr> else s);
                  H1 = (if grow \<and> \<not> ds_apcm s then H + {#Pcm#} else H)
              in if int (length (af_pcm f)) > ds_apcm_cap s1 then None
                 else do { (s2, H2) \<leftarrow> frame_unref s1 H1;
                           Some (if af_pcm f \<noteq> [] then [Audio_Write (af_pcm f)] else [], s2, H2) })"

text \<open>
  The loop over the frames of a packet. A call for the next frame always drops the data of the previous
  one first, also the last call, which returns none.
\<close>

fun write_frames :: "aud_frame list \<Rightarrow> dash_session \<Rightarrow> heap \<Rightarrow> (shared_op list \<times> dash_session \<times> heap) option" where
  "write_frames [] s H = do { (s1, H1) \<leftarrow> frame_unref s H; Some ([], s1, H1) }"
| "write_frames (f # fs) s H =
     do { (s1, H1) \<leftarrow> frame_unref s H;
          (ops, s2, H2) \<leftarrow> dash_audio_write_frame f (s1\<lparr>ds_aref := True\<rparr>) (H1 + {#Frame_Data#});
          (ops', s3, H3) \<leftarrow> write_frames fs s2 H2;
          Some (ops @ ops', s3, H3) }"

text \<open>
  A packet: its stream and bytes; whether the filter takes it and the units it makes of it, each with
  the wall clock at which it is published; the wall clock for the packet itself; whether the audio
  decoder takes it and the frames it returns.
\<close>

record libav_packet =
  lp_stream :: int
  lp_data :: bytes
  lp_sent :: bool
  lp_units :: "(bytes \<times> int) list"
  lp_wall :: int
  lp_decoded :: bool
  lp_frames :: "aud_frame list"

datatype libav_read = Read_Again | Read_Eof | Read_Failed | Read_Packet libav_packet

text \<open>
  One pass of a loop of the thread: what an attempt to open meets, what a read returns, and the
  monotonic clock after it. The thread's two packet objects are taken to exist; \<open>lr_pkt\<close> and \<open>lr_out\<close>
  tell whether they hold data. The run flag of the reader is set once and never written again.
\<close>

definition g_run_reader :: bool where "g_run_reader = True"

record tick =
  tk_open :: open_env
  tk_read :: libav_read
  tk_now :: u64

record libav_reader =
  lr_sess :: "dash_session option"
  lr_last_pkt :: u64
  lr_heap :: heap
  lr_pkt :: bool
  lr_out :: bool
  lr_clock :: av_clock
  lr_count :: u32
  lr_pkts :: u64
  lr_ops :: "shared_op list"
  lr_slept_us :: nat
  lr_done :: bool

definition sleep :: "nat \<Rightarrow> libav_reader \<Rightarrow> libav_reader" where
  "sleep us r = r\<lparr>lr_slept_us := lr_slept_us r + us\<rparr>"

text \<open>
  A read fills the packet, whatever it held before; a filter that takes a packet takes its data over;
  dropping the data of an empty packet does nothing.
\<close>

definition pkt_filled :: "libav_reader \<Rightarrow> libav_reader" where
  "pkt_filled r = r\<lparr>lr_pkt := True, lr_heap := lr_heap r + {#Pkt_Data#}\<rparr>"

definition pkt_unref :: "libav_reader \<Rightarrow> libav_reader option" where
  "pkt_unref r = do { H \<leftarrow> release_if (lr_pkt r) Pkt_Data (lr_heap r); Some (r\<lparr>lr_pkt := False, lr_heap := H\<rparr>) }"

definition pkt_moved :: "libav_reader \<Rightarrow> libav_reader option" where
  "pkt_moved r = do { H \<leftarrow> release Pkt_Data (lr_heap r); Some (r\<lparr>lr_pkt := False, lr_heap := H\<rparr>) }"

definition out_filled :: "libav_reader \<Rightarrow> libav_reader" where
  "out_filled r = r\<lparr>lr_out := True, lr_heap := lr_heap r + {#Out_Data#}\<rparr>"

definition out_unref :: "libav_reader \<Rightarrow> libav_reader option" where
  "out_unref r = do { H \<leftarrow> release_if (lr_out r) Out_Data (lr_heap r); Some (r\<lparr>lr_out := False, lr_heap := H\<rparr>) }"

definition unit_op :: "av_clock \<Rightarrow> u32 \<Rightarrow> bytes \<times> int \<Rightarrow> shared_op" where
  "unit_op c fidx u =
     (let fp = (if g_stream_fps c > 0 then 1000000 div g_stream_fps c else 16667)
      in Publish (fst u) (U64 (U64 (snd u) + g_playout_latency_us c)) fidx (uint fidx * fp) 0)"

definition publish_unit :: "u32 \<Rightarrow> bytes \<times> int \<Rightarrow> libav_reader \<Rightarrow> libav_reader" where
  "publish_unit fidx u r =
     (if fst u \<noteq> [] then r\<lparr>lr_ops := lr_ops r @ [unit_op (lr_clock r) fidx u]\<rparr> else r)"

fun filtered_units :: "u32 \<Rightarrow> (bytes \<times> int) list \<Rightarrow> libav_reader \<Rightarrow> libav_reader option" where
  "filtered_units fidx [] r = Some r"
| "filtered_units fidx (u # us) r =
     do { r1 \<leftarrow> out_unref (publish_unit fidx u (out_filled r)); filtered_units fidx us r1 }"

definition libav_video :: "libav_packet \<Rightarrow> dash_session \<Rightarrow> libav_reader \<Rightarrow> libav_reader option" where
  "libav_video p s r =
     (let fidx = lr_count r; r1 = r\<lparr>lr_pkts := lr_pkts r + 1, lr_count := fidx + 1\<rparr>
      in if ds_bsfc s
         then do { r2 \<leftarrow> (if lp_sent p then do { r2 \<leftarrow> pkt_moved r1; filtered_units fidx (lp_units p) r2 } else Some r1);
                   pkt_unref r2 }
         else pkt_unref (publish_unit fidx (lp_data p, lp_wall p) r1))"

definition libav_packet_in :: "libav_packet \<Rightarrow> dash_session \<Rightarrow> libav_reader \<Rightarrow> libav_reader option" where
  "libav_packet_in p s r =
     (if lp_stream p = ds_vs s then libav_video p s r
      else if lp_stream p = ds_as s \<and> ds_actx s \<and> ds_swr s \<and> ds_aframe s
      then do { r1 \<leftarrow> (if lp_decoded p
                        then do { (ops, s1, H) \<leftarrow> write_frames (lp_frames p) s (lr_heap r);
                                  Some (r\<lparr>lr_sess := Some s1, lr_heap := H, lr_ops := lr_ops r @ ops\<rparr>) }
                        else Some r);
                pkt_unref r1 }
      else pkt_unref r)"

definition end_session :: "dash_session \<Rightarrow> libav_reader \<Rightarrow> libav_reader option" where
  "end_session s r = do { (_, H) \<leftarrow> dash_session_close s (lr_heap r); Some (r\<lparr>lr_sess := None, lr_heap := H\<rparr>) }"

definition STALL_US :: u64 where "STALL_US = 20000000"

definition read_pass :: "tick \<Rightarrow> dash_session \<Rightarrow> libav_reader \<Rightarrow> libav_reader option" where
  "read_pass t s r =
     (case tk_read t of
        Read_Packet p \<Rightarrow> libav_packet_in p s (pkt_filled (r\<lparr>lr_last_pkt := tk_now t\<rparr>))
      | e \<Rightarrow> if tk_now t - lr_last_pkt r > STALL_US then end_session s r
            else Some (sleep (if e = Read_Failed then 50000 else 20000) r))"

definition open_pass :: "tick \<Rightarrow> libav_reader \<Rightarrow> libav_reader option" where
  "open_pass t r =
     do { (rc, s, H) \<leftarrow> dash_session_open (tk_open t) zero_session (lr_heap r);
          if rc \<noteq> 0 then Some (sleep 2000000 (r\<lparr>lr_heap := H\<rparr>))
          else Some (r\<lparr>lr_sess := Some s, lr_heap := H, lr_last_pkt := tk_now t\<rparr>) }"

text \<open>The end of the thread, behind its loops.\<close>

definition reader_exit :: "libav_reader \<Rightarrow> libav_reader option" where
  "reader_exit r =
     do { r1 \<leftarrow> (case lr_sess r of None \<Rightarrow> Some r | Some s \<Rightarrow> end_session s r);
          r2 \<leftarrow> pkt_unref r1;
          H1 \<leftarrow> release Pkt (lr_heap r2);
          r3 \<leftarrow> out_unref (r2\<lparr>lr_heap := H1\<rparr>);
          H2 \<leftarrow> release Pkt (lr_heap r3);
          Some (r3\<lparr>lr_heap := H2, lr_done := True\<rparr>) }"

definition reader_pass :: "tick \<Rightarrow> libav_reader \<Rightarrow> libav_reader option" where
  "reader_pass t r =
     (if lr_done r then Some r
      else if \<not> g_run_reader then reader_exit r
      else case lr_sess r of None \<Rightarrow> open_pass t r | Some s \<Rightarrow> read_pass t s r)"

fun reader_passes :: "tick list \<Rightarrow> libav_reader \<Rightarrow> libav_reader option" where
  "reader_passes [] r = Some r"
| "reader_passes (t # ts) r = do { r1 \<leftarrow> reader_pass t r; reader_passes ts r1 }"

definition reader_start :: "av_clock \<Rightarrow> u32 \<Rightarrow> u64 \<Rightarrow> heap \<Rightarrow> libav_reader" where
  "reader_start c count0 pkts H =
     \<lparr>lr_sess = None, lr_last_pkt = 0, lr_heap = H + {#Pkt, Pkt#}, lr_pkt = False, lr_out = False, lr_clock = c,
       lr_count = count0, lr_pkts = pkts, lr_ops = [], lr_slept_us = 0, lr_done = False\<rparr>"

definition dash_reader :: "tick list \<Rightarrow> av_clock \<Rightarrow> u32 \<Rightarrow> u64 \<Rightarrow> heap \<Rightarrow> libav_reader option" where
  "dash_reader ts c count0 pkts H = reader_passes ts (reader_start c count0 pkts H)"

section \<open>The in-memory input delivers the data\<close>

lemma read_mem_packet_pos:
  "mr_pos c \<le> length (mr_data c) \<Longrightarrow> read_mem_packet n c = (b, c1) \<Longrightarrow>
     mr_data c1 = mr_data c \<and> mr_pos c1 = min (mr_pos c + n) (length (mr_data c))
     \<and> (case b of None \<Rightarrow> [] | Some x \<Rightarrow> x) = take n (drop (mr_pos c) (mr_data c))"
  by (auto simp: read_mem_packet_def Let_def mem_read_def min_def split: if_splits)

lemma mem_reads_concat:
  "mr_pos c \<le> length (mr_data c) \<Longrightarrow> mem_reads ns c = (bs, c1) \<Longrightarrow>
     concat (map (case_option [] id) bs) = take (sum_list ns) (drop (mr_pos c) (mr_data c))
     \<and> mr_data c1 = mr_data c \<and> mr_pos c1 = min (mr_pos c + sum_list ns) (length (mr_data c))"
proof (induction ns arbitrary: c bs c1)
  case (Cons n ns)
  obtain b c2 where r: "read_mem_packet n c = (b, c2)" by fastforce
  obtain bs2 c3 where m: "mem_reads ns c2 = (bs2, c3)" by fastforce
  note p = read_mem_packet_pos [OF Cons.prems(1) r]
  have "mr_pos c2 \<le> length (mr_data c2)" using p by simp
  note q = Cons.IH [OF this m]
  have b: "(case b of None \<Rightarrow> [] | Some x \<Rightarrow> id x) = take n (drop (mr_pos c) (mr_data c))"
    using p by (cases b) simp_all
  show ?case using Cons.prems(2) r m p q b
    by (auto simp: take_add min_def ac_simps)
qed simp

lemma read_at_end: "mr_pos c = length (mr_data c) \<Longrightarrow> fst (read_mem_packet n c) = None"
  by (simp add: read_mem_packet_def)


section \<open>Ownership\<close>

text \<open>The objects beside the library's stream context.\<close>

named_theorems owned_defs "the objects a session owns"

lemmas [owned_defs] = owned_def objs_def

lemma bsf_setup_owned:
  "\<not> ds_bsfc s \<Longrightarrow> \<exists>s1. bsf_setup q s (H + owned s) = Some (s1, H + owned s1)
     \<and> ds_vs s1 = ds_vs s \<and> ds_as s1 = ds_as s \<and> ds_fmt s1 = ds_fmt s
     \<and> ds_actx s1 = ds_actx s \<and> ds_swr s1 = ds_swr s \<and> ds_aframe s1 = ds_aframe s
     \<and> ds_apcm s1 = ds_apcm s \<and> ds_apcm_cap s1 = ds_apcm_cap s"
  by (simp add: bsf_setup_def Let_def release_if_def owned_defs)

lemma audio_setup_owned:
  "\<not> ds_actx s \<Longrightarrow> \<not> ds_swr s \<Longrightarrow> \<not> ds_aframe s \<Longrightarrow>
     \<exists>ok s1. audio_setup q s (H + owned s) = Some (ok, s1, H + owned s1)
       \<and> ds_vs s1 = ds_vs s \<and> ds_fmt s1 = ds_fmt s \<and> ds_bsfc s1 = ds_bsfc s
       \<and> ds_apcm s1 = ds_apcm s \<and> ds_apcm_cap s1 = ds_apcm_cap s"
  by (auto simp: audio_setup_def Let_def release_if_def owned_defs release_def)

lemma pick_streams_keeps [simp]:
  "ds_fmt (pick_streams i xs s) = ds_fmt s" "ds_bsfc (pick_streams i xs s) = ds_bsfc s"
  "ds_actx (pick_streams i xs s) = ds_actx s" "ds_swr (pick_streams i xs s) = ds_swr s"
  "ds_aframe (pick_streams i xs s) = ds_aframe s" "ds_apcm (pick_streams i xs s) = ds_apcm s"
  "ds_apcm_cap (pick_streams i xs s) = ds_apcm_cap s"
  by (induction xs arbitrary: i s) auto

text \<open>A session whose buffer has the recorded capacity.\<close>

definition pcm_ok :: "dash_session \<Rightarrow> bool" where
  "pcm_ok s \<longleftrightarrow> (ds_apcm s \<longrightarrow> ds_apcm_cap s > 0) \<and> (\<not> ds_apcm s \<longrightarrow> ds_apcm_cap s = 0)"

lemma dash_session_setup_owned:
  obtains rc s where "dash_session_setup q H = Some (rc, s, H + owned s)" "pcm_ok s"
    "\<not> ds_fmt s" "rc \<noteq> 0 \<longrightarrow> owned s = {#}"
proof -
  let ?s = "pick_streams 0 (al_streams q) (zero_session\<lparr>ds_vs := - 1, ds_as := - 1\<rparr>)"
  have none: "owned ?s = {#}" "\<not> ds_bsfc ?s" "\<not> ds_fmt ?s" "\<not> ds_actx ?s" "\<not> ds_swr ?s" "\<not> ds_aframe ?s"
    "\<not> ds_apcm ?s" "ds_apcm_cap ?s = 0"
    by (simp_all add: owned_defs zero_session_def)
  show thesis
  proof (cases "ds_vs ?s < 0")
    case True
    then show thesis using that [of "- 1" ?s] none by (simp add: dash_session_setup_def Let_def pcm_ok_def)
  next
    case False
    obtain s1 where s1: "bsf_setup q ?s (H + owned ?s) = Some (s1, H + owned s1)"
      "ds_fmt s1 = ds_fmt ?s" "ds_actx s1 = ds_actx ?s" "ds_swr s1 = ds_swr ?s" "ds_aframe s1 = ds_aframe ?s"
      "ds_apcm s1 = ds_apcm ?s" "ds_apcm_cap s1 = ds_apcm_cap ?s"
      using bsf_setup_owned [OF none(2), of q H] by blast
    obtain ok s2 where s2: "audio_setup q s1 (H + owned s1) = Some (ok, s2, H + owned s2)"
      "ds_fmt s2 = ds_fmt s1" "ds_apcm s2 = ds_apcm s1" "ds_apcm_cap s2 = ds_apcm_cap s1"
      using audio_setup_owned [of s1 q H] s1 none by auto
    have "dash_session_setup q H = Some (0, s2, H + owned s2)"
      using False none(1) s1(1) s2(1) by (simp add: dash_session_setup_def)
    moreover have "pcm_ok s2" "\<not> ds_fmt s2" using none(3,7,8) s1(2,6,7) s2(2-4) by (simp_all add: pcm_ok_def)
    ultimately show thesis using that [of 0 s2] by blast
  qed
qed

lemma open_attempts_heap:
  "\<exists>b. open_attempts run ok k a H = Some (b, H + objs b Fmt_Ctx)"
proof (induction k arbitrary: a)
  case 0 show ?case by (rule exI [of _ False]) (simp add: objs_def)
next
  case (Suc k)
  consider "\<not> run a" | "run a" "ok a" | "run a" "\<not> ok a" by blast
  then show ?case
  proof cases
    case 1 then show ?thesis by (intro exI [of _ False]) (simp add: objs_def)
  next
    case 2
    have "release Dict (add_mset Fmt_Ctx (add_mset Dict H)) = Some (add_mset Fmt_Ctx H)"
      by (simp add: add_mset_commute [of Fmt_Ctx Dict])
    then show ?thesis using 2 by (intro exI [of _ True]) (simp add: objs_def)
  next
    case 3 then show ?thesis using Suc.IH [of "a + 1"] by simp
  qed
qed

lemma dash_session_open_owned:
  obtains s1 where "dash_session_open e s H = Some (0, s1, H + owned s1)" "pcm_ok s1"
  | s1 where "dash_session_open e s H = Some (- 1, s1, H)"
proof -
  obtain b where a: "open_attempts (oe_run e) (oe_open e) 30 0 H = Some (b, H + objs b Fmt_Ctx)"
    using open_attempts_heap by blast
  obtain rc t where d: "dash_session_setup (oe_lib e) (H + {#Fmt_Ctx#}) = Some (rc, t, H + {#Fmt_Ctx#} + owned t)"
    "pcm_ok t" "\<not> ds_fmt t" "rc \<noteq> 0 \<longrightarrow> owned t = {#}"
    using dash_session_setup_owned by blast
  show thesis
  proof (cases "b \<and> \<not> oe_info e < 0 \<and> rc = 0")
    case True
    have "add_mset Fmt_Ctx (H + owned t) = H + owned (t\<lparr>ds_fmt := True\<rparr>)"
      using d(3) by (simp add: owned_defs)
    moreover have "pcm_ok (t\<lparr>ds_fmt := True\<rparr>)" using d(2) by (simp add: pcm_ok_def)
    ultimately show thesis using that(1) [of "t\<lparr>ds_fmt := True\<rparr>"] True a d
      by (simp add: dash_session_open_def objs_def)
  next
    case False
    then consider "\<not> b" | "b" "oe_info e < 0" | "b" "\<not> oe_info e < 0" "rc \<noteq> 0" by blast
    then show thesis
    proof cases
      case 1 then show thesis using that(2) [of s] a by (simp add: dash_session_open_def objs_def)
    next
      case 2 then show thesis using that(2) [of s] a by (simp add: dash_session_open_def objs_def)
    next
      case 3 then show thesis using that(2) [of t] a d by (simp add: dash_session_open_def objs_def)
    qed
  qed
qed

lemma dash_session_close_owned: "dash_session_close s (H + owned s) = Some (zero_session, H)"
  by (simp add: dash_session_close_def owned_defs release_if_def release_def)


section \<open>Runs without faults\<close>

text \<open>
  Operations that may fault, run one after the other. The contract of such an operation is that it
  does not fault in a good state on a good input and leaves the state good.
\<close>

fun run_steps :: "('e \<Rightarrow> 's \<Rightarrow> 's option) \<Rightarrow> 'e list \<Rightarrow> 's \<Rightarrow> 's option" where
  "run_steps step [] s = Some s"
| "run_steps step (e # es) s = do { s1 \<leftarrow> step e s; run_steps step es s1 }"

locale fault_free =
  fixes ok :: "'s \<Rightarrow> bool" and good :: "'e \<Rightarrow> bool" and step :: "'e \<Rightarrow> 's \<Rightarrow> 's option"
  assumes step_ok: "ok s \<Longrightarrow> good e \<Longrightarrow> \<exists>s1. step e s = Some s1 \<and> ok s1"
begin

lemma runs_ok: "ok s \<Longrightarrow> list_all good es \<Longrightarrow> \<exists>s1. run_steps step es s = Some s1 \<and> ok s1"
  by (induction es arbitrary: s) (auto dest: step_ok)

end

section \<open>The reader thread does not accumulate objects\<close>

text \<open>The resampler gives at most what it was asked for.\<close>

definition frame_fits :: "aud_frame \<Rightarrow> bool" where
  "frame_fits f \<longleftrightarrow> af_out f \<ge> 0 \<and> int (length (af_pcm f)) \<le> pcm_bytes f"

definition tick_fits :: "tick \<Rightarrow> bool" where
  "tick_fits t \<longleftrightarrow> (case tk_read t of Read_Packet p \<Rightarrow> list_all frame_fits (lp_frames p) | _ \<Rightarrow> True)"

lemma frame_unref_owned:
  "ds_aframe s \<Longrightarrow> frame_unref s (H + owned s) = Some (s\<lparr>ds_aref := False\<rparr>, H + owned (s\<lparr>ds_aref := False\<rparr>))"
  by (simp add: frame_unref_def release_if_def release_def owned_defs)

lemma write_frame_owned:
  assumes "frame_fits f" "pcm_ok s" "ds_aframe s"
  obtains ops s1 where "dash_audio_write_frame f s (H + owned s) = Some (ops, s1, H + owned s1)" "pcm_ok s1" "ds_aframe s1"
proof (cases "pcm_bytes f > ds_apcm_cap s \<and> \<not> af_realloc f")
  case True
  then show thesis using that [of "[]" s] assms by (simp add: dash_audio_write_frame_def Let_def)
next
  case False
  define grow where "grow \<longleftrightarrow> pcm_bytes f > ds_apcm_cap s"
  define s1 where "s1 = (if grow then s\<lparr>ds_apcm := True, ds_apcm_cap := pcm_bytes f\<rparr> else s)"
  have pos: "pcm_bytes f > 0" using assms(1) by (simp add: frame_fits_def pcm_bytes_def)
  have ok: "pcm_ok s1" "ds_aframe s1" using pos assms(2,3) by (simp_all add: s1_def pcm_ok_def)
  have own: "(if grow \<and> \<not> ds_apcm s then H + owned s + {#Pcm#} else H + owned s) = H + owned s1"
    by (simp add: s1_def owned_defs)
  have "pcm_bytes f \<le> ds_apcm_cap s1" by (simp add: s1_def grow_def)
  then have fits: "\<not> int (length (af_pcm f)) > ds_apcm_cap s1" using assms(1) by (simp add: frame_fits_def)
  have "dash_audio_write_frame f s (H + owned s) =
      Some (if af_pcm f \<noteq> [] then [Audio_Write (af_pcm f)] else [], s1\<lparr>ds_aref := False\<rparr>, H + owned (s1\<lparr>ds_aref := False\<rparr>))"
  proof -
    have f: "(grow \<and> \<not> af_realloc f) = False" using False by (simp add: grow_def)
    show ?thesis
      using fits frame_unref_owned [OF ok(2), of H]
      unfolding dash_audio_write_frame_def Let_def grow_def [symmetric] s1_def [symmetric] own f by simp
  qed
  moreover have "pcm_ok (s1\<lparr>ds_aref := False\<rparr>)" using ok(1) by (simp add: pcm_ok_def)
  ultimately show thesis using that ok(2) by simp
qed

lemma write_frames_owned:
  "list_all frame_fits fs \<Longrightarrow> pcm_ok s \<Longrightarrow> ds_aframe s \<Longrightarrow>
     \<exists>ops s1. write_frames fs s (H + owned s) = Some (ops, s1, H + owned s1) \<and> pcm_ok s1 \<and> \<not> ds_aref s1"
proof (induction fs arbitrary: s)
  case Nil
  then show ?case using frame_unref_owned [of s H] by (simp add: pcm_ok_def)
next
  case (Cons f fs)
  let ?s = "s\<lparr>ds_aref := False\<rparr>" and ?t = "s\<lparr>ds_aref := True\<rparr>"
  have u: "frame_unref s (H + owned s) = Some (?s, H + owned ?s)" using frame_unref_owned Cons.prems(3) by blast
  have t: "H + owned ?s + {#Frame_Data#} = H + owned ?t" using Cons.prems(3) by (simp add: owned_defs)
  obtain ops s1 where w: "dash_audio_write_frame f ?t (H + owned ?t) = Some (ops, s1, H + owned s1)" "pcm_ok s1" "ds_aframe s1"
    by (rule write_frame_owned [of f ?t H]) (use Cons.prems in \<open>auto simp: pcm_ok_def\<close>)
  obtain ops' s2 where i: "write_frames fs s1 (H + owned s1) = Some (ops', s2, H + owned s2)" "pcm_ok s2" "\<not> ds_aref s2"
    using Cons.IH [OF _ w(2,3)] Cons.prems(1) by auto
  have t': "?s\<lparr>ds_aref := True\<rparr> = ?t" by simp
  have "write_frames (f # fs) s (H + owned s) = Some (ops @ ops', s2, H + owned s2)"
    by (simp only: write_frames.simps u t t' w(1) i(1) Option.bind.bind_lunit split_conv)
  then show ?case using i(2,3) by blast
qed

text \<open>
  Between two passes the heap is what it was, the thread's two packets and the session's objects; the
  packets and the frame are empty.
\<close>

definition held :: "dash_session option \<Rightarrow> heap" where
  "held so = {#Pkt, Pkt#} + (case so of None \<Rightarrow> {#} | Some s \<Rightarrow> owned s)"

definition accounted :: "heap \<Rightarrow> libav_reader \<Rightarrow> bool" where
  "accounted H r \<longleftrightarrow> \<not> lr_done r \<and> \<not> lr_pkt r \<and> \<not> lr_out r \<and> lr_heap r = H + held (lr_sess r)
     \<and> (case lr_sess r of None \<Rightarrow> True | Some s \<Rightarrow> pcm_ok s \<and> \<not> ds_aref s)"

lemma end_session_accounted:
  assumes "accounted H r" "lr_sess r = Some s"
  shows "\<exists>r1. end_session s r = Some r1 \<and> accounted H r1"
  using assms dash_session_close_owned [of s "H + {#Pkt, Pkt#}"]
  by (simp add: end_session_def accounted_def held_def)

lemma filtered_units_heap:
  "\<not> lr_out r \<Longrightarrow> \<exists>r1. filtered_units f us r = Some r1 \<and> lr_heap r1 = lr_heap r \<and> \<not> lr_out r1 \<and> lr_pkt r1 = lr_pkt r
     \<and> lr_sess r1 = lr_sess r \<and> lr_done r1 = lr_done r"
proof (induction us arbitrary: r)
  case (Cons u us)
  have "lr_out (publish_unit f u (out_filled r))" "lr_heap (publish_unit f u (out_filled r)) = add_mset Out_Data (lr_heap r)"
    "lr_pkt (publish_unit f u (out_filled r)) = lr_pkt r" "lr_sess (publish_unit f u (out_filled r)) = lr_sess r"
    "lr_done (publish_unit f u (out_filled r)) = lr_done r"
    by (simp_all add: publish_unit_def out_filled_def)
  then obtain r1 where r1: "out_unref (publish_unit f u (out_filled r)) = Some r1" "lr_heap r1 = lr_heap r" "\<not> lr_out r1"
    "lr_pkt r1 = lr_pkt r" "lr_sess r1 = lr_sess r" "lr_done r1 = lr_done r"
    by (simp add: out_unref_def release_if_def)
  then show ?case using Cons.IH [of r1] by auto
qed simp

lemma pkt_unref_accounted:
  assumes "accounted H r" "lr_heap r' = lr_heap r + objs (lr_pkt r') Pkt_Data" "lr_out r' = lr_out r" "lr_sess r' = lr_sess r" "lr_done r' = lr_done r"
  shows "\<exists>r1. pkt_unref r' = Some r1 \<and> accounted H r1"
  using assms by (simp add: pkt_unref_def release_if_def accounted_def objs_def)

lemma libav_video_accounted:
  assumes "accounted H r"
  shows "\<exists>r1. libav_video p s (pkt_filled r) = Some r1 \<and> accounted H r1"
proof -
  let ?c = "pkt_filled r\<lparr>lr_pkts := lr_pkts r + 1, lr_count := lr_count r + 1\<rparr>"
  have filled: "lr_heap (pkt_filled r) = lr_heap r + {#Pkt_Data#}" "lr_pkt (pkt_filled r)" "lr_out (pkt_filled r) = lr_out r"
    "lr_sess (pkt_filled r) = lr_sess r" "lr_done (pkt_filled r) = lr_done r" "lr_count (pkt_filled r) = lr_count r"
    "lr_pkts (pkt_filled r) = lr_pkts r"
    by (simp_all add: pkt_filled_def)
  consider "\<not> ds_bsfc s" | "ds_bsfc s" "\<not> lp_sent p" | "ds_bsfc s" "lp_sent p" by blast
  then show ?thesis
  proof cases
    case 1
    then show ?thesis
      using pkt_unref_accounted [OF assms, of "publish_unit (lr_count r) (lp_data p, lp_wall p) ?c"] filled
      by (simp add: libav_video_def Let_def publish_unit_def objs_def)
  next
    case 2
    then show ?thesis using pkt_unref_accounted [OF assms, of ?c] filled by (simp add: libav_video_def Let_def objs_def)
  next
    case 3
    let ?m = "?c\<lparr>lr_pkt := False, lr_heap := lr_heap r\<rparr>"
    have m: "pkt_moved ?c = Some ?m" using filled by (simp add: pkt_moved_def)
    have "\<not> lr_out ?m" using assms filled by (simp add: accounted_def)
    then obtain r1 where r1: "filtered_units (lr_count r) (lp_units p) ?m = Some r1" "lr_heap r1 = lr_heap r" "\<not> lr_out r1" "\<not> lr_pkt r1"
      "lr_sess r1 = lr_sess r" "lr_done r1 = lr_done r"
      using filtered_units_heap [of ?m "lr_count r" "lp_units p"] filled by auto
    then show ?thesis using pkt_unref_accounted [OF assms, of r1] assms 3 m filled
      by (simp add: libav_video_def Let_def objs_def accounted_def)
  qed
qed

lemma libav_packet_accounted:
  assumes "accounted H r" "lr_sess r = Some s" "list_all frame_fits (lp_frames p)"
  shows "\<exists>r1. libav_packet_in p s (pkt_filled r) = Some r1 \<and> accounted H r1"
proof -
  have plain: "\<exists>r1. pkt_unref (pkt_filled r) = Some r1 \<and> accounted H r1"
    using pkt_unref_accounted [OF assms(1), of "pkt_filled r"] by (simp add: pkt_filled_def objs_def)
  consider "lp_stream p = ds_vs s" | "lp_stream p \<noteq> ds_vs s" "\<not> (lp_stream p = ds_as s \<and> ds_actx s \<and> ds_swr s \<and> ds_aframe s \<and> lp_decoded p)"
    | "lp_stream p \<noteq> ds_vs s" "lp_stream p = ds_as s" "ds_actx s" "ds_swr s" "ds_aframe s" "lp_decoded p" by blast
  then show ?thesis
  proof cases
    case 1 then show ?thesis using libav_video_accounted [OF assms(1)] by (simp add: libav_packet_in_def)
  next
    case 2 then show ?thesis using plain by (simp add: libav_packet_in_def)
  next
    case 3
    let ?G = "H + {#Pkt, Pkt#} + {#Pkt_Data#}"
    have h: "lr_heap (pkt_filled r) = ?G + owned s" "pcm_ok s"
      using assms(1,2) by (simp_all add: accounted_def held_def pkt_filled_def)
    obtain ops s1 where w: "write_frames (lp_frames p) s (?G + owned s) = Some (ops, s1, ?G + owned s1)" "pcm_ok s1" "\<not> ds_aref s1"
      using write_frames_owned [OF assms(3) h(2) 3(5), of ?G] by blast
    let ?r = "pkt_filled r\<lparr>lr_sess := Some s1, lr_heap := ?G + owned s1, lr_ops := lr_ops r @ ops\<rparr>"
    have a: "accounted H (r\<lparr>lr_sess := Some s1, lr_heap := H + held (Some s1)\<rparr>)"
      using assms(1) w(2,3) by (simp add: accounted_def)
    have "\<exists>r1. pkt_unref ?r = Some r1 \<and> accounted H r1"
      using pkt_unref_accounted [OF a, of ?r] by (simp add: held_def objs_def pkt_filled_def)
    moreover have "lr_ops (pkt_filled r) = lr_ops r" by (simp add: pkt_filled_def)
    ultimately show ?thesis using 3 h(1) w(1) by (simp add: libav_packet_in_def)
  qed
qed

lemma read_pass_accounted:
  assumes "accounted H r" "lr_sess r = Some s" "tick_fits t"
  shows "\<exists>r1. read_pass t s r = Some r1 \<and> accounted H r1"
proof (cases "\<exists>p. tk_read t = Read_Packet p")
  case True
  then obtain p where p: "tk_read t = Read_Packet p" ..
  have "accounted H (r\<lparr>lr_last_pkt := tk_now t\<rparr>)" using assms(1) by (simp add: accounted_def)
  from libav_packet_accounted [OF this, of s p] show ?thesis using assms p
    by (simp add: read_pass_def tick_fits_def)
next
  case False
  then have rp: "read_pass t s r =
      (if tk_now t - lr_last_pkt r > STALL_US then end_session s r
       else Some (sleep (if tk_read t = Read_Failed then 50000 else 20000) r))"
    by (cases "tk_read t") (simp_all add: read_pass_def)
  have slept: "accounted H (sleep n r)" for n using assms(1) by (simp add: accounted_def sleep_def)
  show ?thesis using rp slept end_session_accounted [OF assms(1,2)] by (cases "tk_now t - lr_last_pkt r > STALL_US") simp_all
qed

lemma setup_no_frame_data: "dash_session_setup q H = Some (rc, s, H1) \<Longrightarrow> \<not> ds_aref s"
proof -
  have pick: "ds_aref (pick_streams i xs s) = ds_aref s" for i xs s by (induction xs arbitrary: i s) auto
  assume "dash_session_setup q H = Some (rc, s, H1)"
  then show ?thesis
    by (auto simp: dash_session_setup_def bsf_setup_def audio_setup_def Let_def pick zero_session_def bind_eq_Some_conv split: if_splits)
qed

lemma open_pass_accounted:
  assumes "accounted H r" "lr_sess r = None"
  shows "\<exists>r1. open_pass t r = Some r1 \<and> accounted H r1"
proof -
  have h: "lr_heap r = H + {#Pkt, Pkt#}" using assms by (simp add: accounted_def held_def)
  show ?thesis
  proof (rule dash_session_open_owned [of "tk_open t" zero_session "lr_heap r"])
    fix s assume s: "dash_session_open (tk_open t) zero_session (lr_heap r) = Some (0, s, lr_heap r + owned s)" "pcm_ok s"
    have "\<not> ds_aref s" using s(1)
      by (auto simp: dash_session_open_def bind_eq_Some_conv split: if_splits dest: setup_no_frame_data)
    then show ?thesis using s assms h by (simp add: open_pass_def accounted_def held_def)
  next
    fix s assume "dash_session_open (tk_open t) zero_session (lr_heap r) = Some (- 1, s, lr_heap r)"
    then show ?thesis using assms by (simp add: open_pass_def accounted_def sleep_def)
  qed
qed

interpretation rd: fault_free "accounted H" tick_fits reader_pass for H
proof
  show "\<exists>r1. reader_pass t r = Some r1 \<and> accounted H r1" if "accounted H r" "tick_fits t" for r t
  proof -
    have run: "\<not> lr_done r" g_run_reader using that(1) by (simp_all add: accounted_def g_run_reader_def)
    show ?thesis
    proof (cases "lr_sess r")
      case None then show ?thesis using open_pass_accounted [OF that(1)] run by (simp add: reader_pass_def)
    next
      case (Some s) then show ?thesis using read_pass_accounted [OF that(1) Some that(2)] run by (simp add: reader_pass_def)
    qed
  qed
qed

lemma reader_passes_run: "reader_passes ts = run_steps reader_pass ts"
  by (induction ts; rule ext; simp)

lemma dash_reader_accounted:
  assumes "list_all tick_fits ts"
  shows "\<exists>r. dash_reader ts c n k H = Some r \<and> accounted H r"
proof -
  have "accounted H (reader_start c n k H)" by (simp add: accounted_def reader_start_def held_def)
  from rd.runs_ok [OF this assms] show ?thesis by (simp add: dash_reader_def reader_passes_run)
qed

text \<open>Were the run flag ever cleared, the end of the thread would give everything back.\<close>

lemma reader_exit_balanced:
  assumes "accounted H r"
  shows "\<exists>r1. reader_exit r = Some r1 \<and> lr_done r1 \<and> lr_heap r1 = H"
proof -
  obtain r1 where r1: "(case lr_sess r of None \<Rightarrow> Some r | Some s \<Rightarrow> end_session s r) = Some r1" "accounted H r1" "lr_sess r1 = None"
  proof (cases "lr_sess r")
    case (Some s)
    then show ?thesis using that end_session_accounted [OF assms Some] by (auto simp: end_session_def bind_eq_Some_conv)
  qed (use that assms in auto)
  then show ?thesis
    by (simp add: reader_exit_def accounted_def held_def pkt_unref_def out_unref_def release_if_def)
qed

section \<open>Sessions from initialisation segments\<close>

definition io_made :: "mem_lib \<Rightarrow> bool" where
  "io_made m \<longleftrightarrow> ml_buf m \<and> ml_ctx m \<and> ml_avio m"

definition open_fails :: "mem_lib \<Rightarrow> bool" where
  "open_fails m \<longleftrightarrow> io_made m \<and> ml_fmt m \<and> \<not> ml_open m"

lemma mem_io_heap:
  "dash_open_mem_io m H = Some (io_made m, H + (if io_made m then {#Avio_Buf, Mem_Ctx, Avio#} else {#}))"
  by (cases "ml_buf m"; cases "ml_ctx m"; cases "ml_avio m")
     (simp_all add: dash_open_mem_io_def io_made_def release_def Let_def)

lemma mem_io_close: "dash_close_mem_io (H + {#Avio_Buf, Mem_Ctx, Avio#}) = Some (H + {#Avio_Buf#})"
  by (simp add: dash_close_mem_io_def release_def)

text \<open>What one initialisation segment adds to the session, under the context made for it.\<close>

definition init_body :: "mem_lib \<Rightarrow> av_lib \<Rightarrow> bool \<Rightarrow> dash_session \<Rightarrow> int \<Rightarrow> heap \<Rightarrow> (int \<times> dash_session \<times> int \<times> heap) option" where
  "init_body m q w s fps H =
     (if ml_info m \<noteq> 0 then Some (- 1, s, fps, H)
      else if \<not> w then init_video q s fps H
      else do { (rc, s3, H3) \<leftarrow> init_audio q s H; Some (rc, s3, fps, H3) })"

lemma init_body_owned:
  assumes "\<not> w \<Longrightarrow> \<not> ds_bsfc s" "w \<Longrightarrow> \<not> ds_actx s \<and> \<not> ds_swr s \<and> \<not> ds_aframe s"
  shows "\<exists>rc s1 fps1. init_body m q w s fps (H + owned s) = Some (rc, s1, fps1, H + owned s1)
    \<and> (\<not> w \<longrightarrow> ds_actx s1 = ds_actx s \<and> ds_swr s1 = ds_swr s \<and> ds_aframe s1 = ds_aframe s)"
proof (cases "ml_info m \<noteq> 0")
  case True then show ?thesis by (simp add: init_body_def)
next
  case False
  show ?thesis
  proof (cases w)
    case True
    let ?s = "case first_stream Audio_Stream 0 (al_streams q) of Some i \<Rightarrow> s\<lparr>ds_as := i\<rparr> | None \<Rightarrow> s"
    have same: "owned ?s = owned s" and n: "\<not> ds_actx ?s" "\<not> ds_swr ?s" "\<not> ds_aframe ?s"
      using assms(2) [OF True] by (simp_all add: owned_def split: option.splits)
    obtain ok s1 where "audio_setup q ?s (H + owned s) = Some (ok, s1, H + owned s1)"
      using audio_setup_owned [OF n, of q H] same by auto
    then show ?thesis using True False by (simp add: init_body_def init_audio_def)
  next
    case video: False
    let ?s = "case first_stream Video_Stream 0 (al_streams q) of Some i \<Rightarrow> s\<lparr>ds_vs := i\<rparr> | None \<Rightarrow> s"
    have same: "owned ?s = owned s" "ds_actx ?s = ds_actx s" "ds_swr ?s = ds_swr s" "ds_aframe ?s = ds_aframe s"
      and n: "\<not> ds_bsfc ?s"
      using assms(1) [OF video] by (simp_all add: owned_def split: option.splits)
    obtain s1 where s1: "bsf_setup q ?s (H + owned s) = Some (s1, H + owned s1)"
      "ds_actx s1 = ds_actx s" "ds_swr s1 = ds_swr s" "ds_aframe s1 = ds_aframe s"
      using bsf_setup_owned [OF n, of q H] same by auto
    have "init_body m q w s fps (H + owned s) =
        (if ds_vs ?s \<ge> 0 then Some (0, s1, probed_fps (al_streams q ! nat (ds_vs ?s)) fps, H + owned s1)
         else Some (- 1, ?s, fps, H + owned s))"
      using video False s1(1) by (simp add: init_body_def init_video_def Let_def)
    then show ?thesis using same s1(2-4) by (cases "ds_vs ?s \<ge> 0") auto
  qed
qed

lemma init_setup_one_owned:
  assumes "\<not> open_fails m"
    and "\<not> w \<Longrightarrow> \<not> ds_bsfc s" "w \<Longrightarrow> \<not> ds_actx s \<and> \<not> ds_swr s \<and> \<not> ds_aframe s"
  shows "\<exists>rc s1 fps1. dash_init_setup_one m q w s fps (H + owned s)
      = Some (rc, s1, fps1, H + objs (io_made m) Avio_Buf + owned s1)
    \<and> (\<not> w \<longrightarrow> ds_actx s1 = ds_actx s \<and> ds_swr s1 = ds_swr s \<and> ds_aframe s1 = ds_aframe s)"
proof (cases "io_made m \<and> ml_fmt m")
  case False
  have "dash_close_mem_io (add_mset Avio_Buf (add_mset Mem_Ctx (add_mset Avio (H + owned s))))
      = Some (add_mset Avio_Buf (H + owned s))"
    using mem_io_close [of "H + owned s"] by simp
  then have "dash_init_setup_one m q w s fps (H + owned s) = Some (- 1, s, fps, H + objs (io_made m) Avio_Buf + owned s)"
    using False by (cases "io_made m") (simp_all add: dash_init_setup_one_def mem_io_heap objs_def)
  then show ?thesis by blast
next
  case True
  let ?G = "H + {#Avio_Buf, Mem_Ctx, Avio#} + {#Fmt_Ctx#}"
  obtain rc s1 fps1 where b: "init_body m q w s fps (?G + owned s) = Some (rc, s1, fps1, ?G + owned s1)"
    "\<not> w \<longrightarrow> ds_actx s1 = ds_actx s \<and> ds_swr s1 = ds_swr s \<and> ds_aframe s1 = ds_aframe s"
    using init_body_owned [OF assms(2,3), where H = ?G and m = m and q = q and fps = fps] by blast
  have r: "release Fmt_Ctx (?G + owned s1) = Some (H + owned s1 + {#Avio_Buf, Mem_Ctx, Avio#})"
    by (simp add: release_def)
  have "dash_init_setup_one m q w s fps (H + owned s) =
      do { (rc, s3, fps3, H3) \<leftarrow> init_body m q w s fps (H + owned s + {#Avio_Buf, Mem_Ctx, Avio#} + {#Fmt_Ctx#});
           H4 \<leftarrow> release Fmt_Ctx H3; H5 \<leftarrow> dash_close_mem_io H4; Some (rc, s3, fps3, H5) }"
    using True assms(1) by (simp only: dash_init_setup_one_def init_body_def mem_io_heap open_fails_def
        Option.bind.bind_lunit Let_def simp_thms if_True if_False split_conv)
  moreover have "H + owned s + {#Avio_Buf, Mem_Ctx, Avio#} + {#Fmt_Ctx#} = ?G + owned s" by (simp add: ac_simps)
  ultimately have "dash_init_setup_one m q w s fps (H + owned s) = Some (rc, s1, fps1, H + owned s1 + {#Avio_Buf#})"
    by (simp only: b(1) r mem_io_close Option.bind.bind_lunit split_conv)
  then show ?thesis using b(2) True by (simp add: objs_def)
qed


lemma init_session_cases:
  fixes v :: "mem_lib \<times> av_lib" and a :: "(mem_lib \<times> av_lib) option"
  shows "open_fails (fst v) \<Longrightarrow> dash_session_setup_from_init v a fps H = None"
    and "\<not> open_fails (fst v) \<Longrightarrow> (case a of None \<Rightarrow> True | Some (ma, _) \<Rightarrow> \<not> open_fails ma) \<Longrightarrow>
      \<exists>rc s fps1 H1. dash_session_setup_from_init v a fps H = Some (rc, s, fps1, H1)
        \<and> dash_session_close s H1 = Some (zero_session, H + objs (io_made (fst v)) Avio_Buf
             + (case a of Some (ma, _) \<Rightarrow> objs (rc = 0 \<and> io_made ma) Avio_Buf | None \<Rightarrow> {#}))"
proof -
  let ?s0 = "zero_session\<lparr>ds_vs := - 1, ds_as := - 1, ds_video_first_pts := None\<rparr>"
  have empty: "owned ?s0 = {#}" "\<not> ds_bsfc ?s0" "\<not> ds_actx ?s0" "\<not> ds_swr ?s0" "\<not> ds_aframe ?s0"
    by (simp_all add: owned_defs zero_session_def)
  show "dash_session_setup_from_init v a fps H = None" if "open_fails (fst v)"
    using that by (simp add: dash_session_setup_from_init_def dash_init_setup_one_def mem_io_heap open_fails_def)
  assume v: "\<not> open_fails (fst v)" and a: "case a of None \<Rightarrow> True | Some (ma, _) \<Rightarrow> \<not> open_fails ma"
  let ?H1 = "H + objs (io_made (fst v)) Avio_Buf"
  obtain rc s fps1 where one: "dash_init_setup_one (fst v) (snd v) False ?s0 fps H = Some (rc, s, fps1, ?H1 + owned s)"
    "\<not> ds_actx s" "\<not> ds_swr s" "\<not> ds_aframe s"
    using init_setup_one_owned [OF v, of False ?s0 "snd v" fps H] empty by auto
  show "\<exists>rc s fps1 H1. dash_session_setup_from_init v a fps H = Some (rc, s, fps1, H1)
        \<and> dash_session_close s H1 = Some (zero_session, H + objs (io_made (fst v)) Avio_Buf
             + (case a of Some (ma, _) \<Rightarrow> objs (rc = 0 \<and> io_made ma) Avio_Buf | None \<Rightarrow> {#}))"
  proof (cases "rc = 0 \<and> a \<noteq> None")
    case False
    then have "dash_session_setup_from_init v a fps H = Some (if rc = 0 then 0 else - 1, s, fps1, ?H1 + owned s)"
      using one(1) by (cases a) (auto simp: dash_session_setup_from_init_def)
    then show ?thesis using False dash_session_close_owned [of s ?H1]
      by (auto simp: objs_def split: option.splits)
  next
    case True
    then obtain ma qa where ma: "a = Some (ma, qa)" by auto
    obtain rc2 s2 fps2 where "dash_init_setup_one ma qa True s fps1 (?H1 + owned s)
        = Some (rc2, s2, fps2, ?H1 + objs (io_made ma) Avio_Buf + owned s2)"
      using init_setup_one_owned [of ma True s qa fps1 ?H1] a ma one(2-4) by auto
    then have "dash_session_setup_from_init v a fps H
        = Some (0, s2, fps2, ?H1 + objs (io_made ma) Avio_Buf + owned s2)"
      using one(1) True ma by (simp add: dash_session_setup_from_init_def)
    then show ?thesis using ma dash_session_close_owned [of s2 "?H1 + objs (io_made ma) Avio_Buf"] by simp
  qed
qed

text \<open>
  The video segment yields a stream: its input and context are made, it opens and is probed, and it
  has a video stream. The audio segment is looked at only then.
\<close>

definition video_found :: "mem_lib \<times> av_lib \<Rightarrow> bool" where
  "video_found v \<longleftrightarrow> io_made (fst v) \<and> ml_fmt (fst v) \<and> ml_open (fst v) \<and> ml_info (fst v) = 0
     \<and> first_stream Video_Stream 0 (al_streams (snd v)) \<noteq> None"

definition init_faults :: "mem_lib \<times> av_lib \<Rightarrow> (mem_lib \<times> av_lib) option \<Rightarrow> bool" where
  "init_faults v a \<longleftrightarrow> open_fails (fst v) \<or> (video_found v \<and> (\<exists>ma qa. a = Some (ma, qa) \<and> open_fails ma))"

lemma first_stream_nonneg: "first_stream t i xs = Some k \<Longrightarrow> 0 \<le> i \<Longrightarrow> 0 \<le> k"
  by (induction xs arbitrary: i) (auto split: if_splits)

lemma init_one_code:
  assumes "dash_init_setup_one m q False s fps H = Some (rc, s1, fps1, H1)" "ds_vs s = - 1"
  shows "rc = (if video_found (m, q) then 0 else - 1)"
proof (cases "io_made m \<and> ml_fmt m \<and> ml_open m \<and> ml_info m = 0")
  case False
  then show ?thesis
    using assms(1) by (auto simp: dash_init_setup_one_def mem_io_heap video_found_def Let_def bind_eq_Some_conv split: if_splits)
next
  case True
  then obtain s3 fps3 H3 where "init_video q s fps (H + {#Avio_Buf, Mem_Ctx, Avio#} + {#Fmt_Ctx#}) = Some (rc, s3, fps3, H3)"
    using assms(1) by (auto simp: dash_init_setup_one_def mem_io_heap Let_def bind_eq_Some_conv)
  then show ?thesis using True assms(2) first_stream_nonneg [of Video_Stream 0 "al_streams q"]
    by (auto simp: init_video_def Let_def video_found_def bind_eq_Some_conv split: option.splits if_splits)
qed

lemma init_session_fault:
  fixes v :: "mem_lib \<times> av_lib"
  assumes "init_faults v a"
  shows "dash_session_setup_from_init v a fps H = None"
proof (cases "open_fails (fst v)")
  case True then show ?thesis by (rule init_session_cases(1))
next
  case False
  then obtain ma qa where a: "video_found v" "a = Some (ma, qa)" "open_fails ma" using assms by (auto simp: init_faults_def)
  let ?s0 = "zero_session\<lparr>ds_vs := - 1, ds_as := - 1, ds_video_first_pts := None\<rparr>"
  have "owned ?s0 = {#}" "\<not> ds_bsfc ?s0" by (simp_all add: owned_defs zero_session_def)
  then obtain rc s fps1 H1 where one: "dash_init_setup_one (fst v) (snd v) False ?s0 fps H = Some (rc, s, fps1, H1)"
    using init_setup_one_owned [OF False, of False ?s0 "snd v" fps H] by auto
  have "rc = 0" using init_one_code [OF one] a(1) by simp
  moreover have "dash_init_setup_one ma qa True s fps1 H1 = None"
    using a(3) by (simp add: dash_init_setup_one_def mem_io_heap open_fails_def)
  ultimately show ?thesis using one a(2) by (simp add: dash_session_setup_from_init_def)
qed

lemma init_session_code:
  assumes "dash_session_setup_from_init v a fps H = Some (rc, s, fps1, H1)"
  shows "rc = (if video_found v then 0 else - 1)"
proof -
  let ?s0 = "zero_session\<lparr>ds_vs := - 1, ds_as := - 1, ds_video_first_pts := None\<rparr>"
  obtain rc0 s0 fps0 H0 where one: "dash_init_setup_one (fst v) (snd v) False ?s0 fps H = Some (rc0, s0, fps0, H0)"
    using assms by (auto simp: dash_session_setup_from_init_def bind_eq_Some_conv)
  have "rc0 = (if video_found v then 0 else - 1)" using init_one_code [OF one] by simp
  then show ?thesis using assms one
    by (auto simp: dash_session_setup_from_init_def bind_eq_Some_conv split: if_splits option.splits)
qed

lemma init_session_unused_audio:
  assumes "\<not> video_found v" "\<not> open_fails (fst v)"
  shows "dash_session_setup_from_init v a fps H = dash_session_setup_from_init v None fps H"
proof -
  let ?s0 = "zero_session\<lparr>ds_vs := - 1, ds_as := - 1, ds_video_first_pts := None\<rparr>"
  have "owned ?s0 = {#}" "\<not> ds_bsfc ?s0" by (simp_all add: owned_defs zero_session_def)
  then obtain rc s fps1 H1 where one: "dash_init_setup_one (fst v) (snd v) False ?s0 fps H = Some (rc, s, fps1, H1)"
    using init_setup_one_owned [OF assms(2), of False ?s0 "snd v" fps H] by auto
  have "rc \<noteq> 0" using init_one_code [OF one] assms(1) by simp
  then show ?thesis using one by (simp add: dash_session_setup_from_init_def)
qed

text \<open>
  C40: Setting up a session from the initialisation segments and closing it again, for every answer of
  the libraries. The program goes through a null pointer exactly when the video segment does not open
  as a stream, or when it yields a video stream and the audio segment does not open. In every other
  case set-up returns, with success exactly when there is a video stream, closing the session
  succeeds, and of everything that was allocated exactly the input buffers stay behind: one for every
  segment for which an input was made.
\<close>

theorem init_session_keeps_only_buffers:
  fixes v :: "mem_lib \<times> av_lib" and a :: "(mem_lib \<times> av_lib) option"
  shows "(init_faults v a \<longrightarrow> dash_session_setup_from_init v a fps H = None)
    \<and> (\<not> init_faults v a \<longrightarrow>
       (\<exists>rc s fps1 H1. dash_session_setup_from_init v a fps H = Some (rc, s, fps1, H1)
         \<and> rc = (if video_found v then 0 else - 1)
         \<and> dash_session_close s H1 = Some (zero_session, H + objs (io_made (fst v)) Avio_Buf
              + (case a of Some (ma, _) \<Rightarrow> objs (video_found v \<and> io_made ma) Avio_Buf | None \<Rightarrow> {#}))))"
proof (cases "init_faults v a")
  case True then show ?thesis using init_session_fault by blast
next
  case False
  then have v: "\<not> open_fails (fst v)" by (simp add: init_faults_def)
  define b where "b = (if video_found v then a else None)"
  have same: "dash_session_setup_from_init v a fps H = dash_session_setup_from_init v b fps H"
  proof (cases "video_found v")
    case found: False
    show ?thesis unfolding b_def if_not_P [OF found] by (rule init_session_unused_audio [OF found v])
  qed (simp add: b_def)
  have "case b of None \<Rightarrow> True | Some (ma, _) \<Rightarrow> \<not> open_fails ma"
    using False by (auto simp: b_def init_faults_def split: option.splits)
  from init_session_cases(2) [OF v this, of fps H] obtain rc s fps1 H1 where
    s: "dash_session_setup_from_init v b fps H = Some (rc, s, fps1, H1)"
      "dash_session_close s H1 = Some (zero_session, H + objs (io_made (fst v)) Avio_Buf
         + (case b of Some (ma, _) \<Rightarrow> objs (rc = 0 \<and> io_made ma) Avio_Buf | None \<Rightarrow> {#}))"
    by blast
  have rc: "rc = (if video_found v then 0 else - 1)" using init_session_code [OF s(1)] .
  have "(case b of Some (ma, _) \<Rightarrow> objs (rc = 0 \<and> io_made ma) Avio_Buf | None \<Rightarrow> {#})
      = (case a of Some (ma, _) \<Rightarrow> objs (video_found v \<and> io_made ma) Avio_Buf | None \<Rightarrow> {#})"
    using rc by (auto simp: b_def objs_def split: option.splits)
  then show ?thesis using s rc same False by simp
qed

definition good_mem :: mem_lib where
  "good_mem = \<lparr>ml_buf = True, ml_ctx = True, ml_avio = True, ml_fmt = True, ml_open = True, ml_info = 0\<rparr>"

definition good_lib :: "media \<Rightarrow> av_lib" where
  "good_lib t = \<lparr>al_streams = [\<lparr>st_type = t, st_rate_num = 24, st_rate_den = 1\<rparr>], al_bsf_found = True,
     al_bsf_alloc = True, al_bsf_params = True, al_bsf_init = True, al_decoder = True, al_actx = True,
     al_actx_params = True, al_actx_open = True, al_swr_alloc = True, al_swr_init = True, al_aframe = True\<rparr>"

theorem init_session_keeps_only_buffers_witness:
  "dash_session_setup_from_init (good_mem\<lparr>ml_open := False\<rparr>, good_lib Video_Stream) None 0 {#} = None
   \<and> dash_session_setup_from_init (good_mem, good_lib Video_Stream) (Some (good_mem\<lparr>ml_open := False\<rparr>, good_lib Audio_Stream)) 0 {#} = None
   \<and> (\<exists>s fps1 H1. dash_session_setup_from_init (good_mem, good_lib Video_Stream) (Some (good_mem, good_lib Audio_Stream)) 0 {#}
        = Some (0, s, fps1, H1)
      \<and> dash_session_close s H1 = Some (zero_session, {#Avio_Buf, Avio_Buf#}))"
proof -
  let ?bad = "good_mem\<lparr>ml_open := False\<rparr>" and ?v = "(good_mem, good_lib Video_Stream)"
  have m: "io_made good_mem" "\<not> open_fails good_mem" "open_fails ?bad" "video_found ?v"
    by (simp_all add: good_mem_def good_lib_def open_fails_def video_found_def io_made_def)
  have f: "init_faults (?bad, good_lib Video_Stream) None" "init_faults ?v (Some (?bad, good_lib Audio_Stream))"
    "\<not> init_faults ?v (Some (good_mem, good_lib Audio_Stream))"
    using m by (simp_all add: init_faults_def)
  have left: "{#} + objs (io_made (fst ?v)) Avio_Buf + (case Some (good_mem, good_lib Audio_Stream) of
      Some (ma, _) \<Rightarrow> objs (video_found ?v \<and> io_made ma) Avio_Buf | None \<Rightarrow> {#}) = {#Avio_Buf, Avio_Buf#}"
    using m by (simp add: objs_def)
  note all = init_session_keeps_only_buffers [where fps = 0 and H = "{#}"]
  show ?thesis
    using all [THEN conjunct1, rule_format, OF f(1)] all [THEN conjunct1, rule_format, OF f(2)]
      all [THEN conjunct2, rule_format, OF f(3)] unfolding left by (metis m(4))
qed

text \<open>
  C39: The reader thread on the library's stream reader, over any number of passes with any failures
  to open, stalls, packets, refused filters and decoders and read errors, as long as the resampler gives no
  more samples than it was asked for: no object is freed twice or without being owned, the sample buffer is
  not overrun, and between passes the thread holds exactly its two packets, both empty, and what the current
  session owns, so at most eight objects more than at its start. It is never over: its run flag is never
  cleared, and a thread that is cancelled between passes leaves exactly these objects behind.
\<close>

theorem dash_reader_holds_only_session:
  assumes "list_all tick_fits ts"
  shows "\<exists>r. dash_reader ts c n k H = Some r \<and> \<not> lr_done r \<and> \<not> lr_pkt r \<and> \<not> lr_out r
    \<and> lr_heap r = H + {#Pkt, Pkt#} + (case lr_sess r of None \<Rightarrow> {#} | Some s \<Rightarrow> owned s)
    \<and> size (lr_heap r) \<le> size H + 8"
proof -
  obtain r where r: "dash_reader ts c n k H = Some r" "accounted H r" using dash_reader_accounted [OF assms] by blast
  have "size (owned s) \<le> 6" if "\<not> ds_aref s" for s using that by (simp add: owned_defs)
  then show ?thesis using r by (auto simp: accounted_def held_def split: option.splits)
qed

definition stalled_tick :: tick where
  "stalled_tick = \<lparr>tk_open = \<lparr>oe_run = \<lambda>_. True, oe_open = \<lambda>n. n = 2, oe_info = 0, oe_lib = good_lib Video_Stream\<rparr>,
     tk_read = Read_Eof, tk_now = 5\<rparr>"

definition audio_packet :: libav_packet where
  "audio_packet = \<lparr>lp_stream = 7, lp_data = [1, 2], lp_sent = True, lp_units = [([3], 9)], lp_wall = 9, lp_decoded = True,
     lp_frames = [\<lparr>af_out = 1, af_realloc = True, af_pcm = [1, 2, 3, 4]\<rparr>]\<rparr>"

theorem dash_reader_holds_only_session_witness:
  "\<exists>r. dash_reader [stalled_tick, stalled_tick\<lparr>tk_read := Read_Packet (audio_packet\<lparr>lp_stream := 0\<rparr>)\<rparr>,
         stalled_tick\<lparr>tk_read := Read_Packet audio_packet\<rparr>, stalled_tick\<lparr>tk_now := 30000000\<rparr>] started_clock 0 0 {#Frame#} = Some r
     \<and> lr_heap r = {#Frame, Pkt, Pkt#} + (case lr_sess r of None \<Rightarrow> {#} | Some s \<Rightarrow> owned s)"
  using dash_reader_holds_only_session [of "[stalled_tick, stalled_tick\<lparr>tk_read := Read_Packet (audio_packet\<lparr>lp_stream := 0\<rparr>)\<rparr>,
      stalled_tick\<lparr>tk_read := Read_Packet audio_packet\<rparr>, stalled_tick\<lparr>tk_now := 30000000\<rparr>]" started_clock 0 0 "{#Frame#}"]
  by (auto simp: tick_fits_def stalled_tick_def audio_packet_def frame_fits_def pcm_bytes_def)

section \<open>Numbering of the frames\<close>

text \<open>The frame number and the content time of a publication.\<close>

fun op_frame :: "shared_op \<Rightarrow> (u32 \<times> int) list" where
  "op_frame (Publish d t fidx pts seg) = [(fidx, pts)]"
| "op_frame _ = []"

definition frames_of :: "shared_op list \<Rightarrow> (u32 \<times> int) list" where
  "frames_of ops = concat (map op_frame ops)"

definition period_us :: "av_clock \<Rightarrow> int" where
  "period_us c = (if g_stream_fps c > 0 then 1000000 div g_stream_fps c else 16667)"

text \<open>
  After \<open>n\<close> video packets: the publications carry, in ascending order, numbers of these packets, each
  with the content time that belongs to its number.
\<close>

definition numbered :: "u32 \<Rightarrow> av_clock \<Rightarrow> nat \<Rightarrow> libav_reader \<Rightarrow> bool" where
  "numbered n0 c n r \<longleftrightarrow> lr_clock r = c \<and> lr_count r = n0 + of_nat n \<and>
     (\<exists>ks. sorted ks \<and> (\<forall>k \<in> set ks. k < n)
        \<and> frames_of (lr_ops r) = map (\<lambda>k. (n0 + of_nat k, uint (n0 + of_nat k) * period_us c)) ks)"

lemma frames_of_append [simp]: "frames_of (xs @ ys) = frames_of xs @ frames_of ys"
  by (simp add: frames_of_def)

lemma frames_of_units: "frames_of (map (unit_op c f) us) = replicate (length us) (f, uint f * period_us c)"
  by (induction us) (simp_all add: frames_of_def unit_op_def period_us_def Let_def)

lemma write_frames_quiet: "write_frames fs s H = Some (ops, s1, H1) \<Longrightarrow> frames_of ops = []"
proof (induction fs arbitrary: s H ops)
  case (Cons f fs)
  then obtain s0 H0 o1 s2 H2 o2 where w: "dash_audio_write_frame f (s0\<lparr>ds_aref := True\<rparr>) (H0 + {#Frame_Data#}) = Some (o1, s2, H2)"
    "write_frames fs s2 H2 = Some (o2, s1, H1)" "ops = o1 @ o2"
    by (auto simp: bind_eq_Some_conv)
  have "frames_of o1 = []" using w(1)
    by (auto simp: dash_audio_write_frame_def Let_def frames_of_def bind_eq_Some_conv split: if_splits)
  then show ?case using Cons.IH [OF w(2)] w(3) by simp
qed (auto simp: frames_of_def bind_eq_Some_conv)

text \<open>What the operations on packets leave alone.\<close>

definition same_output :: "libav_reader \<Rightarrow> libav_reader \<Rightarrow> bool" where
  "same_output r r1 \<longleftrightarrow> lr_clock r1 = lr_clock r \<and> lr_count r1 = lr_count r \<and> lr_ops r1 = lr_ops r"

lemma packets_same_output:
  "pkt_unref r = Some r1 \<Longrightarrow> same_output r r1" "pkt_moved r = Some r1 \<Longrightarrow> same_output r r1"
  "out_unref r = Some r1 \<Longrightarrow> same_output r r1" "same_output r (pkt_filled r)" "same_output r (out_filled r)"
  by (auto simp: same_output_def pkt_unref_def pkt_moved_def out_unref_def pkt_filled_def out_filled_def bind_eq_Some_conv)

lemma filtered_units_ops:
  "filtered_units f us r = Some r1 \<Longrightarrow>
     lr_clock r1 = lr_clock r \<and> lr_count r1 = lr_count r
     \<and> lr_ops r1 = lr_ops r @ map (unit_op (lr_clock r) f) (filter (\<lambda>u. fst u \<noteq> []) us)"
proof (induction us arbitrary: r)
  case (Cons u us)
  then obtain r2 where r2: "out_unref (publish_unit f u (out_filled r)) = Some r2" "filtered_units f us r2 = Some r1"
    by (auto simp: bind_eq_Some_conv)
  have "lr_clock r2 = lr_clock r \<and> lr_count r2 = lr_count r
      \<and> lr_ops r2 = lr_ops r @ (if fst u \<noteq> [] then [unit_op (lr_clock r) f u] else [])"
    using packets_same_output(3) [OF r2(1)] packets_same_output(5) [of r] by (auto simp: same_output_def publish_unit_def)
  then show ?case using Cons.IH [OF r2(2)] by simp
qed simp

lemma libav_video_ops:
  assumes "libav_video p s r = Some r1"
  shows "\<exists>us. lr_clock r1 = lr_clock r \<and> lr_count r1 = lr_count r + 1
     \<and> lr_ops r1 = lr_ops r @ map (unit_op (lr_clock r) (lr_count r)) us"
proof -
  let ?c = "r\<lparr>lr_pkts := lr_pkts r + 1, lr_count := lr_count r + 1\<rparr>"
  consider r2 where "pkt_unref r2 = Some r1" "same_output ?c r2"
    | us r2 r3 where "same_output ?c r2" "filtered_units (lr_count r) us r2 = Some r3" "pkt_unref r3 = Some r1"
    | u where "pkt_unref (publish_unit (lr_count r) u ?c) = Some r1"
    using assms packets_same_output(2)
    by (fastforce simp: libav_video_def Let_def same_output_def bind_eq_Some_conv split: if_splits)
  then show ?thesis
  proof cases
    case 1 then show ?thesis using packets_same_output(1) [OF 1(1)] by (intro exI [of _ "[]"]) (simp add: same_output_def)
  next
    case 2 then show ?thesis
      using packets_same_output(1) [OF 2(3)] filtered_units_ops [OF 2(2)]
      by (intro exI [of _ "filter (\<lambda>u. fst u \<noteq> []) us"]) (simp add: same_output_def)
  next
    case 3 then show ?thesis
      using packets_same_output(1) [OF 3] by (intro exI [of _ "if fst u \<noteq> [] then [u] else []"])
        (simp add: same_output_def publish_unit_def)
  qed
qed

lemma libav_video_numbered:
  assumes "numbered n0 c n r" "libav_video p s r = Some r1"
  shows "numbered n0 c (Suc n) r1"
proof -
  obtain ks where ks: "sorted ks" "\<forall>k \<in> set ks. k < n"
    "frames_of (lr_ops r) = map (\<lambda>k. (n0 + of_nat k, uint (n0 + of_nat k) * period_us c)) ks"
    using assms(1) by (auto simp: numbered_def)
  obtain us where us: "lr_clock r1 = c" "lr_count r1 = n0 + of_nat (Suc n)"
    "lr_ops r1 = lr_ops r @ map (unit_op c (n0 + of_nat n)) us"
    using libav_video_ops [OF assms(2)] assms(1) by (auto simp: numbered_def add.assoc add.commute)
  then have "frames_of (lr_ops r1) =
      map (\<lambda>k. (n0 + of_nat k, uint (n0 + of_nat k) * period_us c)) (ks @ replicate (length us) n)"
    using ks(3) by (simp add: frames_of_units)
  moreover have "sorted (ks @ replicate (length us) n)" "\<forall>k \<in> set (ks @ replicate (length us) n). k < Suc n"
    using ks(1,2) by (auto simp: sorted_append less_Suc_eq less_imp_le)
  ultimately show ?thesis using us(1,2) unfolding numbered_def by blast
qed

lemma numbered_cong:
  "lr_clock r' = lr_clock r \<Longrightarrow> lr_count r' = lr_count r \<Longrightarrow> frames_of (lr_ops r') = frames_of (lr_ops r) \<Longrightarrow>
     numbered n0 c n r' = numbered n0 c n r"
  by (simp add: numbered_def)

lemma packet_in_numbered:
  assumes "numbered n0 c n r" "libav_packet_in p s r = Some r1"
  shows "\<exists>m. numbered n0 c m r1"
proof (cases "lp_stream p = ds_vs s")
  case True
  then show ?thesis using assms libav_video_numbered [OF assms(1)] by (auto simp: libav_packet_in_def)
next
  case False
  then obtain r2 where r2: "pkt_unref r2 = Some r1" "lr_clock r2 = lr_clock r" "lr_count r2 = lr_count r"
    "frames_of (lr_ops r2) = frames_of (lr_ops r)"
    using assms(2) write_frames_quiet by (fastforce simp: libav_packet_in_def bind_eq_Some_conv split: if_splits)
  then have "numbered n0 c n r1 = numbered n0 c n r"
    using packets_same_output(1) [OF r2(1)] by (intro numbered_cong) (simp_all add: same_output_def)
  then show ?thesis using assms(1) by blast
qed

lemma end_session_keeps: "end_session s r = Some r1 \<Longrightarrow> same_output r r1"
  by (auto simp: end_session_def same_output_def bind_eq_Some_conv)

lemma reader_pass_numbered:
  assumes "numbered n0 c n r" "reader_pass t r = Some r1"
  shows "\<exists>m. numbered n0 c m r1"
proof (cases "\<exists>s p. \<not> lr_done r \<and> lr_sess r = Some s \<and> tk_read t = Read_Packet p")
  case True
  then obtain s p where sp: "\<not> lr_done r" "lr_sess r = Some s" "tk_read t = Read_Packet p" by blast
  have "numbered n0 c n (pkt_filled (r\<lparr>lr_last_pkt := tk_now t\<rparr>))" using assms(1) by (simp add: numbered_def pkt_filled_def)
  from packet_in_numbered [OF this] show ?thesis using assms(2) sp by (simp add: reader_pass_def read_pass_def g_run_reader_def)
next
  case False
  have "same_output r r1"
  proof (cases "lr_done r")
    case True
    then show ?thesis using assms(2) by (simp add: reader_pass_def same_output_def)
  next
    case run: False
    show ?thesis
    proof (cases "lr_sess r")
      case None
      then show ?thesis using assms(2) run
        by (auto simp: reader_pass_def g_run_reader_def open_pass_def sleep_def same_output_def bind_eq_Some_conv split: if_splits)
    next
      case (Some s)
      then have "read_pass t s r = Some r1" "\<nexists>p. tk_read t = Read_Packet p"
        using assms(2) run False by (auto simp: reader_pass_def g_run_reader_def)
      then show ?thesis
        by (cases "tk_read t") (auto simp: read_pass_def sleep_def same_output_def split: if_splits dest: end_session_keeps)
    qed
  qed
  then show ?thesis using assms(1) numbered_cong [of r1 r n0 c n] by (auto simp: same_output_def)
qed

lemma reader_passes_numbered:
  "numbered n0 c n r \<Longrightarrow> reader_passes ts r = Some r1 \<Longrightarrow> \<exists>m. numbered n0 c m r1"
proof (induction ts arbitrary: n r)
  case (Cons t ts)
  then obtain r2 where "reader_pass t r = Some r2" "reader_passes ts r2 = Some r1" by (auto simp: bind_eq_Some_conv)
  then show ?case using reader_pass_numbered Cons by blast
qed auto

lemma dash_reader_frames_numbered:
  assumes "dash_reader ts c n0 k H = Some r"
  shows "\<exists>n. numbered n0 c n r"
proof -
  have "numbered n0 c 0 (reader_start c n0 k H)"
    by (simp add: numbered_def frames_of_def reader_start_def)
  from reader_passes_numbered [OF this] show ?thesis using assms by (simp add: dash_reader_def)
qed

section \<open>Objects of a demultiplexed segment\<close>

text \<open>
  What \<open>dash_demux_segment\<close> allocates and frees around its packets; as with the initialisation
  segments, data that does not open as a stream ends in a null pointer.
\<close>

definition demux_heap :: "mem_lib \<Rightarrow> heap \<Rightarrow> heap option" where
  "demux_heap m H =
     do { (opened, H1) \<leftarrow> dash_open_mem_io m H;
          if \<not> opened then Some H1
          else if \<not> ml_fmt m then dash_close_mem_io H1
          else let H2 = H1 + {#Fmt_Ctx#} + {#Dict#}
               in if \<not> ml_open m then None
                  else if ml_info m < 0
                  then do { H3 \<leftarrow> release Dict H2; H4 \<leftarrow> release Fmt_Ctx H3; dash_close_mem_io H4 }
                  else do { H3 \<leftarrow> release Dict H2;
                            H4 \<leftarrow> release Pkt (H3 + {#Pkt#});
                            H5 \<leftarrow> release Fmt_Ctx H4;
                            dash_close_mem_io H5 } }"

fun demux_segments :: "mem_lib list \<Rightarrow> heap \<Rightarrow> heap option" where
  "demux_segments [] H = Some H"
| "demux_segments (m # ms) H = do { H1 \<leftarrow> demux_heap m H; demux_segments ms H1 }"

lemma demux_heap_fault: "open_fails m \<Longrightarrow> demux_heap m H = None"
  by (simp add: demux_heap_def mem_io_heap open_fails_def)

lemma demux_heap_leaves_buffer:
  assumes "io_made m" "\<not> open_fails m"
  shows "demux_heap m H = Some (H + {#Avio_Buf#})"
proof -
  let ?H1 = "H + {#Avio_Buf, Mem_Ctx, Avio#}"
  have d: "release Dict (?H1 + {#Fmt_Ctx#} + {#Dict#}) = Some (?H1 + {#Fmt_Ctx#})" by (simp add: release_def)
  have p: "release Pkt (?H1 + {#Fmt_Ctx#} + {#Pkt#}) = Some (?H1 + {#Fmt_Ctx#})" by (simp add: release_def)
  have f: "release Fmt_Ctx (?H1 + {#Fmt_Ctx#}) = Some ?H1" by (simp add: release_def)
  have "demux_heap m H = dash_close_mem_io ?H1"
    using assms by (cases "ml_fmt m"; cases "ml_info m < 0")
      (simp_all only: demux_heap_def mem_io_heap open_fails_def Option.bind.bind_lunit split_conv Let_def d p f simp_thms if_True if_False)
  then show ?thesis by (simp only: mem_io_close)
qed

text \<open>Segments that open as streams are demultiplexed without a fault.\<close>

interpretation seg: fault_free "\<lambda>_. True" "\<lambda>m. \<not> open_fails m" demux_heap
proof
  show "\<exists>H1. demux_heap m H = Some H1 \<and> True" if "\<not> open_fails m" for m H
  proof (cases "io_made m")
    case False
    then show ?thesis by (simp add: demux_heap_def mem_io_heap)
  qed (simp add: demux_heap_leaves_buffer that)
qed

lemma demux_segments_run: "demux_segments ms = run_steps demux_heap ms"
  by (induction ms; rule ext; simp)

lemma segments_never_fault: "list_all (\<lambda>m. \<not> open_fails m) ms \<Longrightarrow> demux_segments ms H \<noteq> None"
  using seg.runs_ok [of ms H] by (auto simp: demux_segments_run)

text \<open>One input buffer per segment stays behind for as long as the reader runs.\<close>

lemma segments_leave_buffers:
  "list_all (\<lambda>m. io_made m \<and> \<not> open_fails m) ms \<Longrightarrow>
     demux_segments ms H = Some (H + replicate_mset (length ms) Avio_Buf)"
  by (induction ms arbitrary: H) (auto simp: demux_heap_leaves_buffer)


section \<open>A session of the direct reader\<close>

text \<open>
  The head of the loop of \<open>dash_reader_direct\<close>: the manifest, the two initialisation segments, the
  session, and the state at its start. \<open>fetch\<close> is the body that a request for a URL yields, if any;
  \<open>probe\<close> is what the library makes of the data. A URL is cut to its 512-byte field.
\<close>

definition init_url :: "dash_manifest \<Rightarrow> string \<Rightarrow> string" where
  "init_url m name = take 511 (mf_base m @ name)"

datatype direct_session =
    Session_Retry
  | Session_Open dash_manifest dash_session int reader "bytes option" "bytes option"

definition direct_open ::
  "load_result \<Rightarrow> (string \<Rightarrow> bytes option) \<Rightarrow> (bytes \<Rightarrow> mem_lib \<times> av_lib) \<Rightarrow> int \<Rightarrow> reader \<Rightarrow> heap \<Rightarrow> (direct_session \<times> heap) option" where
  "direct_open loaded fetch probe fps r H =
     (case loaded of
        Manifest_Fault \<Rightarrow> None
      | Manifest m \<Rightarrow>
          let init_v = fetch (init_url m ''/init-stream0.m4s'');
              init_a = fetch (init_url m ''/init-stream1.m4s'');
              data = (\<lambda>b. case b of Some x \<Rightarrow> x | None \<Rightarrow> []);
              a = (if data init_a \<noteq> [] then Some (probe (data init_a)) else None)
          in do { (rc, s, fps1, H1) \<leftarrow> dash_session_setup_from_init (probe (data init_v)) a fps H;
                  if rc \<noteq> 0 then do { (_, H2) \<leftarrow> dash_session_close s H1; Some (Session_Retry, H2) }
                  else Some (Session_Open m s fps1 (session_start m r) init_v init_a, H1) }
      | _ \<Rightarrow> Some (Session_Retry, H))"

text \<open>
  A manifest that is up before its video initialisation segment ends the program: the empty body does
  not open as a stream. The code means to wait two seconds and try again.
\<close>

lemma missing_init_segment_faults:
  assumes "fetch (init_url m ''/init-stream0.m4s'') = None" "open_fails (fst (probe []))"
  shows "direct_open (Manifest m) fetch probe fps r H = None"
  using init_session_cases(1) [OF assms(2)] assms(1) by (simp add: direct_open_def Let_def)

text \<open>
  If the data of both segments open as streams, an attempt that has to be repeated holds nothing but the
  input buffers; a session that is opened starts without an anchor and with nothing delivered.
\<close>

lemma direct_open_spec:
  assumes "\<And>b. \<not> open_fails (fst (probe b))"
  obtains H1 where "direct_open (Manifest m) fetch probe fps r H = Some (Session_Retry, H1)"
      "set_mset (H1 - H) \<subseteq> {Avio_Buf}" "H \<subseteq># H1"
  | s fps1 v a H1 where "direct_open (Manifest m) fetch probe fps r H = Some (Session_Open m s fps1 (session_start m r) v a, H1)"
      "\<exists>n. dash_session_close s H1 = Some (zero_session, H + replicate_mset n Avio_Buf)"
proof -
  define v where "v = fetch (init_url m ''/init-stream0.m4s'')"
  define a where "a = fetch (init_url m ''/init-stream1.m4s'')"
  let ?data = "\<lambda>b. case b of Some x \<Rightarrow> x | None \<Rightarrow> []"
  let ?a = "if ?data a \<noteq> [] then Some (probe (?data a)) else None"
  have "case ?a of None \<Rightarrow> True | Some (ma, _) \<Rightarrow> \<not> open_fails ma"
    using assms [of "?data a"] by (cases "probe (?data a)") simp
  from init_session_cases(2) [OF assms [of "?data v"] this, of fps H]
  obtain rc s fps1 H1 where s: "dash_session_setup_from_init (probe (?data v)) ?a fps H = Some (rc, s, fps1, H1)"
    "dash_session_close s H1 = Some (zero_session, H + objs (io_made (fst (probe (?data v)))) Avio_Buf
       + (case ?a of Some (ma, _) \<Rightarrow> objs (rc = 0 \<and> io_made ma) Avio_Buf | None \<Rightarrow> {#}))"
    by blast
  obtain n where n: "dash_session_close s H1 = Some (zero_session, H + replicate_mset n Avio_Buf)"
  proof -
    have obj: "\<exists>k. objs b Avio_Buf = replicate_mset k Avio_Buf" for b
      by (rule exI [of _ "of_bool b"]) (simp add: objs_def)
    then obtain k where k: "objs (io_made (fst (probe (?data v)))) Avio_Buf = replicate_mset k Avio_Buf" by blast
    have "\<exists>l. (case x of Some (ma, _) \<Rightarrow> objs (rc = 0 \<and> io_made ma) Avio_Buf | None \<Rightarrow> {#}) = replicate_mset l Avio_Buf"
      for x :: "(mem_lib \<times> av_lib) option"
    proof (cases x)
      case None show ?thesis unfolding None by (rule exI [of _ 0]) simp
    next
      case (Some y) then show ?thesis using obj by (cases y) simp
    qed
    then obtain l where "(case ?a of Some (ma, _) \<Rightarrow> objs (rc = 0 \<and> io_made ma) Avio_Buf | None \<Rightarrow> {#}) = replicate_mset l Avio_Buf" ..
    moreover have "H + replicate_mset k Avio_Buf + replicate_mset l Avio_Buf = H + replicate_mset (k + l) Avio_Buf"
      by (rule multiset_eqI) simp
    ultimately show thesis using s(2) k by (intro that [of "k + l"]) (simp only:)
  qed
  have d: "direct_open (Manifest m) fetch probe fps r H =
      (if rc \<noteq> 0 then Some (Session_Retry, H + replicate_mset n Avio_Buf) else Some (Session_Open m s fps1 (session_start m r) v a, H1))"
    using s(1) n by (simp add: direct_open_def Let_def v_def [symmetric] a_def [symmetric])
  show thesis
  proof (cases "rc = 0")
    case True then show thesis using d n that(2) by auto
  next
    case False
    then show thesis using d that(1) by (auto split: if_splits)
  qed
qed

end
