(* ===== verification/Client_Lifecycle.thy ===== *)
theory Client_Lifecycle
  imports Client_Loop Dash_Session Fb_Display Ffmpeg_Decoder Alsa_Sink Evdev_Input Drm_Scanout
begin

text \<open>
  Start and end of the client, \<open>run_dash\<close> and \<open>main\<close> in \<open>apps/thinclient/main.c\<close>: which devices,
  libraries, buffers and threads a run takes, in which order it gives them back, and the supervision
  of the reader thread in between.

  A run is a list of steps. \<open>exec\<close> performs them on the set of the things that are held; it stops at a
  step that gives back what is not held, that closes something a running thread still uses, or that
  waits for a mutex whose owner is gone. Which steps are taken follows from the answers of the
  components and of the system; the display, the decoder, the sink and the input device are opened by
  the definitions of their own theories.
\<close>

section \<open>Steps\<close>

datatype res =
    Telemetry_Writer | Mapper_Ctx | Socket | Fb_Fd | Fb_Map | Frame_Rgb
  | Cuda_Lib | Cuda_Rt | Scanout | Pinned nat | Imported nat
  | Decoder | Decode_Thread | Present_Thread | Sink | Audio_Thread | Reader_Thread | Input_Dev

text \<open>
  The reader thread when it is cancelled. It may have returned by itself (at the end of the stream, or
  because it saw the run flag down). The reader on the library's stream reader holds what its own state
  says; the direct reader its packet, the initialisation segments, its session, and what the call it is
  in holds: a socket and a body while it fetches, a body and a context while it demultiplexes. A direct
  reader, cancelled or returned, has left input buffers behind, which nothing frees.
\<close>

record direct_reader =
  dr_init_v :: bool
  dr_init_a :: bool
  dr_sess :: "dash_session option"
  dr_busy :: heap
  dr_buffers :: nat

datatype reader_thread = Returned nat | Libav_Reader libav_reader | Direct_Reader direct_reader

fun left_by :: "reader_thread \<Rightarrow> heap" where
  "left_by (Returned n) = replicate_mset n Avio_Buf"
| "left_by (Libav_Reader r) = lr_heap r"
| "left_by (Direct_Reader d) =
     {#Pkt#} + objs (dr_init_v d) Init_Buf + objs (dr_init_a d) Init_Buf
     + (case dr_sess d of None \<Rightarrow> {#} | Some s \<Rightarrow> owned s) + dr_busy d + replicate_mset (dr_buffers d) Avio_Buf"

text \<open>\<open>Cancel_Reader w t\<close>: cancel and join; \<open>w\<close> says that the thread waits for a free frame slot.\<close>

datatype step = Take res | Give res | Drm_Mode bool | Cancel_Reader bool reader_thread | Lock_Slots

datatype fault = Not_Held res | In_Use res | Mutex_Lost

record proc =
  pr_held :: "res set"
  pr_drm :: bool
  pr_lost :: bool
  pr_orphans :: heap

text \<open>
  What the running threads use: the decode worker the decoder and, by mode, the screen or the scanout
  buffers with the converter library; the present worker the scanout; the audio worker the sink.
\<close>

definition in_use :: "proc \<Rightarrow> res \<Rightarrow> bool" where
  "in_use p r =
     (case r of
        Decoder \<Rightarrow> Decode_Thread \<in> pr_held p
      | Fb_Map \<Rightarrow> \<not> pr_drm p \<and> Decode_Thread \<in> pr_held p
      | Scanout \<Rightarrow> pr_drm p \<and> (Decode_Thread \<in> pr_held p \<or> Present_Thread \<in> pr_held p)
      | Pinned _ \<Rightarrow> pr_drm p \<and> Decode_Thread \<in> pr_held p
      | Cuda_Lib \<Rightarrow> pr_drm p \<and> (Decode_Thread \<in> pr_held p \<or> Present_Thread \<in> pr_held p)
      | Cuda_Rt \<Rightarrow> pr_drm p \<and> Decode_Thread \<in> pr_held p
      | Sink \<Rightarrow> Audio_Thread \<in> pr_held p
      | _ \<Rightarrow> False)"

text \<open>
  A thread that is cancelled while it waits on a condition takes the mutex again and ends with it: no
  clean-up handler is installed. For the same reason the objects of a cancelled thread stay behind,
  and no part of the program refers to them any more.
\<close>

fun exec1 :: "step \<Rightarrow> proc \<Rightarrow> fault + proc" where
  "exec1 (Take r) p = Inr (p\<lparr>pr_held := insert r (pr_held p)\<rparr>)"
| "exec1 (Give r) p =
     (if r \<notin> pr_held p then Inl (Not_Held r)
      else if in_use p r then Inl (In_Use r)
      else Inr (p\<lparr>pr_held := pr_held p - {r}\<rparr>))"
| "exec1 (Drm_Mode b) p = Inr (p\<lparr>pr_drm := b\<rparr>)"
| "exec1 (Cancel_Reader w t) p =
     (if Reader_Thread \<notin> pr_held p then Inl (Not_Held Reader_Thread)
      else Inr (p\<lparr>pr_held := pr_held p - {Reader_Thread}, pr_lost := (pr_lost p \<or> w),
             pr_orphans := pr_orphans p + left_by t\<rparr>))"
| "exec1 Lock_Slots p = (if pr_lost p then Inl Mutex_Lost else Inr p)"

fun exec :: "step list \<Rightarrow> proc \<Rightarrow> fault + proc" where
  "exec [] p = Inr p"
| "exec (s # ss) p = (case exec1 s p of Inl e \<Rightarrow> Inl e | Inr q \<Rightarrow> exec ss q)"

lemma exec_append [simp]: "exec (xs @ ys) p = (case exec xs p of Inl e \<Rightarrow> Inl e | Inr q \<Rightarrow> exec ys q)"
  by (induction xs arbitrary: p) (auto split: sum.splits)

lemma exec_takes: "exec (map Take rs) p = Inr (p\<lparr>pr_held := pr_held p \<union> set rs\<rparr>)"
  by (induction rs arbitrary: p) simp_all

section \<open>The answers\<close>

text \<open>
  The system's answers during a start: the frame buffer device, memory, the environment, the
  libraries and their functions, the scanout that \<open>vmc_drm_scanout_init\<close> made, registration and
  import of its buffers, the codec library, whether telemetry is on, the sound library, the threads, and for the datagram
  client discovery, connection, session and input device. The decode and the present worker are
  created without a look at the result: their creation is taken to succeed.
\<close>

record start_env =
  en_fb_open :: "string \<Rightarrow> int"
  en_fb_info :: "int \<Rightarrow> fb_info option"
  en_fb_mmap :: "int \<Rightarrow> sz_t \<Rightarrow> bytes option"
  en_rgb_malloc :: bool
  en_vmc_drm :: "string option"
  en_cuda_lib :: bool
  en_conv_syms :: bool
  en_cuda_rt :: bool
  en_host_register :: bool
  en_host_unregister :: bool
  en_memcpy2d :: bool
  en_import_sym :: bool
  en_scanout :: "vmc_drm_scanout option"
  en_register :: "nat \<Rightarrow> bool"
  en_import :: "nat \<Rightarrow> bool"
  en_codecs :: open_lib
  en_tlm :: bool
  en_forced :: "string option"
  en_alsa :: alsa_answers
  en_sink_alloc :: bool
  en_usb :: "(string \<times> int) option"
  en_alsa_env :: "string option"
  en_audio_thread :: bool
  en_reader_thread :: bool
  en_mapper :: bool
  en_resolve :: bool
  en_udp_init :: bool
  en_udp_socket :: bool
  en_udp_connect :: bool
  en_session :: bool
  en_ev_open :: "string \<Rightarrow> int"
  en_ev_abs :: "int \<Rightarrow> abs_code \<Rightarrow> u32 option"

text \<open>What the start has found out: the local variables and the globals that the end of the run reads.\<close>

record flags =
  fl_fb :: vmc_fb_display
  fl_display :: bool
  fl_drm :: "vmc_drm_scanout option"
  fl_pinned :: bool
  fl_dev_ptrs :: "bool list"
  fl_dec :: vmc_ffmpeg_decoder
  fl_decoder :: bool
  fl_audio :: bool
  fl_input :: bool

definition use_drm :: "flags \<Rightarrow> bool" where "use_drm f \<longleftrightarrow> fl_drm f \<noteq> None"

section \<open>Display\<close>

definition no_fb :: vmc_fb_display where
  "no_fb = \<lparr>fb_fd = 0, fb_map = None, fb_map_size = 0, fb_line_len = 0, fb_xres = 0, fb_yres = 0, fb_bpp = 0,
            fb_width = 0, fb_height = 0, fb_opened = False\<rparr>"

definition display_start :: "start_env \<Rightarrow> bool \<times> vmc_fb_display \<times> res list" where
  "display_start e =
     (case vmc_fb_display_init (en_fb_open e) (Some no_fb) (Some ''/dev/fb0'') of
        (st, fbo) \<Rightarrow>
          let fb = (case fbo of Some x \<Rightarrow> x | None \<Rightarrow> no_fb)
          in if st \<noteq> VMC_OK then (False, fb, [])
             else (case fb_open (en_fb_info e) (en_fb_mmap e) fb of
                     (st2, fb2) \<Rightarrow>
                       if st2 \<noteq> VMC_OK then (False, fb2, [Fb_Fd])
                       else if \<not> en_rgb_malloc e then (False, fb2, [Fb_Fd, Fb_Map])
                       else (True, fb2, [Fb_Fd, Fb_Map, Frame_Rgb])))"

section \<open>GPU scanout\<close>

text \<open>Registration stops at the first buffer that fails; those before it stay registered.\<close>

fun pin_loop :: "(nat \<Rightarrow> bool) \<Rightarrow> nat list \<Rightarrow> bool \<times> res list" where
  "pin_loop ok [] = (True, [])"
| "pin_loop ok (i # is) = (if ok i then (case pin_loop ok is of (b, rs) \<Rightarrow> (b, Pinned i # rs)) else (False, []))"

definition import_one :: "start_env \<Rightarrow> vmc_drm_scanout \<Rightarrow> nat \<Rightarrow> bool" where
  "import_one e so i = (db_prime_fd (ds_bufs so ! i) \<ge> 0 \<and> en_import e i)"

text \<open>The result: the scanout if it is in use, whether its buffers are pinned, the imported device pointers.\<close>

definition scanout_off :: "res list \<Rightarrow> vmc_drm_scanout option \<times> bool \<times> bool list \<times> res list" where
  "scanout_off rs = (None, False, replicate VMC_DRM_MAX_BUFS False, rs)"

definition pin_buffers :: "start_env \<Rightarrow> vmc_drm_scanout \<Rightarrow> bool \<times> res list" where
  "pin_buffers e so =
     (if en_host_register e \<and> en_memcpy2d e then pin_loop (en_register e) [0..<ds_nbufs so] else (False, []))"

definition import_buffers :: "start_env \<Rightarrow> vmc_drm_scanout \<Rightarrow> bool list" where
  "import_buffers e so =
     (let ptrs = (if en_import_sym e \<and> en_memcpy2d e then map (import_one e so) [0..<ds_nbufs so] else [])
      in ptrs @ replicate (VMC_DRM_MAX_BUFS - length ptrs) False)"

definition cuda_libs :: "start_env \<Rightarrow> res list" where
  "cuda_libs e = Cuda_Lib # (if en_cuda_rt e then [Cuda_Rt] else [])"

definition design_b_start :: "start_env \<Rightarrow> vmc_drm_scanout option \<times> bool \<times> bool list \<times> res list" where
  "design_b_start e =
     (if (case en_vmc_drm e of Some (c # _) \<Rightarrow> c \<noteq> CHR ''1'' | _ \<Rightarrow> True) then scanout_off []
      else if \<not> en_cuda_lib e then scanout_off []
      else if \<not> en_conv_syms e then scanout_off (cuda_libs e)
      else case en_scanout e of
             None \<Rightarrow> scanout_off (cuda_libs e)
           | Some so \<Rightarrow>
               let ptrs = import_buffers e so
               in (Some so, fst (pin_buffers e so), ptrs,
                   cuda_libs e @ [Scanout] @ snd (pin_buffers e so)
                   @ map Imported (filter (\<lambda>i. ptrs ! i) [0..<length ptrs])))"

text \<open>Giving the scanout back: unregister what is pinned, close; the libraries only at the end of the run.\<close>

definition unpin :: "start_env \<Rightarrow> flags \<Rightarrow> vmc_drm_scanout \<Rightarrow> step list" where
  "unpin e f so = (if fl_pinned f \<and> en_host_unregister e then map (\<lambda>i. Give (Pinned i)) [0..<ds_nbufs so] else [])"

definition scanout_stop :: "start_env \<Rightarrow> flags \<Rightarrow> step list" where
  "scanout_stop e f =
     (case fl_drm f of
        None \<Rightarrow> []
      | Some so \<Rightarrow> unpin e f so @ [Give Scanout, Give Cuda_Lib] @ (if en_cuda_rt e then [Give Cuda_Rt] else []))"

section \<open>Decoder\<close>

definition no_decoder :: vmc_ffmpeg_decoder where
  "no_decoder = \<lparr>fd_codec_ctx = None, fd_in_buf = None, fd_rgb = None, fd_next_pts = 0, fd_last_send_pts = 0,
     fd_last_frame_pts = 0, fd_cuda_conv = False, fd_cuda_ctx = False, fd_output_cuda = False, fd_rgb_cap = 0,
     fd_out_w = 0, fd_out_h = 0, fd_opened = False\<rparr>"

text \<open>Initialised for the size of the screen or of the scanout, asked for GPU pictures in that mode, opened.\<close>

definition decoder_start :: "start_env \<Rightarrow> vmc_drm_scanout option \<Rightarrow> vmc_fb_display \<Rightarrow> bool \<times> vmc_ffmpeg_decoder" where
  "decoder_start e drm fb =
     (let (w, h) = (case drm of Some so \<Rightarrow> (ucast (ds_w so), ucast (ds_h so)) | None \<Rightarrow> (fb_width fb, fb_height fb))
      in case vmc_ffmpeg_decoder_init (Some no_decoder) w h of
           (st, None) \<Rightarrow> (False, no_decoder)
         | (st, Some fd) \<Rightarrow>
             if st \<noteq> VMC_OK then (False, fd)
             else (case ffmpeg_open (en_codecs e) (en_tlm e) (en_forced e) (fd\<lparr>fd_output_cuda := (drm \<noteq> None)\<rparr>)
                          VMC_VIDEO_CODEC_H264 of
                     (st2, fd2, _) \<Rightarrow> (st2 = VMC_OK, fd2)))"

definition workers :: "bool \<Rightarrow> res list" where
  "workers drm = [Decoder, Decode_Thread] @ (if drm then [Present_Thread] else [])"

definition decoder_stop :: "flags \<Rightarrow> step list" where
  "decoder_stop f =
     (if fl_decoder f
      then [Lock_Slots] @ (if use_drm f then [Give Present_Thread] else []) @ [Give Decode_Thread, Give Decoder] else [])"

section \<open>Audio\<close>

definition audio_clock_reset :: "av_clock \<Rightarrow> av_clock" where
  "audio_clock_reset c = c\<lparr>g_audio_start_wall_us := 0, g_audio_delay_us := 0, g_audio_bytes_consumed := 0,
     g_audio_active := False, g_anchor_wall_us := 0, g_anchor_seg := 0, g_timeline_adj_us := 0, g_seg_interval_ewma := 0,
     g_last_seg_arrival_wall := 0, g_audio_pos_us := 0, g_last_video_deadline_us := 0\<rparr>"

definition audio_ring_start :: "vmc_ringbuf \<Rightarrow> bytes \<Rightarrow> vmc_status \<times> vmc_ringbuf option" where
  "audio_ring_start rb storage = vmc_ringbuf_init (Some rb) (Some storage) (of_int VMC_AUDIO_FIFO_BYTES)"

text \<open>
  The sink and its thread. The ring buffer is set up before them, on a storage whose size is a power
  of two, which cannot fail (\<open>audio_ring_start_ok\<close> below).
\<close>

definition audio_start_up :: "start_env \<Rightarrow> bool \<times> res list" where
  "audio_start_up e =
     (if fst (vmc_alsa_sink_init (en_alsa e) True (en_sink_alloc e) (en_usb e) None (en_alsa_env e)) \<noteq> VMC_OK then (False, [])
      else if en_audio_thread e then (True, [Sink, Audio_Thread]) else (False, [Sink]))"

definition audio_stop :: "flags \<Rightarrow> step list" where
  "audio_stop f = (if fl_audio f then [Give Audio_Thread, Give Sink] else [])"

definition display_stop :: "flags \<Rightarrow> step list" where
  "display_stop f = (if fl_display f then [Give Fb_Map, Give Fb_Fd, Give Frame_Rgb] else [])"

section \<open>The stream client\<close>

text \<open>An exit code if the start fails, what it found out, and its steps.\<close>

definition run_dash_start :: "start_env \<Rightarrow> int option \<times> flags \<times> step list" where
  "run_dash_start e =
     (case display_start e of (disp, fb, rs1) \<Rightarrow>
      (case design_b_start e of (drm, pinned, ptrs, rs2) \<Rightarrow>
       (case decoder_start e drm fb of (dec, fd) \<Rightarrow>
        (case audio_start_up e of (audio, rs3) \<Rightarrow>
          let tlm = (if en_tlm e then [Telemetry_Writer] else []);
              first = map Take (tlm @ rs1) @ map Take rs2 @ [Drm_Mode (drm \<noteq> None)];
              f = \<lparr>fl_fb = fb, fl_display = disp, fl_drm = drm, fl_pinned = pinned, fl_dev_ptrs = ptrs, fl_dec = fd,
                   fl_decoder = dec, fl_audio = audio, fl_input = False\<rparr>
          in if \<not> dec then (Some 3, f, first @ map Give tlm)
             else let second = first @ map Take (workers (drm \<noteq> None)) @ map Take rs3
                  in if \<not> en_reader_thread e then (Some 1, f, second)
                     else (None, f, second @ [Take Reader_Thread])))))"

text \<open>
  A restart of the reader: what the old thread was doing, whether the new one can be created (the result
  is ignored) and whether the re-anchoring that follows goes through the frame slots.
\<close>

record restart =
  rst_waits :: bool
  rst_thread :: reader_thread
  rst_created :: bool
  rst_shifts :: bool

definition restart_steps :: "restart \<Rightarrow> step list" where
  "restart_steps r =
     [Cancel_Reader (rst_waits r) (rst_thread r)] @ (if rst_created r then [Take Reader_Thread] else [])
     @ (if rst_shifts r then [Lock_Slots] else [])"

definition run_dash_stop :: "start_env \<Rightarrow> flags \<Rightarrow> bool \<Rightarrow> reader_thread \<Rightarrow> step list" where
  "run_dash_stop e f waits t =
     [Cancel_Reader waits t] @ decoder_stop f @ scanout_stop e f @ audio_stop f @ display_stop f
     @ (if en_tlm e then [Give Telemetry_Writer] else [])"

section \<open>The datagram client\<close>

text \<open>Discovery, transport and session; a failure ends the program.\<close>

definition session_steps :: "start_env \<Rightarrow> bool \<times> step list" where
  "session_steps e =
     (if \<not> en_mapper e then (False, [])
      else if \<not> en_resolve e \<or> \<not> en_udp_init e then (False, [Take Mapper_Ctx, Give Mapper_Ctx])
      else let sock = (if en_udp_socket e then [Take Socket] else [])
           in if \<not> (en_udp_socket e \<and> en_udp_connect e) \<or> \<not> en_session e
              then (False, [Take Mapper_Ctx] @ sock @ [Give Mapper_Ctx])
              else (True, [Take Mapper_Ctx] @ sock))"

definition input_start :: "start_env \<Rightarrow> bool" where
  "input_start e = (fst (vmc_evdev_init (en_ev_open e) (en_ev_abs e) (Some \<lparr>ev_fd = 0, ev_abs_x_max = 0, ev_abs_y_max = 0\<rparr>)
     (Some ''/dev/input/event0'')) = VMC_OK)"

text \<open>
  The decoder with the fall-back from GPU scanout to the frame buffer. The first frame slot is taken
  and the assembler is put on its buffer, which cannot fail.
\<close>

definition main_decoder :: "start_env \<Rightarrow> vmc_fb_display \<Rightarrow> flags \<Rightarrow> flags \<times> step list" where
  "main_decoder e fb f =
     (case decoder_start e (fl_drm f) fb of
        (dec, fd) \<Rightarrow>
          if dec then (f\<lparr>fl_decoder := True, fl_dec := fd\<rparr>, map Take (workers (use_drm f)))
          else case fl_drm f of
                 None \<Rightarrow> (f\<lparr>fl_decoder := False, fl_dec := fd\<rparr>, [])
               | Some so \<Rightarrow>
                   let undo = unpin e f so @ [Give Scanout, Drm_Mode False];
                       f1 = f\<lparr>fl_drm := None, fl_pinned := (fl_pinned f \<and> \<not> en_host_unregister e)\<rparr>
                   in (case decoder_start e None fb of
                         (dec2, fd2) \<Rightarrow>
                           (f1\<lparr>fl_decoder := dec2, fl_dec := fd2\<rparr>, undo @ (if dec2 then map Take (workers False) else []))))"

definition main_start :: "start_env \<Rightarrow> int option \<times> flags \<times> step list" where
  "main_start e =
     (case display_start e of (disp, fb, rs1) \<Rightarrow>
      (case design_b_start e of (drm, pinned, ptrs, rs2) \<Rightarrow>
       (case session_steps e of (ok, ss) \<Rightarrow>
         let f0 = \<lparr>fl_fb = fb, fl_display = disp, fl_drm = drm, fl_pinned = pinned, fl_dev_ptrs = ptrs, fl_dec = no_decoder,
                  fl_decoder = False, fl_audio = False, fl_input = False\<rparr>
         in if \<not> ok then (Some 1, f0, ss)
            else case main_decoder e fb f0 of
                   (f1, ds) \<Rightarrow>
                     (case audio_start_up e of (audio, rs3) \<Rightarrow>
                        (None, f1\<lparr>fl_audio := audio, fl_input := input_start e\<rparr>,
                         ss @ map Take rs1 @ map Take rs2 @ [Drm_Mode (drm \<noteq> None)] @ ds @ map Take rs3
                         @ (if input_start e then [Take Input_Dev] else []))))))"

text \<open>The end, after \<open>vmc_session_stop\<close> (in \<open>Session_Ctx\<close>) has put the session into its final state.\<close>

definition main_stop :: "start_env \<Rightarrow> flags \<Rightarrow> step list" where
  "main_stop e f =
     [Give Socket] @ (if fl_input f then [Give Input_Dev] else []) @ display_stop f @ decoder_stop f
     @ scanout_stop e f @ audio_stop f @ [Give Mapper_Ctx]"


section \<open>What the stages take and give back\<close>

lemma exec_gives:
  assumes "distinct rs" "set rs \<subseteq> pr_held p" "\<And>r H. r \<in> set rs \<Longrightarrow> H \<subseteq> pr_held p \<Longrightarrow> \<not> in_use (p\<lparr>pr_held := H\<rparr>) r"
  shows "exec (map Give rs) p = Inr (p\<lparr>pr_held := pr_held p - set rs\<rparr>)"
  using assms
proof (induction rs arbitrary: p)
  case (Cons r rs)
  let ?q = "p\<lparr>pr_held := pr_held p - {r}\<rparr>"
  have "\<not> in_use p r" using Cons.prems(3) [of r "pr_held p"] by simp
  moreover have "exec (map Give rs) ?q = Inr (?q\<lparr>pr_held := pr_held ?q - set rs\<rparr>)"
    using Cons.prems by (intro Cons.IH) auto
  moreover have "pr_held p - {r} - set rs = pr_held p - insert r (set rs)" by auto
  ultimately show ?case using Cons.prems by simp
qed simp

lemma display_start_cases:
  obtains fb where "display_start e = (True, fb, [Fb_Fd, Fb_Map, Frame_Rgb])"
  | fb rs where "display_start e = (False, fb, rs)" "set rs \<subseteq> {Fb_Fd, Fb_Map}"
proof -
  obtain st fbo where i: "vmc_fb_display_init (en_fb_open e) (Some no_fb) (Some ''/dev/fb0'') = (st, fbo)" by fastforce
  let ?fb = "case fbo of Some x \<Rightarrow> x | None \<Rightarrow> no_fb"
  obtain st2 fb2 where o: "fb_open (en_fb_info e) (en_fb_mmap e) ?fb = (st2, fb2)" by fastforce
  have d: "display_start e =
      (if st \<noteq> VMC_OK then (False, ?fb, []) else if st2 \<noteq> VMC_OK then (False, fb2, [Fb_Fd])
       else if \<not> en_rgb_malloc e then (False, fb2, [Fb_Fd, Fb_Map]) else (True, fb2, [Fb_Fd, Fb_Map, Frame_Rgb]))"
    by (simp add: display_start_def i o Let_def)
  consider "st \<noteq> VMC_OK" | "st = VMC_OK" "st2 \<noteq> VMC_OK" | "st = VMC_OK" "st2 = VMC_OK" "\<not> en_rgb_malloc e"
    | "st = VMC_OK" "st2 = VMC_OK" "en_rgb_malloc e" by blast
  then show thesis by cases (use d that in auto)
qed

lemma audio_start_cases:
  obtains "audio_start_up e = (True, [Sink, Audio_Thread])"
  | rs where "audio_start_up e = (False, rs)" "set rs \<subseteq> {Sink}"
  by (cases "audio_start_up e") (auto simp: audio_start_up_def split: if_splits)

lemma pin_loop_set:
  "set (snd (pin_loop ok js)) \<subseteq> Pinned ` set js"
  "fst (pin_loop ok js) \<Longrightarrow> set (snd (pin_loop ok js)) = Pinned ` set js"
  by (induction js) (auto split: prod.splits if_splits)

lemma pin_buffers_set:
  "set (snd (pin_buffers e so)) \<subseteq> Pinned ` {0..<ds_nbufs so}"
  "fst (pin_buffers e so) \<Longrightarrow> set (snd (pin_buffers e so)) = Pinned ` {0..<ds_nbufs so}"
  using pin_loop_set [of "en_register e" "[0..<ds_nbufs so]"]
  by (auto simp: pin_buffers_def split: if_splits)

lemma design_b_cases:
  obtains ptrs rs where "design_b_start e = (None, False, ptrs, rs)" "set rs \<subseteq> {Cuda_Lib, Cuda_Rt}"
  | so ptrs js where "design_b_start e = (Some so, fst (pin_buffers e so), ptrs,
      cuda_libs e @ [Scanout] @ snd (pin_buffers e so) @ map Imported js)"
proof (cases "case en_vmc_drm e of Some (c # _) \<Rightarrow> c \<noteq> CHR ''1'' | _ \<Rightarrow> True")
  case True then show thesis using that(1) by (auto simp: design_b_start_def scanout_off_def)
next
  case False
  then have d: "design_b_start e = (if \<not> en_cuda_lib e then scanout_off []
      else if \<not> en_conv_syms e then scanout_off (cuda_libs e)
      else case en_scanout e of None \<Rightarrow> scanout_off (cuda_libs e)
        | Some so \<Rightarrow> let ptrs = import_buffers e so
            in (Some so, fst (pin_buffers e so), ptrs, cuda_libs e @ [Scanout] @ snd (pin_buffers e so)
                @ map Imported (filter (\<lambda>i. ptrs ! i) [0..<length ptrs])))"
    by (simp add: design_b_start_def)
  have libs: "set (cuda_libs e) \<subseteq> {Cuda_Lib, Cuda_Rt}" by (auto simp: cuda_libs_def)
  show thesis
  proof (cases "en_cuda_lib e \<and> en_conv_syms e \<and> en_scanout e \<noteq> None")
    case True
    then show thesis using d that(2) by (auto simp: Let_def)
  next
    case False
    then show thesis using d that(1) libs by (auto simp: scanout_off_def split: if_splits option.splits)
  qed
qed

lemma exec_decoder_stop:
  assumes "\<not> pr_lost p" "fl_decoder f" "set (workers (use_drm f)) \<subseteq> pr_held p"
  shows "exec (decoder_stop f) p = Inr (p\<lparr>pr_held := pr_held p - set (workers (use_drm f))\<rparr>)"
proof (cases "use_drm f")
  case True
  then have "exec (decoder_stop f) p = Inr (p\<lparr>pr_held := pr_held p - {Present_Thread} - {Decode_Thread} - {Decoder}\<rparr>)"
    using assms by (simp add: decoder_stop_def workers_def in_use_def)
  moreover have "pr_held p - {Present_Thread} - {Decode_Thread} - {Decoder} = pr_held p - set (workers (use_drm f))"
    using True by (auto simp: workers_def)
  ultimately show ?thesis by simp
next
  case False
  then have "exec (decoder_stop f) p = Inr (p\<lparr>pr_held := pr_held p - {Decode_Thread} - {Decoder}\<rparr>)"
    using assms by (simp add: decoder_stop_def workers_def in_use_def)
  moreover have "pr_held p - {Decode_Thread} - {Decoder} = pr_held p - set (workers (use_drm f))"
    using False by (auto simp: workers_def)
  ultimately show ?thesis by simp
qed

definition scanout_given :: "start_env \<Rightarrow> flags \<Rightarrow> res set" where
  "scanout_given e f =
     (case fl_drm f of
        None \<Rightarrow> {}
      | Some so \<Rightarrow> {Scanout} \<union> set (cuda_libs e)
          \<union> (if fl_pinned f \<and> en_host_unregister e then Pinned ` {0..<ds_nbufs so} else {}))"

lemma scanout_given_cong:
  "fl_drm f1 = fl_drm f \<Longrightarrow> fl_pinned f1 = fl_pinned f \<Longrightarrow> scanout_given e f1 = scanout_given e f"
  by (cases "fl_drm f") (simp_all add: scanout_given_def)

lemma exec_unpin:
  assumes "Decode_Thread \<notin> pr_held p" "fl_pinned f \<and> en_host_unregister e \<Longrightarrow> Pinned ` {0..<ds_nbufs so} \<subseteq> pr_held p"
  shows "exec (unpin e f so) p =
    Inr (p\<lparr>pr_held := pr_held p - (if fl_pinned f \<and> en_host_unregister e then Pinned ` {0..<ds_nbufs so} else {})\<rparr>)"
proof (cases "fl_pinned f \<and> en_host_unregister e")
  case True
  have "exec (map Give (map Pinned [0..<ds_nbufs so])) p = Inr (p\<lparr>pr_held := pr_held p - set (map Pinned [0..<ds_nbufs so])\<rparr>)"
    by (rule exec_gives) (use assms True in \<open>auto simp: distinct_map inj_on_def in_use_def\<close>)
  then show ?thesis using True by (simp add: unpin_def o_def)
next
  case False
  then show ?thesis by (simp add: unpin_def if_not_P [OF False])
qed

lemma exec_scanout_stop:
  assumes "Decode_Thread \<notin> pr_held p" "Present_Thread \<notin> pr_held p" "scanout_given e f \<subseteq> pr_held p"
  shows "exec (scanout_stop e f) p = Inr (p\<lparr>pr_held := pr_held p - scanout_given e f\<rparr>)"
proof (cases "fl_drm f")
  case None
  then show ?thesis by (simp add: scanout_stop_def scanout_given_def)
next
  case (Some so)
  let ?P = "if fl_pinned f \<and> en_host_unregister e then Pinned ` {0..<ds_nbufs so} else {}"
  have u: "exec (unpin e f so) p = Inr (p\<lparr>pr_held := pr_held p - ?P\<rparr>)"
    using assms Some by (intro exec_unpin) (auto simp: scanout_given_def)
  have in_held: "Scanout \<in> pr_held p" "Cuda_Lib \<in> pr_held p" "en_cuda_rt e \<Longrightarrow> Cuda_Rt \<in> pr_held p"
    and not_P: "Scanout \<notin> ?P" "Cuda_Lib \<notin> ?P" "Cuda_Rt \<notin> ?P"
    using assms(3) Some by (auto simp: scanout_given_def cuda_libs_def split: if_splits)
  show ?thesis
  proof (cases "en_cuda_rt e")
    case True
    have "exec (scanout_stop e f) p = Inr (p\<lparr>pr_held := pr_held p - ?P - {Scanout} - {Cuda_Lib} - {Cuda_Rt}\<rparr>)"
      using u in_held not_P assms(1,2) Some True by (simp add: scanout_stop_def in_use_def)
    moreover have "scanout_given e f = ?P \<union> {Scanout, Cuda_Lib, Cuda_Rt}"
      using Some True by (auto simp: scanout_given_def cuda_libs_def)
    then have "pr_held p - ?P - {Scanout} - {Cuda_Lib} - {Cuda_Rt} = pr_held p - scanout_given e f" by auto
    ultimately show ?thesis by simp
  next
    case False
    have "exec (scanout_stop e f) p = Inr (p\<lparr>pr_held := pr_held p - ?P - {Scanout} - {Cuda_Lib}\<rparr>)"
      using u in_held not_P assms(1,2) Some False by (simp add: scanout_stop_def in_use_def)
    moreover have "scanout_given e f = ?P \<union> {Scanout, Cuda_Lib}"
      using Some False by (auto simp: scanout_given_def cuda_libs_def)
    then have "pr_held p - ?P - {Scanout} - {Cuda_Lib} = pr_held p - scanout_given e f" by auto
    ultimately show ?thesis by simp
  qed
qed

lemma exec_audio_stop:
  assumes "fl_audio f \<Longrightarrow> Sink \<in> pr_held p \<and> Audio_Thread \<in> pr_held p"
  shows "exec (audio_stop f) p = Inr (p\<lparr>pr_held := pr_held p - (if fl_audio f then {Sink, Audio_Thread} else {})\<rparr>)"
  using assms by (cases "fl_audio f") (simp_all add: audio_stop_def in_use_def Diff_insert2 [symmetric] insert_commute)

lemma exec_display_stop:
  assumes "fl_display f \<Longrightarrow> {Fb_Fd, Fb_Map, Frame_Rgb} \<subseteq> pr_held p"
  shows "exec (display_stop f) p =
    (if fl_display f \<and> \<not> pr_drm p \<and> Decode_Thread \<in> pr_held p then Inl (In_Use Fb_Map)
     else Inr (p\<lparr>pr_held := pr_held p - (if fl_display f then {Fb_Fd, Fb_Map, Frame_Rgb} else {})\<rparr>))"
proof -
  have "pr_held p - {Fb_Map} - {Fb_Fd} - {Frame_Rgb} = pr_held p - {Fb_Fd, Fb_Map, Frame_Rgb}" by auto
  then show ?thesis using assms by (cases "fl_display f") (simp_all add: display_stop_def in_use_def)
qed


section \<open>What a run leaves behind\<close>

text \<open>The parts of a start that did not come to completion, and what has no operation that gives it back.\<close>

definition display_left :: "start_env \<Rightarrow> res set" where
  "display_left e = (case display_start e of (disp, _, rs) \<Rightarrow> if disp then {} else set rs)"

definition audio_left :: "start_env \<Rightarrow> res set" where
  "audio_left e = (case audio_start_up e of (audio, rs) \<Rightarrow> if audio then {} else set rs)"

definition scanout_left :: "start_env \<Rightarrow> res set" where
  "scanout_left e =
     (case design_b_start e of
        (None, _, _, rs) \<Rightarrow> set rs
      | (Some so, pinned, _, rs) \<Rightarrow>
          {r \<in> set rs. (\<exists>i. r = Imported i) \<or> (\<exists>i. r = Pinned i) \<and> \<not> (pinned \<and> en_host_unregister e)})"

lemmas left_defs = display_left_def audio_left_def scanout_left_def

text \<open>The kinds of things, and that the stages take things of their own kind only.\<close>

definition fb_kind :: "res set" where "fb_kind = {Fb_Fd, Fb_Map, Frame_Rgb}"
definition gpu_kind :: "res set" where "gpu_kind = {Cuda_Lib, Cuda_Rt, Scanout} \<union> range Pinned \<union> range Imported"
definition audio_kind :: "res set" where "audio_kind = {Sink, Audio_Thread}"

lemmas kind_defs = fb_kind_def gpu_kind_def audio_kind_def

lemma display_taken:
  assumes "display_start e = (disp, fb, rs)"
  shows "set rs \<subseteq> fb_kind" "disp \<Longrightarrow> set rs = fb_kind" "set rs - (if disp then fb_kind else {}) = display_left e"
  by (rule display_start_cases [of e]; use assms in \<open>auto simp: fb_kind_def display_left_def\<close>)+

lemma audio_taken:
  assumes "audio_start_up e = (audio, rs)"
  shows "set rs \<subseteq> audio_kind" "audio \<Longrightarrow> set rs = audio_kind" "set rs - (if audio then audio_kind else {}) = audio_left e"
  by (rule audio_start_cases [of e]; use assms in \<open>auto simp: audio_kind_def audio_left_def\<close>)+

lemma scanout_taken:
  assumes "design_b_start e = (drm, pinned, ptrs, rs)" "fl_drm f = drm" "fl_pinned f = pinned"
  shows "set rs \<subseteq> gpu_kind" "scanout_given e f \<subseteq> set rs" "set rs - scanout_given e f = scanout_left e"
proof -
  have all: "set rs \<subseteq> gpu_kind \<and> scanout_given e f \<subseteq> set rs \<and> set rs - scanout_given e f = scanout_left e"
  proof (rule design_b_cases [of e])
    fix ptrs' rs' assume "design_b_start e = (None, False, ptrs', rs')" "set rs' \<subseteq> {Cuda_Lib, Cuda_Rt}"
    then show ?thesis using assms by (auto simp: gpu_kind_def scanout_given_def scanout_left_def)
  next
    fix so ptrs' js
    assume d: "design_b_start e = (Some so, fst (pin_buffers e so), ptrs',
      cuda_libs e @ [Scanout] @ snd (pin_buffers e so) @ map Imported js)"
    let ?pins = "set (snd (pin_buffers e so))"
    have rs: "set rs = set (cuda_libs e) \<union> {Scanout} \<union> ?pins \<union> Imported ` set js"
      and f: "fl_drm f = Some so" "fl_pinned f = fst (pin_buffers e so)" using assms d by auto
    have libs: "set (cuda_libs e) \<subseteq> {Cuda_Lib, Cuda_Rt}" by (auto simp: cuda_libs_def)
    have left: "scanout_left e = Imported ` set js \<union> (if fl_pinned f \<and> en_host_unregister e then {} else ?pins)"
      using d libs f pin_buffers_set(1) [of e so] by (auto simp: scanout_left_def)
    have given: "scanout_given e f = {Scanout} \<union> set (cuda_libs e) \<union> (if fl_pinned f \<and> en_host_unregister e then ?pins else {})"
      using f pin_buffers_set(2) [of e so] by (auto simp: scanout_given_def)
    show ?thesis
    proof (intro conjI)
      show "set rs \<subseteq> gpu_kind" using rs libs pin_buffers_set(1) [of e so] by (auto simp: gpu_kind_def)
      show "scanout_given e f \<subseteq> set rs" using rs given by (auto split: if_splits)
      show "set rs - scanout_given e f = scanout_left e"
        using rs given left libs pin_buffers_set(1) [of e so] by (auto split: if_splits)
    qed
  qed
  then show "set rs \<subseteq> gpu_kind" "scanout_given e f \<subseteq> set rs" "set rs - scanout_given e f = scanout_left e" by blast+
qed


text \<open>The scanout and the audio part of the end, once the workers are gone.\<close>

lemma media_down:
  assumes a: "audio_start_up e = (fl_audio f, rs)" and G: "G \<subseteq> gpu_kind" "scanout_given e f \<subseteq> G"
    and X: "X \<inter> (gpu_kind \<union> audio_kind \<union> {Decode_Thread, Present_Thread}) = {}"
  shows "exec (scanout_stop e f @ audio_stop f) \<lparr>pr_held = X \<union> G \<union> set rs, pr_drm = drm, pr_lost = l, pr_orphans = orph\<rparr>
    = Inr \<lparr>pr_held = X \<union> (G - scanout_given e f) \<union> audio_left e, pr_drm = drm, pr_lost = l, pr_orphans = orph\<rparr>"
proof -
  let ?p = "\<lambda>H. \<lparr>pr_held = H, pr_drm = drm, pr_lost = l, pr_orphans = orph\<rparr>"
  let ?H = "X \<union> (G - scanout_given e f) \<union> set rs"
  note k = audio_taken [OF a]
  have "Decode_Thread \<notin> X \<union> G \<union> set rs" "Present_Thread \<notin> X \<union> G \<union> set rs"
    using G(1) X k(1) by (auto simp: kind_defs)
  moreover have "X \<union> G \<union> set rs - scanout_given e f = ?H"
  proof -
    have "audio_kind \<inter> gpu_kind = {}" by (auto simp: kind_defs)
    then show ?thesis using G X k(1) by blast
  qed
  ultimately have s: "exec (scanout_stop e f) (?p (X \<union> G \<union> set rs)) = Inr (?p ?H)"
    using exec_scanout_stop [of "?p (X \<union> G \<union> set rs)" e f] G(2) by auto
  have "fl_audio f \<Longrightarrow> Sink \<in> ?H \<and> Audio_Thread \<in> ?H" using k(2) by (auto simp: kind_defs)
  moreover have "?H - (if fl_audio f then {Sink, Audio_Thread} else {}) = X \<union> (G - scanout_given e f) \<union> audio_left e"
  proof -
    have "X \<inter> audio_kind = {}" "(G - scanout_given e f) \<inter> audio_kind = {}" using X G(1) by (auto simp: kind_defs)
    then show ?thesis using k(3) by (cases "fl_audio f") (auto simp: audio_kind_def)
  qed
  ultimately have "exec (audio_stop f) (?p ?H) = Inr (?p (X \<union> (G - scanout_given e f) \<union> audio_left e))"
    using exec_audio_stop [of f "?p ?H"] by simp
  then show ?thesis by (simp add: s)
qed

definition idle :: proc where "idle = \<lparr>pr_held = {}, pr_drm = False, pr_lost = False, pr_orphans = {#}\<rparr>"

definition tlm_res :: "start_env \<Rightarrow> res set" where
  "tlm_res e = (if en_tlm e then {Telemetry_Writer} else {})"

lemma exec_tlm_stop:
  assumes "tlm_res e \<subseteq> pr_held p"
  shows "exec (if en_tlm e then [Give Telemetry_Writer] else []) p = Inr (p\<lparr>pr_held := pr_held p - tlm_res e\<rparr>)"
  using assms by (cases "en_tlm e") (simp_all add: tlm_res_def in_use_def)

text \<open>A start that succeeds, taken apart.\<close>

lemma run_dash_started:
  assumes "run_dash_start e = (None, f, ss)"
  obtains rs1 rs2 rs3 fb ptrs where
    "display_start e = (fl_display f, fb, rs1)" "design_b_start e = (fl_drm f, fl_pinned f, ptrs, rs2)"
    "audio_start_up e = (fl_audio f, rs3)" "fl_decoder f"
    "exec ss idle = Inr \<lparr>pr_held = tlm_res e \<union> set rs1 \<union> set rs2 \<union> set (workers (use_drm f)) \<union> set rs3 \<union> {Reader_Thread},
       pr_drm = use_drm f, pr_lost = False, pr_orphans = {#}\<rparr>"
proof -
  obtain disp fb rs1 where d: "display_start e = (disp, fb, rs1)" by (metis prod_cases3)
  obtain drm pinned ptrs rs2 where b: "design_b_start e = (drm, pinned, ptrs, rs2)" by (metis prod_cases4)
  obtain dec fd where c: "decoder_start e drm fb = (dec, fd)" by fastforce
  obtain audio rs3 where a: "audio_start_up e = (audio, rs3)" by fastforce
  have ok: "dec" "en_reader_thread e" using assms d b c a by (auto simp: run_dash_start_def Let_def split: if_splits)
  have f: "f = \<lparr>fl_fb = fb, fl_display = disp, fl_drm = drm, fl_pinned = pinned, fl_dev_ptrs = ptrs, fl_dec = fd,
      fl_decoder = dec, fl_audio = audio, fl_input = False\<rparr>"
    and ss: "ss = map Take ((if en_tlm e then [Telemetry_Writer] else []) @ rs1) @ map Take rs2 @ [Drm_Mode (drm \<noteq> None)]
      @ map Take (workers (drm \<noteq> None)) @ map Take rs3 @ [Take Reader_Thread]"
    using assms d b c a ok by (auto simp: run_dash_start_def Let_def)
  have "exec ss idle = Inr \<lparr>pr_held = tlm_res e \<union> set rs1 \<union> set rs2 \<union> set (workers (use_drm f)) \<union> set rs3 \<union> {Reader_Thread},
       pr_drm = use_drm f, pr_lost = False, pr_orphans = {#}\<rparr>"
  proof -
    define tlm where "tlm = (if en_tlm e then [Telemetry_Writer] else [])"
    have t: "set tlm = tlm_res e" by (simp add: tlm_def tlm_res_def)
    have w: "(drm \<noteq> None) = use_drm f" by (simp add: f use_drm_def)
    have "exec ss idle = Inr \<lparr>pr_held = insert Reader_Thread (tlm_res e \<union> set rs1 \<union> set rs2 \<union> set (workers (use_drm f)) \<union> set rs3),
        pr_drm = use_drm f, pr_lost = False, pr_orphans = {#}\<rparr>"
      unfolding ss tlm_def [symmetric] w exec_append map_append exec_takes idle_def by (simp add: t)
    then show ?thesis by simp
  qed
  moreover have "display_start e = (fl_display f, fb, rs1)" "design_b_start e = (fl_drm f, fl_pinned f, ptrs, rs2)"
    "audio_start_up e = (fl_audio f, rs3)" "fl_decoder f"
    by (simp_all add: f ok(1) d b a)
  ultimately show thesis by (intro that)
qed

text \<open>Restarts during the run.\<close>

definition orphans :: "restart list \<Rightarrow> heap" where
  "orphans rs = sum_list (map (left_by \<circ> rst_thread) rs)"

lemma exec_restarts:
  assumes "\<forall>r \<in> set rs. rst_created r" "Reader_Thread \<in> pr_held p"
  shows "exec (concat (map restart_steps rs)) p =
      Inr (p\<lparr>pr_lost := (pr_lost p \<or> (\<exists>r \<in> set rs. rst_waits r)), pr_orphans := pr_orphans p + orphans rs\<rparr>)
    \<or> exec (concat (map restart_steps rs)) p = Inl Mutex_Lost \<and> (pr_lost p \<or> (\<exists>r \<in> set rs. rst_waits r))"
  using assms
proof (induction rs arbitrary: p)
  case Nil
  then show ?case by (simp add: orphans_def)
next
  case (Cons r rs)
  let ?q = "p\<lparr>pr_lost := (pr_lost p \<or> rst_waits r), pr_orphans := pr_orphans p + left_by (rst_thread r)\<rparr>"
  have one: "exec (restart_steps r) p = (if rst_shifts r \<and> pr_lost ?q then Inl Mutex_Lost else Inr ?q)"
    using Cons.prems by (simp add: restart_steps_def insert_absorb)
  show ?case
  proof (cases "rst_shifts r \<and> pr_lost ?q")
    case True
    then show ?thesis using one by auto
  next
    case False
    have "exec (concat (map restart_steps (r # rs))) p = exec (concat (map restart_steps rs)) ?q"
      by (simp only: list.map concat.simps exec_append one if_not_P [OF False] sum.case)
    then show ?thesis using Cons.IH [of ?q] Cons.prems by (simp add: orphans_def ac_simps)
  qed
qed

text \<open>The end of a run, once the reader is gone and no mutex with it.\<close>

lemma exec_run_dash_rest:
  assumes d: "display_start e = (fl_display f, fb, rs1)" and b: "design_b_start e = (fl_drm f, fl_pinned f, ptrs, rs2)"
    and a: "audio_start_up e = (fl_audio f, rs3)" and dec: "fl_decoder f"
  shows "exec (decoder_stop f @ scanout_stop e f @ audio_stop f @ display_stop f @ (if en_tlm e then [Give Telemetry_Writer] else []))
      \<lparr>pr_held = tlm_res e \<union> set rs1 \<union> set rs2 \<union> set (workers (use_drm f)) \<union> set rs3, pr_drm = use_drm f, pr_lost = False, pr_orphans = orph\<rparr>
    = Inr \<lparr>pr_held = display_left e \<union> scanout_left e \<union> audio_left e, pr_drm = use_drm f, pr_lost = False, pr_orphans = orph\<rparr>"
proof -
  note kinds = display_taken [OF d] audio_taken [OF a] scanout_taken [OF b refl refl]
  have foreign: "set (workers (use_drm f)) \<inter> (tlm_res e \<union> set rs1 \<union> set rs2 \<union> set rs3) = {}"
    using kinds(1,4,7) by (auto simp: kind_defs workers_def tlm_res_def split: if_splits)
  let ?p = "\<lambda>H. \<lparr>pr_held = H, pr_drm = use_drm f, pr_lost = False, pr_orphans = orph\<rparr>"
  let ?H1 = "tlm_res e \<union> set rs1 \<union> set rs2 \<union> set (workers (use_drm f)) \<union> set rs3"
  let ?H2 = "tlm_res e \<union> set rs1 \<union> set rs2 \<union> set rs3"
  have "?H1 - set (workers (use_drm f)) = ?H2" using foreign by blast
  then have s1: "exec (decoder_stop f) (?p ?H1) = Inr (?p ?H2)"
    using exec_decoder_stop [of "?p ?H1" f] dec by (simp add: le_supI1)
  let ?X = "tlm_res e \<union> set rs1"
  let ?H4 = "?X \<union> scanout_left e \<union> audio_left e"
  have "?X \<inter> (gpu_kind \<union> audio_kind \<union> {Decode_Thread, Present_Thread}) = {}"
    using kinds(1) by (auto simp: kind_defs tlm_res_def split: if_splits)
  then have s3: "exec (scanout_stop e f @ audio_stop f) (?p ?H2) = Inr (?p ?H4)"
    using media_down [OF a kinds(7,8), of ?X "use_drm f" False orph] unfolding kinds(9) by simp
  have lefts: "scanout_left e \<subseteq> gpu_kind" "audio_left e \<subseteq> audio_kind" using kinds(4,6,7,9) by auto
  have fb: "fl_display f \<Longrightarrow> {Fb_Fd, Fb_Map, Frame_Rgb} \<subseteq> ?H4" "Decode_Thread \<notin> ?H4"
    using kinds(1,2) lefts by (auto simp: kind_defs tlm_res_def split: if_splits)
  let ?H5 = "?H4 - (if fl_display f then fb_kind else {})"
  have s4: "exec (display_stop f) (?p ?H4) = Inr (?p ?H5)"
    using exec_display_stop [of f "?p ?H4"] fb by (simp add: fb_kind_def)
  have t: "tlm_res e \<subseteq> ?H5" "Telemetry_Writer \<notin> set rs1 \<union> scanout_left e \<union> audio_left e"
    using kinds(1) lefts by (auto simp: kind_defs tlm_res_def split: if_splits)
  have s5: "exec (if en_tlm e then [Give Telemetry_Writer] else []) (?p ?H5) = Inr (?p (?H5 - tlm_res e))"
    using exec_tlm_stop [of e "?p ?H5"] t(1) by simp
  have left: "?H5 - tlm_res e = display_left e \<union> scanout_left e \<union> audio_left e"
    using kinds(3) t(2) lefts by (auto simp: kind_defs tlm_res_def split: if_splits)
  have "exec (decoder_stop f @ (scanout_stop e f @ audio_stop f) @ display_stop f
      @ (if en_tlm e then [Give Telemetry_Writer] else [])) (?p ?H1) = Inr (?p (?H5 - tlm_res e))"
    unfolding exec_append [of "decoder_stop f"] exec_append [of "scanout_stop e f @ audio_stop f"]
      exec_append [of "display_stop f"] s1 s3 s4 s5 sum.case by simp
  then show ?thesis unfolding left append_assoc .
qed


text \<open>
  The creation of the new thread is not checked: if it fails, the run ends by cancelling and joining
  a thread that is already gone.
\<close>

lemma failed_restart_cancels_twice:
  assumes "run_dash_start e = (None, f, ss)" "\<not> rst_created r" "\<not> rst_waits r"
  shows "exec (ss @ restart_steps r @ run_dash_stop e f w t) idle = Inl (Not_Held Reader_Thread)"
proof -
  obtain p where "exec ss idle = Inr p" "Reader_Thread \<in> pr_held p" "\<not> pr_lost p"
    by (rule run_dash_started [OF assms(1)]) auto
  then show ?thesis using assms(2,3) by (simp add: restart_steps_def run_dash_stop_def)
qed

text \<open>A cancelled reader on the library's stream reader leaves at least its two packets.\<close>

lemma cancelled_libav_reader:
  assumes "list_all tick_fits ts" "dash_reader ts c n k {#} = Some r"
  shows "left_by (Libav_Reader r) = {#Pkt, Pkt#} + (case lr_sess r of None \<Rightarrow> {#} | Some s \<Rightarrow> owned s)"
  using dash_reader_accounted [OF assms(1), of c n k "{#}"] assms(2) by (simp add: accounted_def Dash_Session.held_def)

text \<open>
  After a fall-back to the frame buffer the scanout and what was pinned are gone; the libraries, and
  what was imported, stay for the rest of the run and beyond it.
\<close>

definition fallen_back :: "start_env \<Rightarrow> bool" where
  "fallen_back e =
     (case (display_start e, design_b_start e) of
        ((_, fb, _), (drm, _)) \<Rightarrow> drm \<noteq> None \<and> \<not> fst (decoder_start e drm fb))"

definition main_left :: "start_env \<Rightarrow> res set" where
  "main_left e =
     (case design_b_start e of
        (drm, pinned, _, rs) \<Rightarrow>
          if fallen_back e
          then set rs - {Scanout} - (if pinned \<and> en_host_unregister e then Pinned ` {0..<ds_nbufs (the drm)} else {})
          else scanout_left e)"

definition decoder_res :: "flags \<Rightarrow> res set" where
  "decoder_res f = (if fl_decoder f then set (workers (use_drm f)) else {})"

definition input_res :: "flags \<Rightarrow> res set" where
  "input_res f = (if fl_input f then {Input_Dev} else {})"

lemma session_steps_ok:
  assumes "session_steps e = (True, ss)"
  shows "exec ss idle = Inr \<lparr>pr_held = {Mapper_Ctx, Socket}, pr_drm = False, pr_lost = False, pr_orphans = {#}\<rparr>"
proof -
  have "ss = [Take Mapper_Ctx, Take Socket]"
    using assms by (auto simp: session_steps_def Let_def split: if_splits)
  then show ?thesis by (simp add: idle_def insert_commute)
qed

lemma exec_socket_stop:
  assumes "Socket \<in> pr_held p" "input_res f \<subseteq> pr_held p"
  shows "exec ([Give Socket] @ (if fl_input f then [Give Input_Dev] else [])) p
    = Inr (p\<lparr>pr_held := pr_held p - {Socket} - input_res f\<rparr>)"
  using assms by (cases "fl_input f") (simp_all add: input_res_def in_use_def)

text \<open>The decoder stage on what the display and the scanout stage have taken.\<close>

lemma main_decoder_stage:
  assumes d: "display_start e = (disp, fb, rs1)" and b: "design_b_start e = (drm, pinned, ptrs, rs2)"
    and f: "fl_drm f = drm" "fl_pinned f = pinned" and m: "main_decoder e fb f = (f1, ds)"
    and B: "B \<inter> (gpu_kind \<union> {Decode_Thread, Present_Thread}) = {}"
  obtains G where
    "exec ds \<lparr>pr_held = B \<union> set rs2, pr_drm = (drm \<noteq> None), pr_lost = False, pr_orphans = {#}\<rparr>
       = Inr \<lparr>pr_held = B \<union> G \<union> decoder_res f1, pr_drm = use_drm f1, pr_lost = False, pr_orphans = {#}\<rparr>"
    "G \<subseteq> gpu_kind" "scanout_given e f1 \<subseteq> G" "G - scanout_given e f1 = main_left e"
    "fl_display f1 = fl_display f" "fl_decoder f1 \<or> fl_drm f1 = None"
proof -
  note t = scanout_taken [OF b f]
  obtain dec fd where c: "decoder_start e drm fb = (dec, fd)" by fastforce
  have fall: "fallen_back e = (drm \<noteq> None \<and> \<not> dec)" using d b c by (simp add: fallen_back_def)
  show thesis
  proof (cases "dec \<or> drm = None")
    case True
    then have nf: "\<not> fallen_back e" using fall by auto
    have fs: "f1 = f\<lparr>fl_decoder := dec, fl_dec := fd\<rparr>" "ds = (if dec then map Take (workers (use_drm f)) else [])"
      using m c f True by (cases dec; force simp: main_decoder_def)+
    have g: "scanout_given e f1 = scanout_given e f" using fs by (intro scanout_given_cong) simp_all
    have "exec ds \<lparr>pr_held = B \<union> set rs2, pr_drm = (drm \<noteq> None), pr_lost = False, pr_orphans = {#}\<rparr>
       = Inr \<lparr>pr_held = B \<union> set rs2 \<union> decoder_res f1, pr_drm = use_drm f1, pr_lost = False, pr_orphans = {#}\<rparr>"
      using fs f by (simp add: exec_takes decoder_res_def use_drm_def)
    moreover have "set rs2 - scanout_given e f1 = main_left e" using b nf t(3) g by (simp add: main_left_def)
    moreover have "fl_display f1 = fl_display f" "fl_decoder f1 \<or> fl_drm f1 = None" using fs f True by auto
    ultimately show thesis using t(1,2) g by (intro that [of "set rs2"]) auto
  next
    case False
    then obtain so where so: "drm = Some so" "\<not> dec" by auto
    then have fb: "fallen_back e" using fall by simp
    let ?P = "if pinned \<and> en_host_unregister e then Pinned ` {0..<ds_nbufs so} else {}"
    obtain dec2 fd2 where c2: "decoder_start e None fb = (dec2, fd2)" by fastforce
    have fs: "f1 = f\<lparr>fl_drm := None, fl_pinned := pinned \<and> \<not> en_host_unregister e, fl_decoder := dec2, fl_dec := fd2\<rparr>"
      "ds = (unpin e f so @ [Give Scanout, Drm_Mode False]) @ (if dec2 then map Take (workers False) else [])"
      using m c c2 f so by (auto simp: main_decoder_def Let_def)
    have given: "{Scanout} \<union> ?P \<subseteq> scanout_given e f" using f so by (auto simp: scanout_given_def)
    let ?p = "\<lparr>pr_held = B \<union> set rs2, pr_drm = True, pr_lost = False, pr_orphans = {#}\<rparr>"
    have no_thread: "Decode_Thread \<notin> B \<union> set rs2" "Present_Thread \<notin> B \<union> set rs2"
      using B t(1) by (auto simp: gpu_kind_def)
    have u: "exec (unpin e f so) ?p = Inr (?p\<lparr>pr_held := B \<union> set rs2 - ?P\<rparr>)"
    proof -
      have "fl_pinned f \<and> en_host_unregister e \<Longrightarrow> Pinned ` {0..<ds_nbufs so} \<subseteq> B \<union> set rs2"
        using given t(2) f by auto
      then show ?thesis using exec_unpin [of ?p f e so] no_thread(1) f(2) by simp
    qed
    have sc: "Scanout \<in> B \<union> set rs2 - ?P" using given t(2) by auto
    have undo: "exec (unpin e f so @ [Give Scanout, Drm_Mode False]) ?p
        = Inr \<lparr>pr_held = B \<union> set rs2 - ?P - {Scanout}, pr_drm = False, pr_lost = False, pr_orphans = {#}\<rparr>"
      using u sc no_thread by (simp add: in_use_def)
    have eq: "B \<union> set rs2 - ?P - {Scanout} = B \<union> (set rs2 - {Scanout} - ?P)"
      using B by (auto simp: gpu_kind_def)
    have off: "use_drm f1 = False" using fs(1) by (simp add: use_drm_def)
    have "exec ds ?p = exec (if dec2 then map Take (workers False) else []) \<lparr>pr_held = B \<union> (set rs2 - {Scanout} - ?P), pr_drm = False, pr_lost = False, pr_orphans = {#}\<rparr>"
      by (simp only: fs(2) exec_append [of "unpin e f so @ _"] undo eq sum.case)
    also have "\<dots> = Inr \<lparr>pr_held = B \<union> (set rs2 - {Scanout} - ?P) \<union> decoder_res f1, pr_drm = use_drm f1, pr_lost = False, pr_orphans = {#}\<rparr>"
    proof -
      have "decoder_res f1 = (if dec2 then set (workers False) else {})" using fs(1) by (simp add: decoder_res_def use_drm_def)
      then show ?thesis by (cases dec2) (simp_all only: exec_takes off proc.simps if_True if_False exec.simps Un_empty_right)
    qed
    finally have "exec ds ?p = Inr \<lparr>pr_held = B \<union> (set rs2 - {Scanout} - ?P) \<union> decoder_res f1, pr_drm = use_drm f1, pr_lost = False, pr_orphans = {#}\<rparr>" .
    moreover have "scanout_given e f1 = {}" using fs by (simp add: scanout_given_def)
    moreover have "set rs2 - {Scanout} - ?P = main_left e" using b fb so by (simp add: main_left_def)
    ultimately show thesis using so t(1) fs by (intro that [of "set rs2 - {Scanout} - ?P"]) auto
  qed
qed


lemma main_started:
  assumes "main_start e = (None, f, ss)"
  obtains rs1 G rs3 fb where
    "display_start e = (fl_display f, fb, rs1)" "audio_start_up e = (fl_audio f, rs3)"
    "G \<subseteq> gpu_kind" "scanout_given e f \<subseteq> G" "G - scanout_given e f = main_left e" "fl_decoder f \<or> fl_drm f = None"
    "exec ss idle = Inr \<lparr>pr_held = {Mapper_Ctx, Socket} \<union> set rs1 \<union> G \<union> decoder_res f \<union> set rs3 \<union> input_res f,
       pr_drm = use_drm f, pr_lost = False, pr_orphans = {#}\<rparr>"
proof -
  obtain disp fb rs1 where d: "display_start e = (disp, fb, rs1)" by (metis prod_cases3)
  obtain drm pinned ptrs rs2 where b: "design_b_start e = (drm, pinned, ptrs, rs2)" by (metis prod_cases4)
  obtain ok s1 where s: "session_steps e = (ok, s1)" by fastforce
  obtain audio rs3 where a: "audio_start_up e = (audio, rs3)" by fastforce
  let ?f0 = "\<lparr>fl_fb = fb, fl_display = disp, fl_drm = drm, fl_pinned = pinned, fl_dev_ptrs = ptrs, fl_dec = no_decoder,
    fl_decoder = False, fl_audio = False, fl_input = False\<rparr>"
  obtain f1 ds where m: "main_decoder e fb ?f0 = (f1, ds)" by fastforce
  have ok: "ok" using assms d b s by (auto simp: main_start_def Let_def split: if_splits prod.splits)
  let ?I = "if input_start e then [Input_Dev] else []"
  have f: "f = f1\<lparr>fl_audio := audio, fl_input := input_start e\<rparr>"
    and ss: "ss = s1 @ map Take rs1 @ map Take rs2 @ [Drm_Mode (drm \<noteq> None)] @ ds @ map Take rs3 @ map Take ?I"
    using assms d b s a m ok by (auto simp: main_start_def Let_def)
  let ?B = "{Mapper_Ctx, Socket} \<union> set rs1"
  have B: "?B \<inter> (gpu_kind \<union> {Decode_Thread, Present_Thread}) = {}"
    using display_taken(1) [OF d] by (auto simp: kind_defs)
  obtain G where G: "exec ds \<lparr>pr_held = ?B \<union> set rs2, pr_drm = (drm \<noteq> None), pr_lost = False, pr_orphans = {#}\<rparr>
       = Inr \<lparr>pr_held = ?B \<union> G \<union> decoder_res f1, pr_drm = use_drm f1, pr_lost = False, pr_orphans = {#}\<rparr>"
    "G \<subseteq> gpu_kind" "scanout_given e f1 \<subseteq> G" "G - scanout_given e f1 = main_left e"
    "fl_display f1 = disp" "fl_decoder f1 \<or> fl_drm f1 = None"
    by (rule main_decoder_stage [OF d b _ _ m B]) simp_all
  have same: "decoder_res f = decoder_res f1" "use_drm f = use_drm f1"
    by (simp_all add: f decoder_res_def use_drm_def)
  have given: "scanout_given e f = scanout_given e f1" by (rule scanout_given_cong) (simp_all add: f)
  have I: "set ?I = input_res f" by (simp add: f input_res_def)
  have s1: "exec s1 idle = Inr \<lparr>pr_held = {Mapper_Ctx, Socket}, pr_drm = False, pr_lost = False, pr_orphans = {#}\<rparr>"
    using session_steps_ok [of e s1] s ok by simp
  have "exec ss idle = Inr \<lparr>pr_held = ?B \<union> G \<union> decoder_res f \<union> set rs3 \<union> input_res f, pr_drm = use_drm f, pr_lost = False, pr_orphans = {#}\<rparr>"
    unfolding ss exec_append s1 sum.case exec_takes using G(1) by (simp add: exec_takes same I [symmetric] del: set_simps)
  moreover have "display_start e = (fl_display f, fb, rs1)" "audio_start_up e = (fl_audio f, rs3)"
    "fl_decoder f \<or> fl_drm f = None"
    using d a G(5,6) by (simp_all add: f)
  ultimately show thesis using G(2-4) unfolding given [symmetric] by (intro that)
qed

text \<open>
  C37: A complete run of the datagram client. The end closes the screen before it joins the decode
  worker: with a screen and a decoder, and without GPU scanout, the mapping goes away under the
  running worker. In every other case the run ends and leaves what did not come up completely, and,
  after a fall-back from GPU scanout, the GPU libraries.
\<close>

theorem main_stop_spec:
  assumes start: "main_start e = (None, f, ss)"
  shows "exec (ss @ main_stop e f) idle =
    (if fl_display f \<and> fl_decoder f \<and> \<not> use_drm f then Inl (In_Use Fb_Map)
     else Inr \<lparr>pr_held = display_left e \<union> main_left e \<union> audio_left e, pr_drm = use_drm f, pr_lost = False, pr_orphans = {#}\<rparr>)"
proof -
  obtain rs1 G rs3 fb where d: "display_start e = (fl_display f, fb, rs1)" and a: "audio_start_up e = (fl_audio f, rs3)"
    and G: "G \<subseteq> gpu_kind" "scanout_given e f \<subseteq> G" "G - scanout_given e f = main_left e" "fl_decoder f \<or> fl_drm f = None"
    and x: "exec ss idle = Inr \<lparr>pr_held = {Mapper_Ctx, Socket} \<union> set rs1 \<union> G \<union> decoder_res f \<union> set rs3 \<union> input_res f,
       pr_drm = use_drm f, pr_lost = False, pr_orphans = {#}\<rparr>"
    by (rule main_started [OF start])
  note kinds = display_taken [OF d] audio_taken [OF a]
  let ?p = "\<lambda>H. \<lparr>pr_held = H, pr_drm = use_drm f, pr_lost = False, pr_orphans = {#}\<rparr>"
  let ?H0 = "{Mapper_Ctx, Socket} \<union> set rs1 \<union> G \<union> decoder_res f \<union> set rs3 \<union> input_res f"
  let ?H1 = "{Mapper_Ctx} \<union> set rs1 \<union> G \<union> decoder_res f \<union> set rs3"
  let ?H2 = "{Mapper_Ctx} \<union> display_left e \<union> G \<union> decoder_res f \<union> set rs3"
  let ?H3 = "{Mapper_Ctx} \<union> display_left e \<union> G \<union> set rs3"
  have foreign: "Socket \<notin> ?H1" "Input_Dev \<notin> ?H1"
    using kinds(1,4) G(1) by (auto simp: kind_defs decoder_res_def workers_def split: if_splits)
  have s0: "exec ([Give Socket] @ (if fl_input f then [Give Input_Dev] else [])) (?p ?H0) = Inr (?p ?H1)"
  proof -
    have out: "?H0 - {Socket} - input_res f = ?H1" using foreign by (auto simp: input_res_def split: if_splits)
    have held: "Socket \<in> ?H0" "input_res f \<subseteq> ?H0" by blast+
    show ?thesis by (rule exec_socket_stop [of "?p ?H0" f, unfolded proc.simps, OF held, unfolded out])
  qed
  have dec: "Decode_Thread \<in> ?H1 \<longleftrightarrow> fl_decoder f"
    using kinds(1,4) G(1) by (auto simp: kind_defs decoder_res_def workers_def)
  have "fl_display f \<Longrightarrow> {Fb_Fd, Fb_Map, Frame_Rgb} \<subseteq> ?H1" using kinds(2) by (auto simp: kind_defs)
  moreover have "?H1 - (if fl_display f then {Fb_Fd, Fb_Map, Frame_Rgb} else {}) = ?H2"
    using kinds(3) kinds(4) G(1) by (auto simp: kind_defs decoder_res_def workers_def split: if_splits)
  ultimately have s1: "exec (display_stop f) (?p ?H1) =
      (if fl_display f \<and> fl_decoder f \<and> \<not> use_drm f then Inl (In_Use Fb_Map) else Inr (?p ?H2))"
    using exec_display_stop [of f "?p ?H1"] dec by auto
  have lf: "display_left e \<subseteq> fb_kind" using kinds(1,3) by auto
  have "?H2 - decoder_res f = ?H3"
    using kinds(4) G(1) lf by (auto simp: kind_defs decoder_res_def workers_def split: if_splits)
  moreover have "fl_decoder f \<Longrightarrow> exec (decoder_stop f) (?p ?H2) = Inr (?p (?H2 - decoder_res f))"
    using exec_decoder_stop [of "?p ?H2" f] by (auto simp: decoder_res_def)
  ultimately have s2: "exec (decoder_stop f) (?p ?H2) = Inr (?p ?H3)"
    by (cases "fl_decoder f") (simp_all add: decoder_stop_def decoder_res_def)
  have "({Mapper_Ctx} \<union> display_left e) \<inter> (gpu_kind \<union> audio_kind \<union> {Decode_Thread, Present_Thread}) = {}"
    using lf by (auto simp: kind_defs)
  then have s4: "exec (scanout_stop e f @ audio_stop f) (?p ?H3) = Inr (?p (insert Mapper_Ctx (display_left e \<union> main_left e \<union> audio_left e)))"
    using media_down [OF a G(1,2), of "{Mapper_Ctx} \<union> display_left e" "use_drm f" False] unfolding G(3) by simp
  have "Mapper_Ctx \<notin> display_left e \<union> main_left e \<union> audio_left e"
    using lf G(1,3) kinds(4,6) by (auto simp: kind_defs)
  then have s5: "exec [Give Mapper_Ctx] (?p (insert Mapper_Ctx (display_left e \<union> main_left e \<union> audio_left e)))
      = Inr (?p (display_left e \<union> main_left e \<union> audio_left e))"
    by (simp add: in_use_def)
  have "main_stop e f = ([Give Socket] @ (if fl_input f then [Give Input_Dev] else [])) @ display_stop f @ decoder_stop f
     @ (scanout_stop e f @ audio_stop f) @ [Give Mapper_Ctx]" by (simp add: main_stop_def)
  then have "exec (ss @ main_stop e f) idle
      = exec (display_stop f @ decoder_stop f @ (scanout_stop e f @ audio_stop f) @ [Give Mapper_Ctx]) (?p ?H1)"
    by (simp only: exec_append [of ss] x sum.case exec_append [of "[Give Socket] @ _"] s0)
  also have "\<dots> = (if fl_display f \<and> fl_decoder f \<and> \<not> use_drm f then Inl (In_Use Fb_Map)
     else Inr \<lparr>pr_held = display_left e \<union> main_left e \<union> audio_left e, pr_drm = use_drm f, pr_lost = False, pr_orphans = {#}\<rparr>)"
    by (simp only: exec_append [of "display_stop f"] exec_append [of "decoder_stop f"]
        exec_append [of "scanout_stop e f @ audio_stop f"] s1 s2 s4 s5 sum.case split: if_split) simp
  finally show ?thesis .
qed


section \<open>Concrete runs\<close>

definition software_only :: open_lib where
  "software_only = \<lparr>ol_find = \<lambda>n. n = software, ol_context = \<lambda>_. True, ol_open = \<lambda>_. True, ol_hwdevice = False, ol_calloc = True,
     ol_frame = True, ol_packet = True, ol_malloc = \<lambda>n. Some (replicate n 0), ol_in = \<lambda>n. Some (replicate n 0), ol_dlopen = False,
     ol_dlsym = False\<rparr>"

definition two_buffers :: vmc_drm_scanout where
  "two_buffers = zero_scanout\<lparr>ds_nbufs := 2, ds_w := 64, ds_h := 32\<rparr>"

definition plain_env :: start_env where
  "plain_env = \<lparr>en_fb_open = \<lambda>_. 5,
     en_fb_info = \<lambda>_. Some \<lparr>fi_xres = 64, fi_yres = 32, fi_yres_virtual = 32, fi_bpp = 32, fi_line_length = 256\<rparr>,
     en_fb_mmap = \<lambda>_ n. Some (replicate (unat n) 0), en_rgb_malloc = True, en_vmc_drm = None, en_cuda_lib = True,
     en_conv_syms = True, en_cuda_rt = True, en_host_register = True, en_host_unregister = True, en_memcpy2d = True,
     en_import_sym = False, en_scanout = Some two_buffers, en_register = \<lambda>i. i \<noteq> 1, en_import = \<lambda>_. False,
     en_codecs = software_only, en_tlm = True, en_forced = None,
     en_alsa = \<lparr>aa_open = \<lambda>_. True, aa_hw_alloc = False, aa_hw_settings = [], aa_hw_install = True, aa_prepare = True\<rparr>,
     en_sink_alloc = True, en_usb = None, en_alsa_env = None, en_audio_thread = True, en_reader_thread = True,
     en_mapper = True, en_resolve = True, en_udp_init = True, en_udp_socket = True, en_udp_connect = True, en_session = True,
     en_ev_open = \<lambda>_. - 1, en_ev_abs = \<lambda>_ _. None\<rparr>"

lemma plain_decoder: "fst (decoder_start plain_env None fb)"
  by (simp add: decoder_start_def plain_env_def vmc_ffmpeg_decoder_init_def software_only_def ffmpeg_open_def choose_codec_def
      open_codec_def open_buffers_def k_hw_decoders_def software_def status_defs no_decoder_def Let_def split: prod.splits)

lemma plain_display: "\<exists>fb. display_start plain_env = (True, fb, [Fb_Fd, Fb_Map, Frame_Rgb])"
  by (simp add: display_start_def plain_env_def vmc_fb_display_init_def fb_open_def status_defs no_fb_def Let_def)

lemma plain_audio: "audio_start_up plain_env = (True, [Sink, Audio_Thread])"
  by (simp add: audio_start_up_def plain_env_def vmc_alsa_sink_init_def sink_device_def status_defs)

lemma plain_scanout: "design_b_start plain_env = scanout_off []"
  by (simp add: design_b_start_def plain_env_def)

lemma plain_run_dash:
  obtains f ss where "run_dash_start plain_env = (None, f, ss)"
proof -
  obtain fb where fb: "display_start plain_env = (True, fb, [Fb_Fd, Fb_Map, Frame_Rgb])" using plain_display by blast
  obtain fd where fd: "decoder_start plain_env None fb = (True, fd)" using plain_decoder [of fb] by (metis fst_conv prod.exhaust)
  have "en_reader_thread plain_env" by (simp add: plain_env_def)
  then show thesis using that fb fd plain_audio plain_scanout
    by (simp add: run_dash_start_def scanout_off_def Let_def)
qed

text \<open>A direct reader that is restarted while it fetches its first segments.\<close>

definition quiet_restart :: restart where
  "quiet_restart = \<lparr>rst_waits = False,
     rst_thread = Direct_Reader \<lparr>dr_init_v = True, dr_init_a = False, dr_sess = None, dr_busy = {#Sock_Fd#}, dr_buffers = 0\<rparr>,
     rst_created = True, rst_shifts = True\<rparr>"


theorem main_stop_spec_witness:
  "\<exists>f ss. main_start plain_env = (None, f, ss)
     \<and> exec (ss @ main_stop plain_env f) idle = Inl (In_Use Fb_Map)"
proof -
  obtain fb where fb: "display_start plain_env = (True, fb, [Fb_Fd, Fb_Map, Frame_Rgb])" using plain_display by blast
  obtain fd where fd: "decoder_start plain_env None fb = (True, fd)" using plain_decoder [of fb] by (metis fst_conv prod.exhaust)
  have ses: "\<exists>ss. session_steps plain_env = (True, ss)" by (simp add: session_steps_def plain_env_def)
  then obtain f ss where s: "main_start plain_env = (None, f, ss)" "fl_display f" "fl_decoder f" "\<not> use_drm f"
    using fb fd plain_audio plain_scanout
    by (auto simp: main_start_def scanout_off_def main_decoder_def use_drm_def Let_def)
  then show ?thesis using main_stop_spec [OF s(1)] by auto
qed

section \<open>Fall-back\<close>

lemma no_gpu_no_decoder:
  assumes "\<not> ol_hwdevice (en_codecs e)"
  shows "\<not> fst (decoder_start e (Some so) fb)"
  using assms by (auto simp: decoder_start_def vmc_ffmpeg_decoder_init_def ffmpeg_open_def open_codec_def status_defs
      Let_def split: prod.splits option.splits if_splits)

text \<open>
  GPU scanout is up, but the GPU gives the decoder no device, while a decoder for the frame buffer
  would open: the datagram client gives the scanout back and runs on the frame buffer; the stream
  client, which has no such fall-back, ends with exit code 3 and keeps the scanout.
\<close>

theorem missing_gpu_device:
  assumes "display_start e = (disp, fb, rs)" "fst (design_b_start e) = Some so" "fst (session_steps e)"
    and "\<not> ol_hwdevice (en_codecs e)" "fst (decoder_start e None fb)"
  shows "(\<exists>f ss. main_start e = (None, f, ss) \<and> fl_decoder f \<and> \<not> use_drm f \<and> Give Scanout \<in> set ss)
    \<and> (\<exists>f ss p. run_dash_start e = (Some 3, f, ss) \<and> exec ss idle = Inr p \<and> Scanout \<in> pr_held p)"
proof
  obtain pinned ptrs rs2 where b: "design_b_start e = (Some so, pinned, ptrs, rs2)" using assms(2) by (metis fst_conv prod_cases4)
  obtain ss1 where s: "session_steps e = (True, ss1)" using assms(3) by (metis fst_conv prod.exhaust)
  obtain fd where d1: "decoder_start e (Some so) fb = (False, fd)"
    using no_gpu_no_decoder [OF assms(4), of so fb] by (metis (full_types) fst_conv prod.exhaust)
  obtain fd2 where d2: "decoder_start e None fb = (True, fd2)" using assms(5) by (metis fst_conv prod.exhaust)
  obtain audio rs3 where a: "audio_start_up e = (audio, rs3)" by fastforce
  show "\<exists>f ss. main_start e = (None, f, ss) \<and> fl_decoder f \<and> \<not> use_drm f \<and> Give Scanout \<in> set ss"
    using assms(1) b s d1 d2 a by (simp add: main_start_def main_decoder_def use_drm_def Let_def)
  have "Scanout \<in> set rs2"
    using scanout_taken(2) [OF b, of "\<lparr>fl_fb = fb, fl_display = disp, fl_drm = Some so, fl_pinned = pinned, fl_dev_ptrs = ptrs,
      fl_dec = fd, fl_decoder = False, fl_audio = False, fl_input = False\<rparr>"] by (simp add: scanout_given_def)
  then show "\<exists>f ss p. run_dash_start e = (Some 3, f, ss) \<and> exec ss idle = Inr p \<and> Scanout \<in> pr_held p"
    using assms(1) b d1 a by (simp add: run_dash_start_def exec_takes in_use_def Let_def)
qed

definition no_gpu_env :: start_env where
  "no_gpu_env = plain_env\<lparr>en_vmc_drm := Some ''1''\<rparr>"

theorem missing_gpu_device_witness:
  "(\<exists>f ss. main_start no_gpu_env = (None, f, ss) \<and> fl_decoder f \<and> \<not> use_drm f)
   \<and> (\<exists>f ss. run_dash_start no_gpu_env = (Some 3, f, ss))"
proof -
  have sel: "en_fb_open no_gpu_env = en_fb_open plain_env" "en_fb_info no_gpu_env = en_fb_info plain_env"
    "en_fb_mmap no_gpu_env = en_fb_mmap plain_env" "en_rgb_malloc no_gpu_env = en_rgb_malloc plain_env"
    "en_codecs no_gpu_env = en_codecs plain_env" "en_tlm no_gpu_env = en_tlm plain_env" "en_forced no_gpu_env = en_forced plain_env"
    by (simp_all add: no_gpu_env_def)
  have same: "display_start no_gpu_env = display_start plain_env" "session_steps no_gpu_env = session_steps plain_env"
    "decoder_start no_gpu_env None fb = decoder_start plain_env None fb" for fb
      apply (simp only: display_start_def sel)
     apply (simp add: session_steps_def no_gpu_env_def)
    apply (simp only: decoder_start_def sel)
    done
  have "fst (session_steps plain_env)" by (simp add: session_steps_def plain_env_def)
  moreover have "fst (design_b_start no_gpu_env) = Some two_buffers"
    by (simp add: design_b_start_def no_gpu_env_def plain_env_def Let_def)
  moreover have "\<not> ol_hwdevice (en_codecs no_gpu_env)" by (simp add: no_gpu_env_def plain_env_def software_only_def)
  moreover obtain fb where "display_start plain_env = (True, fb, [Fb_Fd, Fb_Map, Frame_Rgb])" using plain_display by blast
  ultimately show ?thesis
    using missing_gpu_device [of no_gpu_env True fb "[Fb_Fd, Fb_Map, Frame_Rgb]" two_buffers] plain_decoder [of fb]
    unfolding same by blast
qed


section \<open>Supervision of the reader\<close>

text \<open>The local variables of the loop of \<open>run_dash\<close>.\<close>

record watch_state =
  wa_last_stats_ms :: u64
  wa_last_pkts_seen :: u64
  wa_last_pkts_time :: u64

text \<open>What a pass reads: the monotonic clock, the packet counter, the end-of-stream flag at its two readings, its time, the wall clock.\<close>

record watch_in =
  wi_now_ms :: u64
  wi_pkts :: u64
  wi_eos :: bool
  wi_eos2 :: bool
  wi_eos_end_us :: u64
  wi_wall_us :: u64

datatype verdict = Go_On | Restart_Reader | Finish | Restart_And_Finish

definition watch_pass :: "watch_in \<Rightarrow> watch_state \<Rightarrow> verdict \<times> watch_state" where
  "watch_pass i w =
     (if wi_now_ms i - wa_last_stats_ms w < 5000 then (Go_On, w)
      else let fresh = wi_pkts i \<noteq> wa_last_pkts_seen w;
               restart = (\<not> fresh \<and> \<not> wi_eos i \<and> wi_now_ms i - wa_last_pkts_time w > 20000);
               w1 = (if fresh then w\<lparr>wa_last_pkts_seen := wi_pkts i, wa_last_pkts_time := wi_now_ms i\<rparr>
                     else if restart then w\<lparr>wa_last_pkts_time := wi_now_ms i\<rparr> else w);
               over = (wi_eos2 i \<and> wi_wall_us i \<ge> wi_eos_end_us i)
           in (if over then (if restart then Restart_And_Finish else Finish)
               else if restart then Restart_Reader else Go_On,
               if over then w1 else w1\<lparr>wa_last_stats_ms := wi_now_ms i\<rparr>))"

text \<open>The re-anchoring that follows a restart.\<close>

definition restart_resync :: "int \<Rightarrow> av_clock \<Rightarrow> av_clock \<times> shared_op list" where
  "restart_resync wall c = dash_resync 0 wall c"

text \<open>The verdicts of the passes until the loop is left.\<close>

fun watch_loop :: "watch_in list \<Rightarrow> watch_state \<Rightarrow> verdict list" where
  "watch_loop [] w = []"
| "watch_loop (i # is) w =
     (case watch_pass i w of (v, w1) \<Rightarrow> v # (if v = Finish \<or> v = Restart_And_Finish then [] else watch_loop is w1))"

lemma since:
  fixes now t :: u64
  shows "unat t \<le> unat now \<Longrightarrow> unat (now - t) = unat now - unat t"
  by (simp add: unat_sub word_le_nat_alt)

lemma since_less: "unat t \<le> unat now \<Longrightarrow> now - t < 5000 \<longleftrightarrow> unat now < unat t + 5000" for now t :: u64
  using since [of t now] by (auto simp: word_less_nat_alt)

lemma since_greater: "unat t \<le> unat now \<Longrightarrow> now - t > 20000 \<longleftrightarrow> unat now > unat t + 20000" for now t :: u64
  using since [of t now] by (auto simp: word_less_nat_alt)

text \<open>The input of a stalled stretch: the packet counter stands still, the stream is not over, time goes on.\<close>

definition stalled :: "u64 \<Rightarrow> watch_in list \<Rightarrow> bool" where
  "stalled n is \<longleftrightarrow> (\<forall>i \<in> set is. wi_pkts i = n \<and> \<not> wi_eos i \<and> \<not> wi_eos2 i) \<and> sorted (map (\<lambda>i. unat (wi_now_ms i)) is)"

lemma watch_stalled_restarts:
  assumes "stalled (wa_last_pkts_seen w) is"
    and "\<forall>i \<in> set is. unat (wa_last_stats_ms w) \<le> unat (wi_now_ms i) \<and> unat (wa_last_pkts_time w) \<le> unat (wi_now_ms i)"
    and "i \<in> set is" "unat (wi_now_ms i) > unat (wa_last_pkts_time w) + 25000"
    and "unat (wi_now_ms i) \<ge> unat (wa_last_stats_ms w) + 5000"
  shows "Restart_Reader \<in> set (watch_loop is w)"
  using assms
proof (induction "is" arbitrary: w)
  case (Cons j js)
  have j: "wi_pkts j = wa_last_pkts_seen w" "\<not> wi_eos j" "\<not> wi_eos2 j" using Cons.prems(1) by (auto simp: stalled_def)
  have le: "unat (wa_last_stats_ms w) \<le> unat (wi_now_ms j)" "unat (wa_last_pkts_time w) \<le> unat (wi_now_ms j)"
    using Cons.prems(2) by auto
  have rest: "stalled (wa_last_pkts_seen w) js" using Cons.prems(1) by (auto simp: stalled_def)
  show ?case
  proof (cases "wi_now_ms j - wa_last_stats_ms w < 5000")
    case True
    then have p: "watch_pass j w = (Go_On, w)" by (simp add: watch_pass_def)
    have "i \<noteq> j" using True Cons.prems(5) since_less [OF le(1)] by auto
    then have "i \<in> set js" using Cons.prems(3) by auto
    then show ?thesis using Cons.IH [of w] rest Cons.prems(2,4,5) p by auto
  next
    case False
    show ?thesis
    proof (cases "wi_now_ms j - wa_last_pkts_time w > 20000")
      case True
      then have "fst (watch_pass j w) = Restart_Reader" using False j by (simp add: watch_pass_def Let_def)
      then show ?thesis by (cases "watch_pass j w") auto
    next
      case late: False
      let ?w = "w\<lparr>wa_last_stats_ms := wi_now_ms j\<rparr>"
      have p: "watch_pass j w = (Go_On, ?w)" using False late j by (simp add: watch_pass_def Let_def)
      have bound: "unat (wi_now_ms j) \<le> unat (wa_last_pkts_time w) + 20000" using late since_greater [OF le(2)] by simp
      then have "i \<noteq> j" using Cons.prems(4) by auto
      then have i: "i \<in> set js" using Cons.prems(3) by auto
      have "\<forall>k \<in> set js. unat (wi_now_ms j) \<le> unat (wi_now_ms k)" using Cons.prems(1) by (auto simp: stalled_def)
      then have "Restart_Reader \<in> set (watch_loop js ?w)"
        using Cons.IH [of ?w] rest Cons.prems(2,4) i bound by auto
      then show ?thesis using p by simp
    qed
  qed
qed simp

text \<open>
  C38: The supervision of the reader thread. Soundness: a pass restarts the reader only if the stream
  is not over, the packet counter stands where it was, and more than twenty seconds have passed since it
  last moved; it ends the client only at the end of the stream, once the last content has been played.
  Liveness: if no packet arrives, a restart comes as soon as there has been a pass more than
  twenty-five seconds after the last movement of the counter (and five after the last check).
\<close>

theorem reader_supervision:
  shows "(fst (watch_pass i w) \<in> {Restart_Reader, Restart_And_Finish} \<longrightarrow>
      \<not> wi_eos i \<and> wi_pkts i = wa_last_pkts_seen w \<and> wi_now_ms i - wa_last_pkts_time w > 20000)
    \<and> (fst (watch_pass i w) \<in> {Finish, Restart_And_Finish} \<longrightarrow> wi_eos2 i \<and> wi_wall_us i \<ge> wi_eos_end_us i)
    \<and> (stalled (wa_last_pkts_seen w) js
       \<and> (\<forall>j \<in> set js. unat (wa_last_stats_ms w) \<le> unat (wi_now_ms j) \<and> unat (wa_last_pkts_time w) \<le> unat (wi_now_ms j))
       \<and> (\<exists>j \<in> set js. unat (wi_now_ms j) > unat (wa_last_pkts_time w) + 25000
            \<and> unat (wi_now_ms j) \<ge> unat (wa_last_stats_ms w) + 5000)
       \<longrightarrow> Restart_Reader \<in> set (watch_loop js w))"
  using watch_stalled_restarts by (auto simp: watch_pass_def Let_def split: if_splits)

definition silent_at :: "u64 \<Rightarrow> watch_in" where
  "silent_at t = \<lparr>wi_now_ms = t, wi_pkts = 7, wi_eos = False, wi_eos2 = False, wi_eos_end_us = 0, wi_wall_us = 0\<rparr>"

theorem reader_supervision_witness:
  "Restart_Reader \<in> set (watch_loop [silent_at 1000, silent_at 19000, silent_at 23900, silent_at 26000]
      \<lparr>wa_last_stats_ms = 0, wa_last_pkts_seen = 7, wa_last_pkts_time = 0\<rparr>)"
  using reader_supervision [of "silent_at 0" _ "[silent_at 1000, silent_at 19000, silent_at 23900, silent_at 26000]",
      of "\<lparr>wa_last_stats_ms = 0, wa_last_pkts_seen = 7, wa_last_pkts_time = 0\<rparr>"]
  by (simp add: stalled_def silent_at_def)

section \<open>The audio state at the start\<close>

text \<open>The ring buffer is set up empty on the whole storage.\<close>

lemma audio_ring_start_ok:
  "\<exists>r. audio_ring_start rb storage = (VMC_OK, Some r) \<and> rb_data r = storage \<and> rb_count r = 0
     \<and> rb_cmask r = 2097151 \<and> rb_head r = 0 \<and> rb_tail r = 0"
  by (simp add: audio_ring_start_def vmc_ringbuf_init_def is_pow2_or_zero_def VMC_AUDIO_FIFO_BYTES_def)

lemma audio_clock_reset_unanchored:
  "g_anchor_wall_us (audio_clock_reset c) = 0 \<and> \<not> audio_clock_usable (audio_clock_reset c) wall1 wall2"
  by (simp add: audio_clock_reset_def audio_clock_usable_def)

end
