(* ===== verification/Spec2Isabelle.thy ===== *)
theory Spec2Isabelle
  imports Ring_Buffer Wire_Protocol Jitter_Buffer Fragment_Assembler Input_Batch Audio_Mixer
    Session_State Udp_Transport Session_Ctx Mapper Telemetry Core_Misc
    Latency_Stats Frame_Slots Drm_Scanout
    Present_Queue Playout_Clock Video_Workers Render_Copy
    Http_Client Dash_Manifest Dash_Reader Audio_Worker
    Sim_Server Client_Loop Stream_Delivery
    Evdev_Input Fb_Display Alsa_Sink Ffmpeg_Decoder Nv12_Convert Dash_Server
    Dash_Session Client_Lifecycle
begin

text \<open>
  A verification library for the remote audio/video client: the thin client
  (\<^verbatim>\<open>apps/thinclient/main.c\<close>), the library it is built on (\<^verbatim>\<open>src/\<close>, \<^verbatim>\<open>include/vmc/\<close>) and the two
  servers of the test bench (\<^verbatim>\<open>tools/vmc_sim\<close>, \<^verbatim>\<open>tools/vmc-dash-sim\<close>) with the GPU colour converter
  (\<^verbatim>\<open>tools/cuda/nv12_conv.cu\<close>). File names below are relative to \<^verbatim>\<open>src/\<close> of the repository.

  \<^bold>\<open>The program.\<close> The client runs in one of two modes. As a datagram client (\<open>main\<close>) it asks the mapper
  for a route, drives a session over UDP, receives video chunks and PCM in datagrams, orders them
  in a jitter buffer, assembles access units, and sends batched touch events back. As a stream
  client (\<open>run_dash\<close>) a reader thread follows a live manifest over HTTP, demultiplexes segments and
  publishes access units and PCM. In both modes access units pass through a pool of frame slots
  to a decode worker, which decodes them and either copies them to the frame buffer or converts them
  on the GPU and hands scanout buffers to a present worker; an audio worker renders PCM from a
  ring buffer to the sound sink and supplies the clock the picture follows. Every part reports to
  a telemetry ring with one writer.

  \<^bold>\<open>Shared ground.\<close> \<open>Vmc_Prelude\<close> (fixed-width types, byte buffers, circular copies, truncating
  division), \<open>Little_Endian\<close> (\<^verbatim>\<open>rd16\<close> to \<^verbatim>\<open>wr32\<close>), \<open>Ascii_Text\<close> (C strings, numerals). Unsigned C
  integers are words of their width; signed time arithmetic is on \<open>int\<close> with the wrap-around written out
  (\<open>U64\<close>, \<open>I64\<close>, \<open>I32\<close>). A C buffer is a list of bytes whose length is its capacity; an access outside it
  is the value \<open>None\<close>, as are a null pointer, a double free and a division by zero where they can occur.

  \<^bold>\<open>Transport and session.\<close>
  \<^item> \<open>Wire_Protocol\<close>, \<^verbatim>\<open>src/transport/protocol.c\<close>: header codec and CRC-8. A frame decodes to
    what was encoded; a datagram is accepted exactly when it is the image of a valid header and payload;
    one wrong byte is detected.
  \<^item> \<open>Jitter_Buffer\<close>, \<^verbatim>\<open>src/transport/jitter_buffer.c\<close>: every branch of push and peek; draining yields
    the held datagrams once each in sequence order, across the wrap of the 32-bit numbers
    (locale \<open>playout_queue\<close>, interpreted as \<open>jb\<close>).
  \<^item> \<open>Fragment_Assembler\<close>, \<^verbatim>\<open>src/video/fragment.c\<close>: the assembler refines a specification by lists of
    chunks and delivers whole frames only.
  \<^item> \<open>Udp_Transport\<close> (\<^verbatim>\<open>src/transport/udp_transport.c\<close>, \<^verbatim>\<open>transport.c\<close>; locale \<open>counted_transport\<close>,
    interpreted as \<open>udp\<close>), \<open>Session_State\<close> (\<^verbatim>\<open>src/session/state.c\<close>: reachability and callbacks),
    \<open>Session_Ctx\<close> (\<^verbatim>\<open>session.c\<close>: keep-alives, link supervision), \<open>Mapper\<close> (\<^verbatim>\<open>mapper.c\<close>: discovery in at most
    \<open>max_retries + 1\<close> attempts, round trip of the route).
  \<^item> \<open>Input_Batch\<close> (\<^verbatim>\<open>src/input/batch.c\<close>) and \<open>Evdev_Input\<close> (\<^verbatim>\<open>src/input/evdev_input.c\<close>): the
    last raw values before a report become one event, for any number of contacts and any cutting of
    the reads; events become batches and come back unchanged.

  \<^bold>\<open>Media library.\<close>
  \<^item> \<open>Ring_Buffer\<close>, \<^verbatim>\<open>src/core/ringbuf.c\<close>: a byte queue (locale \<open>byte_fifo\<close>, interpreted as \<open>rb\<close>).
  \<^item> \<open>Audio_Mixer\<close> (\<^verbatim>\<open>src/audio/mixer.c\<close>, \<^verbatim>\<open>pipeline.c\<close>): the 32-bit sum is exact, then saturated.
    \<open>Alsa_Sink\<close> (\<^verbatim>\<open>src/audio/alsa_sink.c\<close>): choice of the device, downmix, recovery.
  \<^item> \<open>Ffmpeg_Decoder\<close> (\<^verbatim>\<open>src/video/ffmpeg_decoder.c\<close>): codec choice, fall-backs, decoding inside its
    buffers. \<open>Fb_Display\<close> (\<^verbatim>\<open>fb_display.c\<close>): exactly the visible pixels. \<open>Drm_Scanout\<close> (\<^verbatim>\<open>drm_scanout.c\<close>):
    a buffer is never handed out while it is shown or queued (locale \<open>scanout_pool\<close>, interpreted as \<open>drm\<close>).
  \<^item> \<open>Nv12_Convert\<close> (\<^verbatim>\<open>tools/cuda/nv12_conv.cu\<close>): the kernel over all threads in any order, and the
    asynchronous stages with their events. What the device refuses is an argument, as is the rounding of
    the colour sums (\<open>separate\<close> or contracted, \<open>fused\<close>).
  \<^item> \<open>Telemetry\<close> (\<^verbatim>\<open>src/core/telemetry.c\<close>): producers and writer as an interleaving of atomic steps;
    no line is lost or doubled. \<open>Core_Misc\<close> (\<^verbatim>\<open>error.c\<close>, \<^verbatim>\<open>logger.c\<close>, \<^verbatim>\<open>compiler.h\<close>, \<^verbatim>\<open>time.c\<close>).

  \<^bold>\<open>The client\<close>, \<^verbatim>\<open>apps/thinclient/main.c\<close>.
  \<^item> \<open>Client_Loop\<close>: arguments, session start, receive loop, video drain, input round of \<open>main\<close>.
    \<open>Stream_Delivery\<close> composes server, network, jitter buffer, assembler and slots: an access unit that
    the server sends reaches a slot byte for byte.
  \<^item> \<open>Frame_Slots\<close>, \<open>Present_Queue\<close> (locale \<open>entry_queue\<close>, interpreted as \<open>pq\<close>), \<open>Video_Workers\<close>,
    \<open>Render_Copy\<close>: slots and queue conserve frames for any number of threads; the worker's turns; the copy
    with wide stores is a plain copy when rows are shorter than one store or all start at a multiple of
    sixteen bytes, and faults otherwise.
  \<^item> \<open>Playout_Clock\<close>, \<open>Latency_Stats\<close>: deadlines and their exact distances, when the gate of the present
    worker opens, the servo, latency figures. \<open>Audio_Worker\<close>: rounds of the audio thread refine the stream.
  \<^item> \<open>Http_Client\<close>, \<open>Dash_Manifest\<close>, \<open>Dash_Reader\<close>: fetching with its time limits, chunked bodies, the
    manifest, live edge, windows, resync and rounds of \<open>dash_reader_direct\<close>.
  \<^item> \<open>Dash_Session\<close>: set-up and end of a decoding session and the reader on the media library
    (\<open>dash_reader\<close>), and the head of the direct reader's loop (\<open>direct_open\<close>). The library's
    objects, and the data packets and frames refer to, are counted on a heap; the locale \<open>fault_free\<close> states
    when a run of operations that may fault does not, interpreted on the passes of the reader (\<open>rd\<close>) and on
    the demultiplexed segments (\<open>seg\<close>). Between passes the reader holds its two packets and its session and
    nothing else; it never ends by itself, as its run flag is never cleared. Sessions from initialisation segments
    lose their input buffers and fault exactly when a segment does not open.
  \<^item> \<open>Client_Lifecycle\<close>: start, supervision and end of \<open>run_dash\<close> and \<open>main\<close> as lists of steps on the set
    of things held: what is given back, in which order, what stays behind (with the objects that
    readers cancelled at a restart or at the end leave), when the end cannot come, and when a stalled reader
    is restarted.

  \<^bold>\<open>The servers.\<close> \<open>Sim_Server\<close> (\<^verbatim>\<open>tools/vmc_sim/main.c\<close>): splitting of the encoder's stream into access
    units conserves it; chunks, pacing, mapper and media sockets. \<open>Dash_Server\<close>
    (\<^verbatim>\<open>tools/vmc-dash-sim/main.c\<close>): requests, held and growing segments, supervision of the encoder; a segment
    served in any of these ways is fetched by \<open>http_get\<close> byte for byte.

  \<^bold>\<open>How code outside the repository appears.\<close> System calls, the media libraries, the GPU runtime, the
  kernel's display interface and the clocks are arguments: functions or records of answers, or scripts of what
  successive calls return. Hypotheses on them are the documented ones, for example that a resampler gives
  at most the samples asked for. In a model with a script, \<open>None\<close> also stands for a thread that waits
  when its script ends; the theorems that claim a result prove that it is reached.

  \<^bold>\<open>Loops and fuel.\<close> Loops over data are structural; the others have measures or these bounds:
  \<open>duration_parts\<close> runs with the length of its text, since every turn consumes a character; the gate of the
  present worker makes at most its 600 turns, as in the code; the stream splitter ends because every turn
  shortens the buffer; opening a stream is tried thirty times as in the code. The capacity loop of the
  HTTP client may not end and is a partial function; that it does not end for a huge chunk is proved.

  \<^bold>\<open>Not modelled.\<close> Log output and the periodic statistics; the text of telemetry events beyond those parsed or
  measured; debug-only skew and drift of the reports (they use floating point on measured values); the
  fork and exec of encoders beyond their argument lists; creation of the servers' sockets; signal
  handlers beyond the run flag; memory ordering weaker than interleaving of atomic steps. The Python and shell
  tools, tests, documents and build files are not part of the program.
\<close>

end
